(* ===== verification/Prelude.thy ===== *)
theory Prelude
  imports Main "HOL-Library.Word" "HOL-Library.Multiset"
begin

text \<open>
  Shared vocabulary of the development: the machine integer types of the
  target (32-bit ARM, so \<open>unsigned long\<close> and \<open>ULONG\<close> are 32 bits wide), the
  theorem collections the components fill, and the generic facts on lists,
  multisets, masks and words several components need.
\<close>

unbundle bit_operations_syntax

type_synonym u8 = "8 word"
type_synonym u16 = "16 word"
type_synonym u32 = "32 word"
type_synonym u64 = "64 word"

text \<open>Facts that unfold the sequence-number macros, and facts on circular offsets.\<close>
named_theorems seq_simps
named_theorems mask_simps

section \<open>Masks on integers\<close>

lemma int_and_mask12 [mask_simps]: "(x::int) AND 0xFFF = x mod 4096"
proof -
  have "x AND mask 12 = take_bit 12 x" by (simp add: take_bit_eq_mask)
  then show ?thesis by (simp add: mask_eq_exp_minus_1 take_bit_eq_mod)
qed

lemma int_and_bit11 [mask_simps]: "((x::int) AND 0x800 \<noteq> 0) \<longleftrightarrow> 2048 \<le> x mod 4096"
proof -
  have "x AND 0x800 = (if bit x 11 then 0x800 else 0)"
  proof (rule bit_eqI)
    fix n
    have "bit (0x800::int) n \<longleftrightarrow> n = 11"
      using bit_exp_iff [of 11 n, where ?'a = int] by simp
    then show "bit (x AND 0x800) n = bit (if bit x 11 then 0x800 else 0 :: int) n"
      by (auto simp: bit_and_iff)
  qed
  moreover have "bit x 11 \<longleftrightarrow> 2048 \<le> x mod 4096"
  proof -
    have "bit x 11 \<longleftrightarrow> odd (x div 2048)" by (simp add: bit_iff_odd)
    also have "\<dots> \<longleftrightarrow> (x div 2048) mod 2 = 1" by presburger
    also have "\<dots> \<longleftrightarrow> 2048 \<le> x mod 4096"
      using zmod_zmult2_eq [of 2 x 2048] pos_mod_bound [of 2048 x] pos_mod_sign [of 2048 x]
        pos_mod_bound [of 2 "x div 2048"] pos_mod_sign [of 2 "x div 2048"] by simp arith
    finally show ?thesis .
  qed
  ultimately show ?thesis by simp
qed

section \<open>Lists\<close>

lemma sorted_wrt_takeWhile_dropWhile:
  assumes "sorted_wrt R xs"
  shows "sorted_wrt R (takeWhile P xs)" and "sorted_wrt R (dropWhile P xs)"
proof -
  have "sorted_wrt R (takeWhile P xs @ dropWhile P xs)" using assms by simp
  then show "sorted_wrt R (takeWhile P xs)" "sorted_wrt R (dropWhile P xs)"
    by (simp_all only: sorted_wrt_append)
qed

lemma mset_takeWhile_dropWhile:
  "mset (map f (takeWhile P xs)) + mset (map f (dropWhile P xs)) = mset (map f xs)"
  by (metis map_append mset_append takeWhile_dropWhile_id)

lemma nth_list_update_if:
  "i < length xs \<Longrightarrow> xs[i := x] ! j = (if i = j then x else xs ! j)"
  by simp

section \<open>Widening casts\<close>

lemma unat_ucast_16_32 [simp]: "unat (ucast (w :: u16) :: u32) = unat w"
proof -
  have "unat w < 2 ^ 32" using unsigned_less [of w, where ?'a = nat] by simp
  then show ?thesis by (simp add: unsigned_ucast_eq take_bit_nat_eq_self)
qed

lemma unat_ucast_8_32 [simp]: "unat (ucast (w :: u8) :: u32) = unat w"
proof -
  have "unat w < 2 ^ 32" using unsigned_less [of w, where ?'a = nat] by simp
  then show ?thesis by (simp add: unsigned_ucast_eq take_bit_nat_eq_self)
qed

end
