(* ===== verification/RtmpTimer.thy ===== *)
theory RtmpTimer
  imports Prelude
begin

text \<open>
  The timer objects of the wireless driver, \<open>rt3370/common/rtmp_init.c\<close>. The kernel
  timer behind an object is the flag \<open>armed\<close> (it is pending); \<open>RTMP_OS_Del_Timer\<close>
  removes it and reports success. The adapter's flags \<open>HALT_IN_PROGRESS\<close> and
  \<open>NIC_NOT_EXIST\<close> are the argument \<open>halting\<close>.
\<close>

record RALINK_TIMER_STRUCT =
  Valid :: bool
  State :: bool         \<comment> \<open>true when the timer was cancelled\<close>
  PeriodicType :: bool
  Repeat :: bool
  TimerValue :: u32
  armed :: bool

definition RTMPInitTimer :: "RALINK_TIMER_STRUCT \<Rightarrow> bool \<Rightarrow> RALINK_TIMER_STRUCT" where
  "RTMPInitTimer pTimer rep = pTimer\<lparr>Valid := True, PeriodicType := rep, State := False, armed := False\<rparr>"

definition RTMPSetTimer :: "bool \<Rightarrow> RALINK_TIMER_STRUCT \<Rightarrow> u32 \<Rightarrow> RALINK_TIMER_STRUCT" where
  "RTMPSetTimer halting pTimer Val =
    (if Valid pTimer then
       if halting then pTimer
       else (let pTimer = pTimer\<lparr>TimerValue := Val, State := False\<rparr>
             in if PeriodicType pTimer then pTimer\<lparr>Repeat := True, armed := True\<rparr>
                else pTimer\<lparr>Repeat := False, armed := True\<rparr>)
     else pTimer)"

definition RTMPCancelTimer :: "RALINK_TIMER_STRUCT \<Rightarrow> RALINK_TIMER_STRUCT" where
  "RTMPCancelTimer pTimer =
    (if Valid pTimer then
       (let pTimer = (if \<not> State pTimer then pTimer\<lparr>Repeat := False\<rparr> else pTimer);
            pTimer = pTimer\<lparr>armed := False\<rparr>
        in pTimer\<lparr>State := True\<rparr>)
     else pTimer)"

definition RTMPModTimer :: "bool \<Rightarrow> RALINK_TIMER_STRUCT \<Rightarrow> u32 \<Rightarrow> RALINK_TIMER_STRUCT" where
  "RTMPModTimer halting pTimer Val =
    (if Valid pTimer then
       (let pTimer = pTimer\<lparr>TimerValue := Val, State := False\<rparr>
        in if PeriodicType pTimer then RTMPSetTimer halting (RTMPCancelTimer pTimer) Val
           else pTimer\<lparr>armed := True\<rparr>)
     else pTimer)"

definition RTMPReleaseTimer :: "RALINK_TIMER_STRUCT \<Rightarrow> RALINK_TIMER_STRUCT" where
  "RTMPReleaseTimer pTimer =
    (if Valid pTimer then (RTMPCancelTimer pTimer)\<lparr>Valid := False\<rparr> else pTimer)"

text \<open>A timer that was never initialised is never pending.\<close>

definition timer_ok :: "RALINK_TIMER_STRUCT \<Rightarrow> bool" where
  "timer_ok t \<longleftrightarrow> (armed t \<longrightarrow> Valid t \<and> \<not> State t)"

lemma timer_ops_ok:
  "timer_ok (RTMPInitTimer t r)"
  "timer_ok t \<Longrightarrow> timer_ok (RTMPSetTimer h t v)"
  "timer_ok t \<Longrightarrow> timer_ok (RTMPModTimer h t v)"
  "timer_ok t \<Longrightarrow> timer_ok (RTMPCancelTimer t)"
  "timer_ok t \<Longrightarrow> timer_ok (RTMPReleaseTimer t)"
  by (auto simp: timer_ok_def RTMPInitTimer_def RTMPSetTimer_def RTMPModTimer_def
      RTMPCancelTimer_def RTMPReleaseTimer_def Let_def)

lemma cancel_not_armed: "timer_ok t \<Longrightarrow> \<not> armed (RTMPCancelTimer t)"
  by (auto simp: timer_ok_def RTMPCancelTimer_def Let_def)

lemma init_set_armed: "armed (RTMPSetTimer False (RTMPInitTimer t r) v)"
  by (simp add: RTMPInitTimer_def RTMPSetTimer_def Let_def)

text \<open>No timer operation leaves a kernel timer pending behind an object that is not initialised
  or is marked cancelled, and cancelling or releasing one stops it.\<close>
theorem timer_discipline:
  assumes "timer_ok t"
  shows "timer_ok (RTMPSetTimer h t v) \<and> timer_ok (RTMPModTimer h t v) \<and>
    \<not> armed (RTMPCancelTimer t) \<and> \<not> armed (RTMPReleaseTimer t) \<and> \<not> Valid (RTMPReleaseTimer t)"
  using assms cancel_not_armed [OF assms] timer_ops_ok
  by (auto simp: RTMPReleaseTimer_def timer_ok_def)

theorem timer_discipline_witness:
  "timer_ok (RTMPSetTimer False \<lparr>Valid = True, State = False, PeriodicType = False, Repeat = False,
     TimerValue = 0, armed = False\<rparr> 5)"
  using timer_discipline [of "\<lparr>Valid = True, State = False, PeriodicType = False, Repeat = False,
     TimerValue = 0, armed = False\<rparr>" False 5] by (simp add: timer_ok_def)

end
