(* ===== verification/BaReorder.thy ===== *)
theory BaReorder
  imports RtmpTimer
begin

text \<open>
  The receive side of an 802.11n Block Ack session, \<open>rt3370/common/ba_action.c\<close>:
  the per-session reordering buffer, the pool of reordering blocks, and the
  handler \<open>Indicate_AMPDU_Packet\<close> that decides for every received frame whether it
  goes up at once, waits in the buffer, or is dropped.

  A \<open>struct reordering_list\<close> is its chain of blocks, as a list, and its \<open>qlen\<close>
  field, kept separately as the code keeps it. Frames handed to the network stack
  or released are recorded, in order, in the event log of the environment. The
  code works on \<open>pAd\<close> (pool and network stack) and on the session entry it was
  given; so do the functions here.
\<close>

section \<open>Data\<close>

record reordering_mpdu =
  blk :: nat                     \<comment> \<open>the address of the block\<close>
  pPacket :: nat                 \<comment> \<open>the packet it holds\<close>
  Sequence :: int
  bAMSDU :: bool
  OpMode :: u8

record reordering_list =
  chain :: "reordering_mpdu list"
  qlen :: int

text \<open>The receive descriptor \<open>RX_BLK\<close>: what the reordering code reads of it. The
  \<open>Sequence\<close> field of the 802.11 header is 12 bits wide.\<close>

record rx_blk =
  rx_packet :: nat
  rx_Sequence :: "12 word"
  rx_OpMode :: u8
  rx_AMSDU :: bool
  rx_EAP :: bool
  DataSize :: nat

datatype ba_event =
    BA_Reorder_AMSDU_Annnounce reordering_mpdu
  | ANNOUNCE_OR_FORWARD_802_3_PACKET reordering_mpdu
  | Indicate_AMSDU_Packet rx_blk
  | Indicate_EAPOL_Packet rx_blk
  | Indicate_Legacy_Packet rx_blk
  | RELEASE_NDIS_PACKET nat bool   \<comment> \<open>the packet and whether the status is \<open>NDIS_STATUS_SUCCESS\<close>\<close>

datatype REC_BLOCKACK_STATUS =
  Recipient_NONE | Recipient_USED | Recipient_HandleRes | Recipient_Accept

record ba_rec_entry =
  rWcid :: nat
  rTID :: nat
  rBAWinSize :: u8
  LastIndSeq :: u16
  rTimeOutValue :: u16
  RECBATimer :: RALINK_TIMER_STRUCT
  LastIndSeqAtTimer :: u32
  nDropPacket :: u32
  rcvSeq :: u32
  REC_BA_Status :: REC_BLOCKACK_STATUS
  re_list :: reordering_list

text \<open>What the receive path uses of the adapter: the free list of the block pool,
  the tick rate \<open>OS_HZ\<close> of the kernel, and the events towards the stack.\<close>

record rx_env =
  freelist :: reordering_list
  OS_HZ :: u32
  events :: "ba_event list"

definition emit :: "ba_event \<Rightarrow> rx_env \<Rightarrow> rx_env" where
  "emit e pAd = pAd\<lparr>events := events pAd @ [e]\<rparr>"

section \<open>Sequence number macros and constants\<close>

definition MAXSEQ :: int where "MAXSEQ = 0xFFF"

definition RESET_RCV_SEQ :: u16 where "RESET_RCV_SEQ = 0xFFFF"

definition MAX_RX_PKT_LEN :: nat where "MAX_RX_PKT_LEN = 1520"

definition SEQ_STEPONE :: "int \<Rightarrow> int \<Rightarrow> int \<Rightarrow> bool" where
  "SEQ_STEPONE s1 s2 limit \<longleftrightarrow> s1 = ((s2 + 1) AND limit)"

definition SEQ_SMALLER :: "int \<Rightarrow> int \<Rightarrow> int \<Rightarrow> bool" where
  "SEQ_SMALLER s1 s2 limit \<longleftrightarrow> (s1 - s2) AND drop_bit 1 (limit + 1) \<noteq> 0"

definition RTMP_TIME_AFTER :: "u32 \<Rightarrow> u32 \<Rightarrow> bool" where
  "RTMP_TIME_AFTER a b \<longleftrightarrow> sint (b - a) < 0"

definition REORDERING_PACKET_TIMEOUT :: "rx_env \<Rightarrow> u32" where
  "REORDERING_PACKET_TIMEOUT pAd = (100 * OS_HZ pAd) div 1000"

definition MAX_REORDERING_PACKET_TIMEOUT :: "rx_env \<Rightarrow> u32" where
  "MAX_REORDERING_PACKET_TIMEOUT pAd = (3000 * OS_HZ pAd) div 1000"

section \<open>The blocks and their lists\<close>

definition Announce_Reordering_Packet :: "reordering_mpdu \<Rightarrow> rx_env \<Rightarrow> rx_env" where
  "Announce_Reordering_Packet mpdu pAd =
    (if bAMSDU mpdu then emit (BA_Reorder_AMSDU_Annnounce mpdu) pAd
     else emit (ANNOUNCE_OR_FORWARD_802_3_PACKET mpdu) pAd)"

text \<open>The scan of \<open>ba_reordering_mpdu_insertsorted\<close>: \<open>None\<close> is the early return for a
  frame whose sequence number is already in the list.\<close>

fun insert_scan :: "reordering_mpdu list \<Rightarrow> reordering_mpdu \<Rightarrow> reordering_mpdu list option" where
  "insert_scan [] mpdu = Some [mpdu]"
| "insert_scan (p # ps) mpdu =
    (if SEQ_SMALLER (Sequence p) (Sequence mpdu) MAXSEQ
     then map_option (\<lambda>r. p # r) (insert_scan ps mpdu)
     else if Sequence p = Sequence mpdu then None
     else Some (mpdu # p # ps))"

definition ba_reordering_mpdu_insertsorted ::
  "reordering_list \<Rightarrow> reordering_mpdu \<Rightarrow> bool \<times> reordering_list" where
  "ba_reordering_mpdu_insertsorted l mpdu =
    (case insert_scan (chain l) mpdu of
       None \<Rightarrow> (False, l)
     | Some c \<Rightarrow> (True, l\<lparr>chain := c, qlen := qlen l + 1\<rparr>))"

definition ba_enqueue :: "reordering_list \<Rightarrow> reordering_mpdu \<Rightarrow> reordering_list" where
  "ba_enqueue l mpdu_blk = l\<lparr>qlen := qlen l + 1, chain := mpdu_blk # chain l\<rparr>"

definition ba_dequeue :: "reordering_list \<Rightarrow> reordering_mpdu option \<times> reordering_list" where
  "ba_dequeue l =
    (if qlen l \<noteq> 0 then
       (let l = l\<lparr>qlen := qlen l - 1\<rparr>
        in case chain l of
             [] \<Rightarrow> (None, l)
           | mpdu_blk # rest \<Rightarrow> (Some mpdu_blk, l\<lparr>chain := rest\<rparr>))
     else (None, l))"

definition ba_reordering_mpdu_dequeue ::
  "reordering_list \<Rightarrow> reordering_mpdu option \<times> reordering_list" where
  "ba_reordering_mpdu_dequeue l = ba_dequeue l"

definition ba_reordering_mpdu_probe :: "reordering_list \<Rightarrow> reordering_mpdu option" where
  "ba_reordering_mpdu_probe l = (case chain l of [] \<Rightarrow> None | m # _ \<Rightarrow> Some m)"

definition zero_mpdu :: "nat \<Rightarrow> reordering_mpdu" where
  "zero_mpdu a = \<lparr>blk = a, pPacket = 0, Sequence = 0, bAMSDU = False, OpMode = 0\<rparr>"

definition ba_mpdu_blk_alloc :: "rx_env \<Rightarrow> reordering_mpdu option \<times> rx_env" where
  "ba_mpdu_blk_alloc pAd =
    (case ba_dequeue (freelist pAd) of
       (None, fl) \<Rightarrow> (None, pAd\<lparr>freelist := fl\<rparr>)
     | (Some b, fl) \<Rightarrow> (Some (zero_mpdu (blk b)), pAd\<lparr>freelist := fl\<rparr>))"

definition ba_mpdu_blk_free :: "reordering_mpdu \<Rightarrow> rx_env \<Rightarrow> rx_env" where
  "ba_mpdu_blk_free mpdu_blk pAd = pAd\<lparr>freelist := ba_enqueue (freelist pAd) mpdu_blk\<rparr>"

text \<open>The allocation of the pool: \<open>mem\<close> is the address of the memory obtained, or
  \<open>None\<close> when the allocation fails; \<open>sizeof(struct reordering_mpdu)\<close> is 16 here.\<close>

definition SIZEOF_MPDU :: nat where "SIZEOF_MPDU = 16"

fun init_blocks :: "nat \<Rightarrow> nat \<Rightarrow> reordering_list \<Rightarrow> reordering_list" where
  "init_blocks 0 mem fl = fl"
| "init_blocks (Suc n) mem fl = init_blocks n (mem + SIZEOF_MPDU) (ba_enqueue fl (zero_mpdu mem))"

definition ba_reordering_resource_init :: "nat option \<Rightarrow> nat \<Rightarrow> rx_env \<Rightarrow> bool \<times> rx_env" where
  "ba_reordering_resource_init mem num pAd =
    (let fl = \<lparr>chain = [], qlen = 0\<rparr>
     in case mem of
          None \<Rightarrow> (False, pAd\<lparr>freelist := fl\<rparr>)
        | Some a \<Rightarrow> (True, pAd\<lparr>freelist := init_blocks num a fl\<rparr>))"

section \<open>Indicating buffered frames\<close>

text \<open>The three loops below run over the chain. The code dereferences the block
  \<open>ba_dequeue\<close> returned; it is never null there, because \<open>qlen\<close> counts the chain
  (the invariant \<open>list_ok\<close>), and the loops here stop in that case.\<close>

function in_order_loop ::
  "reordering_list \<Rightarrow> rx_env \<Rightarrow> u16 \<Rightarrow> u16 \<Rightarrow> reordering_list \<times> rx_env \<times> u16" where
  "in_order_loop l pAd StartSeq Last =
    (case ba_reordering_mpdu_probe l of
       None \<Rightarrow> (l, pAd, Last)
     | Some p \<Rightarrow>
         if \<not> SEQ_STEPONE (Sequence p) (uint StartSeq) MAXSEQ then (l, pAd, Last)
         else (case ba_reordering_mpdu_dequeue l of
                 (None, l') \<Rightarrow> (l', pAd, Last)
               | (Some m, l') \<Rightarrow>
                   in_order_loop l' (ba_mpdu_blk_free m (Announce_Reordering_Packet m pAd))
                     (of_int (Sequence m)) (of_int (Sequence m))))"
  by pat_completeness auto
termination
  by (relation "measure (\<lambda>(l, _). length (chain l))")
    (auto simp: ba_reordering_mpdu_probe_def ba_reordering_mpdu_dequeue_def ba_dequeue_def Let_def
      split: list.splits if_splits)

definition ba_indicate_reordering_mpdus_in_order ::
  "rx_env \<Rightarrow> ba_rec_entry \<Rightarrow> u16 \<Rightarrow> rx_env \<times> ba_rec_entry \<times> u16" where
  "ba_indicate_reordering_mpdus_in_order pAd e StartSeq =
    (case in_order_loop (re_list e) pAd StartSeq RESET_RCV_SEQ of
       (l, pAd', Last) \<Rightarrow> (pAd', e\<lparr>re_list := l\<rparr>, Last))"

function le_seq_loop :: "reordering_list \<Rightarrow> rx_env \<Rightarrow> u16 \<Rightarrow> reordering_list \<times> rx_env" where
  "le_seq_loop l pAd Seq =
    (case ba_reordering_mpdu_probe l of
       None \<Rightarrow> (l, pAd)
     | Some p \<Rightarrow>
         if Sequence p = uint Seq \<or> SEQ_SMALLER (Sequence p) (uint Seq) MAXSEQ
         then (case ba_reordering_mpdu_dequeue l of
                 (None, l') \<Rightarrow> (l', pAd)
               | (Some m, l') \<Rightarrow>
                   le_seq_loop l' (ba_mpdu_blk_free m (Announce_Reordering_Packet m pAd)) Seq)
         else (l, pAd))"
  by pat_completeness auto
termination
  by (relation "measure (\<lambda>(l, _). length (chain l))")
    (auto simp: ba_reordering_mpdu_probe_def ba_reordering_mpdu_dequeue_def ba_dequeue_def Let_def
      split: list.splits if_splits)

definition ba_indicate_reordering_mpdus_le_seq ::
  "rx_env \<Rightarrow> ba_rec_entry \<Rightarrow> u16 \<Rightarrow> rx_env \<times> ba_rec_entry" where
  "ba_indicate_reordering_mpdus_le_seq pAd e Seq =
    (case le_seq_loop (re_list e) pAd Seq of (l, pAd') \<Rightarrow> (pAd', e\<lparr>re_list := l\<rparr>))"

function refresh_loop :: "ba_rec_entry \<Rightarrow> rx_env \<Rightarrow> ba_rec_entry \<times> rx_env" where
  "refresh_loop e pAd =
    (case ba_reordering_mpdu_dequeue (re_list e) of
       (None, l') \<Rightarrow> (e\<lparr>re_list := l'\<rparr>, pAd)
     | (Some m, l') \<Rightarrow>
         refresh_loop (e\<lparr>re_list := l', LastIndSeq := of_int (Sequence m)\<rparr>)
           (ba_mpdu_blk_free m (Announce_Reordering_Packet m pAd)))"
  by pat_completeness auto
termination
  by (relation "measure (\<lambda>(e, _). length (chain (re_list e)))")
    (auto simp: ba_reordering_mpdu_dequeue_def ba_dequeue_def Let_def
      split: list.splits if_splits)

definition ba_refresh_reordering_mpdus :: "rx_env \<Rightarrow> ba_rec_entry \<Rightarrow> rx_env \<times> ba_rec_entry" where
  "ba_refresh_reordering_mpdus pAd e =
    (case refresh_loop e pAd of (e', pAd') \<Rightarrow> (pAd', e'\<lparr>LastIndSeq := RESET_RCV_SEQ\<rparr>))"

text \<open>The time-out flush. The first test is a null pointer or an empty list.\<close>

definition ba_flush_reordering_timeout_mpdus ::
  "rx_env \<Rightarrow> ba_rec_entry \<Rightarrow> u32 \<Rightarrow> rx_env \<times> ba_rec_entry" where
  "ba_flush_reordering_timeout_mpdus pAd e Now32 =
    (if qlen (re_list e) \<le> 0 then (pAd, e)
     else if RTMP_TIME_AFTER Now32 (LastIndSeqAtTimer e + MAX_REORDERING_PACKET_TIMEOUT pAd div 6)
             \<and> 1 < qlen (re_list e) then
       (let (pAd, e) = ba_refresh_reordering_mpdus pAd e
        in (pAd, e\<lparr>LastIndSeqAtTimer := Now32\<rparr>))
     else if RTMP_TIME_AFTER Now32 (LastIndSeqAtTimer e + REORDERING_PACKET_TIMEOUT pAd)
             \<and> 0 < qlen (re_list e) then
       (let Sequence = (of_int ((uint (LastIndSeq e) + 1) AND MAXSEQ) :: u16);
            (pAd, e) = ba_indicate_reordering_mpdus_le_seq pAd e Sequence;
            e = e\<lparr>LastIndSeqAtTimer := Now32, LastIndSeq := Sequence\<rparr>;
            (pAd, e, Sequence) = ba_indicate_reordering_mpdus_in_order pAd e Sequence
        in (pAd, if Sequence \<noteq> RESET_RCV_SEQ then e\<lparr>LastIndSeq := Sequence\<rparr> else e))
     else (pAd, e))"

section \<open>Receiving a frame\<close>

definition INDICATE_LEGACY_OR_AMSDU :: "rx_env \<Rightarrow> rx_blk \<Rightarrow> rx_env" where
  "INDICATE_LEGACY_OR_AMSDU pAd pRxBlk =
    (if rx_AMSDU pRxBlk then emit (Indicate_AMSDU_Packet pRxBlk) pAd
     else if rx_EAP pRxBlk then emit (Indicate_EAPOL_Packet pRxBlk) pAd
     else emit (Indicate_Legacy_Packet pRxBlk) pAd)"

text \<open>The conversion of the payload to 802.3 and the statistics do not touch the
  buffer; the block keeps the packet.\<close>

definition ba_enqueue_reordering_packet ::
  "rx_env \<Rightarrow> ba_rec_entry \<Rightarrow> rx_blk \<Rightarrow> rx_env \<times> ba_rec_entry" where
  "ba_enqueue_reordering_packet pAd e pRxBlk =
    (let Seq = (ucast (rx_Sequence pRxBlk) :: u16);
         (mpdu_blk, pAd) = ba_mpdu_blk_alloc pAd
     in case (mpdu_blk, rx_EAP pRxBlk) of
          (Some b, False) \<Rightarrow>
            (let b = b\<lparr>Sequence := uint Seq, OpMode := rx_OpMode pRxBlk,
                       bAMSDU := rx_AMSDU pRxBlk, pPacket := rx_packet pRxBlk\<rparr>
             in case ba_reordering_mpdu_insertsorted (re_list e) b of
                  (False, l) \<Rightarrow>
                    (ba_mpdu_blk_free b (emit (RELEASE_NDIS_PACKET (rx_packet pRxBlk) True) pAd),
                     e\<lparr>re_list := l\<rparr>)
                | (True, l) \<Rightarrow> (pAd, e\<lparr>re_list := l\<rparr>))
        | _ \<Rightarrow>
            (let (pAd, e) = ba_indicate_reordering_mpdus_le_seq pAd e Seq;
                 e = e\<lparr>LastIndSeq := Seq\<rparr>
             in (INDICATE_LEGACY_OR_AMSDU pAd pRxBlk, e)))"

text \<open>\<open>Indicate_AMPDU_Packet\<close> from the point where the session entry is known: time-out
  flush, first frame of a session, and the five cases I to V of the code.\<close>

definition drop_frame :: "rx_env \<Rightarrow> ba_rec_entry \<Rightarrow> rx_blk \<Rightarrow> rx_env \<times> ba_rec_entry" where
  "drop_frame pAd e pRxBlk =
    (emit (RELEASE_NDIS_PACKET (rx_packet pRxBlk) False) pAd, e\<lparr>nDropPacket := nDropPacket e + 1\<rparr>)"

definition indicate_in_order ::
  "rx_env \<Rightarrow> ba_rec_entry \<Rightarrow> rx_blk \<Rightarrow> u32 \<Rightarrow> rx_env \<times> ba_rec_entry" where
  "indicate_in_order pAd e pRxBlk Now32 =
    (let e = e\<lparr>LastIndSeq := ucast (rx_Sequence pRxBlk)\<rparr>;
         pAd = INDICATE_LEGACY_OR_AMSDU pAd pRxBlk;
         (pAd, e, Last) = ba_indicate_reordering_mpdus_in_order pAd e (LastIndSeq e);
         e = (if Last \<noteq> RESET_RCV_SEQ then e\<lparr>LastIndSeq := Last\<rparr> else e)
     in (pAd, e\<lparr>LastIndSeqAtTimer := Now32\<rparr>))"

definition WinStartSeq_of :: "int \<Rightarrow> int \<Rightarrow> int" where
  "WinStartSeq_of Seq Win =
    (let TmpSeq = Seq - Win - 1;
         TmpSeq = (if TmpSeq < 0 then (MAXSEQ + 1) + TmpSeq else TmpSeq)
     in (TmpSeq + 1) AND MAXSEQ)"

definition surpass_window ::
  "rx_env \<Rightarrow> ba_rec_entry \<Rightarrow> rx_blk \<Rightarrow> u32 \<Rightarrow> rx_env \<times> ba_rec_entry" where
  "surpass_window pAd e pRxBlk Now32 =
    (let WinStartSeq = WinStartSeq_of (uint (rx_Sequence pRxBlk)) (uint (rBAWinSize e));
         (pAd, e) = ba_indicate_reordering_mpdus_le_seq pAd e (of_int WinStartSeq);
         e = e\<lparr>LastIndSeq := of_int WinStartSeq, LastIndSeqAtTimer := Now32\<rparr>;
         (pAd, e) = ba_enqueue_reordering_packet pAd e pRxBlk;
         (pAd, e, TmpSeq) = ba_indicate_reordering_mpdus_in_order pAd e (LastIndSeq e)
     in (pAd, if TmpSeq \<noteq> RESET_RCV_SEQ then e\<lparr>LastIndSeq := TmpSeq\<rparr> else e))"

definition Indicate_AMPDU_entry ::
  "rx_env \<Rightarrow> ba_rec_entry \<Rightarrow> rx_blk \<Rightarrow> u32 \<Rightarrow> rx_env \<times> ba_rec_entry" where
  "Indicate_AMPDU_entry pAd e pRxBlk Now32 =
    (let Seq = uint (rx_Sequence pRxBlk);
         e = e\<lparr>rcvSeq := ucast (rx_Sequence pRxBlk)\<rparr>;
         (pAd, e) = ba_flush_reordering_timeout_mpdus pAd e Now32;
         e = e\<lparr>LastIndSeqAtTimer := Now32\<rparr>
     in if LastIndSeq e = RESET_RCV_SEQ then
          (INDICATE_LEGACY_OR_AMSDU pAd pRxBlk,
           e\<lparr>LastIndSeq := ucast (rx_Sequence pRxBlk), LastIndSeqAtTimer := Now32\<rparr>)
        else if SEQ_STEPONE Seq (uint (LastIndSeq e)) MAXSEQ then
          indicate_in_order pAd e pRxBlk Now32
        else if Seq = uint (LastIndSeq e) then drop_frame pAd e pRxBlk
        else if SEQ_SMALLER Seq (uint (LastIndSeq e)) MAXSEQ then drop_frame pAd e pRxBlk
        else if SEQ_SMALLER Seq
                  ((uint (LastIndSeq e) + uint (rBAWinSize e) + 1) AND MAXSEQ) MAXSEQ then
          ba_enqueue_reordering_packet pAd e pRxBlk
        else surpass_window pAd e pRxBlk Now32)"

text \<open>The part of the Block Ack Request handler \<open>CntlEnqueueForRecv\<close> that works on
  the entry.\<close>

definition bar_advance :: "rx_env \<Rightarrow> ba_rec_entry \<Rightarrow> 12 word \<Rightarrow> rx_env \<times> ba_rec_entry" where
  "bar_advance pAd e StartSeq =
    (if SEQ_SMALLER (uint (LastIndSeq e)) (uint StartSeq) MAXSEQ then
       (let (pAd, e) = ba_indicate_reordering_mpdus_le_seq pAd e (ucast StartSeq)
        in (pAd, e\<lparr>LastIndSeq := (if StartSeq = 0 then of_int MAXSEQ else ucast StartSeq - 1)\<rparr>))
     else (pAd, e))"

declare in_order_loop.simps [simp del] le_seq_loop.simps [simp del] refresh_loop.simps [simp del]

section \<open>Facts on the macros\<close>

lemma MAXSEQ_val [seq_simps]: "MAXSEQ = 4095"
  by (simp add: MAXSEQ_def)

definition ofs :: "int \<Rightarrow> int \<Rightarrow> int" where
  "ofs L s = (s - L) mod 4096"

lemma ofs_range: "0 \<le> ofs L s" "ofs L s < 4096"
  by (simp_all add: ofs_def)

lemma ofs_self [simp]: "ofs L L = 0"
  by (simp add: ofs_def)

lemma SEQ_STEPONE_iff [seq_simps]: "SEQ_STEPONE s1 s2 MAXSEQ \<longleftrightarrow> s1 = (s2 + 1) mod 4096"
  using int_and_mask12 [of "s2 + 1"] by (simp add: SEQ_STEPONE_def MAXSEQ_def)

lemma SEQ_SMALLER_iff [seq_simps]: "SEQ_SMALLER s1 s2 MAXSEQ \<longleftrightarrow> 2048 \<le> (s1 - s2) mod 4096"
  using int_and_bit11 [of "s1 - s2"]
  by (simp add: SEQ_SMALLER_def MAXSEQ_def drop_bit_eq_div)

lemma SEQ_STEPONE_ofs:
  assumes "0 \<le> s" "s < 4096"
  shows "SEQ_STEPONE s L MAXSEQ \<longleftrightarrow> ofs L s = 1"
proof -
  have "s = (L + 1) mod 4096 \<longleftrightarrow> s mod 4096 = (L + 1) mod 4096"
    using assms by simp
  also have "\<dots> \<longleftrightarrow> (s - L) mod 4096 = 1 mod 4096"
    by (simp only: mod_eq_dvd_iff) (simp add: algebra_simps)
  finally show ?thesis by (simp add: SEQ_STEPONE_iff ofs_def)
qed

lemma SEQ_SMALLER_ofs: "SEQ_SMALLER s1 s2 MAXSEQ \<longleftrightarrow> 2048 \<le> ofs s2 s1"
  by (simp add: SEQ_SMALLER_iff ofs_def)

text \<open>Changing the base of an offset.\<close>

lemma ofs_rebase:
  assumes "ofs L s \<le> ofs L t"
  shows "ofs s t = ofs L t - ofs L s"
proof -
  have "(t - s) mod 4096 = ((t - L) - (s - L)) mod 4096" by simp
  also have "\<dots> = (ofs L t - ofs L s) mod 4096" by (simp add: ofs_def mod_diff_eq)
  also have "\<dots> = ofs L t - ofs L s"
    using assms ofs_range [of L t] ofs_range [of L s] by (intro mod_pos_pos_trivial) auto
  finally show ?thesis by (simp add: ofs_def)
qed

lemma ofs_rebase_neg:
  assumes "ofs L t < ofs L s"
  shows "ofs s t = ofs L t - ofs L s + 4096"
proof -
  have "(t - s) mod 4096 = ((t - L) - (s - L)) mod 4096" by simp
  also have "\<dots> = (ofs L t - ofs L s) mod 4096" by (simp add: ofs_def mod_diff_eq)
  also have "\<dots> = (ofs L t - ofs L s + 4096) mod 4096" by simp
  also have "\<dots> = ofs L t - ofs L s + 4096"
    using assms ofs_range [of L t] ofs_range [of L s] by (intro mod_pos_pos_trivial) auto
  finally show ?thesis by (simp add: ofs_def)
qed

lemma ofs_inj:
  assumes "ofs L s = ofs L t" "0 \<le> s" "s < 4096" "0 \<le> t" "t < 4096"
  shows "s = t"
proof -
  have "t mod 4096 = s mod 4096"
    using ofs_rebase [of L s t] assms(1) by (auto simp add: ofs_def mod_eq_dvd_iff mod_0_imp_dvd dvd_diff_commute)
  then show ?thesis using assms by simp
qed

lemma SEQ_SMALLER_base:
  assumes "ofs L a < 2048" "ofs L b \<le> 2048"
  shows "SEQ_SMALLER a b MAXSEQ \<longleftrightarrow> ofs L a < ofs L b"
proof (cases "ofs L a < ofs L b")
  case True
  then show ?thesis
    using ofs_rebase_neg [OF True] assms ofs_range [of L a] by (simp add: SEQ_SMALLER_ofs)
next
  case False
  then have le: "ofs L b \<le> ofs L a" by simp
  show ?thesis using ofs_rebase [OF le] assms ofs_range [of L b] False
    by (simp add: SEQ_SMALLER_ofs)
qed


section \<open>The loops, on a list whose length field is right\<close>

definition list_ok :: "reordering_list \<Rightarrow> bool" where
  "list_ok l \<longleftrightarrow> qlen l = int (length (chain l))"

definition mk_list :: "reordering_mpdu list \<Rightarrow> reordering_list" where
  "mk_list ms = \<lparr>chain = ms, qlen = int (length ms)\<rparr>"

lemma list_okD: "list_ok l \<Longrightarrow> l = mk_list (chain l)"
  by (simp add: list_ok_def mk_list_def)

lemma list_ok_mk_list [simp]: "list_ok (mk_list ms)" "chain (mk_list ms) = ms"
  "qlen (mk_list ms) = int (length ms)"
  by (simp_all add: list_ok_def mk_list_def)

lemma dequeue_mk_list [simp]:
  "ba_dequeue (mk_list []) = (None, mk_list [])"
  "ba_dequeue (mk_list (m # ms)) = (Some m, mk_list ms)"
  by (simp_all add: ba_dequeue_def mk_list_def)

lemma enqueue_mk_list [simp]: "ba_enqueue (mk_list ms) m = mk_list (m # ms)"
  by (simp add: ba_enqueue_def mk_list_def)

lemma probe_mk_list [simp]:
  "ba_reordering_mpdu_probe (mk_list []) = None"
  "ba_reordering_mpdu_probe (mk_list (m # ms)) = Some m"
  by (simp_all add: ba_reordering_mpdu_probe_def mk_list_def)

definition ann_event :: "reordering_mpdu \<Rightarrow> ba_event" where
  "ann_event m = (if bAMSDU m then BA_Reorder_AMSDU_Annnounce m
                  else ANNOUNCE_OR_FORWARD_802_3_PACKET m)"

definition pool_push :: "reordering_mpdu list \<Rightarrow> reordering_list \<Rightarrow> reordering_list" where
  "pool_push ms fl = fl\<lparr>chain := rev ms @ chain fl, qlen := qlen fl + int (length ms)\<rparr>"

text \<open>Handing up a list of blocks: the events in their order, the blocks back in the pool.\<close>

definition announce_all :: "reordering_mpdu list \<Rightarrow> rx_env \<Rightarrow> rx_env" where
  "announce_all ms pAd =
    pAd\<lparr>events := events pAd @ map ann_event ms, freelist := pool_push ms (freelist pAd)\<rparr>"

lemma announce_all_Nil [simp]: "announce_all [] pAd = pAd"
  by (simp add: announce_all_def pool_push_def)

lemma announce_free:
  "announce_all ms (ba_mpdu_blk_free m (Announce_Reordering_Packet m pAd)) = announce_all (m # ms) pAd"
  by (simp add: announce_all_def pool_push_def ba_mpdu_blk_free_def Announce_Reordering_Packet_def
      emit_def ba_enqueue_def ann_event_def)

lemma announce_all_sel [simp]:
  "events (announce_all ms pAd) = events pAd @ map ann_event ms"
  "OS_HZ (announce_all ms pAd) = OS_HZ pAd"
  "freelist (announce_all ms pAd) = pool_push ms (freelist pAd)"
  by (simp_all add: announce_all_def)

fun in_order_prefix :: "int \<Rightarrow> reordering_mpdu list \<Rightarrow> reordering_mpdu list" where
  "in_order_prefix s [] = []"
| "in_order_prefix s (m # ms) =
    (if SEQ_STEPONE (Sequence m) s MAXSEQ then m # in_order_prefix (Sequence m) ms else [])"

fun in_order_rest :: "int \<Rightarrow> reordering_mpdu list \<Rightarrow> reordering_mpdu list" where
  "in_order_rest s [] = []"
| "in_order_rest s (m # ms) =
    (if SEQ_STEPONE (Sequence m) s MAXSEQ then in_order_rest (Sequence m) ms else m # ms)"

lemma in_order_split: "in_order_prefix s ms @ in_order_rest s ms = ms"
  by (induction s ms rule: in_order_prefix.induct) auto

definition seq16 :: "int \<Rightarrow> u16" where "seq16 s = of_int s"

lemma uint_seq16: "0 \<le> s \<Longrightarrow> s < 4096 \<Longrightarrow> uint (of_int s :: u16) = s"
  by (simp add: uint_word_of_int_eq take_bit_int_eq_self)

lemma STEPONE_range: "SEQ_STEPONE s L MAXSEQ \<Longrightarrow> 0 \<le> s \<and> s < 4096"
  by (simp add: SEQ_STEPONE_iff)

lemma in_order_loop_mk_list:
  "in_order_loop (mk_list ms) pAd S L =
    (mk_list (in_order_rest (uint S) ms), announce_all (in_order_prefix (uint S) ms) pAd,
     if in_order_prefix (uint S) ms = [] then L
     else of_int (Sequence (last (in_order_prefix (uint S) ms))))"
proof (induction ms arbitrary: pAd S L)
  case Nil
  then show ?case by (simp add: in_order_loop.simps)
next
  case (Cons m ms)
  show ?case
  proof (cases "SEQ_STEPONE (Sequence m) (uint S) MAXSEQ")
    case True
    then have "uint (of_int (Sequence m) :: u16) = Sequence m"
      using STEPONE_range uint_seq16 by blast
    with True show ?thesis
      by (subst in_order_loop.simps)
        (auto simp: ba_reordering_mpdu_dequeue_def Cons.IH announce_free)
  next
    case False
    then show ?thesis by (simp add: in_order_loop.simps)
  qed
qed

definition le_pred :: "int \<Rightarrow> reordering_mpdu \<Rightarrow> bool" where
  "le_pred S m \<longleftrightarrow> Sequence m = S \<or> SEQ_SMALLER (Sequence m) S MAXSEQ"

lemma le_seq_loop_mk_list:
  "le_seq_loop (mk_list ms) pAd S =
    (mk_list (dropWhile (le_pred (uint S)) ms), announce_all (takeWhile (le_pred (uint S)) ms) pAd)"
proof (induction ms arbitrary: pAd)
  case Nil
  then show ?case by (simp add: le_seq_loop.simps)
next
  case (Cons m ms)
  show ?case
    by (subst le_seq_loop.simps)
      (simp add: ba_reordering_mpdu_dequeue_def Cons.IH announce_free flip: le_pred_def)
qed

lemma refresh_loop_mk_list:
  "\<exists>s. refresh_loop (e\<lparr>re_list := mk_list ms\<rparr>) pAd =
     (e\<lparr>re_list := mk_list [], LastIndSeq := s\<rparr>, announce_all ms pAd)"
proof (induction ms arbitrary: pAd e)
  case Nil
  then show ?case
    by (intro exI [of _ "LastIndSeq e"])
      (simp add: refresh_loop.simps ba_reordering_mpdu_dequeue_def)
next
  case (Cons m ms)
  obtain s where "refresh_loop ((e\<lparr>LastIndSeq := of_int (Sequence m)\<rparr>)\<lparr>re_list := mk_list ms\<rparr>)
      (ba_mpdu_blk_free m (Announce_Reordering_Packet m pAd)) =
     (e\<lparr>re_list := mk_list [], LastIndSeq := s\<rparr>, announce_all (m # ms) pAd)"
    using Cons.IH [of "e\<lparr>LastIndSeq := of_int (Sequence m)\<rparr>"
        "ba_mpdu_blk_free m (Announce_Reordering_Packet m pAd)"]
    by (auto simp: announce_free)
  moreover have "refresh_loop (e\<lparr>re_list := mk_list (m # ms)\<rparr>) pAd =
      refresh_loop ((e\<lparr>LastIndSeq := of_int (Sequence m)\<rparr>)\<lparr>re_list := mk_list ms\<rparr>)
        (ba_mpdu_blk_free m (Announce_Reordering_Packet m pAd))"
    by (subst refresh_loop.simps)
      (simp add: ba_reordering_mpdu_dequeue_def, rule arg_cong2 [where f = refresh_loop], simp_all)
  ultimately show ?case by auto
qed

text \<open>The three operations on an entry, in this form.\<close>

lemma indicate_in_order_eq:
  assumes "list_ok (re_list e)"
  shows "ba_indicate_reordering_mpdus_in_order pAd e S =
    (announce_all (in_order_prefix (uint S) (chain (re_list e))) pAd,
     e\<lparr>re_list := mk_list (in_order_rest (uint S) (chain (re_list e)))\<rparr>,
     if in_order_prefix (uint S) (chain (re_list e)) = [] then RESET_RCV_SEQ
     else of_int (Sequence (last (in_order_prefix (uint S) (chain (re_list e))))))"
  by (subst ba_indicate_reordering_mpdus_in_order_def, subst list_okD [OF assms])
    (simp add: in_order_loop_mk_list)

lemma indicate_le_seq_eq:
  assumes "list_ok (re_list e)"
  shows "ba_indicate_reordering_mpdus_le_seq pAd e S =
    (announce_all (takeWhile (le_pred (uint S)) (chain (re_list e))) pAd,
     e\<lparr>re_list := mk_list (dropWhile (le_pred (uint S)) (chain (re_list e)))\<rparr>)"
  by (subst ba_indicate_reordering_mpdus_le_seq_def, subst list_okD [OF assms])
    (simp add: le_seq_loop_mk_list)

lemma refresh_eq:
  assumes "list_ok (re_list e)"
  shows "ba_refresh_reordering_mpdus pAd e =
    (announce_all (chain (re_list e)) pAd, e\<lparr>re_list := mk_list [], LastIndSeq := RESET_RCV_SEQ\<rparr>)"
proof -
  obtain s where "refresh_loop (e\<lparr>re_list := mk_list (chain (re_list e))\<rparr>) pAd =
     (e\<lparr>re_list := mk_list [], LastIndSeq := s\<rparr>, announce_all (chain (re_list e)) pAd)"
    using refresh_loop_mk_list by blast
  moreover have "e\<lparr>re_list := mk_list (chain (re_list e))\<rparr> = e"
    using list_okD [OF assms] by (simp flip: list_okD [OF assms])
  ultimately show ?thesis by (simp add: ba_refresh_reordering_mpdus_def)
qed



end
