(* ===== verification/BaWindow.thy ===== *)
theory BaWindow
  imports BaReorder
begin

text \<open>
  The window of a Block Ack session: the invariant of the reordering buffer
  relative to the last sequence number indicated, and, for every operation of
  \<open>ba_action.c\<close> that touches it, what it delivers and how far it moves the window.
\<close>

section \<open>The buffer of a session\<close>

text \<open>With base \<open>L\<close>, the last sequence number indicated, a buffer is well formed when
  the offsets of its frames from \<open>L\<close> increase strictly and lie in \<open>1..W\<close>.\<close>

definition seq_range :: "reordering_mpdu list \<Rightarrow> bool" where
  "seq_range ms \<longleftrightarrow> (\<forall>m\<in>set ms. 0 \<le> Sequence m \<and> Sequence m < 4096)"

definition buf_ok :: "int \<Rightarrow> int \<Rightarrow> reordering_mpdu list \<Rightarrow> bool" where
  "buf_ok L W ms \<longleftrightarrow>
    sorted_wrt (\<lambda>m m'. ofs L (Sequence m) < ofs L (Sequence m')) ms \<and> seq_range ms \<and>
    (\<forall>m\<in>set ms. 1 \<le> ofs L (Sequence m) \<and> ofs L (Sequence m) \<le> W)"

definition rec_ok :: "ba_rec_entry \<Rightarrow> bool" where
  "rec_ok e \<longleftrightarrow> list_ok (re_list e) \<and>
    (if LastIndSeq e = RESET_RCV_SEQ then chain (re_list e) = []
     else uint (LastIndSeq e) < 4096
       \<and> buf_ok (uint (LastIndSeq e)) (uint (rBAWinSize e)) (chain (re_list e)))"

lemma buf_ok_Nil [simp]: "buf_ok L W []"
  by (simp add: buf_ok_def seq_range_def)

lemma buf_ok_mono: "buf_ok L W ms \<Longrightarrow> W \<le> W' \<Longrightarrow> buf_ok L W' ms"
  by (fastforce simp: buf_ok_def)

text \<open>Dropping the frames up to offset \<open>\<sigma>\<close> and moving the base there.\<close>

lemma takeWhile_sorted_bound:
  assumes "sorted_wrt (\<lambda>x y. f x < f y) xs"
  shows "x \<in> set (dropWhile (\<lambda>x. f x \<le> (b::int)) xs) \<Longrightarrow> b < f x"
  using assms by (induction xs) (auto split: if_splits)

lemma buf_ok_rebase:
  assumes ok: "buf_ok L W ms" and gt: "\<forall>m\<in>set ms. ofs L S < ofs L (Sequence m)"
  shows "buf_ok S (W - ofs L S) ms"
proof -
  have eq: "ofs S (Sequence m) = ofs L (Sequence m) - ofs L S" if "m \<in> set ms" for m
    using gt that by (intro ofs_rebase) auto
  have "sorted_wrt (\<lambda>m m'. ofs S (Sequence m) < ofs S (Sequence m')) ms"
    using ok unfolding buf_ok_def
    by (elim conjE) (rule sorted_wrt_mono_rel [rotated], assumption, simp add: eq)
  moreover have "1 \<le> ofs S (Sequence m) \<and> ofs S (Sequence m) \<le> W - ofs L S" if "m \<in> set ms" for m
    using ok gt that by (force simp: eq buf_ok_def)
  ultimately show ?thesis using ok by (simp add: buf_ok_def)
qed

lemma le_pred_ofs:
  assumes "buf_ok L W ms" "W < 2048" "ofs L S \<le> 2048" "0 \<le> S" "S < 4096" "m \<in> set ms"
  shows "le_pred S m \<longleftrightarrow> ofs L (Sequence m) \<le> ofs L S"
proof -
  have m: "0 \<le> Sequence m" "Sequence m < 4096" "ofs L (Sequence m) < 2048"
    using assms by (force simp: buf_ok_def seq_range_def)+
  then have "SEQ_SMALLER (Sequence m) S MAXSEQ \<longleftrightarrow> ofs L (Sequence m) < ofs L S"
    using assms by (intro SEQ_SMALLER_base) auto
  moreover have "Sequence m = S \<longleftrightarrow> ofs L (Sequence m) = ofs L S"
    using m assms ofs_inj by blast
  ultimately show ?thesis by (auto simp: le_pred_def)
qed

lemma buf_ok_dropWhile:
  assumes "buf_ok L W ms"
  shows "buf_ok L W (dropWhile P ms)"
  using assms sorted_wrt_takeWhile_dropWhile(2) set_dropWhileD
  by (fastforce simp: buf_ok_def seq_range_def)

lemma le_seq_buf:
  assumes ok: "buf_ok L W ms" and W: "W < 2048" and S: "ofs L S \<le> 2048" "0 \<le> S" "S < 4096"
  shows "buf_ok S (W - ofs L S) (dropWhile (le_pred S) ms)"
    and "\<forall>m\<in>set (dropWhile (le_pred S) ms). ofs L S < ofs L (Sequence m)"
    and "\<forall>m\<in>set (takeWhile (le_pred S) ms). ofs L (Sequence m) \<le> ofs L S"
proof -
  let ?f = "\<lambda>m. ofs L (Sequence m)"
  have P: "le_pred S m \<longleftrightarrow> ?f m \<le> ofs L S" if "m \<in> set ms" for m
    using le_pred_ofs [OF ok W S that] .
  have dw: "dropWhile (le_pred S) ms = dropWhile (\<lambda>m. ?f m \<le> ofs L S) ms"
    by (rule dropWhile_cong) (auto simp: P)
  have s: "sorted_wrt (\<lambda>m m'. ?f m < ?f m') ms" using ok by (simp add: buf_ok_def)
  show gt: "\<forall>m\<in>set (dropWhile (le_pred S) ms). ofs L S < ofs L (Sequence m)"
    using takeWhile_sorted_bound [OF s] by (auto simp: dw)
  show "buf_ok S (W - ofs L S) (dropWhile (le_pred S) ms)"
    by (rule buf_ok_rebase [OF buf_ok_dropWhile [OF ok] gt])
  show "\<forall>m\<in>set (takeWhile (le_pred S) ms). ofs L (Sequence m) \<le> ofs L S"
    using P set_takeWhileD by fastforce
qed

text \<open>The run of consecutive frames at the head.\<close>

lemma in_order_buf:
  assumes "buf_ok L W ms" "0 \<le> L" "L < 4096" "W < 4096"
  defines "pre \<equiv> in_order_prefix L ms"
  defines "L' \<equiv> (if pre = [] then L else Sequence (last pre))"
  shows "buf_ok L' (W - ofs L L') (in_order_rest L ms) \<and> 0 \<le> L' \<and> L' < 4096
    \<and> map (\<lambda>m. ofs L (Sequence m)) pre = [1..int (length pre)] \<and> ofs L L' = int (length pre)"
  using assms(1-4) unfolding pre_def L'_def
proof (induction ms arbitrary: L W)
  case Nil
  then show ?case by simp
next
  case (Cons m ms)
  show ?case
  proof (cases "SEQ_STEPONE (Sequence m) L MAXSEQ")
    case False
    with Cons.prems show ?thesis by simp
  next
    case True
    then have r: "0 \<le> Sequence m" "Sequence m < 4096" by (auto dest: STEPONE_range)
    then have one: "ofs L (Sequence m) = 1" using True SEQ_STEPONE_ofs by blast
    have gt: "\<forall>m'\<in>set ms. ofs L (Sequence m) < ofs L (Sequence m')" and ok: "buf_ok L W ms"
      using Cons.prems by (auto simp: buf_ok_def seq_range_def)
    have ok': "buf_ok (Sequence m) (W - 1) ms"
      using buf_ok_rebase [OF ok gt] one by simp
    let ?pre = "in_order_prefix (Sequence m) ms"
    let ?L = "if ?pre = [] then Sequence m else Sequence (last ?pre)"
    have IH: "buf_ok ?L (W - 1 - ofs (Sequence m) ?L) (in_order_rest (Sequence m) ms)"
      "0 \<le> ?L" "?L < 4096"
      "map (\<lambda>x. ofs (Sequence m) (Sequence x)) ?pre = [1..int (length ?pre)]"
      "ofs (Sequence m) ?L = int (length ?pre)"
      using Cons.IH [OF ok'] r Cons.prems by auto
    have sub: "set ?pre \<subseteq> set ms" by (metis in_order_split set_append Un_upper1)
    have shift: "ofs L (Sequence x) = ofs (Sequence m) (Sequence x) + 1" if "x \<in> set ?pre" for x
      using ofs_rebase [of L "Sequence m" "Sequence x"] gt sub that one by fastforce
    have "map (\<lambda>x. ofs L (Sequence x)) ?pre = map (\<lambda>k. k + 1) [1..int (length ?pre)]"
      unfolding IH(4) [symmetric] using shift by simp
    also have "\<dots> = [2..int (length ?pre) + 1]"
      by (rule nth_equalityI) (auto simp: nth_upto)
    finally have m2: "map (\<lambda>x. ofs L (Sequence x)) ?pre = [2..int (length ?pre) + 1]" .
    have L1: "ofs L ?L = int (length ?pre) + 1"
      using IH(5) shift one by (cases "?pre = []") auto
    have "map (\<lambda>x. ofs L (Sequence x)) (m # ?pre) = [1..int (length ?pre) + 1]"
      using m2 one by (simp add: upto_rec1)
    then show ?thesis using True IH L1 by (auto simp: add.commute diff_diff_eq)
  qed
qed

lemma insert_scan_spec:
  assumes ok: "buf_ok L W ms" and W: "W < 2048"
    and b: "0 \<le> Sequence b" "Sequence b < 4096" "1 \<le> ofs L (Sequence b)" "ofs L (Sequence b) \<le> W"
  shows "case insert_scan ms b of
      None \<Rightarrow> \<exists>m\<in>set ms. Sequence m = Sequence b
    | Some c \<Rightarrow> buf_ok L W c \<and> mset c = add_mset b (mset ms)
        \<and> (\<forall>m\<in>set ms. Sequence m \<noteq> Sequence b)"
  using ok
proof (induction ms)
  case Nil
  then show ?case using b by (auto simp: buf_ok_def seq_range_def)
next
  case (Cons m ms)
  then have ok: "buf_ok L W ms" by (auto simp: buf_ok_def seq_range_def)
  have m: "0 \<le> Sequence m" "Sequence m < 4096" "1 \<le> ofs L (Sequence m)" "ofs L (Sequence m) \<le> W"
    and gt: "\<forall>m'\<in>set ms. ofs L (Sequence m) < ofs L (Sequence m')"
    using Cons.prems by (auto simp: buf_ok_def seq_range_def)
  have small: "SEQ_SMALLER (Sequence m) (Sequence b) MAXSEQ \<longleftrightarrow> ofs L (Sequence m) < ofs L (Sequence b)"
    using m b W by (intro SEQ_SMALLER_base) auto
  have eq: "Sequence m = Sequence b \<longleftrightarrow> ofs L (Sequence m) = ofs L (Sequence b)"
    using m b by (auto intro: ofs_inj [of L])
  consider "ofs L (Sequence m) < ofs L (Sequence b)" | "Sequence m = Sequence b"
    | "ofs L (Sequence b) < ofs L (Sequence m)" using eq by linarith
  then show ?case
  proof cases
    case 1
    show ?thesis
    proof (cases "insert_scan ms b")
      case None
      then show ?thesis using Cons.IH [OF ok] 1 small by simp
    next
      case (Some c)
      then have c: "buf_ok L W c" "mset c = add_mset b (mset ms)"
        "\<forall>m\<in>set ms. Sequence m \<noteq> Sequence b" using Cons.IH [OF ok] by auto
      then have "set c = insert b (set ms)" by (metis set_mset_mset set_mset_add_mset_insert)
      then have "buf_ok L W (m # c)" using c(1) m gt 1 by (auto simp: buf_ok_def seq_range_def)
      then show ?thesis using Some c small 1 eq by auto
    qed
  next
    case 2
    then show ?thesis using small by simp
  next
    case 3
    then have "buf_ok L W (b # m # ms)"
      using Cons.prems b gt by (auto simp: buf_ok_def seq_range_def)
    moreover have "ofs L (Sequence b) < ofs L (Sequence m')" if "m' \<in> set (m # ms)" for m'
      using that 3 gt by auto
    then have "\<forall>m'\<in>set (m # ms). Sequence m' \<noteq> Sequence b" by (metis less_irrefl)
    moreover have "insert_scan (m # ms) b = Some (b # m # ms)" using 3 small eq by simp
    ultimately show ?thesis by simp
  qed
qed

section \<open>What reaches the stack\<close>

fun up_seq :: "ba_event \<Rightarrow> int option" where
  "up_seq (BA_Reorder_AMSDU_Annnounce m) = Some (Sequence m)"
| "up_seq (ANNOUNCE_OR_FORWARD_802_3_PACKET m) = Some (Sequence m)"
| "up_seq (Indicate_AMSDU_Packet r) = Some (uint (rx_Sequence r))"
| "up_seq (Indicate_EAPOL_Packet r) = Some (uint (rx_Sequence r))"
| "up_seq (Indicate_Legacy_Packet r) = Some (uint (rx_Sequence r))"
| "up_seq (RELEASE_NDIS_PACKET _ _) = None"

definition up_seqs :: "ba_event list \<Rightarrow> int list" where
  "up_seqs es = List.map_filter up_seq es"

lemma up_seqs_simps [simp]:
  "up_seqs [] = []" "up_seqs (es @ es') = up_seqs es @ up_seqs es'"
  "up_seqs (RELEASE_NDIS_PACKET p b # es) = up_seqs es"
  by (simp_all add: up_seqs_def List.map_filter_def)

lemma up_seqs_ann [simp]: "up_seqs (map ann_event ms) = map Sequence ms"
  by (induction ms) (auto simp: up_seqs_def List.map_filter_def ann_event_def)

text \<open>With base \<open>L\<close> the events deliver frames in the order \<open>R\<close> of their offsets, all
  after \<open>L\<close> and none beyond the new base \<open>L'\<close>.\<close>

definition delivers :: "(int \<Rightarrow> int \<Rightarrow> bool) \<Rightarrow> int \<Rightarrow> ba_event list \<Rightarrow> int \<Rightarrow> bool" where
  "delivers R L es L' \<longleftrightarrow> sorted_wrt R (map (ofs L) (up_seqs es)) \<and>
    (\<forall>s\<in>set (up_seqs es). 1 \<le> ofs L s \<and> ofs L s \<le> ofs L L')"

lemma delivers_Nil [simp]: "delivers R L [] L'"
  by (simp add: delivers_def)

lemma delivers_release [simp]: "delivers R L [RELEASE_NDIS_PACKET p b] L'"
  by (simp add: delivers_def)

lemma delivers_weaken: "delivers (<) L es L' \<Longrightarrow> delivers (\<le>) L es L'"
  unfolding delivers_def by (auto intro: sorted_wrt_mono_rel [rotated])

lemma ofs_add:
  assumes "ofs L M + ofs M s < 4096"
  shows "ofs L s = ofs L M + ofs M s"
proof -
  have "(s - L) mod 4096 = ((M - L) + (s - M)) mod 4096" by simp
  also have "\<dots> = (ofs L M + ofs M s) mod 4096" by (simp add: ofs_def mod_add_eq)
  also have "\<dots> = ofs L M + ofs M s"
    using assms ofs_range [of L M] ofs_range [of M s] by (intro mod_pos_pos_trivial) auto
  finally show ?thesis by (simp add: ofs_def)
qed

lemma delivers_append:
  assumes 1: "delivers R L es M" and 2: "delivers R M es' L'"
    and sum: "ofs L M + ofs M L' < 4096" and R: "\<And>x y. x < y \<Longrightarrow> R x y" "R = (<) \<or> R = (\<le>)"
  shows "delivers R L (es @ es') L'" and "ofs L L' = ofs L M + ofs M L'"
proof -
  show LL: "ofs L L' = ofs L M + ofs M L'" by (rule ofs_add [OF sum])
  have eq: "ofs L s = ofs L M + ofs M s" if "s \<in> set (up_seqs es')" for s
    using that 2 sum by (intro ofs_add) (force simp: delivers_def)
  have "map (ofs L) (up_seqs es') = map (\<lambda>x. ofs L M + x) (map (ofs M) (up_seqs es'))"
    using eq by simp
  moreover have "sorted_wrt R (map (ofs M) (up_seqs es'))" using 2 by (simp add: delivers_def)
  ultimately have s2: "sorted_wrt R (map (ofs L) (up_seqs es'))"
    using R(2) by (simp only: sorted_wrt_map) auto
  show "delivers R L (es @ es') L'"
    using 1 2 s2 R(1) LL eq ofs_range [of M L'] ofs_range [of L M]
    by (fastforce simp: delivers_def sorted_wrt_append)
qed

lemma ann_delivers:
  assumes "sorted_wrt (\<lambda>m m'. ofs L (Sequence m) < ofs L (Sequence m')) ms"
    and "\<forall>m\<in>set ms. 1 \<le> ofs L (Sequence m) \<and> ofs L (Sequence m) \<le> ofs L L'"
  shows "delivers (<) L (map ann_event ms) L'"
  using assms by (auto simp: delivers_def sorted_wrt_map)

lemma le_seq_delivers:
  assumes "buf_ok L W ms" "W < 2048" "ofs L S \<le> 2048" "0 \<le> S" "S < 4096"
  shows "delivers (<) L (map ann_event (takeWhile (le_pred S) ms)) S"
  using assms(1) le_seq_buf(3) [OF assms] sorted_wrt_takeWhile_dropWhile(1) set_takeWhileD
  by (intro ann_delivers) (fastforce simp: buf_ok_def)+

lemma in_order_delivers:
  assumes "buf_ok L W ms" "0 \<le> L" "L < 4096" "W < 4096"
  defines "pre \<equiv> in_order_prefix L ms"
  shows "delivers (<) L (map ann_event pre) (if pre = [] then L else Sequence (last pre))"
proof (rule ann_delivers)
  have map: "map (\<lambda>m. ofs L (Sequence m)) pre = [1..int (length pre)]"
    and len: "ofs L (if pre = [] then L else Sequence (last pre)) = int (length pre)"
    using in_order_buf [OF assms(1-4)] unfolding pre_def by auto
  show "sorted_wrt (\<lambda>m m'. ofs L (Sequence m) < ofs L (Sequence m')) pre"
    using map by (metis sorted_wrt_map sorted_wrt_upto)
  show "\<forall>m\<in>set pre. 1 \<le> ofs L (Sequence m) \<and>
      ofs L (Sequence m) \<le> ofs L (if pre = [] then L else Sequence (last pre))"
    using map len by (metis (no_types, lifting) atLeastAtMost_iff image_eqI list.set_map set_upto)
qed

abbreviation base :: "ba_rec_entry \<Rightarrow> int" where
  "base e \<equiv> uint (LastIndSeq e)"

abbreviation win :: "ba_rec_entry \<Rightarrow> int" where
  "win e \<equiv> uint (rBAWinSize e)"

lemma win_bounds: "0 \<le> win e" "win e \<le> 255"
  using uint_lt2p [of "rBAWinSize e"] by simp_all

lemma RESET_neq: "uint (x::u16) < 4096 \<Longrightarrow> x \<noteq> RESET_RCV_SEQ"
  by (auto simp: RESET_RCV_SEQ_def)

lemma rec_ok_upd [simp]:
  "rec_ok (e\<lparr>LastIndSeqAtTimer := t\<rparr>) = rec_ok e"
  "rec_ok (e\<lparr>nDropPacket := n\<rparr>) = rec_ok e"
  "rec_ok (e\<lparr>rcvSeq := r\<rparr>) = rec_ok e"
  by (simp_all add: rec_ok_def)

lemma rec_okD:
  assumes "rec_ok e" "LastIndSeq e \<noteq> RESET_RCV_SEQ"
  shows "list_ok (re_list e)" "base e < 4096" "0 \<le> base e"
    and "buf_ok (base e) (win e) (chain (re_list e))"
  using assms by (simp_all add: rec_ok_def)

text \<open>Between two frames no frame that is next in order waits in the buffer.\<close>

definition rec_inv :: "ba_rec_entry \<Rightarrow> bool" where
  "rec_inv e \<longleftrightarrow> rec_ok e \<and> (\<forall>m\<in>set (chain (re_list e)). ofs (base e) (Sequence m) \<noteq> 1)"

lemma rec_inv_upd [simp]:
  "rec_inv (e\<lparr>LastIndSeqAtTimer := t\<rparr>) = rec_inv e"
  "rec_inv (e\<lparr>nDropPacket := n\<rparr>) = rec_inv e"
  "rec_inv (e\<lparr>rcvSeq := r\<rparr>) = rec_inv e"
  by (simp_all add: rec_inv_def)

lemma in_order_rest_head:
  assumes "buf_ok L W ms" "0 \<le> L" "L < 4096" "W < 4096"
  defines "pre \<equiv> in_order_prefix L ms"
  defines "L' \<equiv> (if pre = [] then L else Sequence (last pre))"
  shows "\<forall>m\<in>set (in_order_rest L ms). ofs L' (Sequence m) \<noteq> 1"
proof -
  have ok: "buf_ok L' (W - ofs L L') (in_order_rest L ms)"
    using in_order_buf [OF assms(1-4)] unfolding pre_def L'_def by blast
  have hd: "in_order_rest L ms = m # ms' \<Longrightarrow> \<not> SEQ_STEPONE (Sequence m) L' MAXSEQ" for m ms'
    unfolding pre_def L'_def
    by (induction L ms rule: in_order_prefix.induct) (auto split: if_splits)
  show ?thesis
  proof (cases "in_order_rest L ms")
    case (Cons m ms')
    then have "ofs L' (Sequence m) \<noteq> 1"
      using hd [OF Cons] ok SEQ_STEPONE_ofs by (auto simp: buf_ok_def seq_range_def)
    then show ?thesis using ok Cons by (force simp: buf_ok_def)
  qed simp
qed

text \<open>One step of the receive path: the entry stays well formed and its window size
  unchanged, and the base moves by at most \<open>D\<close>, past everything delivered.\<close>

definition step_ok ::
  "(int \<Rightarrow> int \<Rightarrow> bool) \<Rightarrow> int \<Rightarrow> rx_env \<Rightarrow> ba_rec_entry \<Rightarrow> rx_env \<Rightarrow> ba_rec_entry \<Rightarrow> bool" where
  "step_ok R D pAd e pAd' e' \<longleftrightarrow>
    rec_ok e' \<and> base e' < 4096 \<and> rBAWinSize e' = rBAWinSize e \<and>
    (\<exists>es. events pAd' = events pAd @ es \<and> delivers R (base e) es (base e')
        \<and> ofs (base e) (base e') \<le> D)"

lemma step_okD: "step_ok R D pAd e pAd' e' \<Longrightarrow> rec_ok e' \<and> LastIndSeq e' \<noteq> RESET_RCV_SEQ"
  by (auto simp: step_ok_def dest: RESET_neq)

lemma step_ok_fields [simp]:
  "step_ok R D pAd e pAd' (e'\<lparr>LastIndSeqAtTimer := t\<rparr>) = step_ok R D pAd e pAd' e'"
  "step_ok R D pAd e pAd' (e'\<lparr>nDropPacket := n\<rparr>) = step_ok R D pAd e pAd' e'"
  "step_ok R D pAd (e\<lparr>rcvSeq := r\<rparr>) pAd' e' = step_ok R D pAd e pAd' e'"
  "step_ok R D pAd (e\<lparr>LastIndSeqAtTimer := t\<rparr>) pAd' e' = step_ok R D pAd e pAd' e'"
  by (simp_all add: step_ok_def)

lemma step_ok_trans:
  assumes 1: "step_ok R D pAd e pAd1 e1" and 2: "step_ok R D' pAd1 e1 pAd2 e2"
    and "D + D' < 4096" "R = (<) \<or> R = (\<le>)"
  shows "step_ok R (D + D') pAd e pAd2 e2"
proof -
  obtain es es' where es: "events pAd1 = events pAd @ es" "delivers R (base e) es (base e1)"
      "ofs (base e) (base e1) \<le> D"
    and es': "events pAd2 = events pAd1 @ es'" "delivers R (base e1) es' (base e2)"
      "ofs (base e1) (base e2) \<le> D'"
    using 1 2 by (auto simp: step_ok_def)
  have R: "x < y \<Longrightarrow> R x y" for x y :: int using assms(4) by auto
  have "delivers R (base e) (es @ es') (base e2)"
    "ofs (base e) (base e2) = ofs (base e) (base e1) + ofs (base e1) (base e2)"
    using delivers_append [OF es(2) es'(2) _ R assms(4)] es(3) es'(3) assms(3) by auto
  then show ?thesis using 1 2 es es' by (auto simp: step_ok_def)
qed

lemma step_ok_weaken:
  "step_ok (<) D pAd e pAd' e' \<Longrightarrow> D \<le> D' \<Longrightarrow> step_ok (\<le>) D' pAd e pAd' e'"
  "step_ok R D pAd e pAd' e' \<Longrightarrow> D \<le> D' \<Longrightarrow> step_ok R D' pAd e pAd' e'"
  by (force simp: step_ok_def dest: delivers_weaken)+

lemma le_seq_step:
  assumes ok: "rec_ok e" "LastIndSeq e \<noteq> RESET_RCV_SEQ"
    and S: "uint S < 4096" "ofs (base e) (uint S) \<le> 2048"
    and eq: "ba_indicate_reordering_mpdus_le_seq pAd e S = (pAd1, e1)"
  shows "step_ok (<) (ofs (base e) (uint S)) pAd e pAd1 (e1\<lparr>LastIndSeq := S\<rparr>)"
    and "buf_ok (uint S) (win e - ofs (base e) (uint S)) (chain (re_list e1))"
proof -
  note d = rec_okD [OF ok]
  have W: "win e < 2048" using win_bounds [of e] by simp
  have b: "buf_ok (uint S) (win e - ofs (base e) (uint S))
      (dropWhile (le_pred (uint S)) (chain (re_list e)))"
    using le_seq_buf(1) [OF d(4) W S(2) _ S(1)] by simp
  have r: "pAd1 = announce_all (takeWhile (le_pred (uint S)) (chain (re_list e))) pAd"
    "e1 = e\<lparr>re_list := mk_list (dropWhile (le_pred (uint S)) (chain (re_list e)))\<rparr>"
    using eq by (simp_all add: indicate_le_seq_eq [OF d(1)])
  show "buf_ok (uint S) (win e - ofs (base e) (uint S)) (chain (re_list e1))"
    using b by (simp add: r)
  have "buf_ok (uint S) (win e) (dropWhile (le_pred (uint S)) (chain (re_list e)))"
    by (rule buf_ok_mono [OF b]) (simp add: ofs_range)
  then show "step_ok (<) (ofs (base e) (uint S)) pAd e pAd1 (e1\<lparr>LastIndSeq := S\<rparr>)"
    using S le_seq_delivers [OF d(4) W S(2) _ S(1)] RESET_neq [OF S(1)]
    by (simp add: step_ok_def rec_ok_def r)
qed

lemma in_order_step:
  assumes ok: "rec_ok e" "LastIndSeq e \<noteq> RESET_RCV_SEQ"
    and eq: "ba_indicate_reordering_mpdus_in_order pAd e (LastIndSeq e) = (pAd1, e1, Last)"
  shows "step_ok (<) (win e) pAd e pAd1
      (if Last \<noteq> RESET_RCV_SEQ then e1\<lparr>LastIndSeq := Last\<rparr> else e1) \<and>
    rec_inv (if Last \<noteq> RESET_RCV_SEQ then e1\<lparr>LastIndSeq := Last\<rparr> else e1)"
proof -
  note d = rec_okD [OF ok]
  let ?ms = "chain (re_list e)"
  let ?pre = "in_order_prefix (base e) ?ms"
  let ?L = "if ?pre = [] then base e else Sequence (last ?pre)"
  have W: "win e < 4096" "win e \<le> 255" using win_bounds [of e] by simp_all
  note io = in_order_buf [OF d(4,3,2) W(1)]
  have r: "pAd1 = announce_all ?pre pAd" "e1 = e\<lparr>re_list := mk_list (in_order_rest (base e) ?ms)\<rparr>"
    "Last = (if ?pre = [] then RESET_RCV_SEQ else of_int (Sequence (last ?pre)))"
    using eq by (simp_all add: indicate_in_order_eq [OF d(1)])
  define e' where "e' = (if Last \<noteq> RESET_RCV_SEQ then e1\<lparr>LastIndSeq := Last\<rparr> else e1)"
  have L: "?pre \<noteq> [] \<Longrightarrow> uint (of_int (Sequence (last ?pre)) :: u16) = Sequence (last ?pre)"
    using io uint_seq16 [of ?L] by simp
  have base: "base e' = ?L"
  proof (cases "?pre = []")
    case False
    then have "Last \<noteq> RESET_RCV_SEQ" using L io by (intro RESET_neq) (simp add: r)
    then show ?thesis using False L by (simp add: e'_def r(3))
  qed (simp add: e'_def r)
  have e': "re_list e' = mk_list (in_order_rest (base e) ?ms)" "rBAWinSize e' = rBAWinSize e"
    by (simp_all add: e'_def r)
  have len: "int (length ?pre) \<le> win e"
  proof (cases "?pre = []")
    case True
    then show ?thesis using win_bounds [of e] by simp
  next
    case False
    then have "last ?pre \<in> set ?ms" by (metis in_order_split Un_iff last_in_set set_append)
    then have "ofs (base e) (Sequence (last ?pre)) \<le> win e" using d(4) by (simp add: buf_ok_def)
    then show ?thesis using io False by simp
  qed
  have "buf_ok ?L (win e) (in_order_rest (base e) ?ms)"
    by (rule buf_ok_mono [OF conjunct1 [OF io]]) (simp add: ofs_range)
  moreover have "LastIndSeq e' \<noteq> RESET_RCV_SEQ" "base e' < 4096"
    using io by (auto simp: base intro!: RESET_neq)
  ultimately have "rec_ok e'" by (simp add: rec_ok_def e' base)
  moreover from this have "rec_inv e'"
    using in_order_rest_head [OF d(4,3,2) W(1)] by (simp add: rec_inv_def base e')
  ultimately show ?thesis
    unfolding e'_def [symmetric]
    using in_order_delivers [OF d(4,3,2) W(1)] io len e' \<open>base e' < 4096\<close>
    by (auto simp: step_ok_def base r(1))
qed

definition ind_event :: "rx_blk \<Rightarrow> ba_event" where
  "ind_event r = (if rx_AMSDU r then Indicate_AMSDU_Packet r
    else if rx_EAP r then Indicate_EAPOL_Packet r else Indicate_Legacy_Packet r)"

lemma INDICATE_eq: "INDICATE_LEGACY_OR_AMSDU pAd r = emit (ind_event r) pAd"
  by (simp add: INDICATE_LEGACY_OR_AMSDU_def ind_event_def)

lemma up_seqs_ind [simp]: "up_seqs [ind_event r] = [uint (rx_Sequence r)]"
  by (simp add: ind_event_def up_seqs_def List.map_filter_def)

lemma emit_sel [simp]:
  "events (emit v pAd) = events pAd @ [v]" "freelist (emit v pAd) = freelist pAd"
  "OS_HZ (emit v pAd) = OS_HZ pAd"
  by (simp_all add: emit_def)

lemma seq12: "uint (s :: 12 word) < 4096" "0 \<le> uint s"
  "uint (ucast s :: u16) = uint s"
  using uint_lt2p [of s] by (simp_all add: uint_up_ucast is_up_def source_size_def target_size_def)

lemma alloc_events [simp]: "ba_mpdu_blk_alloc pAd = (b, pAd') \<Longrightarrow> events pAd' = events pAd"
  by (auto simp: ba_mpdu_blk_alloc_def split: prod.splits option.splits)

lemma free_events [simp]: "events (ba_mpdu_blk_free b pAd) = events pAd"
  by (simp add: ba_mpdu_blk_free_def)

text \<open>A frame can be buffered when the pool has a block and the frame is not EAPOL.\<close>

definition bufferable :: "rx_env \<Rightarrow> rx_blk \<Rightarrow> bool" where
  "bufferable pAd r \<longleftrightarrow> fst (ba_mpdu_blk_alloc pAd) \<noteq> None \<and> \<not> rx_EAP r"

definition filled :: "rx_blk \<Rightarrow> reordering_mpdu \<Rightarrow> reordering_mpdu" where
  "filled r b = b\<lparr>Sequence := uint (rx_Sequence r), OpMode := rx_OpMode r,
                  bAMSDU := rx_AMSDU r, pPacket := rx_packet r\<rparr>"

lemma enqueue_bufferable:
  assumes "bufferable pAd r"
  obtains b pAd1 where "ba_mpdu_blk_alloc pAd = (Some b, pAd1)"
    and "ba_enqueue_reordering_packet pAd e r =
      (case ba_reordering_mpdu_insertsorted (re_list e) (filled r b) of
         (False, l) \<Rightarrow>
           (ba_mpdu_blk_free (filled r b) (emit (RELEASE_NDIS_PACKET (rx_packet r) True) pAd1),
            e\<lparr>re_list := l\<rparr>)
       | (True, l) \<Rightarrow> (pAd1, e\<lparr>re_list := l\<rparr>))"
proof (cases "ba_mpdu_blk_alloc pAd")
  case (Pair b pAd1)
  with assms obtain b' where "b = Some b'" "rx_EAP r = False" by (auto simp: bufferable_def)
  note b' = this
  have f: "b'\<lparr>Sequence := uint (ucast (rx_Sequence r) :: u16), OpMode := rx_OpMode r,
      bAMSDU := rx_AMSDU r, pPacket := rx_packet r\<rparr> = filled r b'"
    by (simp add: filled_def seq12)
  show ?thesis
    by (rule that [of b' pAd1])
      (simp_all only: ba_enqueue_reordering_packet_def Pair b' Let_def case_prod_conv option.case bool.case f)
qed

lemma enqueue_not_bufferable:
  assumes "\<not> bufferable pAd r"
  shows "ba_enqueue_reordering_packet pAd e r =
    (let (pAd, e) = ba_indicate_reordering_mpdus_le_seq (snd (ba_mpdu_blk_alloc pAd)) e
                      (ucast (rx_Sequence r))
     in (INDICATE_LEGACY_OR_AMSDU pAd r, e\<lparr>LastIndSeq := ucast (rx_Sequence r)\<rparr>))"
  using assms
  by (cases "ba_mpdu_blk_alloc pAd")
    (auto simp: ba_enqueue_reordering_packet_def bufferable_def Let_def split: option.splits bool.splits)

text \<open>Inserting keeps the buffer well formed.\<close>

lemma insertsorted_spec:
  assumes ok: "rec_ok e" "LastIndSeq e \<noteq> RESET_RCV_SEQ"
    and d: "1 \<le> ofs (base e) (Sequence b)" "ofs (base e) (Sequence b) \<le> win e"
    and r: "0 \<le> Sequence b" "Sequence b < 4096"
    and eq: "ba_reordering_mpdu_insertsorted (re_list e) b = (ins, l)"
  shows "rec_ok (e\<lparr>re_list := l\<rparr>)"
    and "ins \<longleftrightarrow> (\<forall>m\<in>set (chain (re_list e)). Sequence m \<noteq> Sequence b)"
    and "mset (chain l) = (if ins then add_mset b (mset (chain (re_list e))) else mset (chain (re_list e)))"
    and "\<not> ins \<Longrightarrow> l = re_list e"
proof -
  note k = rec_okD [OF ok]
  have "win e < 2048" using win_bounds [of e] by simp
  note sp = insert_scan_spec [OF k(4) this r d]
  have lo: "qlen (re_list e) = int (length (chain (re_list e)))" using k(1) by (simp add: list_ok_def)
  show "rec_ok (e\<lparr>re_list := l\<rparr>)"
    using sp eq lo ok
    by (auto simp: ba_reordering_mpdu_insertsorted_def rec_ok_def list_ok_def
        split: option.splits dest: arg_cong [where f = size])
  show "ins \<longleftrightarrow> (\<forall>m\<in>set (chain (re_list e)). Sequence m \<noteq> Sequence b)"
    "mset (chain l) = (if ins then add_mset b (mset (chain (re_list e))) else mset (chain (re_list e)))"
    "\<not> ins \<Longrightarrow> l = re_list e"
    using sp eq by (auto simp: ba_reordering_mpdu_insertsorted_def split: option.splits)
qed

lemma enqueue_step_good:
  assumes ok: "rec_ok e" "LastIndSeq e \<noteq> RESET_RCV_SEQ" and good: "bufferable pAd r"
    and d: "1 \<le> ofs (base e) (uint (rx_Sequence r))" "ofs (base e) (uint (rx_Sequence r)) \<le> win e"
    and eq: "ba_enqueue_reordering_packet pAd e r = (pAd', e')"
  shows "step_ok (<) 0 pAd e pAd' e'"
    and "LastIndSeq e' = LastIndSeq e"
    and "Sequence ` set (chain (re_list e')) \<subseteq>
      insert (uint (rx_Sequence r)) (Sequence ` set (chain (re_list e)))"
proof -
  obtain b pAd1 where b: "ba_mpdu_blk_alloc pAd = (Some b, pAd1)"
    and enq: "ba_enqueue_reordering_packet pAd e r =
      (case ba_reordering_mpdu_insertsorted (re_list e) (filled r b) of
         (False, l) \<Rightarrow>
           (ba_mpdu_blk_free (filled r b) (emit (RELEASE_NDIS_PACKET (rx_packet r) True) pAd1),
            e\<lparr>re_list := l\<rparr>)
       | (True, l) \<Rightarrow> (pAd1, e\<lparr>re_list := l\<rparr>))"
    by (rule enqueue_bufferable [OF good])
  obtain ins l where l: "ba_reordering_mpdu_insertsorted (re_list e) (filled r b) = (ins, l)"
    by (cases "ba_reordering_mpdu_insertsorted (re_list e) (filled r b)")
  have fr: "Sequence (filled r b) = uint (rx_Sequence r)" by (simp add: filled_def)
  note sp = insertsorted_spec [OF ok, of "filled r b" ins l, unfolded fr, OF d seq12(2,1) l]
  have e': "e' = e\<lparr>re_list := l\<rparr>" using eq enq l by (cases ins) auto
  have "\<exists>es. events pAd' = events pAd @ es \<and> up_seqs es = []"
    using eq enq l alloc_events [OF b] by (cases ins) auto
  then show "step_ok (<) 0 pAd e pAd' e'"
    using sp(1) rec_okD [OF ok] by (auto simp: step_ok_def e' delivers_def)
  show "LastIndSeq e' = LastIndSeq e" by (simp add: e')
  have "set (chain l) \<subseteq> insert (filled r b) (set (chain (re_list e)))"
    using sp(3) by (metis insert_iff set_mset_add_mset_insert set_mset_mset subsetI)
  then show "Sequence ` set (chain (re_list e')) \<subseteq>
      insert (uint (rx_Sequence r)) (Sequence ` set (chain (re_list e)))"
    using fr by (auto simp: e')
qed

text \<open>Without a block, or for an EAPOL frame, everything up to the frame goes up.\<close>

lemma enqueue_step_bad:
  assumes ok: "rec_ok e" "LastIndSeq e \<noteq> RESET_RCV_SEQ" and bad: "\<not> bufferable pAd r"
    and d: "1 \<le> ofs (base e) (uint (rx_Sequence r))" "ofs (base e) (uint (rx_Sequence r)) \<le> 2048"
    and eq: "ba_enqueue_reordering_packet pAd e r = (pAd', e')"
  shows "step_ok (\<le>) (ofs (base e) (uint (rx_Sequence r))) pAd e pAd' e'"
    and "\<forall>m\<in>set (chain (re_list e)). Sequence m \<noteq> uint (rx_Sequence r) \<Longrightarrow>
      step_ok (<) (ofs (base e) (uint (rx_Sequence r))) pAd e pAd' e'"
proof -
  let ?s = "ucast (rx_Sequence r) :: u16"
  note k = rec_okD [OF ok]
  define pAd0 where "pAd0 = snd (ba_mpdu_blk_alloc pAd)"
  have ev0: "events pAd0 = events pAd"
    using alloc_events [of pAd] by (cases "ba_mpdu_blk_alloc pAd") (simp add: pAd0_def)
  obtain pAd1 e1 where le: "ba_indicate_reordering_mpdus_le_seq pAd0 e ?s = (pAd1, e1)"
    by (cases "ba_indicate_reordering_mpdus_le_seq pAd0 e ?s")
  have res: "pAd' = emit (ind_event r) pAd1" "e' = e1\<lparr>LastIndSeq := ?s\<rparr>"
    using eq le by (simp_all add: enqueue_not_bufferable [OF bad] INDICATE_eq flip: pAd0_def)
  have st: "step_ok (<) (ofs (base e) (uint ?s)) pAd0 e pAd1 e'"
    using le_seq_step(1) [OF ok _ _ le] d seq12 by (simp add: res)
  then obtain es where es: "events pAd1 = events pAd @ es" "delivers (<) (base e) es (uint ?s)"
    by (auto simp: step_ok_def res ev0)
  have ev: "events pAd' = events pAd @ (es @ [ind_event r])" by (simp add: res es(1))
  have "delivers (\<le>) (base e) (es @ [ind_event r]) (base e')"
    using delivers_weaken [OF es(2)] d seq12
    by (auto simp: delivers_def res sorted_wrt_append)
  then show "step_ok (\<le>) (ofs (base e) (uint (rx_Sequence r))) pAd e pAd' e'"
    using st ev seq12 by (auto simp: step_ok_def res)
  assume nodup: "\<forall>m\<in>set (chain (re_list e)). Sequence m \<noteq> uint (rx_Sequence r)"
  have tw: "up_seqs es = map Sequence (takeWhile (le_pred (uint ?s)) (chain (re_list e)))"
    using le es(1) ev0 by (auto simp: indicate_le_seq_eq [OF k(1)])
  have "x \<noteq> uint (rx_Sequence r) \<and> 0 \<le> x \<and> x < 4096" if "x \<in> set (up_seqs es)" for x
    using that nodup k(4) set_takeWhileD by (fastforce simp: tw buf_ok_def seq_range_def)
  then have "ofs (base e) x < ofs (base e) (uint (rx_Sequence r))" if "x \<in> set (up_seqs es)" for x
    using that es(2) seq12 ofs_inj [of "base e" x "uint (rx_Sequence r)"]
    by (force simp: delivers_def)
  then have "delivers (<) (base e) (es @ [ind_event r]) (base e')"
    using es(2) d seq12 by (force simp: delivers_def res sorted_wrt_append)
  then show "step_ok (<) (ofs (base e) (uint (rx_Sequence r))) pAd e pAd' e'"
    using st ev seq12 by (auto simp: step_ok_def res)
qed

section \<open>The handlers\<close>

definition flush_all :: "rx_env \<Rightarrow> ba_rec_entry \<Rightarrow> u32 \<Rightarrow> bool" where
  "flush_all pAd e Now32 \<longleftrightarrow>
    RTMP_TIME_AFTER Now32 (LastIndSeqAtTimer e + MAX_REORDERING_PACKET_TIMEOUT pAd div 6)
    \<and> 1 < qlen (re_list e)"

lemma flush_refresh:
  assumes "rec_ok e" "flush_all pAd e Now32"
  shows "ba_flush_reordering_timeout_mpdus pAd e Now32 =
    (announce_all (chain (re_list e)) pAd,
     e\<lparr>re_list := mk_list [], LastIndSeq := RESET_RCV_SEQ, LastIndSeqAtTimer := Now32\<rparr>)"
  using assms refresh_eq [of e pAd]
  by (auto simp: ba_flush_reordering_timeout_mpdus_def flush_all_def rec_ok_def Let_def)

lemma step_ok_refl:
  "rec_ok e \<Longrightarrow> LastIndSeq e \<noteq> RESET_RCV_SEQ \<Longrightarrow> 0 \<le> D \<Longrightarrow> step_ok R D pAd e pAd e"
  by (auto simp: step_ok_def rec_ok_def)

lemma flush_step:
  assumes inv: "rec_inv e" "LastIndSeq e \<noteq> RESET_RCV_SEQ" and no: "\<not> flush_all pAd e Now32"
    and eq: "ba_flush_reordering_timeout_mpdus pAd e Now32 = (pAd', e')"
  shows "step_ok (<) (1 + win e) pAd e pAd' e' \<and> rec_inv e'"
proof -
  have ok: "rec_ok e" using inv by (simp add: rec_inv_def)
  note k = rec_okD [OF ok inv(2)]
  define S where "S = (of_int ((uint (LastIndSeq e) + 1) AND MAXSEQ) :: u16)"
  have uS: "uint S = (base e + 1) mod 4096"
    using uint_seq16 [of "(base e + 1) mod 4096"] int_and_mask12 [of "base e + 1"]
    by (simp add: S_def MAXSEQ_def)
  then have oS: "ofs (base e) (uint S) = 1" using SEQ_STEPONE_ofs [of "uint S" "base e"]
    by (simp add: SEQ_STEPONE_iff)
  show ?thesis
  proof (cases "qlen (re_list e) \<le> 0 \<or>
      \<not> RTMP_TIME_AFTER Now32 (LastIndSeqAtTimer e + REORDERING_PACKET_TIMEOUT pAd)")
    case True
    then have "pAd' = pAd" "e' = e"
      using eq no by (auto simp: ba_flush_reordering_timeout_mpdus_def flush_all_def split: if_splits)
    then show ?thesis using step_ok_refl [OF ok inv(2)] win_bounds [of e] inv(1) by simp
  next
    case False
    obtain pAd1 e1 where le: "ba_indicate_reordering_mpdus_le_seq pAd e S = (pAd1, e1)"
      by (cases "ba_indicate_reordering_mpdus_le_seq pAd e S")
    define e2 where "e2 = e1\<lparr>LastIndSeqAtTimer := Now32, LastIndSeq := S\<rparr>"
    have st1: "step_ok (<) 1 pAd e pAd1 (e1\<lparr>LastIndSeq := S\<rparr>)"
      using le_seq_step(1) [OF ok inv(2) _ _ le] oS uS by simp
    have "e2 = (e1\<lparr>LastIndSeq := S\<rparr>)\<lparr>LastIndSeqAtTimer := Now32\<rparr>" by (simp add: e2_def)
    then have st2: "step_ok (<) 1 pAd e pAd1 e2" using st1 by simp
    then have ok2: "rec_ok e2" "LastIndSeq e2 \<noteq> RESET_RCV_SEQ" "win e2 = win e"
      using step_okD [OF st2] by (auto simp: step_ok_def)
    obtain pAd3 e3 Last where io: "ba_indicate_reordering_mpdus_in_order pAd1 e2 (LastIndSeq e2) = (pAd3, e3, Last)"
      by (cases "ba_indicate_reordering_mpdus_in_order pAd1 e2 (LastIndSeq e2)")
    have res: "pAd' = pAd3" "e' = (if Last \<noteq> RESET_RCV_SEQ then e3\<lparr>LastIndSeq := Last\<rparr> else e3)"
      using eq no False le io
      by (auto simp: ba_flush_reordering_timeout_mpdus_def flush_all_def e2_def S_def Let_def)
    have "step_ok (<) (win e2) pAd1 e2 pAd' e' \<and> rec_inv e'"
      using in_order_step [OF ok2(1,2) io] by (simp add: res)
    then show ?thesis
      using step_ok_trans [OF st2, of "win e2" pAd' e'] ok2(3) win_bounds [of e] by simp
  qed
qed

lemma indicate_in_order_step:
  assumes inv: "rec_inv e" "LastIndSeq e \<noteq> RESET_RCV_SEQ"
    and one: "SEQ_STEPONE (uint (rx_Sequence r)) (base e) MAXSEQ"
    and eq: "indicate_in_order pAd e r Now32 = (pAd', e')"
  shows "step_ok (<) (1 + win e) pAd e pAd' e' \<and> rec_inv e'"
proof -
  have ok: "rec_ok e" using inv by (simp add: rec_inv_def)
  note k = rec_okD [OF ok inv(2)]
  have o1: "ofs (base e) (uint (rx_Sequence r)) = 1"
    using one SEQ_STEPONE_ofs seq12 by blast
  define e1 where "e1 = e\<lparr>LastIndSeq := ucast (rx_Sequence r)\<rparr>"
  define pAd1 where "pAd1 = INDICATE_LEGACY_OR_AMSDU pAd r"
  have b1: "base e1 = uint (rx_Sequence r)" by (simp add: e1_def seq12)
  have "\<forall>m\<in>set (chain (re_list e)). ofs (base e) (uint (rx_Sequence r)) < ofs (base e) (Sequence m)"
    using inv(1) k(4) o1 by (force simp: rec_inv_def buf_ok_def)
  then have "buf_ok (base e1) (win e) (chain (re_list e))"
    using buf_ok_rebase [OF k(4), of "uint (rx_Sequence r)"] o1 by (auto simp: b1 intro: buf_ok_mono)
  moreover have n1: "LastIndSeq e1 \<noteq> RESET_RCV_SEQ" using b1 seq12 by (intro RESET_neq) simp
  ultimately have ok1: "rec_ok e1" using k(1) b1 seq12 n1 by (simp add: rec_ok_def) (simp add: e1_def)
  have st1: "step_ok (<) 1 pAd e pAd1 e1"
    using ok1 o1 seq12 b1 by (simp add: step_ok_def pAd1_def INDICATE_eq delivers_def) (simp add: e1_def)
  obtain pAd2 e2 Last where io: "ba_indicate_reordering_mpdus_in_order pAd1 e1 (LastIndSeq e1) = (pAd2, e2, Last)"
    by (cases "ba_indicate_reordering_mpdus_in_order pAd1 e1 (LastIndSeq e1)")
  define e3 where "e3 = (if Last \<noteq> RESET_RCV_SEQ then e2\<lparr>LastIndSeq := Last\<rparr> else e2)"
  have res: "pAd' = pAd2" "e' = e3\<lparr>LastIndSeqAtTimer := Now32\<rparr>"
    using eq io by (auto simp: indicate_in_order_def e1_def pAd1_def e3_def Let_def)
  have st2: "step_ok (<) (win e1) pAd1 e1 pAd2 e3 \<and> rec_inv e3"
    using in_order_step [OF ok1 n1 io] by (simp add: e3_def)
  have "win e1 = win e" by (simp add: e1_def)
  then show ?thesis
    using step_ok_trans [OF st1, of "win e1" pAd2 e3] st2 win_bounds [of e] by (simp add: res)
qed

lemma drop_step:
  assumes "rec_inv e" "LastIndSeq e \<noteq> RESET_RCV_SEQ" and eq: "drop_frame pAd e r = (pAd', e')"
  shows "step_ok (<) 0 pAd e pAd' e' \<and> rec_inv e'"
  using assms by (auto simp: drop_frame_def step_ok_def rec_inv_def rec_ok_def)

lemma WinStartSeq_ofs:
  assumes "0 \<le> s" "s < 4096" "0 \<le> W" "W \<le> 255"
  shows "WinStartSeq_of s W = (s - W) mod 4096"
proof -
  have "WinStartSeq_of s W = ((if s - W - 1 < 0 then 4096 + (s - W - 1) else s - W - 1) + 1) mod 4096"
    using int_and_mask12 by (simp add: WinStartSeq_of_def MAXSEQ_def Let_def)
  also have "\<dots> = (s - W) mod 4096"
    by (cases "s - W - 1 < 0") (simp_all add: add.commute [of 4096])
  finally show ?thesis .
qed

text \<open>The pool never runs out while a block is free; handing frames up only fills it.\<close>

definition pool_ok :: "rx_env \<Rightarrow> bool" where
  "pool_ok pAd \<longleftrightarrow> list_ok (freelist pAd) \<and> chain (freelist pAd) \<noteq> []"

lemma pool_ok_announce_all: "pool_ok pAd \<Longrightarrow> pool_ok (announce_all ms pAd)"
  by (auto simp: pool_ok_def pool_push_def list_ok_def)

lemma pool_ok_emit [simp]: "pool_ok (emit v pAd) = pool_ok pAd"
  by (simp add: pool_ok_def)

lemma pool_ok_bufferable:
  assumes "pool_ok pAd" "\<not> rx_EAP r"
  shows "bufferable pAd r"
  using assms
  by (cases "chain (freelist pAd)")
    (auto simp: bufferable_def ba_mpdu_blk_alloc_def pool_ok_def ba_dequeue_def list_ok_def Let_def)

lemma pool_ok_le_seq:
  "rec_ok e \<Longrightarrow> pool_ok pAd \<Longrightarrow> ba_indicate_reordering_mpdus_le_seq pAd e S = (pAd', e') \<Longrightarrow> pool_ok pAd'"
  by (auto simp: rec_ok_def indicate_le_seq_eq pool_ok_announce_all)

lemma pool_ok_in_order:
  "rec_ok e \<Longrightarrow> pool_ok pAd \<Longrightarrow> ba_indicate_reordering_mpdus_in_order pAd e S = (pAd', e', L) \<Longrightarrow> pool_ok pAd'"
  by (auto simp: rec_ok_def indicate_in_order_eq pool_ok_announce_all)

lemma rec_ok_le_seq_list:
  "rec_ok e \<Longrightarrow> ba_indicate_reordering_mpdus_le_seq pAd e S = (pAd', e') \<Longrightarrow> list_ok (re_list e')"
  by (auto simp: rec_ok_def indicate_le_seq_eq)

lemma in_order_list:
  "list_ok (re_list e) \<Longrightarrow> pool_ok pAd \<Longrightarrow>
    ba_indicate_reordering_mpdus_in_order pAd e S = (pAd', e', L) \<Longrightarrow> pool_ok pAd'"
  by (auto simp: indicate_in_order_eq pool_ok_announce_all)

lemma pool_ok_flush:
  assumes ok: "rec_ok e" "pool_ok pAd" and eq: "ba_flush_reordering_timeout_mpdus pAd e N = (pAd', e')"
  shows "pool_ok pAd'"
proof -
  let ?S = "of_int ((uint (LastIndSeq e) + 1) AND MAXSEQ) :: u16"
  have l: "list_ok (re_list e)" using ok by (simp add: rec_ok_def)
  obtain pAd1 e1 where le: "ba_indicate_reordering_mpdus_le_seq pAd e ?S = (pAd1, e1)"
    by (cases "ba_indicate_reordering_mpdus_le_seq pAd e ?S")
  define e2 where "e2 = e1\<lparr>LastIndSeqAtTimer := N, LastIndSeq := ?S\<rparr>"
  obtain pAd3 e3 L where io: "ba_indicate_reordering_mpdus_in_order pAd1 e2 ?S = (pAd3, e3, L)"
    by (cases "ba_indicate_reordering_mpdus_in_order pAd1 e2 ?S")
  have 1: "pool_ok pAd1" by (rule pool_ok_le_seq [OF ok le])
  have "list_ok (re_list e2)" using rec_ok_le_seq_list [OF ok(1) le] by (simp add: e2_def)
  then have 3: "pool_ok pAd3" using 1 io by (rule in_order_list)
  have "pAd' \<in> {pAd, announce_all (chain (re_list e)) pAd, pAd3}"
    using eq le io by (auto simp: ba_flush_reordering_timeout_mpdus_def refresh_eq [OF l] Let_def
        e2_def split: if_splits)
  then show ?thesis using ok 3 pool_ok_announce_all by auto
qed

definition max_advance :: int where "max_advance = 2600"

lemma surpass_step:
  assumes inv: "rec_inv e" "LastIndSeq e \<noteq> RESET_RCV_SEQ" and W: "1 \<le> win e"
    and d: "win e < ofs (base e) (uint (rx_Sequence r))" "ofs (base e) (uint (rx_Sequence r)) < 2048"
    and eq: "surpass_window pAd e r Now32 = (pAd', e')"
  shows "step_ok (<) 2302 pAd e pAd' e' \<and> rec_inv e'"
proof -
  have ok: "rec_ok e" using inv by (simp add: rec_inv_def)
  note k = rec_okD [OF ok inv(2)]
  let ?s = "uint (rx_Sequence r)"
  define S where "S = (of_int (WinStartSeq_of ?s (win e)) :: u16)"
  have uS: "uint S = (?s - win e) mod 4096"
    using WinStartSeq_ofs [OF seq12(2,1) win_bounds] uint_seq16 [of "(?s - win e) mod 4096"]
    by (simp add: S_def)
  have oS: "ofs (base e) (uint S) = ofs (base e) ?s - win e"
  proof -
    have "(uint S - base e) mod 4096 = ((?s - base e) - win e) mod 4096"
      by (simp add: uS mod_diff_left_eq algebra_simps)
    also have "\<dots> = (ofs (base e) ?s - win e) mod 4096" by (simp add: ofs_def mod_diff_left_eq)
    also have "\<dots> = ofs (base e) ?s - win e"
      using d W by (intro mod_pos_pos_trivial) auto
    finally show ?thesis by (simp add: ofs_def)
  qed
  have Ss: "ofs (uint S) ?s = win e"
    using ofs_rebase [of "base e" "uint S" ?s] oS W by simp
  obtain pAd1 e1 where le: "ba_indicate_reordering_mpdus_le_seq pAd e S = (pAd1, e1)"
    by (cases "ba_indicate_reordering_mpdus_le_seq pAd e S")
  define e2 where "e2 = e1\<lparr>LastIndSeq := S, LastIndSeqAtTimer := Now32\<rparr>"
  obtain pAd3 e3 where enq: "ba_enqueue_reordering_packet pAd1 e2 r = (pAd3, e3)"
    by (cases "ba_enqueue_reordering_packet pAd1 e2 r")
  have le1: "step_ok (<) (ofs (base e) (uint S)) pAd e pAd1 (e1\<lparr>LastIndSeq := S\<rparr>)"
    and b1: "buf_ok (uint S) (win e - ofs (base e) (uint S)) (chain (re_list e1))"
    using le_seq_step [OF ok inv(2) _ _ le] oS uS d W by auto
  have st1: "step_ok (<) 2047 pAd e pAd1 e2"
    using step_ok_weaken(2) [OF le1, of 2047] oS d W by (simp add: e2_def)
  have e2: "rec_ok e2" "LastIndSeq e2 \<noteq> RESET_RCV_SEQ" "win e2 = win e" "base e2 = uint S"
    using step_okD [OF st1] st1 by (auto simp: step_ok_def e2_def)
  have nodup: "\<forall>m\<in>set (chain (re_list e2)). Sequence m \<noteq> ?s"
    using b1 oS d Ss W by (force simp: e2_def buf_ok_def)
  have st2: "step_ok (<) (win e) pAd1 e2 pAd3 e3"
  proof (cases "bufferable pAd1 r")
    case True
    show ?thesis
      by (rule step_ok_weaken(2) [OF enqueue_step_good(1) [OF e2(1,2) True _ _ enq]])
        (use Ss W e2 in auto)
  next
    case False
    show ?thesis
      using enqueue_step_bad(2) [OF e2(1,2) False _ _ enq nodup] Ss W e2 win_bounds [of e] by simp
  qed
  then have e3: "rec_ok e3" "LastIndSeq e3 \<noteq> RESET_RCV_SEQ" "win e3 = win e"
    using step_okD [OF st2] e2(3) by (auto simp: step_ok_def)
  obtain pAd4 e4 Last where io: "ba_indicate_reordering_mpdus_in_order pAd3 e3 (LastIndSeq e3) = (pAd4, e4, Last)"
    by (cases "ba_indicate_reordering_mpdus_in_order pAd3 e3 (LastIndSeq e3)")
  have res: "pAd' = pAd4" "e' = (if Last \<noteq> RESET_RCV_SEQ then e4\<lparr>LastIndSeq := Last\<rparr> else e4)"
    using eq le enq io by (auto simp: surpass_window_def e2_def S_def Let_def)
  have st3: "step_ok (<) (win e) pAd3 e3 pAd' e' \<and> rec_inv e'"
    using in_order_step [OF e3(1,2) io] e3(3) by (simp add: res)
  have "step_ok (<) (ofs (base e) (uint S)) pAd e pAd1 e2" using le1 by (simp add: e2_def)
  then have "step_ok (<) (ofs (base e) (uint S) + win e) pAd e pAd3 e3"
    by (rule step_ok_trans [OF _ st2]) (use d oS W win_bounds [of e] in auto)
  then have "step_ok (<) (ofs (base e) (uint S) + win e + win e) pAd e pAd' e'"
    by (rule step_ok_trans [OF _ conjunct1 [OF st3]]) (use d oS W win_bounds [of e] in auto)
  then have "step_ok (<) 2302 pAd e pAd' e'"
    by (rule step_ok_weaken(2)) (use oS d win_bounds [of e] in linarith)
  then show ?thesis using st3 by simp
qed

lemma Indicate_step:
  assumes inv: "rec_inv e" "LastIndSeq e \<noteq> RESET_RCV_SEQ" and W: "1 \<le> win e"
    and no: "\<not> flush_all pAd e Now32"
    and eq: "Indicate_AMPDU_entry pAd e r Now32 = (pAd', e')"
  shows "step_ok (\<le>) max_advance pAd e pAd' e'"
    and "pool_ok pAd \<Longrightarrow> \<not> rx_EAP r \<Longrightarrow> step_ok (<) max_advance pAd e pAd' e' \<and> rec_inv e'"
proof -
  let ?s = "uint (rx_Sequence r)"
  define e0 where "e0 = e\<lparr>rcvSeq := ucast (rx_Sequence r)\<rparr>"
  obtain pAd1 e1 where fl: "ba_flush_reordering_timeout_mpdus pAd e0 Now32 = (pAd1, e1)"
    by (cases "ba_flush_reordering_timeout_mpdus pAd e0 Now32")
  define e2 where "e2 = e1\<lparr>LastIndSeqAtTimer := Now32\<rparr>"
  have inv0: "rec_inv e0" "LastIndSeq e0 \<noteq> RESET_RCV_SEQ" "\<not> flush_all pAd e0 Now32"
    using inv no by (simp_all add: e0_def flush_all_def)
  have "win e0 = win e" by (simp add: e0_def)
  then have st1: "step_ok (<) (1 + win e) pAd e pAd1 e2" and inv2: "rec_inv e2"
    using flush_step [OF inv0 fl] by (simp_all add: e2_def e0_def)
  have e2: "rec_ok e2" "LastIndSeq e2 \<noteq> RESET_RCV_SEQ" "win e2 = win e"
    using step_okD [OF st1] st1 by (auto simp: step_ok_def)
  note k = rec_okD [OF e2(1,2)]
  let ?d = "ofs (base e2) ?s"
  have small: "SEQ_SMALLER ?s (base e2) MAXSEQ \<longleftrightarrow> 2048 \<le> ?d" by (rule SEQ_SMALLER_ofs)
  have same: "?s = base e2 \<longleftrightarrow> ?d = 0"
    using ofs_inj [of "base e2" ?s "base e2"] seq12 k by auto
  have one: "SEQ_STEPONE ?s (base e2) MAXSEQ \<longleftrightarrow> ?d = 1"
    by (rule SEQ_STEPONE_ofs) (use seq12 in auto)
  have pool1: "pool_ok pAd \<Longrightarrow> pool_ok pAd1"
    using pool_ok_flush [OF _ _ fl] inv0 by (simp add: rec_inv_def)
  have window: "SEQ_SMALLER ?s ((base e2 + win e2 + 1) AND MAXSEQ) MAXSEQ \<longleftrightarrow> ?d \<le> win e"
    if "2 \<le> ?d" "?d < 2048"
  proof -
    define T where "T = (base e2 + win e2 + 1) AND MAXSEQ"
    have T: "T = (base e2 + win e2 + 1) mod 4096"
      using int_and_mask12 by (simp add: T_def MAXSEQ_def)
    have "ofs (base e2) T = (win e2 + 1) mod 4096"
      by (simp add: ofs_def T mod_diff_left_eq)
    then have "ofs (base e2) T = win e2 + 1" using win_bounds [of e2] by simp
    then show ?thesis
      using SEQ_SMALLER_base [of "base e2" ?s T] that win_bounds [of e2] e2(3)
      by (auto simp: T_def)
  qed
  have res: "(pAd', e') =
    (if ?d = 1 then indicate_in_order pAd1 e2 r Now32
     else if ?d = 0 \<or> 2048 \<le> ?d then drop_frame pAd1 e2 r
     else if ?d \<le> win e then ba_enqueue_reordering_packet pAd1 e2 r
     else surpass_window pAd1 e2 r Now32)"
  proof -
    have "(pAd', e') = Indicate_AMPDU_entry pAd e r Now32" using eq by simp
    also have "\<dots> = (if ?d = 1 then indicate_in_order pAd1 e2 r Now32
     else if ?d = 0 then drop_frame pAd1 e2 r
     else if 2048 \<le> ?d then drop_frame pAd1 e2 r
     else if SEQ_SMALLER ?s ((base e2 + win e2 + 1) AND MAXSEQ) MAXSEQ
       then ba_enqueue_reordering_packet pAd1 e2 r
     else surpass_window pAd1 e2 r Now32)"
      unfolding Indicate_AMPDU_entry_def Let_def fl [unfolded e0_def] case_prod_conv
        e2_def [symmetric] one same small using e2(2) by simp
    also have "\<dots> = (if ?d = 1 then indicate_in_order pAd1 e2 r Now32
     else if ?d = 0 \<or> 2048 \<le> ?d then drop_frame pAd1 e2 r
     else if ?d \<le> win e then ba_enqueue_reordering_packet pAd1 e2 r
     else surpass_window pAd1 e2 r Now32)"
      using window ofs_range [of "base e2" ?s] by auto
    finally show ?thesis .
  qed
  have gen: "step_ok (\<le>) 2302 pAd1 e2 pAd' e' \<and>
    (pool_ok pAd1 \<longrightarrow> \<not> rx_EAP r \<longrightarrow> step_ok (<) 2302 pAd1 e2 pAd' e' \<and> rec_inv e')"
  proof -
    consider "?d = 1" | "?d = 0 \<or> 2048 \<le> ?d" | "2 \<le> ?d" "?d < 2048" "?d \<le> win e"
      | "2 \<le> ?d" "?d < 2048" "win e < ?d"
      using ofs_range [of "base e2" ?s] by linarith
    then show ?thesis
    proof cases
      case 1
      then have "indicate_in_order pAd1 e2 r Now32 = (pAd', e')" using res by simp
      from indicate_in_order_step [OF inv2 e2(2) _ this] 1 one
      show ?thesis using win_bounds [of e2] by (auto intro: step_ok_weaken)
    next
      case 2
      then have "drop_frame pAd1 e2 r = (pAd', e')" using res by auto
      from drop_step [OF inv2 e2(2) this] show ?thesis by (auto intro: step_ok_weaken)
    next
      case 3
      then have enq: "ba_enqueue_reordering_packet pAd1 e2 r = (pAd', e')" using res by auto
      have d: "1 \<le> ?d" "?d \<le> win e2" "?d \<le> 2048" using 3 e2(3) by auto
      show ?thesis
      proof (cases "bufferable pAd1 r")
        case True
        note g = enqueue_step_good [OF e2(1,2) True d(1,2) enq]
        have "rec_inv e'"
          using g inv2 3 step_okD [OF g(1)] by (fastforce simp: rec_inv_def)
        then show ?thesis using g(1) by (auto intro: step_ok_weaken)
      next
        case False
        then have "\<not> (pool_ok pAd1 \<and> \<not> rx_EAP r)" using pool_ok_bufferable by blast
        moreover have "step_ok (\<le>) 2302 pAd1 e2 pAd' e'"
          by (rule step_ok_weaken(2) [OF enqueue_step_bad(1) [OF e2(1,2) False d(1,3) enq]]) (use d in auto)
        ultimately show ?thesis by blast
      qed
    next
      case 4
      then have "surpass_window pAd1 e2 r Now32 = (pAd', e')" using res by auto
      from surpass_step [OF inv2 e2(2) _ _ _ this] 4 W e2(3)
      show ?thesis by (auto intro: step_ok_weaken)
    qed
  qed
  have W255: "win e \<le> 255" by (rule win_bounds)
  show "step_ok (\<le>) max_advance pAd e pAd' e'"
    by (rule step_ok_weaken(2) [OF step_ok_trans [OF step_ok_weaken(1) [OF st1 order_refl] conjunct1 [OF gen]]])
      (use W255 in \<open>auto simp: max_advance_def\<close>)
  assume "pool_ok pAd" "\<not> rx_EAP r"
  then have g: "step_ok (<) 2302 pAd1 e2 pAd' e'" "rec_inv e'" using gen pool1 by auto
  show "step_ok (<) max_advance pAd e pAd' e' \<and> rec_inv e'"
    by (rule conjI [OF step_ok_weaken(2) [OF step_ok_trans [OF st1 g(1)]] g(2)])
      (use W255 in \<open>auto simp: max_advance_def\<close>)
qed

end
