(* ===== verification/BaBooks.thy ===== *)
theory BaBooks
  imports BaWindow
begin

text \<open>
  The accounts of the receive path: every packet received is delivered, released
  or buffered, exactly once, and every block of the pool is free or in a buffer;
  then runs of frames, Block Ack Requests, and the properties of the receive side.
\<close>

section \<open>Accounting of packets and blocks\<close>

fun ev_packet :: "ba_event \<Rightarrow> nat" where
  "ev_packet (BA_Reorder_AMSDU_Annnounce m) = pPacket m"
| "ev_packet (ANNOUNCE_OR_FORWARD_802_3_PACKET m) = pPacket m"
| "ev_packet (Indicate_AMSDU_Packet r) = rx_packet r"
| "ev_packet (Indicate_EAPOL_Packet r) = rx_packet r"
| "ev_packet (Indicate_Legacy_Packet r) = rx_packet r"
| "ev_packet (RELEASE_NDIS_PACKET p _) = p"

text \<open>The packets that left (to the stack, or released) and the ones in the buffer.\<close>

definition packets :: "rx_env \<Rightarrow> ba_rec_entry \<Rightarrow> nat multiset" where
  "packets pAd e = mset (map ev_packet (events pAd)) + mset (map pPacket (chain (re_list e)))"

text \<open>The blocks in the free list and the ones in the buffer.\<close>

definition blocks :: "rx_env \<Rightarrow> ba_rec_entry \<Rightarrow> nat multiset" where
  "blocks pAd e = mset (map blk (chain (freelist pAd))) + mset (map blk (chain (re_list e)))"

definition lists_ok :: "rx_env \<Rightarrow> ba_rec_entry \<Rightarrow> bool" where
  "lists_ok pAd e \<longleftrightarrow> list_ok (freelist pAd) \<and> list_ok (re_list e)"

definition same_books :: "rx_env \<Rightarrow> ba_rec_entry \<Rightarrow> rx_env \<Rightarrow> ba_rec_entry \<Rightarrow> bool" where
  "same_books pAd e pAd' e' \<longleftrightarrow> lists_ok pAd' e' \<and>
    packets pAd' e' = packets pAd e \<and> blocks pAd' e' = blocks pAd e"

lemma ev_packet_ann [simp]: "ev_packet (ann_event m) = pPacket m"
  by (simp add: ann_event_def)

lemma map_ev_packet_ann [simp]: "map (ev_packet \<circ> ann_event) ms = map pPacket ms"
  by (simp add: comp_def)

lemma ev_packet_ind [simp]: "ev_packet (ind_event r) = rx_packet r"
  by (simp add: ind_event_def)

lemma books_fields [simp]:
  "packets pAd (e\<lparr>LastIndSeq := s\<rparr>) = packets pAd e" "blocks pAd (e\<lparr>LastIndSeq := s\<rparr>) = blocks pAd e"
  "packets pAd (e\<lparr>LastIndSeqAtTimer := t\<rparr>) = packets pAd e"
  "blocks pAd (e\<lparr>LastIndSeqAtTimer := t\<rparr>) = blocks pAd e"
  "packets pAd (e\<lparr>nDropPacket := n\<rparr>) = packets pAd e" "blocks pAd (e\<lparr>nDropPacket := n\<rparr>) = blocks pAd e"
  "packets pAd (e\<lparr>rcvSeq := r\<rparr>) = packets pAd e" "blocks pAd (e\<lparr>rcvSeq := r\<rparr>) = blocks pAd e"
  "lists_ok pAd (e\<lparr>LastIndSeq := s\<rparr>) = lists_ok pAd e"
  "lists_ok pAd (e\<lparr>LastIndSeqAtTimer := t\<rparr>) = lists_ok pAd e"
  "lists_ok pAd (e\<lparr>nDropPacket := n\<rparr>) = lists_ok pAd e"
  "lists_ok pAd (e\<lparr>rcvSeq := r\<rparr>) = lists_ok pAd e"
  by (simp_all add: packets_def blocks_def lists_ok_def)

lemma books_emit [simp]:
  "packets (emit v pAd) e = add_mset (ev_packet v) (packets pAd e)"
  "blocks (emit v pAd) e = blocks pAd e" "lists_ok (emit v pAd) e = lists_ok pAd e"
  by (simp_all add: packets_def blocks_def lists_ok_def)

lemma list_ok_pool_push: "list_ok fl \<Longrightarrow> list_ok (pool_push ms fl)"
  by (simp add: list_ok_def pool_push_def)

lemma books_announce:
  assumes "lists_ok pAd e" "chain (re_list e) = ms @ ms'"
  shows "same_books pAd e (announce_all ms pAd) (e\<lparr>re_list := mk_list ms'\<rparr>)"
  using assms
  by (simp add: same_books_def lists_ok_def list_ok_pool_push packets_def blocks_def)
    (simp add: pool_push_def)

lemma same_books_trans:
  "same_books pAd e pAd1 e1 \<Longrightarrow> same_books pAd1 e1 pAd2 e2 \<Longrightarrow> same_books pAd e pAd2 e2"
  by (simp add: same_books_def)

lemma le_seq_books:
  assumes "lists_ok pAd e" "ba_indicate_reordering_mpdus_le_seq pAd e S = (pAd', e')"
  shows "same_books pAd e pAd' e'"
  using assms books_announce [OF assms(1) takeWhile_dropWhile_id [symmetric]]
  by (auto simp: lists_ok_def indicate_le_seq_eq)

lemma in_order_books:
  assumes "lists_ok pAd e" "ba_indicate_reordering_mpdus_in_order pAd e S = (pAd', e', L)"
  shows "same_books pAd e pAd' e'"
  using assms books_announce [OF assms(1) in_order_split [symmetric]]
  by (auto simp: lists_ok_def indicate_in_order_eq)

lemma refresh_books:
  assumes "lists_ok pAd e" "ba_refresh_reordering_mpdus pAd e = (pAd', e')"
  shows "same_books pAd e pAd' e'"
  using assms books_announce [OF assms(1), of "chain (re_list e)" "[]"]
  by (auto simp: lists_ok_def refresh_eq same_books_def packets_def blocks_def)

lemma same_books_fields [simp]:
  "same_books pAd e pAd' (e'\<lparr>LastIndSeq := s\<rparr>) = same_books pAd e pAd' e'"
  "same_books pAd e pAd' (e'\<lparr>LastIndSeqAtTimer := t\<rparr>) = same_books pAd e pAd' e'"
  by (simp_all add: same_books_def)

lemma flush_books:
  assumes ok: "lists_ok pAd e" and eq: "ba_flush_reordering_timeout_mpdus pAd e N = (pAd', e')"
  shows "same_books pAd e pAd' e'"
proof -
  let ?S = "of_int ((uint (LastIndSeq e) + 1) AND MAXSEQ) :: u16"
  obtain pAd1 e1 where le: "ba_indicate_reordering_mpdus_le_seq pAd e ?S = (pAd1, e1)"
    by (cases "ba_indicate_reordering_mpdus_le_seq pAd e ?S")
  define e2 where "e2 = e1\<lparr>LastIndSeqAtTimer := N, LastIndSeq := ?S\<rparr>"
  obtain pAd3 e3 L where io: "ba_indicate_reordering_mpdus_in_order pAd1 e2 ?S = (pAd3, e3, L)"
    by (cases "ba_indicate_reordering_mpdus_in_order pAd1 e2 ?S")
  obtain pAd4 e4 where rf: "ba_refresh_reordering_mpdus pAd e = (pAd4, e4)"
    by (cases "ba_refresh_reordering_mpdus pAd e")
  have 1: "same_books pAd e pAd1 e2" using le_seq_books [OF ok le] by (simp add: e2_def)
  then have "same_books pAd1 e2 pAd3 e3" using in_order_books [OF _ io] by (simp add: same_books_def)
  with 1 have 3: "same_books pAd e pAd3 e3" by (rule same_books_trans)
  have "same_books pAd e pAd e" using ok by (simp add: same_books_def)
  then show ?thesis
    using eq le io rf 3 refresh_books [OF ok rf]
    by (auto simp: ba_flush_reordering_timeout_mpdus_def Let_def e2_def split: if_splits)
qed

lemma insert_scan_mset:
  "insert_scan ms b = Some c \<Longrightarrow> mset c = add_mset b (mset ms)"
  by (induction ms arbitrary: c) (auto split: if_splits)

text \<open>Receiving adds exactly the packet received; the blocks stay the same, unless
  the frame is an EAPOL frame.\<close>

definition takes :: "rx_blk \<Rightarrow> rx_env \<Rightarrow> ba_rec_entry \<Rightarrow> rx_env \<Rightarrow> ba_rec_entry \<Rightarrow> bool" where
  "takes r pAd e pAd' e' \<longleftrightarrow> lists_ok pAd' e' \<and>
    packets pAd' e' = add_mset (rx_packet r) (packets pAd e) \<and>
    (\<not> rx_EAP r \<longrightarrow> blocks pAd' e' = blocks pAd e)"

lemma takes_trans:
  "same_books pAd e pAd1 e1 \<Longrightarrow> takes r pAd1 e1 pAd2 e2 \<Longrightarrow> takes r pAd e pAd2 e2"
  "takes r pAd e pAd1 e1 \<Longrightarrow> same_books pAd1 e1 pAd2 e2 \<Longrightarrow> takes r pAd e pAd2 e2"
  by (simp_all add: takes_def same_books_def)

lemma takes_fields [simp]:
  "takes r pAd e pAd' (e'\<lparr>LastIndSeq := s\<rparr>) = takes r pAd e pAd' e'"
  "takes r pAd e pAd' (e'\<lparr>LastIndSeqAtTimer := t\<rparr>) = takes r pAd e pAd' e'"
  by (simp_all add: takes_def)

lemma alloc_cases:
  assumes "list_ok (freelist pAd)"
  obtains (none) "chain (freelist pAd) = []" "ba_mpdu_blk_alloc pAd = (None, pAd)"
  | (some) a ms where "chain (freelist pAd) = a # ms"
      "ba_mpdu_blk_alloc pAd = (Some (zero_mpdu (blk a)), pAd\<lparr>freelist := mk_list ms\<rparr>)"
proof (cases "chain (freelist pAd)")
  case Nil
  have "ba_mpdu_blk_alloc pAd = (None, pAd)"
    using assms Nil by (simp add: ba_mpdu_blk_alloc_def ba_dequeue_def list_ok_def)
  then show ?thesis using Nil none by blast
next
  case (Cons a ms)
  then have "ba_mpdu_blk_alloc pAd = (Some (zero_mpdu (blk a)), pAd\<lparr>freelist := mk_list ms\<rparr>)"
    using list_okD [OF assms] by (simp add: ba_mpdu_blk_alloc_def)
  then show ?thesis using Cons some by blast
qed

lemma enqueue_books:
  assumes ok: "lists_ok pAd e" and eq: "ba_enqueue_reordering_packet pAd e r = (pAd', e')"
  shows "takes r pAd e pAd' e'"
proof (cases "bufferable pAd r")
  case True
  have l: "list_ok (freelist pAd)" "list_ok (re_list e)" using ok by (simp_all add: lists_ok_def)
  obtain b pAd1 where b: "ba_mpdu_blk_alloc pAd = (Some b, pAd1)"
    and enq: "ba_enqueue_reordering_packet pAd e r =
      (case ba_reordering_mpdu_insertsorted (re_list e) (filled r b) of
         (False, l) \<Rightarrow>
           (ba_mpdu_blk_free (filled r b) (emit (RELEASE_NDIS_PACKET (rx_packet r) True) pAd1),
            e\<lparr>re_list := l\<rparr>)
       | (True, l) \<Rightarrow> (pAd1, e\<lparr>re_list := l\<rparr>))"
    by (rule enqueue_bufferable [OF True])
  obtain a ms where a: "chain (freelist pAd) = a # ms" "b = zero_mpdu (blk a)"
      "pAd1 = pAd\<lparr>freelist := mk_list ms\<rparr>"
    using alloc_cases [OF l(1)] b by (metis option.distinct(1) option.inject prod.inject)
  show ?thesis
  proof (cases "insert_scan (chain (re_list e)) (filled r b)")
    case None
    then show ?thesis using eq l
      by (auto simp: enq ba_reordering_mpdu_insertsorted_def takes_def lists_ok_def
          packets_def blocks_def a ba_mpdu_blk_free_def filled_def zero_mpdu_def)
  next
    case (Some c)
    note m = insert_scan_mset [OF Some]
    then have "length c = Suc (length (chain (re_list e)))" by (metis size_add_mset size_mset)
    then show ?thesis using eq l Some m
      by (auto simp: enq ba_reordering_mpdu_insertsorted_def takes_def lists_ok_def list_ok_def
          packets_def blocks_def a filled_def zero_mpdu_def)
  qed
next
  case False
  define pAd0 where "pAd0 = snd (ba_mpdu_blk_alloc pAd)"
  have l: "list_ok (freelist pAd)" using ok by (simp add: lists_ok_def)
  have "lists_ok pAd0 e \<and> packets pAd0 e = packets pAd e \<and> (\<not> rx_EAP r \<longrightarrow> pAd0 = pAd)"
  proof (cases rule: alloc_cases [OF l])
    case 1
    then show ?thesis using ok by (simp add: pAd0_def)
  next
    case (2 a ms)
    then have "rx_EAP r" using False by (simp add: bufferable_def)
    then show ?thesis using ok 2 by (simp add: pAd0_def lists_ok_def packets_def)
  qed
  then have 0: "lists_ok pAd0 e" "packets pAd0 e = packets pAd e" "\<not> rx_EAP r \<Longrightarrow> pAd0 = pAd"
    by auto
  obtain pAd1 e1 where le: "ba_indicate_reordering_mpdus_le_seq pAd0 e (ucast (rx_Sequence r)) = (pAd1, e1)"
    by (cases "ba_indicate_reordering_mpdus_le_seq pAd0 e (ucast (rx_Sequence r))")
  show ?thesis
    using eq le_seq_books [OF 0(1) le] 0 le
    by (auto simp: enqueue_not_bufferable [OF False] INDICATE_eq same_books_def takes_def
        simp flip: pAd0_def)
qed

lemma Indicate_books:
  assumes ok: "lists_ok pAd e" and eq: "Indicate_AMPDU_entry pAd e r N = (pAd', e')"
  shows "takes r pAd e pAd' e'"
proof -
  obtain pAd1 e1 where fl: "ba_flush_reordering_timeout_mpdus pAd
      (e\<lparr>rcvSeq := ucast (rx_Sequence r)\<rparr>) N = (pAd1, e1)"
    by (cases "ba_flush_reordering_timeout_mpdus pAd (e\<lparr>rcvSeq := ucast (rx_Sequence r)\<rparr>) N")
  define e2 where "e2 = e1\<lparr>LastIndSeqAtTimer := N\<rparr>"
  have 1: "same_books pAd e pAd1 e2"
    using flush_books [OF _ fl] ok by (simp add: e2_def same_books_def)
  then have ok1: "lists_ok pAd1 e2" by (simp add: same_books_def)
  have ind: "takes r pAd1 e2 (INDICATE_LEGACY_OR_AMSDU pAd1 r) e2"
    "takes r pAd1 e2 (INDICATE_LEGACY_OR_AMSDU pAd1 r) (e2\<lparr>LastIndSeq := s\<rparr>)" for s
    using ok1 by (simp_all add: takes_def INDICATE_eq)
  have drop: "takes r pAd1 e2 p x" if "drop_frame pAd1 e2 r = (p, x)" for p x
    using that ok1 by (auto simp: drop_frame_def takes_def)
  have order: "takes r pAd1 e2 p x" if h: "indicate_in_order pAd1 e2 r N = (p, x)" for p x
  proof -
    obtain p3 e3 L where io: "ba_indicate_reordering_mpdus_in_order (INDICATE_LEGACY_OR_AMSDU pAd1 r)
        (e2\<lparr>LastIndSeq := ucast (rx_Sequence r)\<rparr>) (ucast (rx_Sequence r)) = (p3, e3, L)"
      by (metis prod_cases3)
    have "same_books (INDICATE_LEGACY_OR_AMSDU pAd1 r) (e2\<lparr>LastIndSeq := ucast (rx_Sequence r)\<rparr>) p3 e3"
      using in_order_books [OF _ io] ind by (simp add: takes_def)
    from takes_trans(2) [OF ind(2) this] show ?thesis
      using h io by (auto simp: indicate_in_order_def Let_def split: if_splits)
  qed
  have surpass: "takes r pAd1 e2 p x" if h: "surpass_window pAd1 e2 r N = (p, x)" for p x
  proof -
    let ?S = "of_int (WinStartSeq_of (uint (rx_Sequence r)) (uint (rBAWinSize e2))) :: u16"
    obtain p3 e3 where le: "ba_indicate_reordering_mpdus_le_seq pAd1 e2 ?S = (p3, e3)"
      by (cases "ba_indicate_reordering_mpdus_le_seq pAd1 e2 ?S")
    define e4 where "e4 = e3\<lparr>LastIndSeq := ?S, LastIndSeqAtTimer := N\<rparr>"
    have b4: "same_books pAd1 e2 p3 e4" using le_seq_books [OF ok1 le] by (simp add: e4_def)
    obtain p5 e5 where enq: "ba_enqueue_reordering_packet p3 e4 r = (p5, e5)"
      by (cases "ba_enqueue_reordering_packet p3 e4 r")
    have t5: "takes r pAd1 e2 p5 e5"
      using takes_trans(1) [OF b4 enqueue_books [OF _ enq]] b4 by (simp add: same_books_def)
    obtain p6 e6 L where io: "ba_indicate_reordering_mpdus_in_order p5 e5 (LastIndSeq e5) = (p6, e6, L)"
      by (metis prod_cases3)
    have "takes r pAd1 e2 p6 e6"
      using takes_trans(2) [OF t5 in_order_books [OF _ io]] t5 by (simp add: takes_def)
    then show ?thesis
      using h le enq io by (auto simp: surpass_window_def e4_def Let_def split: if_splits)
  qed
  have "takes r pAd1 e2 pAd' e'"
    using eq fl ind drop order surpass enqueue_books [OF ok1]
    by (auto simp: Indicate_AMPDU_entry_def Let_def simp flip: e2_def split: if_splits)
  then show ?thesis by (rule takes_trans(1) [OF 1])
qed

section \<open>Runs of received frames\<close>

lemma buf_ok_length:
  assumes "buf_ok L W ms" "0 \<le> W"
  shows "int (length ms) \<le> W"
proof -
  let ?os = "map (\<lambda>m. ofs L (Sequence m)) ms"
  have "sorted_wrt (<) ?os" using assms by (simp add: buf_ok_def sorted_wrt_map)
  then have d: "distinct ?os" by (simp add: strict_sorted_iff)
  have "set ?os \<subseteq> {1..W}" using assms by (auto simp: buf_ok_def)
  then have "card (set ?os) \<le> card {1..W}" by (intro card_mono) auto
  moreover have "card (set ?os) = length ms" using distinct_card [OF d] by simp
  ultimately show ?thesis using assms(2) by simp
qed

lemma blocks_pool_ok:
  assumes "rec_ok e" "LastIndSeq e \<noteq> RESET_RCV_SEQ" "lists_ok pAd e" "256 \<le> size (blocks pAd e)"
  shows "pool_ok pAd"
proof -
  have "int (length (chain (re_list e))) \<le> 255"
    using buf_ok_length [OF rec_okD(4) [OF assms(1,2)]] win_bounds [of e] by linarith
  then have "chain (freelist pAd) \<noteq> []" using assms(4) by (auto simp: blocks_def)
  then show ?thesis using assms(3) by (simp add: pool_ok_def lists_ok_def)
qed

text \<open>The frames a run delivers, as absolute positions: position \<open>B\<close> is the base of the
  entry at the start, and the positions of a step count on from the base before it.\<close>

fun positions :: "int \<Rightarrow> rx_env \<Rightarrow> ba_rec_entry \<Rightarrow> (rx_blk \<times> u32) list \<Rightarrow> int list" where
  "positions B pAd e [] = []"
| "positions B pAd e ((r, now) # fs) =
    (case Indicate_AMPDU_entry pAd e r now of (pAd', e') \<Rightarrow>
       map (\<lambda>s. B + ofs (base e) s) (up_seqs (drop (length (events pAd)) (events pAd')))
       @ positions (B + ofs (base e) (base e')) pAd' e' fs)"

text \<open>A run without EAPOL frames in which the buffer is never flushed as a whole by the
  time-out.\<close>

fun quiet :: "rx_env \<Rightarrow> ba_rec_entry \<Rightarrow> (rx_blk \<times> u32) list \<Rightarrow> bool" where
  "quiet pAd e [] \<longleftrightarrow> True"
| "quiet pAd e ((r, now) # fs) \<longleftrightarrow> \<not> flush_all pAd e now \<and> \<not> rx_EAP r \<and>
    (case Indicate_AMPDU_entry pAd e r now of (pAd', e') \<Rightarrow> quiet pAd' e' fs)"

lemma delivers_positions:
  assumes "delivers (<) L es L'"
  shows "sorted_wrt (<) (map (\<lambda>s. B + ofs L s) (up_seqs es))"
    and "\<forall>p\<in>set (map (\<lambda>s. B + ofs L s) (up_seqs es)). B < p \<and> p \<le> B + ofs L L'"
  using assms by (auto simp: delivers_def sorted_wrt_map)

lemma run_positions:
  assumes "rec_inv e" "LastIndSeq e \<noteq> RESET_RCV_SEQ" "1 \<le> win e" "lists_ok pAd e"
    and "256 \<le> size (blocks pAd e)" "quiet pAd e fs"
  shows "sorted_wrt (<) (positions B pAd e fs) \<and> (\<forall>p\<in>set (positions B pAd e fs). B < p)"
  using assms
proof (induction fs arbitrary: B pAd e)
  case Nil
  then show ?case by simp
next
  case (Cons f fs)
  obtain r now where f: "f = (r, now)" by (cases f)
  obtain pAd' e' where st: "Indicate_AMPDU_entry pAd e r now = (pAd', e')"
    by (cases "Indicate_AMPDU_entry pAd e r now")
  have q: "\<not> flush_all pAd e now" "\<not> rx_EAP r" "quiet pAd' e' fs"
    using Cons.prems(6) by (simp_all add: f st)
  have ok: "rec_ok e" using Cons.prems(1) by (simp add: rec_inv_def)
  have pool: "pool_ok pAd" using blocks_pool_ok [OF ok] Cons.prems by blast
  have step: "step_ok (<) max_advance pAd e pAd' e'" and inv': "rec_inv e'"
    using Indicate_step(2) [OF Cons.prems(1,2,3) q(1) st pool q(2)] by auto
  have books: "takes r pAd e pAd' e'" by (rule Indicate_books [OF Cons.prems(4) st])
  obtain es where es: "events pAd' = events pAd @ es" "delivers (<) (base e) es (base e')"
    using step by (auto simp: step_ok_def)
  have IH: "sorted_wrt (<) (positions (B + ofs (base e) (base e')) pAd' e' fs) \<and>
      (\<forall>p\<in>set (positions (B + ofs (base e) (base e')) pAd' e' fs). B + ofs (base e) (base e') < p)"
  proof (rule Cons.IH)
    show "LastIndSeq e' \<noteq> RESET_RCV_SEQ" "1 \<le> win e'"
      using step_okD [OF step] step Cons.prems(3) by (auto simp: step_ok_def)
    show "lists_ok pAd' e'" "256 \<le> size (blocks pAd' e')"
      using books q(2) Cons.prems(5) by (simp_all add: takes_def)
  qed (use inv' q in auto)
  have "positions B pAd e (f # fs) = map (\<lambda>s. B + ofs (base e) s) (up_seqs es)
      @ positions (B + ofs (base e) (base e')) pAd' e' fs"
    by (simp add: f st es(1))
  moreover have "0 \<le> ofs (base e) (base e')" by (rule ofs_range)
  ultimately show ?case
    using delivers_positions [OF es(2), of B] IH by (fastforce simp: sorted_wrt_append)
qed

definition ex_frame :: "nat \<Rightarrow> 12 word \<Rightarrow> rx_blk" where
  "ex_frame p s = \<lparr>rx_packet = p, rx_Sequence = s, rx_OpMode = 0, rx_AMSDU = False,
     rx_EAP = False, DataSize = 100\<rparr>"

definition ex_env :: "nat \<Rightarrow> rx_env" where
  "ex_env n = \<lparr>freelist = mk_list (map zero_mpdu [0..<n]), OS_HZ = 100, events = []\<rparr>"

definition ex_entry :: "u16 \<Rightarrow> ba_rec_entry" where
  "ex_entry L = \<lparr>rWcid = 1, rTID = 0, rBAWinSize = 8, LastIndSeq = L, rTimeOutValue = 0,
     RECBATimer = \<lparr>Valid = True, State = False, PeriodicType = True, Repeat = False,
       TimerValue = 0, armed = False\<rparr>,
     LastIndSeqAtTimer = 0, nDropPacket = 0, rcvSeq = 0, REC_BA_Status = Recipient_Accept,
     re_list = mk_list []\<rparr>"

section \<open>Block Ack Requests\<close>

lemma uint_pred12:
  "uint (if S = 0 then of_int MAXSEQ else ucast S - 1 :: u16) = (uint (S :: 12 word) - 1) mod 4096"
proof (cases "S = 0")
  case False
  then have "0 < uint S" by (simp add: word_neq_0_conv word_less_def)
  then have "uint (ucast S - 1 :: u16) = uint S - 1"
    using seq12 [of S] by (simp add: uint_sub_if' word_less_def)
  then show ?thesis using False \<open>0 < uint S\<close> seq12 [of S] by simp
qed (simp add: MAXSEQ_def)

lemma bar_inv:
  assumes "rec_inv e" "bar_advance pAd e S = (pAd', e')"
  shows "rec_inv e'"
proof (cases "SEQ_SMALLER (base e) (uint S) MAXSEQ")
  case False
  then show ?thesis using assms by (simp add: bar_advance_def)
next
  case True
  let ?s = "ucast S :: u16"
  define N where "N = (if S = 0 then of_int MAXSEQ else ucast S - 1 :: u16)"
  obtain pAd1 e1 where le: "ba_indicate_reordering_mpdus_le_seq pAd e ?s = (pAd1, e1)"
    by (cases "ba_indicate_reordering_mpdus_le_seq pAd e ?s")
  have e': "e' = e1\<lparr>LastIndSeq := N\<rparr>"
    using assms(2) True le by (simp add: bar_advance_def N_def)
  have ok: "rec_ok e" using assms by (simp add: rec_inv_def)
  have uN: "uint N = (uint S - 1) mod 4096" unfolding N_def by (rule uint_pred12)
  have ofsN: "ofs (uint N) x = (ofs (uint S) x + 1) mod 4096" for x
    by (simp add: ofs_def uN mod_diff_right_eq mod_add_left_eq mod_add_right_eq algebra_simps)
  show ?thesis
  proof (cases "LastIndSeq e = RESET_RCV_SEQ")
    case R: True
    then have "chain (re_list e) = []" "list_ok (re_list e)" using ok by (auto simp: rec_ok_def)
    then have "re_list e1 = mk_list []" using le by (auto simp: indicate_le_seq_eq)
    then show ?thesis using uN by (auto simp: e' rec_inv_def rec_ok_def)
  next
    case R: False
    note k = rec_okD [OF ok R]
    have "2048 \<le> ofs (uint S) (base e)" using True by (simp add: SEQ_SMALLER_ofs)
    moreover from this have "ofs (base e) (uint S) \<noteq> 0"
      using ofs_inj [of "base e" "uint S" "base e"] seq12 [of S] k by auto
    ultimately have d: "ofs (base e) (uint S) \<le> 2048" "1 \<le> ofs (base e) (uint S)"
      using ofs_rebase_neg [of "base e" "base e" "uint S"] ofs_range [of "base e" "uint S"] by auto
    have b: "buf_ok (uint S) (win e - ofs (base e) (uint S)) (chain (re_list e1))"
      using le_seq_step(2) [OF ok R _ _ le] d seq12 by simp
    have o: "ofs (uint N) (Sequence m) = ofs (uint S) (Sequence m) + 1"
      if "m \<in> set (chain (re_list e1))" for m
      using that b win_bounds [of e] d by (subst ofsN, intro mod_pos_pos_trivial) (force simp: buf_ok_def)+
    have "buf_ok (uint N) (win e) (chain (re_list e1)) \<and>
      (\<forall>m\<in>set (chain (re_list e1)). ofs (uint N) (Sequence m) \<noteq> 1)"
      using b d o by (force simp: buf_ok_def intro: sorted_wrt_mono_rel [rotated])
    moreover have "rBAWinSize e1 = rBAWinSize e" "list_ok (re_list e1)"
      using le by (auto simp: indicate_le_seq_eq [OF k(1)])
    moreover have "N \<noteq> RESET_RCV_SEQ" using RESET_neq [of N] uN by simp
    ultimately show ?thesis using uN by (auto simp: e' rec_inv_def rec_ok_def)
  qed
qed

section \<open>The whole handler, time-outs and restarts included\<close>

lemma Indicate_rec_inv:
  assumes inv: "rec_inv e" and W: "1 \<le> win e" and pool: "pool_ok pAd" and eap: "\<not> rx_EAP r"
    and eq: "Indicate_AMPDU_entry pAd e r Now32 = (pAd', e')"
  shows "rec_inv e'"
proof (cases "LastIndSeq e \<noteq> RESET_RCV_SEQ \<and> \<not> flush_all pAd e Now32")
  case True
  then show ?thesis using Indicate_step(2) [OF inv _ W _ eq pool eap] by blast
next
  case False
  define e0 where "e0 = e\<lparr>rcvSeq := ucast (rx_Sequence r)\<rparr>"
  have ok: "rec_ok e0" using inv by (simp add: rec_inv_def e0_def)
  obtain pAd1 e1 where fl: "ba_flush_reordering_timeout_mpdus pAd e0 Now32 = (pAd1, e1)"
    by (cases "ba_flush_reordering_timeout_mpdus pAd e0 Now32")
  have e1: "LastIndSeq e1 = RESET_RCV_SEQ \<and> re_list e1 = mk_list []"
  proof (cases "flush_all pAd e Now32")
    case True
    then show ?thesis using flush_refresh [OF ok] fl by (auto simp: flush_all_def e0_def)
  next
    case False': False
    then have R: "LastIndSeq e = RESET_RCV_SEQ" using False by simp
    then have "re_list e = mk_list []"
      using inv list_okD [of "re_list e"] by (simp add: rec_inv_def rec_ok_def)
    then show ?thesis using fl R
      by (auto simp: ba_flush_reordering_timeout_mpdus_def e0_def)
  qed
  then have e': "e' = e1\<lparr>LastIndSeqAtTimer := Now32, LastIndSeq := ucast (rx_Sequence r),
      LastIndSeqAtTimer := Now32\<rparr>"
    using eq fl by (auto simp: Indicate_AMPDU_entry_def Let_def e0_def)
  have "uint (LastIndSeq e') < 4096" using seq12(1) [of "rx_Sequence r"] by (simp add: e' seq12(3))
  then show ?thesis using e1 RESET_neq by (auto simp: rec_inv_def rec_ok_def e')
qed

text \<open>C1: In a run of data frames of a session (from any well formed session state with its
  window size at least 1, no EAPOL frame, no whole-buffer time-out flush, a pool of at least
  256 blocks of which some may be in use) the frames are delivered to the network stack in
  strictly increasing order of their absolute sequence positions, all after the last frame
  indicated before the run: nothing is delivered twice, late or out of order.\<close>
theorem in_order_delivery:
  assumes "rec_inv e" "LastIndSeq e \<noteq> RESET_RCV_SEQ" "1 \<le> win e" "lists_ok pAd e"
    and "256 \<le> size (blocks pAd e)" "quiet pAd e fs"
  shows "sorted_wrt (<) (B # positions B pAd e fs)"
  using run_positions [OF assms] by simp

lemma ex_books: "lists_ok (ex_env 256) (ex_entry L)" "256 \<le> size (blocks (ex_env 256) (ex_entry L))"
  by (simp_all add: lists_ok_def ex_env_def ex_entry_def blocks_def)

lemma ex_quiet:
  "quiet (ex_env 256) (ex_entry 4094)
     [(ex_frame 1 0, 1), (ex_frame 2 4095, 2), (ex_frame 3 1, 3), (ex_frame 4 0, 4)]"
  by code_simp

theorem in_order_delivery_witness:
  "sorted_wrt (<) (0 # positions 0 (ex_env 256) (ex_entry 4094)
     [(ex_frame 1 0, 1), (ex_frame 2 4095, 2), (ex_frame 3 1, 3), (ex_frame 4 0, 4)])"
  by (rule in_order_delivery [OF _ _ _ ex_books ex_quiet]) code_simp+



text \<open>C22: Receiving a frame neither loses nor duplicates a packet: afterwards the packets that
  were handed up or released together with the packets in the reordering buffer are those of
  before plus exactly the one received, whatever the case the handler takes.\<close>
theorem Indicate_conserves_packets:
  assumes "lists_ok pAd e" and "Indicate_AMPDU_entry pAd e r Now32 = (pAd', e')"
  shows "packets pAd' e' = add_mset (rx_packet r) (packets pAd e)"
  using Indicate_books [OF assms] by (simp add: takes_def)

theorem Indicate_conserves_packets_witness:
  "packets (fst (Indicate_AMPDU_entry (ex_env 2) (ex_entry 7) (ex_frame 1 9) 5))
     (snd (Indicate_AMPDU_entry (ex_env 2) (ex_entry 7) (ex_frame 1 9) 5))
   = add_mset 1 (packets (ex_env 2) (ex_entry 7))"
  using Indicate_conserves_packets [of "ex_env 2" "ex_entry 7" "ex_frame 1 9" 5, OF _ prod.collapse [symmetric]]
  by (simp add: lists_ok_def ex_env_def ex_entry_def ex_frame_def)

text \<open>Receiving a frame that is not an EAPOL frame keeps every reordering block accounted
  for: the blocks of the free list and of the buffer are the same as before.\<close>
theorem Indicate_conserves_blocks:
  assumes "lists_ok pAd e" "\<not> rx_EAP r" "Indicate_AMPDU_entry pAd e r Now32 = (pAd', e')"
  shows "blocks pAd' e' = blocks pAd e \<and> lists_ok pAd' e'"
  using Indicate_books [OF assms(1,3)] assms(2) by (simp add: takes_def)

theorem Indicate_conserves_blocks_witness:
  "blocks (fst (Indicate_AMPDU_entry (ex_env 2) (ex_entry 7) (ex_frame 1 9) 5))
     (snd (Indicate_AMPDU_entry (ex_env 2) (ex_entry 7) (ex_frame 1 9) 5))
   = blocks (ex_env 2) (ex_entry 7)"
  using Indicate_conserves_blocks [of "ex_env 2" "ex_entry 7" "ex_frame 1 9" 5, OF _ _ prod.collapse [symmetric]]
  by (simp add: lists_ok_def ex_env_def ex_entry_def ex_frame_def)

text \<open>An EAPOL frame that takes the buffering path while the pool has a free block loses
  that block for good: it is neither in the free list nor in the buffer afterwards.\<close>
theorem eapol_leaks_block:
  assumes "lists_ok pAd e" "rx_EAP r" "chain (freelist pAd) = a # ms"
    and "ba_enqueue_reordering_packet pAd e r = (pAd', e')"
  shows "add_mset (blk a) (blocks pAd' e') = blocks pAd e"
proof -
  have l: "list_ok (freelist pAd)" using assms(1) by (simp add: lists_ok_def)
  then have al: "ba_mpdu_blk_alloc pAd = (Some (zero_mpdu (blk a)), pAd\<lparr>freelist := mk_list ms\<rparr>)"
    using assms(3) list_okD [OF l] by (simp add: ba_mpdu_blk_alloc_def)
  define pAd0 where "pAd0 = pAd\<lparr>freelist := mk_list ms\<rparr>"
  have bad: "\<not> bufferable pAd r" using assms(2) by (simp add: bufferable_def)
  have 0: "lists_ok pAd0 e" using assms(1) by (simp add: pAd0_def lists_ok_def)
  obtain pAd1 e1 where le: "ba_indicate_reordering_mpdus_le_seq pAd0 e (ucast (rx_Sequence r)) = (pAd1, e1)"
    by (cases "ba_indicate_reordering_mpdus_le_seq pAd0 e (ucast (rx_Sequence r))")
  have "blocks pAd' e' = blocks pAd0 e"
    using assms(4) le_seq_books [OF 0 le] le
    by (auto simp: enqueue_not_bufferable [OF bad] al INDICATE_eq same_books_def simp flip: pAd0_def)
  then show ?thesis by (simp add: pAd0_def blocks_def assms(3))
qed

theorem eapol_leaks_block_witness:
  "add_mset 0 (blocks
     (fst (ba_enqueue_reordering_packet (ex_env 2) (ex_entry 7) ((ex_frame 1 9)\<lparr>rx_EAP := True\<rparr>)))
     (snd (ba_enqueue_reordering_packet (ex_env 2) (ex_entry 7) ((ex_frame 1 9)\<lparr>rx_EAP := True\<rparr>))))
   = blocks (ex_env 2) (ex_entry 7)"
  using eapol_leaks_block [of "ex_env 2" "ex_entry 7" "(ex_frame 1 9)\<lparr>rx_EAP := True\<rparr>"
      "zero_mpdu 0" "[zero_mpdu 1]", OF _ _ _ prod.collapse [symmetric]]
  by (simp add: lists_ok_def ex_env_def ex_entry_def ex_frame_def zero_mpdu_def upt_rec)

text \<open>\<open>ba_reordering_mpdu_insertsorted\<close> on a well formed buffer refuses exactly the
  sequence numbers already in it, leaving the list as it is, and otherwise adds the block and
  keeps the buffer well formed.\<close>
theorem insertsorted_correct:
  assumes "rec_ok e" "LastIndSeq e \<noteq> RESET_RCV_SEQ"
    and "1 \<le> ofs (base e) (Sequence b)" "ofs (base e) (Sequence b) \<le> win e"
    and "0 \<le> Sequence b" "Sequence b < 4096"
    and "ba_reordering_mpdu_insertsorted (re_list e) b = (ins, l)"
  shows "rec_ok (e\<lparr>re_list := l\<rparr>) \<and>
    (ins \<longleftrightarrow> Sequence b \<notin> Sequence ` set (chain (re_list e))) \<and>
    mset (chain l) = (if ins then add_mset b (mset (chain (re_list e))) else mset (chain (re_list e))) \<and>
    (\<not> ins \<longrightarrow> l = re_list e)"
  using insertsorted_spec [OF assms] by (simp add: image_iff) metis

theorem insertsorted_correct_witness:
  "fst (ba_reordering_mpdu_insertsorted (re_list (ex_entry 7)) (filled (ex_frame 1 9) (zero_mpdu 0)))"
proof -
  have "ba_reordering_mpdu_insertsorted (re_list (ex_entry 7)) (filled (ex_frame 1 9) (zero_mpdu 0)) =
    (True, mk_list [filled (ex_frame 1 9) (zero_mpdu 0)])" by code_simp
  from insertsorted_correct [OF _ _ _ _ _ _ this]
  have "True \<longleftrightarrow> Sequence (filled (ex_frame 1 9) (zero_mpdu 0)) \<notin> Sequence ` set (chain (re_list (ex_entry 7)))"
    by (rule conjunct1 [OF conjunct2]; code_simp)
  then show ?thesis by code_simp
qed

text \<open>The assertion of \<open>ba_enqueue_reordering_packet\<close> holds after every frame: the queue
  length is never negative and never exceeds the window size of the session.\<close>
theorem qlen_within_window:
  assumes "rec_inv e" "1 \<le> win e" "pool_ok pAd" "\<not> rx_EAP r" "LastIndSeq e \<noteq> RESET_RCV_SEQ"
    and "\<not> flush_all pAd e Now32" "Indicate_AMPDU_entry pAd e r Now32 = (pAd', e')"
  shows "0 \<le> qlen (re_list e') \<and> qlen (re_list e') \<le> uint (rBAWinSize e')
    \<and> rBAWinSize e' = rBAWinSize e"
proof -
  have st: "step_ok (<) max_advance pAd e pAd' e'" and "rec_inv e'"
    using Indicate_step(2) [OF assms(1,5,2,6,7,3,4)] by auto
  then have k: "rec_ok e'" "LastIndSeq e' \<noteq> RESET_RCV_SEQ" "rBAWinSize e' = rBAWinSize e"
    using step_okD [OF st] by (auto simp: step_ok_def)
  show ?thesis
    using buf_ok_length [OF rec_okD(4) [OF k(1,2)] win_bounds(1)] rec_okD(1) [OF k(1,2)] k(3)
    by (simp add: list_ok_def)
qed

theorem qlen_within_window_witness:
  "0 \<le> qlen (re_list (snd (Indicate_AMPDU_entry (ex_env 2) (ex_entry 7) (ex_frame 1 9) 5))) \<and>
    qlen (re_list (snd (Indicate_AMPDU_entry (ex_env 2) (ex_entry 7) (ex_frame 1 9) 5)))
      \<le> uint (rBAWinSize (snd (Indicate_AMPDU_entry (ex_env 2) (ex_entry 7) (ex_frame 1 9) 5))) \<and>
    rBAWinSize (snd (Indicate_AMPDU_entry (ex_env 2) (ex_entry 7) (ex_frame 1 9) 5))
      = rBAWinSize (ex_entry 7)"
  by (rule qlen_within_window [OF _ _ _ _ _ _ prod.collapse [symmetric]]) code_simp+

text \<open>A Block Ack Request whose starting sequence is ahead of the session releases the
  buffered frames up to and including the starting one, but records the sequence number before
  it as the last indicated: the starting frame, if it was buffered, has been delivered and a
  further copy of it is the one the session takes as next in order.\<close>
theorem bar_redelivers_start:
  assumes "rec_inv e" "SEQ_SMALLER (base e) (uint S) MAXSEQ" "bar_advance pAd e S = (pAd', e')"
    and "m \<in> set (chain (re_list e))" "Sequence m = uint S"
  shows "ann_event m \<in> set (events pAd') \<and> SEQ_STEPONE (uint S) (base e') MAXSEQ"
proof -
  obtain pAd1 e1 where le: "ba_indicate_reordering_mpdus_le_seq pAd e (ucast S) = (pAd1, e1)"
    by (cases "ba_indicate_reordering_mpdus_le_seq pAd e (ucast S)")
  have r: "pAd' = pAd1"
    "e' = e1\<lparr>LastIndSeq := (if S = 0 then of_int MAXSEQ else ucast S - 1)\<rparr>"
    using assms(2,3) le by (simp_all add: bar_advance_def)
  have l: "list_ok (re_list e)" using assms(1) by (simp add: rec_inv_def rec_ok_def)
  have b: "base e' = (uint S - 1) mod 4096" using uint_pred12 [of S] by (simp add: r)
  then have one: "SEQ_STEPONE (uint S) (base e') MAXSEQ"
    using seq12 [of S] by (simp add: SEQ_STEPONE_iff mod_add_left_eq)
  then have o: "ofs (base e') (uint S) = 1" using SEQ_STEPONE_ofs seq12 by blast
  have "rec_inv e'" by (rule bar_inv [OF assms(1,3)])
  then have "m \<notin> set (chain (re_list e'))" using o assms(5) by (auto simp: rec_inv_def)
  then have "m \<notin> set (dropWhile (le_pred (uint (ucast S :: u16))) (chain (re_list e)))"
    using le by (auto simp: r indicate_le_seq_eq [OF l])
  then have "m \<in> set (takeWhile (le_pred (uint (ucast S :: u16))) (chain (re_list e)))"
    using assms(4) by (metis UnE set_append takeWhile_dropWhile_id)
  then show ?thesis using le one by (auto simp: r indicate_le_seq_eq [OF l])
qed

definition ex_buffered :: "ba_rec_entry" where
  "ex_buffered = snd (Indicate_AMPDU_entry (ex_env 2) (ex_entry 7) (ex_frame 1 9) 5)"

theorem bar_redelivers_start_witness:
  "ann_event (filled (ex_frame 1 9) (zero_mpdu 0))
     \<in> set (events (fst (bar_advance (ex_env 1) ex_buffered 9))) \<and>
   SEQ_STEPONE (uint (9 :: 12 word)) (base (snd (bar_advance (ex_env 1) ex_buffered 9))) MAXSEQ"
  by (rule bar_redelivers_start [OF _ _ prod.collapse [symmetric]]) code_simp+

end
