(* ===== verification/BaSession.thy ===== *)
theory BaSession
  imports BaBooks
begin

text \<open>
  The Block Ack session tables of \<open>rt3370/common/ba_action.c\<close> and \<open>BATableInit\<close> of
  \<open>mlme.c\<close>: set-up and tear-down of originator and recipient sessions, the time-outs,
  the ADDBA and DELBA frame handlers, and the entry points of the receive path that
  find a session by station and traffic identifier.

  The adapter is a record with what this code uses: the two tables and their
  counters, the stations of the MAC table, the receive environment, the settings the
  code tests, and a log of frames sent, messages queued and writes to the chip.
  \<open>allocs\<close> are the outcomes of the coming memory allocations (none left: success).
  An access of an 8-element traffic array at a traffic identifier the frame gives is
  out of the array from 8 on: the result of such a handler is \<open>None\<close>.
\<close>

section \<open>Data\<close>

definition NUM_OF_TID :: nat where "NUM_OF_TID = 8"
definition MAX_LEN_OF_MAC_TABLE :: nat where "MAX_LEN_OF_MAC_TABLE = 32"
definition MAX_LEN_OF_BA_REC_TABLE :: nat where
  "MAX_LEN_OF_BA_REC_TABLE = (NUM_OF_TID * MAX_LEN_OF_MAC_TABLE) div 2"
definition MAX_LEN_OF_BA_ORI_TABLE :: nat where
  "MAX_LEN_OF_BA_ORI_TABLE = (NUM_OF_TID * MAX_LEN_OF_MAC_TABLE) div 2"
definition ORI_SESSION_MAX_RETRY :: u8 where "ORI_SESSION_MAX_RETRY = 8"
definition ORI_BA_SESSION_TIMEOUT :: u32 where "ORI_BA_SESSION_TIMEOUT = 2000"
definition REC_BA_SESSION_IDLE_TIMEOUT :: u32 where "REC_BA_SESSION_IDLE_TIMEOUT = 1000"
definition MGMT_DMA_BUFFER_SIZE :: nat where "MGMT_DMA_BUFFER_SIZE = 1600"

datatype ORI_BLOCKACK_STATUS =
  Originator_NONE | Originator_USED | Originator_WaitRes | Originator_Done

record ba_ori_entry =
  oWcid :: nat
  oTID :: nat
  oBAWinSize :: u8
  oToken :: u8
  oSequence :: u16
  oTimeOutValue :: u16
  ORI_BA_Status :: ORI_BLOCKACK_STATUS
  ORIBATimer :: RALINK_TIMER_STRUCT

record mac_entry =
  Aid :: u16
  Addr :: nat                   \<comment> \<open>the MAC address\<close>
  EntryNone :: bool             \<comment> \<open>\<open>IS_ENTRY_NONE\<close>\<close>
  HtSta :: bool                 \<comment> \<open>\<open>IS_HT_STA\<close>\<close>
  EncryptionDisabled :: bool    \<comment> \<open>\<open>WepStatus\<close> is \<open>Ndis802_11EncryptionDisabled\<close>\<close>
  MaxRAmpduFactor :: u8
  RXBAbitmap :: u16
  TXBAbitmap :: u16
  BADeclineBitmap :: u16
  BARecWcidArray :: "nat list"
  BAOriWcidArray :: "nat list"
  TxSeq :: "u16 list"

datatype ba_ctl =
    Send_BAR nat nat u16                  \<comment> \<open>station, TID, starting sequence\<close>
  | Send_ADDBA_RSP nat nat nat nat        \<comment> \<open>station, status code, TID, buffer size\<close>
  | Mlme_DELBA nat nat bool               \<comment> \<open>\<open>MlmeDELBAAction\<close>: station, TID, as originator\<close>
  | Mlme_ADDBA nat nat u8 u8              \<comment> \<open>queued ADDBA request: station, TID, token, buffer size\<close>
  | ADD_BA_SESSION_TO_ASIC nat nat
  | DEL_BA_SESSION_FROM_ASIC nat nat

record ba_adapter =
  env :: rx_env
  numAsRecipient :: u32
  numAsOriginator :: u32
  numDoneOriginator :: u32
  BAOriEntry :: "ba_ori_entry list"
  BARecEntry :: "ba_rec_entry list"
  MacTab :: "mac_entry list"
  ctl :: "ba_ctl list"
  allocs :: "bool list"
  MACVersion :: u32
  AutoBA :: bool
  RxBAWinLimit :: u8
  bBADecline :: bool
  FixedTxMode :: u8
  HaltInProgress :: bool        \<comment> \<open>\<open>HALT_IN_PROGRESS\<close> or \<open>NIC_NOT_EXIST\<close>\<close>
  MonitorOn :: bool
  AteOn :: bool
  ScanHold :: bool              \<comment> \<open>infrastructure mode, scanning, media connected\<close>
  TGnWifiTest :: bool

definition log :: "ba_ctl \<Rightarrow> ba_adapter \<Rightarrow> ba_adapter" where
  "log x pAd = pAd\<lparr>ctl := ctl pAd @ [x]\<rparr>"

definition os_alloc_mem :: "ba_adapter \<Rightarrow> bool \<times> ba_adapter" where
  "os_alloc_mem pAd = (case allocs pAd of [] \<Rightarrow> (True, pAd) | b # bs \<Rightarrow> (b, pAd\<lparr>allocs := bs\<rparr>))"

definition upd_mac :: "nat \<Rightarrow> (mac_entry \<Rightarrow> mac_entry) \<Rightarrow> ba_adapter \<Rightarrow> ba_adapter" where
  "upd_mac w f pAd = pAd\<lparr>MacTab := (MacTab pAd)[w := f (MacTab pAd ! w)]\<rparr>"

definition upd_rec :: "nat \<Rightarrow> (ba_rec_entry \<Rightarrow> ba_rec_entry) \<Rightarrow> ba_adapter \<Rightarrow> ba_adapter" where
  "upd_rec i f pAd = pAd\<lparr>BARecEntry := (BARecEntry pAd)[i := f (BARecEntry pAd ! i)]\<rparr>"

definition upd_ori :: "nat \<Rightarrow> (ba_ori_entry \<Rightarrow> ba_ori_entry) \<Rightarrow> ba_adapter \<Rightarrow> ba_adapter" where
  "upd_ori i f pAd = pAd\<lparr>BAOriEntry := (BAOriEntry pAd)[i := f (BAOriEntry pAd ! i)]\<rparr>"

text \<open>An operation of the receive path on entry \<open>i\<close>: the environment and the entry change.\<close>

definition on_rec :: "nat \<Rightarrow> (rx_env \<Rightarrow> ba_rec_entry \<Rightarrow> rx_env \<times> ba_rec_entry) \<Rightarrow> ba_adapter \<Rightarrow> ba_adapter" where
  "on_rec i f pAd = (case f (env pAd) (BARecEntry pAd ! i) of
     (v, e) \<Rightarrow> pAd\<lparr>env := v, BARecEntry := (BARecEntry pAd)[i := e]\<rparr>)"

definition tid_bit :: "nat \<Rightarrow> u16" where "tid_bit TID = push_bit TID 1"

section \<open>Window size\<close>

definition RALINK_2883_VERSION :: u32 where "RALINK_2883_VERSION = 0x28830300"
definition RALINK_3070_VERSION :: u32 where "RALINK_3070_VERSION = 0x30700200"
definition RALINK_2880E_VERSION :: u32 where "RALINK_2880E_VERSION = 0x28720200"

definition BA_MaxWinSizeReasign :: "ba_adapter \<Rightarrow> mac_entry \<Rightarrow> u8 \<Rightarrow> u8" where
  "BA_MaxWinSizeReasign pAd pEntryPeer WinSize =
    (let MaxPeerRxSize = (of_int ((push_bit (unat (MaxRAmpduFactor pEntryPeer) + 3) 1 * 10) div 16 - 1) :: u8);
         MaxSize = (if MACVersion pAd \<ge> RALINK_2883_VERSION then
                      if MACVersion pAd \<ge> RALINK_3070_VERSION then
                        if \<not> EncryptionDisabled pEntryPeer then 7 else 13
                      else 31
                    else if MACVersion pAd \<ge> RALINK_2880E_VERSION then
                      if \<not> EncryptionDisabled pEntryPeer then 7 else 13
                    else 7) :: u8;
         MaxSize = min MaxPeerRxSize MaxSize
     in if WinSize > MaxSize then MaxSize else WinSize)"

section \<open>The tables\<close>

fun clear_recs :: "nat \<Rightarrow> ba_rec_entry list \<Rightarrow> ba_rec_entry list" where
  "clear_recs 0 es = es"
| "clear_recs (Suc n) es = (clear_recs n es)[n := (clear_recs n es ! n)\<lparr>REC_BA_Status := Recipient_NONE\<rparr>]"

fun clear_oris :: "nat \<Rightarrow> ba_ori_entry list \<Rightarrow> ba_ori_entry list" where
  "clear_oris 0 es = es"
| "clear_oris (Suc n) es = (clear_oris n es)[n := (clear_oris n es ! n)\<lparr>ORI_BA_Status := Originator_NONE\<rparr>]"

definition BATableInit :: "ba_adapter \<Rightarrow> ba_adapter" where
  "BATableInit pAd = pAd\<lparr>numAsOriginator := 0, numAsRecipient := 0, numDoneOriginator := 0,
     BARecEntry := clear_recs MAX_LEN_OF_BA_REC_TABLE (BARecEntry pAd),
     BAOriEntry := clear_oris MAX_LEN_OF_BA_ORI_TABLE (BAOriEntry pAd)\<rparr>"

text \<open>The two allocators scan from index 1. Their result is the entry pointer, as an
  index, and the value left in \<open>*Idx\<close>, which is unchanged unless a free entry is
  found. When the scan finds none, the pointer is left at the last entry.\<close>

fun rec_scan :: "nat \<Rightarrow> nat \<Rightarrow> ba_adapter \<Rightarrow> nat \<Rightarrow> nat option \<times> nat \<times> ba_adapter" where
  "rec_scan 0 i pAd Idx = (Some (i - 1), Idx, pAd)"
| "rec_scan (Suc n) i pAd Idx =
    (if REC_BA_Status (BARecEntry pAd ! i) = Recipient_NONE then
       (Some i, i, upd_rec i (\<lambda>e. e\<lparr>REC_BA_Status := Recipient_USED\<rparr>)
                     (pAd\<lparr>numAsRecipient := numAsRecipient pAd + 1\<rparr>))
     else rec_scan n (i + 1) pAd Idx)"

definition BATableAllocRecEntry :: "ba_adapter \<Rightarrow> nat \<Rightarrow> nat option \<times> nat \<times> ba_adapter" where
  "BATableAllocRecEntry pAd Idx =
    (if unat (numAsRecipient pAd) \<ge> MAX_LEN_OF_BA_REC_TABLE - 1 then (None, Idx, pAd)
     else rec_scan (MAX_LEN_OF_BA_REC_TABLE - 1) 1 pAd Idx)"

fun ori_scan :: "nat \<Rightarrow> nat \<Rightarrow> ba_adapter \<Rightarrow> nat \<Rightarrow> nat option \<times> nat \<times> ba_adapter" where
  "ori_scan 0 i pAd Idx = (Some (i - 1), Idx, pAd)"
| "ori_scan (Suc n) i pAd Idx =
    (if ORI_BA_Status (BAOriEntry pAd ! i) = Originator_NONE then
       (Some i, i, upd_ori i (\<lambda>e. e\<lparr>ORI_BA_Status := Originator_USED\<rparr>)
                     (pAd\<lparr>numAsOriginator := numAsOriginator pAd + 1\<rparr>))
     else ori_scan n (i + 1) pAd Idx)"

definition BATableAllocOriEntry :: "ba_adapter \<Rightarrow> nat \<Rightarrow> nat option \<times> nat \<times> ba_adapter" where
  "BATableAllocOriEntry pAd Idx =
    (if unat (numAsOriginator pAd) \<ge> MAX_LEN_OF_BA_ORI_TABLE - 1 then (None, Idx, pAd)
     else ori_scan (MAX_LEN_OF_BA_ORI_TABLE - 1) 1 pAd Idx)"

definition BATableFreeOriEntry :: "nat \<Rightarrow> ba_adapter \<Rightarrow> ba_adapter" where
  "BATableFreeOriEntry Idx pAd =
    (if Idx = 0 \<or> Idx \<ge> MAX_LEN_OF_BA_ORI_TABLE then pAd
     else let pBAEntry = BAOriEntry pAd ! Idx
       in if ORI_BA_Status pBAEntry \<noteq> Originator_NONE then
            (let w = oWcid pBAEntry;
                 pAd = upd_mac w (\<lambda>m. m\<lparr>BAOriWcidArray := (BAOriWcidArray m)[oTID pBAEntry := 0]\<rparr>) pAd;
                 pAd = (if ORI_BA_Status pBAEntry = Originator_Done then
                          upd_mac w (\<lambda>m. m\<lparr>TXBAbitmap := TXBAbitmap m AND NOT (tid_bit (oTID pBAEntry))\<rparr>)
                            (pAd\<lparr>numDoneOriginator := numDoneOriginator pAd - 1\<rparr>)
                        else pAd);
                 pAd = pAd\<lparr>numAsOriginator := numAsOriginator pAd - 1\<rparr>
             in upd_ori Idx (\<lambda>e. e\<lparr>ORI_BA_Status := Originator_NONE, oToken := 0\<rparr>) pAd)
          else pAd)"

definition BATableFreeRecEntry :: "nat \<Rightarrow> ba_adapter \<Rightarrow> ba_adapter" where
  "BATableFreeRecEntry Idx pAd =
    (if Idx = 0 \<or> Idx \<ge> MAX_LEN_OF_BA_REC_TABLE then pAd
     else let pBAEntry = BARecEntry pAd ! Idx
       in if REC_BA_Status pBAEntry \<noteq> Recipient_NONE then
            (let pAd = upd_mac (rWcid pBAEntry)
                         (\<lambda>m. m\<lparr>BARecWcidArray := (BARecWcidArray m)[rTID pBAEntry := 0]\<rparr>) pAd;
                 pAd = pAd\<lparr>numAsRecipient := numAsRecipient pAd - 1\<rparr>
             in upd_rec Idx (\<lambda>e. e\<lparr>REC_BA_Status := Recipient_NONE\<rparr>) pAd)
          else pAd)"

section \<open>Originator sessions\<close>

definition BAOriSessionSetUp ::
  "nat \<Rightarrow> nat \<Rightarrow> u16 \<Rightarrow> u32 \<Rightarrow> bool \<Rightarrow> ba_adapter \<Rightarrow> ba_adapter" where
  "BAOriSessionSetUp w TID TimeOut DelayTime isForced pAd =
    (let pEntry = MacTab pAd ! w
     in if TID \<ge> NUM_OF_TID then pAd
        else if \<not> AutoBA pAd \<and> \<not> isForced then pAd
        else if FixedTxMode pAd \<noteq> 0 then pAd
        else
          let DelayTime = (if BADeclineBitmap pEntry AND tid_bit TID \<noteq> 0 \<and> \<not> isForced
                           then 3000 else DelayTime);
              Idx = BAOriWcidArray pEntry ! TID;
              (pBAEntry, Idx, pAd) =
                (if Idx = 0 then BATableAllocOriEntry pAd Idx else (Some Idx, Idx, pAd))
          in case pBAEntry of
               None \<Rightarrow> pAd
             | Some e \<Rightarrow>
                 if ORI_BA_Status (BAOriEntry pAd ! e) \<in> {Originator_WaitRes, Originator_Done} then pAd
                 else
                   let pAd = upd_mac w (\<lambda>m. m\<lparr>BAOriWcidArray := (BAOriWcidArray m)[TID := Idx]\<rparr>) pAd
                   in upd_ori e (\<lambda>b. b\<lparr>ORI_BA_Status := Originator_WaitRes,
                        oWcid := unat (ucast (Aid pEntry) :: u8),
                        oBAWinSize := RxBAWinLimit pAd,
                        oSequence := TxSeq pEntry ! TID,
                        oToken := 1, oTID := TID, oTimeOutValue := TimeOut,
                        ORIBATimer := RTMPSetTimer (HaltInProgress pAd)
                          (if TXBAbitmap pEntry AND tid_bit TID = 0
                           then RTMPInitTimer (ORIBATimer b) False
                           else RTMPCancelTimer (ORIBATimer b)) DelayTime\<rparr>) pAd)"

text \<open>The ADDBA response frame, as far as it is read: the traffic identifier is 4 bits
  wide, the buffer size 10 bits.\<close>

record addba_frame =
  f_TID :: nat
  f_BufSize :: nat
  f_TimeOut :: u16
  f_Status :: u16
  f_PolicyImmed :: bool
  f_LenOk :: bool            \<comment> \<open>the message is at least as long as the frame type\<close>

definition BAOriSessionAdd :: "nat \<Rightarrow> addba_frame \<Rightarrow> ba_adapter \<Rightarrow> ba_adapter option" where
  "BAOriSessionAdd w pFrame pAd =
    (let TID = f_TID pFrame; pEntry = MacTab pAd ! w
     in if TID \<ge> NUM_OF_TID then None
        else
          let Idx = BAOriWcidArray pEntry ! TID; pBAEntry = BAOriEntry pAd ! Idx
          in if Idx \<noteq> 0 \<and> oTID pBAEntry = TID \<and> ORI_BA_Status pBAEntry = Originator_WaitRes then
               (let MaxPeerBufSize = (of_nat (f_BufSize pFrame) :: u8);
                    MaxPeerBufSize = (if MaxPeerBufSize > 0 then MaxPeerBufSize - 1 else 0);
                    Win = BA_MaxWinSizeReasign pAd pEntry (min (oBAWinSize pBAEntry) MaxPeerBufSize);
                    pAd = upd_ori Idx (\<lambda>b. b\<lparr>oBAWinSize := Win, oTimeOutValue := f_TimeOut pFrame,
                            ORI_BA_Status := Originator_Done, oSequence := TxSeq pEntry ! TID,
                            ORIBATimer := (RTMPCancelTimer (ORIBATimer b))\<lparr>TimerValue := 0\<rparr>\<rparr>)
                          (upd_mac w (\<lambda>m. m\<lparr>TXBAbitmap := TXBAbitmap m OR tid_bit TID\<rparr>)
                            (pAd\<lparr>numDoneOriginator := numDoneOriginator pAd + 1\<rparr>));
                    (ok, pAd) = os_alloc_mem pAd
                in if \<not> ok then Some pAd
                   else Some (log (Send_BAR (oWcid (BAOriEntry pAd ! Idx)) TID
                                     (oSequence (BAOriEntry pAd ! Idx))) pAd))
             else Some pAd)"

text \<open>\<open>BAOriSessionTearDown\<close>; sending the DELBA frame goes through \<open>MlmeDELBAAction\<close>.\<close>

definition BAOriSessionTearDown ::
  "nat \<Rightarrow> nat \<Rightarrow> bool \<Rightarrow> bool \<Rightarrow> ba_adapter \<Rightarrow> ba_adapter option" where
  "BAOriSessionTearDown w TID bPassive bForceSend pAd =
    (if w \<ge> MAX_LEN_OF_MAC_TABLE then Some pAd
     else if TID \<ge> NUM_OF_TID then None
     else
       let Idx = BAOriWcidArray (MacTab pAd ! w) ! TID
       in if Idx = 0 \<or> Idx \<ge> MAX_LEN_OF_BA_ORI_TABLE then
            (if bForceSend then
               (case os_alloc_mem pAd of (ok, pAd) \<Rightarrow>
                  Some (if ok then log (Mlme_DELBA w TID True) pAd else pAd))
             else Some pAd)
          else
            let pBAEntry = BAOriEntry pAd ! Idx;
                (ok, pAd) =
                  (if \<not> bPassive \<and> TID = oTID pBAEntry \<and> ORI_BA_Status pBAEntry = Originator_Done then
                     (case os_alloc_mem pAd of (ok, pAd) \<Rightarrow>
                        (ok, if ok then log (Mlme_DELBA w (oTID pBAEntry) True) pAd else pAd))
                   else (True, pAd))
            in if \<not> ok then Some pAd
               else Some (BATableFreeOriEntry Idx
                      (upd_ori Idx (\<lambda>b. b\<lparr>ORIBATimer := RTMPCancelTimer (ORIBATimer b)\<rparr>) pAd)))"

definition BAOriSessionSetupTimeout :: "nat \<Rightarrow> ba_adapter \<Rightarrow> ba_adapter" where
  "BAOriSessionSetupTimeout Idx pAd =
    (if MonitorOn pAd then pAd
     else if AteOn pAd then pAd
     else
       let pBAEntry = BAOriEntry pAd ! Idx; pEntry = MacTab pAd ! oWcid pBAEntry
       in if ORI_BA_Status pBAEntry = Originator_WaitRes \<and> oToken pBAEntry < ORI_SESSION_MAX_RETRY then
            (let rearm = (\<lambda>b. b\<lparr>ORIBATimer := RTMPSetTimer (HaltInProgress pAd) (ORIBATimer b)
                                 ORI_BA_SESSION_TIMEOUT\<rparr>)
             in if ScanHold pAd then upd_ori Idx rearm pAd
                else upd_ori Idx (\<lambda>b. rearm (b\<lparr>oToken := oToken b + 1\<rparr>))
                       (log (Mlme_ADDBA (unat (ucast (Aid pEntry) :: u8)) (oTID pBAEntry)
                               (oToken pBAEntry) (RxBAWinLimit pAd)) pAd))
          else BATableFreeOriEntry (BAOriWcidArray pEntry ! oTID pBAEntry) pAd)"

section \<open>Recipient sessions\<close>

definition BARecSessionAdd :: "nat \<Rightarrow> addba_frame \<Rightarrow> ba_adapter \<Rightarrow> (bool \<times> ba_adapter) option" where
  "BARecSessionAdd w pFrame pAd =
    (let TID = f_TID pFrame; pEntry = MacTab pAd ! w;
         BAWinSize = min (of_nat (f_BufSize pFrame) :: u8) (RxBAWinLimit pAd);
         BAWinSize = (if BAWinSize = 0 then 64 else BAWinSize)
     in if TID \<ge> NUM_OF_TID then None
        else
          let Idx = BARecWcidArray pEntry ! TID;
              (pBAEntry, Idx, pAd) =
                (if Idx = 0 then BATableAllocRecEntry pAd Idx
                 else (Some Idx, Idx, on_rec Idx ba_refresh_reordering_mpdus pAd))
          in case pBAEntry of
               None \<Rightarrow> Some (False, pAd)
             | Some e \<Rightarrow>
                 let pAd = upd_rec e (\<lambda>b. b\<lparr>rBAWinSize := BAWinSize,
                             rWcid := unat (ucast (Aid pEntry) :: u8), rTID := TID,
                             rTimeOutValue := f_TimeOut pFrame, REC_BA_Status := Recipient_Accept,
                             LastIndSeq := RESET_RCV_SEQ,
                             RECBATimer := (if RXBAbitmap pEntry AND tid_bit TID \<noteq> 0
                               then RTMPCancelTimer (RECBATimer b)
                               else RTMPInitTimer (RECBATimer b) True)\<rparr>) pAd;
                     pAd = upd_mac w (\<lambda>m. m\<lparr>RXBAbitmap := RXBAbitmap m OR tid_bit TID,
                             BARecWcidArray := (BARecWcidArray m)[TID := Idx],
                             BADeclineBitmap := BADeclineBitmap m AND NOT (tid_bit TID)\<rparr>) pAd
                 in Some (True, log (ADD_BA_SESSION_TO_ASIC (unat (Aid pEntry)) TID) pAd))"

definition BARecSessionTearDown :: "nat \<Rightarrow> nat \<Rightarrow> bool \<Rightarrow> ba_adapter \<Rightarrow> ba_adapter option" where
  "BARecSessionTearDown w TID bPassive pAd =
    (if w \<ge> MAX_LEN_OF_MAC_TABLE then Some pAd
     else if TID \<ge> NUM_OF_TID then None
     else
       let Idx = BARecWcidArray (MacTab pAd ! w) ! TID
       in if Idx = 0 then Some pAd
          else
            let pBAEntry = BARecEntry pAd ! Idx
            in if TID = rTID pBAEntry \<and> REC_BA_Status pBAEntry = Recipient_Accept then
                 (let pAd = upd_rec Idx (\<lambda>b. b\<lparr>RECBATimer := RTMPCancelTimer (RECBATimer b)\<rparr>) pAd;
                      (ok, pAd) =
                        (if \<not> bPassive then
                           (case os_alloc_mem pAd of (ok, pAd) \<Rightarrow>
                              (ok, if ok then log (Mlme_DELBA w TID False) pAd else pAd))
                         else (True, pAd))
                  in if \<not> ok then Some pAd
                     else
                       let pAd = on_rec Idx ba_refresh_reordering_mpdus pAd;
                           pAd = upd_rec Idx (\<lambda>b. b\<lparr>LastIndSeq := RESET_RCV_SEQ, rBAWinSize := 0\<rparr>) pAd;
                           pAd = upd_mac w (\<lambda>m. m\<lparr>
                                   RXBAbitmap := RXBAbitmap m AND NOT (tid_bit (rTID (BARecEntry pAd ! Idx))),
                                   BARecWcidArray := (BARecWcidArray m)[TID := 0]\<rparr>) pAd;
                           pAd = log (DEL_BA_SESSION_FROM_ASIC w TID) pAd
                       in Some (BATableFreeRecEntry Idx pAd))
               else Some (BATableFreeRecEntry Idx pAd))"

fun tear_down_tids :: "nat \<Rightarrow> nat \<Rightarrow> nat \<Rightarrow> ba_adapter \<Rightarrow> ba_adapter option" where
  "tear_down_tids 0 i w pAd = Some pAd"
| "tear_down_tids (Suc n) i w pAd =
    Option.bind (BAOriSessionTearDown w i False False pAd)
      (\<lambda>pAd. Option.bind (BARecSessionTearDown w i False pAd)
        (\<lambda>pAd. tear_down_tids n (i + 1) w pAd))"

definition BASessionTearDownALL :: "nat \<Rightarrow> ba_adapter \<Rightarrow> ba_adapter option" where
  "BASessionTearDownALL w pAd = tear_down_tids NUM_OF_TID 0 w pAd"

definition BARecSessionIdleTimeout :: "nat \<Rightarrow> u32 \<Rightarrow> ba_adapter \<Rightarrow> ba_adapter" where
  "BARecSessionIdleTimeout Idx Now32 pAd =
    (let pBAEntry = BARecEntry pAd ! Idx
     in if REC_BA_Status pBAEntry = Recipient_Accept then
          (if RTMP_TIME_AFTER Now32 (LastIndSeqAtTimer pBAEntry + REC_BA_SESSION_IDLE_TIMEOUT)
           then on_rec Idx ba_refresh_reordering_mpdus pAd
           else pAd)
        else pAd)"

section \<open>The frame handlers\<close>

definition PeerAddBAReqActionSanity :: "addba_frame \<Rightarrow> bool" where
  "PeerAddBAReqActionSanity f \<longleftrightarrow> f_LenOk f \<and> f_PolicyImmed f"

definition PeerAddBARspActionSanity :: "addba_frame \<Rightarrow> bool" where
  "PeerAddBARspActionSanity f \<longleftrightarrow> f_LenOk f \<and> f_PolicyImmed f"

definition PeerAddBAReqAction :: "nat \<Rightarrow> addba_frame \<Rightarrow> ba_adapter \<Rightarrow> ba_adapter option" where
  "PeerAddBAReqAction w f pAd =
    (if w \<ge> MAX_LEN_OF_MAC_TABLE then Some pAd
     else
       Option.bind
         (if PeerAddBAReqActionSanity f then
            (if \<not> bBADecline pAd \<and> HtSta (MacTab pAd ! w) then
               map_option (\<lambda>(ok, pAd). (if ok then 0 else 38 :: nat, pAd)) (BARecSessionAdd w f pAd)
             else Some (37, pAd))
          else Some (1, pAd))
         (\<lambda>(Status, pAd).
           case os_alloc_mem pAd of (ok, pAd) \<Rightarrow>
             if \<not> ok then Some pAd
             else
               let BufSize = min (of_nat (f_BufSize f) :: u8) (RxBAWinLimit pAd);
                   BufSize = (if BufSize = 0 then 64 else unat BufSize)
               in Some (log (Send_ADDBA_RSP w Status (f_TID f) BufSize) pAd)))"

definition PeerAddBARspAction :: "nat \<Rightarrow> addba_frame \<Rightarrow> ba_adapter \<Rightarrow> ba_adapter option" where
  "PeerAddBARspAction w f pAd =
    (if w \<ge> MAX_LEN_OF_MAC_TABLE then Some pAd
     else if PeerAddBARspActionSanity f then
       map_option (\<lambda>pAd.
           if f_Status f = 37 \<or> (TGnWifiTest pAd \<and> f_Status f \<noteq> 0)
           then upd_mac w (\<lambda>m. m\<lparr>BADeclineBitmap := BADeclineBitmap m OR tid_bit (f_TID f)\<rparr>) pAd
           else pAd)
         (if f_Status f = 0 then BAOriSessionAdd w f pAd
          else BAOriSessionTearDown w (f_TID f) True False pAd)
     else Some pAd)"

record delba_frame =
  d_TID :: nat
  d_Initiator :: bool        \<comment> \<open>the sender is the originator\<close>
  d_LenOk :: bool

definition PeerDelBAActionSanity :: "nat \<Rightarrow> delba_frame \<Rightarrow> bool" where
  "PeerDelBAActionSanity w f \<longleftrightarrow> d_LenOk f \<and> w < MAX_LEN_OF_MAC_TABLE"

definition PeerDelBAAction :: "nat \<Rightarrow> delba_frame \<Rightarrow> ba_adapter \<Rightarrow> ba_adapter option" where
  "PeerDelBAAction w f pAd =
    (if PeerDelBAActionSanity w f then
       (if d_Initiator f then BARecSessionTearDown w (d_TID f) True pAd
        else BAOriSessionTearDown w (d_TID f) True False pAd)
     else Some pAd)"

definition SIZEOF_FRAME_BA_REQ :: nat where "SIZEOF_FRAME_BA_REQ = 20"

definition CntlEnqueueForRecv :: "nat \<Rightarrow> nat \<Rightarrow> nat \<Rightarrow> 12 word \<Rightarrow> ba_adapter \<Rightarrow> bool \<times> ba_adapter" where
  "CntlEnqueueForRecv w MsgLen TID StartSeq pAd =
    (if HaltInProgress pAd then (False, pAd)
     else if MsgLen > MGMT_DMA_BUFFER_SIZE then (False, pAd)
     else if MsgLen \<noteq> SIZEOF_FRAME_BA_REQ then (False, pAd)
     else if w < MAX_LEN_OF_MAC_TABLE \<and> TID < 8 then
       (let Idx = BARecWcidArray (MacTab pAd ! w) ! TID
        in (True, on_rec Idx (\<lambda>v e. bar_advance v e StartSeq) pAd))
     else (False, pAd))"

definition Indicate_AMPDU_Packet :: "nat \<Rightarrow> nat \<Rightarrow> rx_blk \<Rightarrow> u32 \<Rightarrow> ba_adapter \<Rightarrow> ba_adapter option" where
  "Indicate_AMPDU_Packet w TID pRxBlk Now32 pAd =
    (if \<not> rx_AMSDU pRxBlk \<and> DataSize pRxBlk > MAX_RX_PKT_LEN then
       Some (pAd\<lparr>env := emit (RELEASE_NDIS_PACKET (rx_packet pRxBlk) False) (env pAd)\<rparr>)
     else if w < MAX_LEN_OF_MAC_TABLE then
       (if TID \<ge> NUM_OF_TID then None
        else
          let Idx = BARecWcidArray (MacTab pAd ! w) ! TID
          in if Idx = 0 then Some (pAd\<lparr>env := INDICATE_LEGACY_OR_AMSDU (env pAd) pRxBlk\<rparr>)
             else Some (on_rec Idx (\<lambda>v e. Indicate_AMPDU_entry v e pRxBlk Now32) pAd))
     else Some (pAd\<lparr>env := emit (RELEASE_NDIS_PACKET (rx_packet pRxBlk) False) (env pAd)\<rparr>))"

definition maintain_tid :: "nat \<Rightarrow> u32 \<Rightarrow> nat \<Rightarrow> ba_adapter \<Rightarrow> ba_adapter" where
  "maintain_tid w Now32 TID pAd =
    on_rec (BARecWcidArray (MacTab pAd ! w) ! TID)
      (\<lambda>v e. ba_flush_reordering_timeout_mpdus v e Now32) pAd"

definition BaReOrderingBufferMaintain :: "u32 \<Rightarrow> ba_adapter \<Rightarrow> ba_adapter" where
  "BaReOrderingBufferMaintain Now32 pAd =
    fold (\<lambda>w pAd. if EntryNone (MacTab pAd ! w) then pAd
                 else fold (maintain_tid w Now32) [0..<NUM_OF_TID] pAd)
      [1..<MAX_LEN_OF_MAC_TABLE] pAd"

text \<open>Releasing the pool: every frame still buffered in a used entry is released.\<close>

function release_loop :: "reordering_list \<Rightarrow> rx_env \<Rightarrow> reordering_list \<times> rx_env" where
  "release_loop l v =
    (case ba_reordering_mpdu_dequeue l of
       (None, l') \<Rightarrow> (l', v)
     | (Some m, l') \<Rightarrow>
         release_loop l' (ba_mpdu_blk_free m (emit (RELEASE_NDIS_PACKET (pPacket m) False) v)))"
  by pat_completeness auto
termination
  by (relation "measure (\<lambda>(l, _). length (chain l))")
    (auto simp: ba_reordering_mpdu_dequeue_def ba_dequeue_def Let_def split: list.splits if_splits)

declare release_loop.simps [simp del]

definition ba_reordering_resource_release :: "ba_adapter \<Rightarrow> ba_adapter" where
  "ba_reordering_resource_release pAd =
    fold (\<lambda>i pAd. if REC_BA_Status (BARecEntry pAd ! i) \<noteq> Recipient_NONE
                 then on_rec i (\<lambda>v e. case release_loop (re_list e) v of (l, v) \<Rightarrow> (v, e\<lparr>re_list := l\<rparr>)) pAd
                 else pAd)
      [0..<MAX_LEN_OF_BA_REC_TABLE] pAd"

end
