(* ===== verification/BaTables.thy ===== *)
theory BaTables
  imports BaSession
begin

text \<open>
  The session tables stay consistent: every index a station stores for a traffic
  identifier points to the used entry of exactly that station and identifier, every used
  entry is pointed to, and the counters count. Shown once for an abstract table, then for
  the recipient and the originator table through every handler, and by rule induction
  for every reachable state.
\<close>

section \<open>An abstract session table\<close>

definition tab_ok ::
  "nat \<Rightarrow> (nat \<Rightarrow> nat \<Rightarrow> nat) \<Rightarrow> (nat \<Rightarrow> bool) \<Rightarrow> (nat \<Rightarrow> nat) \<Rightarrow> (nat \<Rightarrow> nat) \<Rightarrow> nat \<Rightarrow> bool" where
  "tab_ok N arr used wc td num \<longleftrightarrow>
    (\<forall>w<32. \<forall>t<8. arr w t \<noteq> 0 \<longrightarrow>
       arr w t < N \<and> used (arr w t) \<and> wc (arr w t) = w \<and> td (arr w t) = t) \<and>
    (\<forall>i<N. used i \<longrightarrow> 0 < i \<and> wc i < 32 \<and> td i < 8 \<and> arr (wc i) (td i) = i) \<and>
    num = card {i. i < N \<and> used i}"

lemma tab_ok_cong:
  assumes ok: "tab_ok N arr used wc td num"
    and new: "\<And>w t. w < 32 \<Longrightarrow> t < 8 \<Longrightarrow> arr' w t = arr w t"
    and ent: "\<And>i. i < N \<Longrightarrow> used' i = used i \<and> wc' i = wc i \<and> td' i = td i" and "num' = num"
  shows "tab_ok N arr' used' wc' td' num'"
proof -
  have A: "arr w' t' < N \<and> used (arr w' t') \<and> wc (arr w' t') = w' \<and> td (arr w' t') = t'"
    if "w' < 32" "t' < 8" "arr w' t' \<noteq> 0" for w' t'
    using ok that by (simp add: tab_ok_def)
  have B: "0 < j \<and> wc j < 32 \<and> td j < 8 \<and> arr (wc j) (td j) = j" if "j < N" "used j" for j
    using ok that by (simp add: tab_ok_def)
  have "{i. i < N \<and> used' i} = {i. i < N \<and> used i}" using ent by auto
  then have C: "num' = card {j. j < N \<and> used' j}" using ok assms(4) by (simp add: tab_ok_def)
  have "arr' w' t' < N \<and> used' (arr' w' t') \<and> wc' (arr' w' t') = w' \<and> td' (arr' w' t') = t'"
    if "w' < 32" "t' < 8" "arr' w' t' \<noteq> 0" for w' t'
    using that A [of w' t'] by (simp add: new ent)
  moreover have "0 < j \<and> wc' j < 32 \<and> td' j < 8 \<and> arr' (wc' j) (td' j) = j"
    if "j < N" "used' j" for j
    using that B [of j] by (simp add: new ent)
  ultimately show ?thesis using C by (simp add: tab_ok_def)
qed

lemma tab_ok_add:
  assumes ok: "tab_ok N arr used wc td num" and i: "0 < i" "i < N" "\<not> used i"
    and w: "w < 32" "t < 8" "arr w t = 0"
    and new: "\<And>w' t'. w' < 32 \<Longrightarrow> t' < 8 \<Longrightarrow> arr' w' t' = (if w' = w \<and> t' = t then i else arr w' t')"
    and ent: "\<And>j. j < N \<Longrightarrow> used' j = (j = i \<or> used j) \<and> wc' j = (if j = i then w else wc j) \<and>
        td' j = (if j = i then t else td j)"
    and num: "num' = num + 1"
  shows "tab_ok N arr' used' wc' td' num'"
proof -
  have A: "arr w' t' < N \<and> used (arr w' t') \<and> wc (arr w' t') = w' \<and> td (arr w' t') = t'"
    if "w' < 32" "t' < 8" "arr w' t' \<noteq> 0" for w' t'
    using ok that by (simp add: tab_ok_def)
  have B: "0 < j \<and> wc j < 32 \<and> td j < 8 \<and> arr (wc j) (td j) = j" if "j < N" "used j" for j
    using ok that by (simp add: tab_ok_def)
  have "{j. j < N \<and> used' j} = insert i {j. j < N \<and> used j}" using ent i by auto
  then have C: "num' = card {j. j < N \<and> used' j}"
    using ok i num by (simp add: tab_ok_def card_insert_if)
  have "arr' w' t' < N \<and> used' (arr' w' t') \<and> wc' (arr' w' t') = w' \<and> td' (arr' w' t') = t'"
    if "w' < 32" "t' < 8" "arr' w' t' \<noteq> 0" for w' t'
    using that A [of w' t'] i by (auto simp: new ent)
  moreover have "0 < j \<and> wc' j < 32 \<and> td' j < 8 \<and> arr' (wc' j) (td' j) = j"
    if "j < N" "used' j" for j
    using that B [of j] i w by (auto simp: new ent)
  ultimately show ?thesis using C by (simp add: tab_ok_def)
qed

lemma tab_ok_free:
  assumes ok: "tab_ok N arr used wc td num" and i: "i < N" "used i"
    and new: "\<And>w' t'. w' < 32 \<Longrightarrow> t' < 8 \<Longrightarrow>
        arr' w' t' = (if w' = wc i \<and> t' = td i then 0 else arr w' t')"
    and ent: "\<And>j. j < N \<Longrightarrow> used' j = (j \<noteq> i \<and> used j) \<and> wc' j = wc j \<and> td' j = td j"
    and num: "num' = num - 1"
  shows "tab_ok N arr' used' wc' td' num'" and "0 < num"
proof -
  have A: "arr w' t' < N \<and> used (arr w' t') \<and> wc (arr w' t') = w' \<and> td (arr w' t') = t'"
    if "w' < 32" "t' < 8" "arr w' t' \<noteq> 0" for w' t'
    using ok that by (simp add: tab_ok_def)
  have B: "0 < j \<and> wc j < 32 \<and> td j < 8 \<and> arr (wc j) (td j) = j" if "j < N" "used j" for j
    using ok that by (simp add: tab_ok_def)
  have fin: "i \<in> {j. j < N \<and> used j}" using i by simp
  then show "0 < num" using ok by (auto simp: tab_ok_def card_gt_0_iff)
  have "{j. j < N \<and> used' j} = {j. j < N \<and> used j} - {i}" using ent by auto
  then have C: "num' = card {j. j < N \<and> used' j}"
    using ok fin num by (simp add: tab_ok_def)
  have "arr' w' t' < N \<and> used' (arr' w' t') \<and> wc' (arr' w' t') = w' \<and> td' (arr' w' t') = t'"
    if "w' < 32" "t' < 8" "arr' w' t' \<noteq> 0" for w' t'
    using that A [of w' t'] by (auto simp: new ent split: if_splits)
  moreover have "0 < j \<and> wc' j < 32 \<and> td' j < 8 \<and> arr' (wc' j) (td' j) = j"
    if "j < N" "used' j" for j
    using that B [of j] B [OF i] by (auto simp: new ent)
  ultimately show "tab_ok N arr' used' wc' td' num'" using C by (simp add: tab_ok_def)
qed

text \<open>While the count is below the number of usable entries, one of them is free.\<close>

lemma tab_ok_room:
  assumes ok: "tab_ok N arr used wc td num" and "num < N - 1"
  shows "\<exists>i. 1 \<le> i \<and> i < N \<and> \<not> used i"
proof (rule ccontr)
  assume "\<not> ?thesis"
  then have "{1..<N} \<subseteq> {i. i < N \<and> used i}" by auto
  then have "card {1..<N} \<le> card {i. i < N \<and> used i}" by (intro card_mono) auto
  then show False using assms by (simp add: tab_ok_def)
qed

section \<open>The adapter\<close>

abbreviation recs :: "ba_adapter \<Rightarrow> nat \<Rightarrow> ba_rec_entry" where "recs pAd i \<equiv> BARecEntry pAd ! i"
abbreviation oris :: "ba_adapter \<Rightarrow> nat \<Rightarrow> ba_ori_entry" where "oris pAd i \<equiv> BAOriEntry pAd ! i"
abbreviation mac :: "ba_adapter \<Rightarrow> nat \<Rightarrow> mac_entry" where "mac pAd w \<equiv> MacTab pAd ! w"

lemmas ba_consts = NUM_OF_TID_def MAX_LEN_OF_MAC_TABLE_def MAX_LEN_OF_BA_REC_TABLE_def
  MAX_LEN_OF_BA_ORI_TABLE_def

definition shape :: "ba_adapter \<Rightarrow> bool" where
  "shape pAd \<longleftrightarrow> length (MacTab pAd) = 32 \<and> length (BARecEntry pAd) = 128 \<and>
    length (BAOriEntry pAd) = 128 \<and>
    (\<forall>w<32. length (BARecWcidArray (mac pAd w)) = 8 \<and> length (BAOriWcidArray (mac pAd w)) = 8 \<and>
       unat (ucast (Aid (mac pAd w)) :: u8) = w)"

definition rec_tab :: "ba_adapter \<Rightarrow> bool" where
  "rec_tab pAd \<longleftrightarrow> tab_ok 128 (\<lambda>w t. BARecWcidArray (mac pAd w) ! t)
    (\<lambda>i. REC_BA_Status (recs pAd i) \<noteq> Recipient_NONE) (\<lambda>i. rWcid (recs pAd i))
    (\<lambda>i. rTID (recs pAd i)) (unat (numAsRecipient pAd))"

definition ori_tab :: "ba_adapter \<Rightarrow> bool" where
  "ori_tab pAd \<longleftrightarrow> tab_ok 128 (\<lambda>w t. BAOriWcidArray (mac pAd w) ! t)
    (\<lambda>i. ORI_BA_Status (oris pAd i) \<noteq> Originator_NONE) (\<lambda>i. oWcid (oris pAd i))
    (\<lambda>i. oTID (oris pAd i)) (unat (numAsOriginator pAd))"

definition done_count :: "ba_adapter \<Rightarrow> bool" where
  "done_count pAd \<longleftrightarrow>
    unat (numDoneOriginator pAd) = card {i. i < 128 \<and> ORI_BA_Status (oris pAd i) = Originator_Done}"

definition queues_ok :: "ba_adapter \<Rightarrow> bool" where
  "queues_ok pAd \<longleftrightarrow> (\<forall>i<128. lists_ok (env pAd) (recs pAd i))"

definition ba_ok :: "ba_adapter \<Rightarrow> bool" where
  "ba_ok pAd \<longleftrightarrow> shape pAd \<and> rec_tab pAd \<and> ori_tab pAd \<and> done_count pAd \<and> queues_ok pAd"


section \<open>Changes that leave the tables alone\<close>

lemma upd_sel [simp]:
  "MacTab (upd_rec i f pAd) = MacTab pAd" "MacTab (upd_ori i g pAd) = MacTab pAd"
  "BARecEntry (upd_mac w h pAd) = BARecEntry pAd" "BARecEntry (upd_ori i g pAd) = BARecEntry pAd"
  "BAOriEntry (upd_mac w h pAd) = BAOriEntry pAd" "BAOriEntry (upd_rec i f pAd) = BAOriEntry pAd"
  "numAsRecipient (upd_mac w h pAd) = numAsRecipient pAd"
  "numAsRecipient (upd_rec i f pAd) = numAsRecipient pAd"
  "numAsRecipient (upd_ori i g pAd) = numAsRecipient pAd"
  "numAsOriginator (upd_mac w h pAd) = numAsOriginator pAd"
  "numAsOriginator (upd_rec i f pAd) = numAsOriginator pAd"
  "numAsOriginator (upd_ori i g pAd) = numAsOriginator pAd"
  "numDoneOriginator (upd_mac w h pAd) = numDoneOriginator pAd"
  "numDoneOriginator (upd_rec i f pAd) = numDoneOriginator pAd"
  "numDoneOriginator (upd_ori i g pAd) = numDoneOriginator pAd"
  "length (MacTab (upd_mac w h pAd)) = length (MacTab pAd)"
  "length (BARecEntry (upd_rec i f pAd)) = length (BARecEntry pAd)"
  "length (BAOriEntry (upd_ori i g pAd)) = length (BAOriEntry pAd)"
  by (simp_all add: upd_mac_def upd_rec_def upd_ori_def)

lemma mac_upd: "w' < length (MacTab pAd) \<Longrightarrow>
    mac (upd_mac w f pAd) w' = (if w' = w then f (mac pAd w') else mac pAd w')"
  by (auto simp: upd_mac_def nth_list_update)

lemma recs_upd: "j < length (BARecEntry pAd) \<Longrightarrow>
    recs (upd_rec i f pAd) j = (if j = i then f (recs pAd j) else recs pAd j)"
  by (auto simp: upd_rec_def nth_list_update)

lemma oris_upd: "j < length (BAOriEntry pAd) \<Longrightarrow>
    oris (upd_ori i f pAd) j = (if j = i then f (oris pAd j) else oris pAd j)"
  by (auto simp: upd_ori_def nth_list_update)

lemma ba_okD:
  assumes "ba_ok pAd"
  shows "shape pAd" "rec_tab pAd" "ori_tab pAd" "done_count pAd" "queues_ok pAd"
  using assms by (simp_all add: ba_ok_def)

lemma shapeD:
  assumes "shape pAd"
  shows "length (MacTab pAd) = 32" "length (BARecEntry pAd) = 128" "length (BAOriEntry pAd) = 128"
    and "w < 32 \<Longrightarrow> length (BARecWcidArray (mac pAd w)) = 8"
    and "w < 32 \<Longrightarrow> length (BAOriWcidArray (mac pAd w)) = 8"
    and "w < 32 \<Longrightarrow> unat (ucast (Aid (mac pAd w)) :: u8) = w"
  using assms by (simp_all add: shape_def)

lemma env_upd [simp]: "env (upd_mac w f pAd) = env pAd" "env (upd_rec i g pAd) = env pAd"
  "env (upd_ori i h pAd) = env pAd" "env (log x pAd) = env pAd"
  by (simp_all add: upd_mac_def upd_rec_def upd_ori_def log_def)

text \<open>Two adapters with the same tables, as far as \<open>ba_ok\<close> looks.\<close>

definition same_tables :: "ba_adapter \<Rightarrow> ba_adapter \<Rightarrow> bool" where
  "same_tables pAd pAd' \<longleftrightarrow>
    length (MacTab pAd') = length (MacTab pAd) \<and> length (BARecEntry pAd') = length (BARecEntry pAd) \<and>
    length (BAOriEntry pAd') = length (BAOriEntry pAd) \<and>
    numAsRecipient pAd' = numAsRecipient pAd \<and> numAsOriginator pAd' = numAsOriginator pAd \<and>
    numDoneOriginator pAd' = numDoneOriginator pAd \<and>
    (\<forall>w<32. BARecWcidArray (mac pAd' w) = BARecWcidArray (mac pAd w) \<and>
       BAOriWcidArray (mac pAd' w) = BAOriWcidArray (mac pAd w) \<and> Aid (mac pAd' w) = Aid (mac pAd w)) \<and>
    (\<forall>i<128. rWcid (recs pAd' i) = rWcid (recs pAd i) \<and> rTID (recs pAd' i) = rTID (recs pAd i) \<and>
       REC_BA_Status (recs pAd' i) = REC_BA_Status (recs pAd i) \<and>
       (queues_ok pAd \<longrightarrow> lists_ok (env pAd') (recs pAd' i))) \<and>
    (\<forall>i<128. oWcid (oris pAd' i) = oWcid (oris pAd i) \<and> oTID (oris pAd' i) = oTID (oris pAd i) \<and>
       ORI_BA_Status (oris pAd' i) = ORI_BA_Status (oris pAd i))"

lemma same_tables_ok:
  assumes "ba_ok pAd" "same_tables pAd pAd'"
  shows "ba_ok pAd'"
proof -
  have "shape pAd'" using assms by (simp add: ba_ok_def shape_def same_tables_def)
  moreover have "rec_tab pAd'"
    unfolding rec_tab_def
    by (rule tab_ok_cong [of 128 "\<lambda>w t. BARecWcidArray (mac pAd w) ! t"
          "\<lambda>i. REC_BA_Status (recs pAd i) \<noteq> Recipient_NONE" "\<lambda>i. rWcid (recs pAd i)"
          "\<lambda>i. rTID (recs pAd i)" "unat (numAsRecipient pAd)"])
      (use assms in \<open>simp_all add: ba_ok_def rec_tab_def same_tables_def\<close>)
  moreover have "ori_tab pAd'"
    unfolding ori_tab_def
    by (rule tab_ok_cong [of 128 "\<lambda>w t. BAOriWcidArray (mac pAd w) ! t"
          "\<lambda>i. ORI_BA_Status (oris pAd i) \<noteq> Originator_NONE" "\<lambda>i. oWcid (oris pAd i)"
          "\<lambda>i. oTID (oris pAd i)" "unat (numAsOriginator pAd)"])
      (use assms in \<open>simp_all add: ba_ok_def ori_tab_def same_tables_def\<close>)
  moreover have "done_count pAd'"
  proof -
    have "{i. i < 128 \<and> ORI_BA_Status (oris pAd' i) = Originator_Done} =
      {i. i < 128 \<and> ORI_BA_Status (oris pAd i) = Originator_Done}"
      using assms(2) by (auto simp: same_tables_def)
    then show ?thesis using assms by (simp add: ba_ok_def done_count_def same_tables_def)
  qed
  moreover have "queues_ok pAd'"
    using assms(2) ba_okD(5) [OF assms(1)] unfolding queues_ok_def [of pAd'] same_tables_def by blast
  ultimately show ?thesis by (simp add: ba_ok_def)
qed

lemma same_tables_refl [simp]: "same_tables pAd pAd"
  by (simp add: same_tables_def queues_ok_def)

lemma same_tables_trans:
  "same_tables pAd pAd1 \<Longrightarrow> same_tables pAd1 pAd2 \<Longrightarrow> same_tables pAd pAd2"
  by (simp add: same_tables_def queues_ok_def)

lemma same_tables_misc [simp]:
  "same_tables pAd (log x pAd)" "same_tables pAd (pAd\<lparr>env := emit v (env pAd)\<rparr>)"
  "same_tables pAd (pAd\<lparr>allocs := bs\<rparr>)"
  by (simp_all add: same_tables_def log_def queues_ok_def)

lemma same_tables_alloc: "os_alloc_mem pAd = (ok, pAd') \<Longrightarrow> same_tables pAd pAd'"
  by (auto simp: os_alloc_mem_def split: list.splits)

lemma same_tables_mac:
  assumes "length (MacTab pAd) = 32"
    and "\<And>m. BARecWcidArray (f m) = BARecWcidArray m \<and> BAOriWcidArray (f m) = BAOriWcidArray m \<and> Aid (f m) = Aid m"
  shows "same_tables pAd (upd_mac w f pAd)"
  using assms by (auto simp: same_tables_def mac_upd queues_ok_def)

lemma same_tables_rec:
  assumes "length (BARecEntry pAd) = 128"
    and "\<And>e. rWcid (f e) = rWcid e \<and> rTID (f e) = rTID e \<and> REC_BA_Status (f e) = REC_BA_Status e \<and> re_list (f e) = re_list e"
  shows "same_tables pAd (upd_rec i f pAd)"
  using assms by (auto simp: same_tables_def recs_upd queues_ok_def lists_ok_def)

lemma same_tables_ori:
  assumes "length (BAOriEntry pAd) = 128"
    and "\<And>e. oWcid (f e) = oWcid e \<and> oTID (f e) = oTID e \<and> ORI_BA_Status (f e) = ORI_BA_Status e"
  shows "same_tables pAd (upd_ori i f pAd)"
  using assms by (auto simp: same_tables_def oris_upd queues_ok_def)

text \<open>Operations of the receive path change neither station, TID nor status of an entry.\<close>

definition keeps :: "(rx_env \<Rightarrow> ba_rec_entry \<Rightarrow> rx_env \<times> ba_rec_entry) \<Rightarrow> bool" where
  "keeps f \<longleftrightarrow> (\<forall>v e v' e'. f v e = (v', e') \<longrightarrow> rWcid e' = rWcid e \<and> rTID e' = rTID e \<and>
     REC_BA_Status e' = REC_BA_Status e \<and> (lists_ok v e \<longrightarrow> lists_ok v' e'))"

lemma same_tables_on_rec:
  assumes "length (BARecEntry pAd) = 128" "i < 128" "keeps f"
  shows "same_tables pAd (on_rec i f pAd)"
proof -
  obtain v e where fe: "f (env pAd) (recs pAd i) = (v, e)" by (cases "f (env pAd) (recs pAd i)")
  have k: "rWcid e = rWcid (recs pAd i) \<and> rTID e = rTID (recs pAd i) \<and>
      REC_BA_Status e = REC_BA_Status (recs pAd i)"
    and q: "lists_ok (env pAd) (recs pAd i) \<longrightarrow> lists_ok v e"
    using assms(3) fe unfolding keeps_def by blast+
  have u: "(BARecEntry pAd)[i := e] ! j = (if j = i then e else recs pAd j)" if "j < 128" for j
    using that assms(1) by (auto simp: nth_list_update)
  have "lists_ok v (if j = i then e else recs pAd j)" if "queues_ok pAd" "j < 128" for j
    using that q assms(2) by (auto simp: queues_ok_def lists_ok_def)
  then show ?thesis using k assms(1) by (auto simp: same_tables_def on_rec_def fe u)
qed

lemma keepsI:
  assumes "\<And>v e. rWcid (snd (f v e)) = rWcid e \<and> rTID (snd (f v e)) = rTID e \<and>
     REC_BA_Status (snd (f v e)) = REC_BA_Status e"
    and "\<And>v e v' e'. lists_ok v e \<Longrightarrow> f v e = (v', e') \<Longrightarrow> lists_ok v' e'"
  shows "keeps f"
  using assms unfolding keeps_def by (metis snd_conv)

text \<open>Station, TID and status of an entry.\<close>

definition ident :: "ba_rec_entry \<Rightarrow> nat \<times> nat \<times> REC_BLOCKACK_STATUS" where
  "ident e = (rWcid e, rTID e, REC_BA_Status e)"

lemma ident_upd [simp]:
  "ident (e\<lparr>re_list := l\<rparr>) = ident e" "ident (e\<lparr>LastIndSeq := s\<rparr>) = ident e"
  "ident (e\<lparr>LastIndSeqAtTimer := t\<rparr>) = ident e" "ident (e\<lparr>nDropPacket := n\<rparr>) = ident e"
  "ident (e\<lparr>rcvSeq := r\<rparr>) = ident e"
  by (simp_all add: ident_def)

lemma ident_le_seq [simp]: "ident (snd (ba_indicate_reordering_mpdus_le_seq v e S)) = ident e"
  by (simp add: ba_indicate_reordering_mpdus_le_seq_def split: prod.splits)

lemma ident_in_order [simp]: "ident (fst (snd (ba_indicate_reordering_mpdus_in_order v e S))) = ident e"
  by (simp add: ba_indicate_reordering_mpdus_in_order_def split: prod.splits)

lemma ident_refresh_loop: "ident (fst (refresh_loop e v)) = ident e"
proof (induction e v rule: refresh_loop.induct)
  case (1 e v)
  show ?case by (subst refresh_loop.simps) (auto split: prod.splits option.splits simp: 1)
qed

lemma ident_le_seqD: "ba_indicate_reordering_mpdus_le_seq v e S = (v', e') \<Longrightarrow> ident e' = ident e"
  using ident_le_seq [of v e S] by simp

lemma ident_in_orderD:
  "ba_indicate_reordering_mpdus_in_order v e S = (v', e', L) \<Longrightarrow> ident e' = ident e"
  using ident_in_order [of v e S] by simp

lemma ident_refresh [simp]: "ident (snd (ba_refresh_reordering_mpdus v e)) = ident e"
  using ident_refresh_loop [of e v]
  by (cases "refresh_loop e v") (simp add: ba_refresh_reordering_mpdus_def)

lemma ident_flush [simp]: "ident (snd (ba_flush_reordering_timeout_mpdus v e N)) = ident e"
proof -
  let ?S = "of_int ((uint (LastIndSeq e) + 1) AND MAXSEQ) :: u16"
  obtain v1 e1 where le: "ba_indicate_reordering_mpdus_le_seq v e ?S = (v1, e1)"
    by (cases "ba_indicate_reordering_mpdus_le_seq v e ?S")
  obtain v4 e4 where rf: "ba_refresh_reordering_mpdus v e = (v4, e4)"
    by (cases "ba_refresh_reordering_mpdus v e")
  define e2 where "e2 = e1\<lparr>LastIndSeqAtTimer := N, LastIndSeq := ?S\<rparr>"
  obtain v3 e3 L where io: "ba_indicate_reordering_mpdus_in_order v1 e2 ?S = (v3, e3, L)"
    by (cases "ba_indicate_reordering_mpdus_in_order v1 e2 ?S")
  have "ident e1 = ident e" "ident e3 = ident e2" "ident e4 = ident e"
    using ident_le_seq [of v e ?S] ident_in_order [of v1 e2 ?S] ident_refresh [of v e]
    by (simp_all add: le io rf)
  then show ?thesis using le io rf
    by (simp add: ba_flush_reordering_timeout_mpdus_def Let_def e2_def)
qed

lemma ident_enqueue [simp]: "ident (snd (ba_enqueue_reordering_packet v e r)) = ident e"
proof (cases "bufferable v r")
  case True
  show ?thesis
    by (rule enqueue_bufferable [OF True, of e]) (simp split: prod.splits bool.splits)
next
  case False
  obtain v1 e1 where "ba_indicate_reordering_mpdus_le_seq (snd (ba_mpdu_blk_alloc v)) e
      (ucast (rx_Sequence r)) = (v1, e1)"
    by (cases "ba_indicate_reordering_mpdus_le_seq (snd (ba_mpdu_blk_alloc v)) e (ucast (rx_Sequence r))")
  then show ?thesis using ident_le_seqD by (simp add: enqueue_not_bufferable [OF False])
qed

lemma ident_bar [simp]: "ident (snd (bar_advance v e S)) = ident e"
proof -
  obtain v1 e1 where "ba_indicate_reordering_mpdus_le_seq v e (ucast S) = (v1, e1)"
    by (cases "ba_indicate_reordering_mpdus_le_seq v e (ucast S)")
  then show ?thesis using ident_le_seqD by (cases "S = 0") (auto simp: bar_advance_def)
qed

lemma ident_Indicate [simp]: "ident (snd (Indicate_AMPDU_entry v e r N)) = ident e"
proof -
  have in_order: "ident (snd (indicate_in_order w x r N)) = ident x" for w x
    by (auto simp: indicate_in_order_def Let_def split: prod.splits dest: ident_in_orderD)
  have surpass: "ident (snd (surpass_window w x r N)) = ident x" for w x
  proof -
    let ?S = "of_int (WinStartSeq_of (uint (rx_Sequence r)) (uint (rBAWinSize x))) :: u16"
    obtain w1 x1 where le: "ba_indicate_reordering_mpdus_le_seq w x ?S = (w1, x1)"
      by (cases "ba_indicate_reordering_mpdus_le_seq w x ?S")
    define x2 where "x2 = x1\<lparr>LastIndSeq := ?S, LastIndSeqAtTimer := N\<rparr>"
    obtain w3 x3 where enq: "ba_enqueue_reordering_packet w1 x2 r = (w3, x3)"
      by (cases "ba_enqueue_reordering_packet w1 x2 r")
    obtain w4 x4 L where io: "ba_indicate_reordering_mpdus_in_order w3 x3 (LastIndSeq x3) = (w4, x4, L)"
      by (cases "ba_indicate_reordering_mpdus_in_order w3 x3 (LastIndSeq x3)")
    have "ident x1 = ident x" "ident x3 = ident x2" "ident x4 = ident x3"
      using ident_le_seq [of w x ?S] ident_enqueue [of w1 x2 r] ident_in_order [of w3 x3 "LastIndSeq x3"]
      by (simp_all add: le enq io)
    then show ?thesis using le enq io by (simp add: surpass_window_def Let_def x2_def)
  qed
  obtain v1 e1 where fl: "ba_flush_reordering_timeout_mpdus v (e\<lparr>rcvSeq := ucast (rx_Sequence r)\<rparr>) N = (v1, e1)"
    by (cases "ba_flush_reordering_timeout_mpdus v (e\<lparr>rcvSeq := ucast (rx_Sequence r)\<rparr>) N")
  have "ident e1 = ident e"
    using ident_flush [of v "e\<lparr>rcvSeq := ucast (rx_Sequence r)\<rparr>" N] by (simp add: fl)
  then show ?thesis
    by (simp add: Indicate_AMPDU_entry_def Let_def fl in_order surpass drop_frame_def)
qed

lemma keeps_ident:
  assumes "\<And>v e. ident (snd (f v e)) = ident e"
    and "\<And>v e v' e'. lists_ok v e \<Longrightarrow> f v e = (v', e') \<Longrightarrow> lists_ok v' e'"
  shows "keeps f"
  using assms by (intro keepsI) (simp_all add: ident_def)

lemma keeps_refresh: "keeps ba_refresh_reordering_mpdus"
  by (rule keeps_ident) (use refresh_books in \<open>auto simp: same_books_def\<close>)

lemma keeps_flush: "keeps (\<lambda>v e. ba_flush_reordering_timeout_mpdus v e N)"
  by (rule keeps_ident) (use flush_books in \<open>auto simp: same_books_def\<close>)

lemma keeps_Indicate: "keeps (\<lambda>v e. Indicate_AMPDU_entry v e r N)"
  by (rule keeps_ident) (use Indicate_books in \<open>auto simp: takes_def\<close>)

lemma keeps_bar: "keeps (\<lambda>v e. bar_advance v e S)"
proof (rule keeps_ident)
  fix v e v' e' assume ok: "lists_ok v e" and eq: "bar_advance v e S = (v', e')"
  obtain v1 e1 where le: "ba_indicate_reordering_mpdus_le_seq v e (ucast S) = (v1, e1)"
    by (cases "ba_indicate_reordering_mpdus_le_seq v e (ucast S)")
  show "lists_ok v' e'"
    using le_seq_books [OF ok le] ok eq le
    by (auto simp: bar_advance_def same_books_def split: if_splits)
qed simp


section \<open>Allocation and release of entries\<close>

definition rec_side :: "ba_adapter \<Rightarrow> ba_adapter \<Rightarrow> bool" where
  "rec_side pAd pAd' \<longleftrightarrow> BARecEntry pAd' = BARecEntry pAd \<and> env pAd' = env pAd \<and>
    numAsRecipient pAd' = numAsRecipient pAd \<and>
    (\<forall>w<32. BARecWcidArray (mac pAd' w) = BARecWcidArray (mac pAd w))"

definition ori_side :: "ba_adapter \<Rightarrow> ba_adapter \<Rightarrow> bool" where
  "ori_side pAd pAd' \<longleftrightarrow> BAOriEntry pAd' = BAOriEntry pAd \<and>
    numAsOriginator pAd' = numAsOriginator pAd \<and> numDoneOriginator pAd' = numDoneOriginator pAd \<and>
    (\<forall>w<32. BAOriWcidArray (mac pAd' w) = BAOriWcidArray (mac pAd w))"

lemma rec_side_tab: "rec_side pAd pAd' \<Longrightarrow> rec_tab pAd \<Longrightarrow> rec_tab pAd'"
  unfolding rec_tab_def
  by (erule tab_ok_cong) (simp_all add: rec_side_def)

lemma rec_side_queues: "rec_side pAd pAd' \<Longrightarrow> queues_ok pAd \<Longrightarrow> queues_ok pAd'"
  by (simp add: rec_side_def queues_ok_def)

lemma ori_side_tab: "ori_side pAd pAd' \<Longrightarrow> ori_tab pAd \<Longrightarrow> ori_tab pAd'"
  unfolding ori_tab_def
  by (erule tab_ok_cong) (simp_all add: ori_side_def)

lemma ori_side_done: "ori_side pAd pAd' \<Longrightarrow> done_count pAd \<Longrightarrow> done_count pAd'"
  by (simp add: ori_side_def done_count_def)

lemma unat_minus1: "0 < unat (x::u32) \<Longrightarrow> unat (x - 1) = unat x - 1"
  by (simp add: unat_sub_if' word_less_nat_alt unat_eq_0 flip: word_le_nat_alt)

lemma FreeOri_ok:
  assumes ok: "ba_ok pAd"
  shows "ba_ok (BATableFreeOriEntry Idx pAd)"
proof (cases "Idx = 0 \<or> Idx \<ge> MAX_LEN_OF_BA_ORI_TABLE \<or> ORI_BA_Status (oris pAd Idx) = Originator_NONE")
  case True
  then show ?thesis using ok by (auto simp: BATableFreeOriEntry_def Let_def)
next
  case False
  note k = ba_okD [OF ok] and sh = shapeD [OF ba_okD(1) [OF ok]]
  let ?b = "oris pAd Idx"
  let ?r = "BATableFreeOriEntry Idx pAd"
  have i: "Idx < 128" "ORI_BA_Status ?b \<noteq> Originator_NONE" using False by (simp_all add: ba_consts)
  then have w: "oWcid ?b < 32" "oTID ?b < 8"
    using k(3) by (simp_all add: ori_tab_def tab_ok_def)
  have macr: "BARecWcidArray (mac ?r w) = BARecWcidArray (mac pAd w) \<and> Aid (mac ?r w) = Aid (mac pAd w) \<and>
      BAOriWcidArray (mac ?r w) = (if w = oWcid ?b then (BAOriWcidArray (mac pAd w))[oTID ?b := 0]
         else BAOriWcidArray (mac pAd w))" if "w < 32" for w
    using False that sh(1) by (simp add: BATableFreeOriEntry_def Let_def mac_upd)
  have orir: "oris ?r j = (if j = Idx then (oris pAd j)\<lparr>ORI_BA_Status := Originator_NONE, oToken := 0\<rparr>
      else oris pAd j)" if "j < 128" for j
    using False that sh(3) by (simp add: BATableFreeOriEntry_def Let_def oris_upd)
  have rest: "length (MacTab ?r) = 32" "BARecEntry ?r = BARecEntry pAd" "length (BAOriEntry ?r) = 128"
      "env ?r = env pAd" "numAsRecipient ?r = numAsRecipient pAd"
      "numAsOriginator ?r = numAsOriginator pAd - 1"
      "numDoneOriginator ?r = numDoneOriginator pAd - (if ORI_BA_Status ?b = Originator_Done then 1 else 0)"
    using False sh by (simp_all add: BATableFreeOriEntry_def Let_def)
  have "shape ?r" using sh macr rest by (simp add: shape_def)
  moreover have rs: "rec_side pAd ?r" using macr rest by (simp add: rec_side_def)
  moreover have "ori_tab ?r"
    unfolding ori_tab_def
  proof (rule tab_ok_free(1) [OF k(3) [unfolded ori_tab_def] i])
    show "unat (numAsOriginator ?r) = unat (numAsOriginator pAd) - 1"
      unfolding rest by (rule unat_minus1, rule tab_ok_free(2) [OF k(3) [unfolded ori_tab_def] i refl _ refl]) auto
  qed (use macr orir sh w in \<open>simp_all add: nth_list_update\<close>)
  moreover have "done_count ?r"
  proof -
    let ?D = "{j. j < 128 \<and> ORI_BA_Status (oris pAd j) = Originator_Done}"
    have e: "{j. j < 128 \<and> ORI_BA_Status (oris ?r j) = Originator_Done} = ?D - {Idx}"
      using orir by (auto split: if_splits)
    show ?thesis
    proof (cases "ORI_BA_Status ?b = Originator_Done")
      case True
      then have "Idx \<in> ?D" using i by simp
      then have c: "card (?D - {Idx}) = card ?D - 1" "0 < card ?D" by (simp, auto simp: card_gt_0_iff)
      have u: "unat (numDoneOriginator pAd) = card ?D" using k(4) by (simp add: done_count_def)
      have "unat (numDoneOriginator pAd - 1) = card ?D - 1"
        using unat_minus1 [of "numDoneOriginator pAd"] c(2) by (simp add: u)
      then show ?thesis unfolding done_count_def e c(1) by (simp add: rest True)
    next
      case F: False
      then have "?D - {Idx} = ?D" by auto
      then show ?thesis using k(4) by (simp add: done_count_def e rest F)
    qed
  qed
  ultimately show ?thesis
    using rec_side_tab [OF rs] rec_side_queues [OF rs] k by (simp add: ba_ok_def)
qed

lemma FreeRec_ok:
  assumes ok: "ba_ok pAd"
  shows "ba_ok (BATableFreeRecEntry Idx pAd)"
proof (cases "Idx = 0 \<or> Idx \<ge> MAX_LEN_OF_BA_REC_TABLE \<or> REC_BA_Status (recs pAd Idx) = Recipient_NONE")
  case True
  then show ?thesis using ok by (auto simp: BATableFreeRecEntry_def Let_def)
next
  case False
  note k = ba_okD [OF ok] and sh = shapeD [OF ba_okD(1) [OF ok]]
  let ?b = "recs pAd Idx"
  let ?r = "BATableFreeRecEntry Idx pAd"
  have i: "Idx < 128" "REC_BA_Status ?b \<noteq> Recipient_NONE" using False by (simp_all add: ba_consts)
  then have w: "rWcid ?b < 32" "rTID ?b < 8"
    using k(2) by (simp_all add: rec_tab_def tab_ok_def)
  have macr: "BAOriWcidArray (mac ?r w) = BAOriWcidArray (mac pAd w) \<and> Aid (mac ?r w) = Aid (mac pAd w) \<and>
      BARecWcidArray (mac ?r w) = (if w = rWcid ?b then (BARecWcidArray (mac pAd w))[rTID ?b := 0]
         else BARecWcidArray (mac pAd w))" if "w < 32" for w
    using False that sh(1) by (simp add: BATableFreeRecEntry_def Let_def)
      (simp add: upd_mac_def nth_list_update)
  have recr: "recs ?r j = (if j = Idx then (recs pAd j)\<lparr>REC_BA_Status := Recipient_NONE\<rparr>
      else recs pAd j)" if "j < 128" for j
    using False that sh(2) by (simp add: BATableFreeRecEntry_def Let_def recs_upd)
  have rest: "length (MacTab ?r) = 32" "BAOriEntry ?r = BAOriEntry pAd" "length (BARecEntry ?r) = 128"
      "env ?r = env pAd" "numAsRecipient ?r = numAsRecipient pAd - 1"
      "numAsOriginator ?r = numAsOriginator pAd" "numDoneOriginator ?r = numDoneOriginator pAd"
    using False sh by (simp_all add: BATableFreeRecEntry_def Let_def)
  have "shape ?r" using sh macr rest by (simp add: shape_def)
  moreover have os: "ori_side pAd ?r" using macr rest by (simp add: ori_side_def)
  moreover have "rec_tab ?r"
    unfolding rec_tab_def
  proof (rule tab_ok_free(1) [OF k(2) [unfolded rec_tab_def] i])
    show "unat (numAsRecipient ?r) = unat (numAsRecipient pAd) - 1"
      unfolding rest by (rule unat_minus1, rule tab_ok_free(2) [OF k(2) [unfolded rec_tab_def] i refl _ refl]) auto
  qed (use macr recr sh w in \<open>simp_all add: nth_list_update\<close>)
  moreover have "queues_ok ?r"
    using k(5) recr rest by (auto simp: queues_ok_def lists_ok_def)
  ultimately show ?thesis
    using ori_side_tab [OF os] ori_side_done [OF os] k by (simp add: ba_ok_def)
qed

text \<open>The scans find the first free entry when there is one.\<close>

lemma rec_scan_spec:
  assumes "\<exists>j. i \<le> j \<and> j < i + n \<and> REC_BA_Status (recs pAd j) = Recipient_NONE"
  shows "\<exists>j. i \<le> j \<and> j < i + n \<and> REC_BA_Status (recs pAd j) = Recipient_NONE \<and>
    rec_scan n i pAd Idx = (Some j, j, upd_rec j (\<lambda>e. e\<lparr>REC_BA_Status := Recipient_USED\<rparr>)
      (pAd\<lparr>numAsRecipient := numAsRecipient pAd + 1\<rparr>))"
  using assms
proof (induction n arbitrary: i)
  case 0
  then show ?case by auto
next
  case (Suc n)
  show ?case
  proof (cases "REC_BA_Status (recs pAd i) = Recipient_NONE")
    case True
    then show ?thesis by (intro exI [of _ i]) simp
  next
    case False
    obtain j where "i \<le> j" "j < i + Suc n" "REC_BA_Status (recs pAd j) = Recipient_NONE"
      using Suc.prems by blast
    with False have "i + 1 \<le> j" by (cases "i = j") auto
    then have "\<exists>j. i + 1 \<le> j \<and> j < i + 1 + n \<and> REC_BA_Status (recs pAd j) = Recipient_NONE"
      using \<open>j < i + Suc n\<close> \<open>REC_BA_Status (recs pAd j) = Recipient_NONE\<close> by auto
    from Suc.IH [OF this] False show ?thesis by force
  qed
qed

lemma ori_scan_spec:
  assumes "\<exists>j. i \<le> j \<and> j < i + n \<and> ORI_BA_Status (oris pAd j) = Originator_NONE"
  shows "\<exists>j. i \<le> j \<and> j < i + n \<and> ORI_BA_Status (oris pAd j) = Originator_NONE \<and>
    ori_scan n i pAd Idx = (Some j, j, upd_ori j (\<lambda>e. e\<lparr>ORI_BA_Status := Originator_USED\<rparr>)
      (pAd\<lparr>numAsOriginator := numAsOriginator pAd + 1\<rparr>))"
  using assms
proof (induction n arbitrary: i)
  case 0
  then show ?case by auto
next
  case (Suc n)
  show ?case
  proof (cases "ORI_BA_Status (oris pAd i) = Originator_NONE")
    case True
    then show ?thesis by (intro exI [of _ i]) simp
  next
    case False
    obtain j where "i \<le> j" "j < i + Suc n" "ORI_BA_Status (oris pAd j) = Originator_NONE"
      using Suc.prems by blast
    with False have "i + 1 \<le> j" by (cases "i = j") auto
    then have "\<exists>j. i + 1 \<le> j \<and> j < i + 1 + n \<and> ORI_BA_Status (oris pAd j) = Originator_NONE"
      using \<open>j < i + Suc n\<close> \<open>ORI_BA_Status (oris pAd j) = Originator_NONE\<close> by auto
    from Suc.IH [OF this] False show ?thesis by force
  qed
qed

lemma AllocRec_spec:
  assumes "ba_ok pAd" "unat (numAsRecipient pAd) < 127"
  shows "\<exists>j. 1 \<le> j \<and> j < 128 \<and> REC_BA_Status (recs pAd j) = Recipient_NONE \<and>
    BATableAllocRecEntry pAd Idx = (Some j, j, upd_rec j (\<lambda>e. e\<lparr>REC_BA_Status := Recipient_USED\<rparr>)
      (pAd\<lparr>numAsRecipient := numAsRecipient pAd + 1\<rparr>))"
proof -
  have "\<exists>j. 1 \<le> j \<and> j < 128 \<and> REC_BA_Status (recs pAd j) = Recipient_NONE"
    using tab_ok_room [OF ba_okD(2) [OF assms(1), unfolded rec_tab_def]] assms(2) by auto
  then show ?thesis
    using rec_scan_spec [of 1 127 pAd Idx] assms(2) by (simp add: BATableAllocRecEntry_def ba_consts)
qed

lemma AllocOri_spec:
  assumes "ba_ok pAd" "unat (numAsOriginator pAd) < 127"
  shows "\<exists>j. 1 \<le> j \<and> j < 128 \<and> ORI_BA_Status (oris pAd j) = Originator_NONE \<and>
    BATableAllocOriEntry pAd Idx = (Some j, j, upd_ori j (\<lambda>e. e\<lparr>ORI_BA_Status := Originator_USED\<rparr>)
      (pAd\<lparr>numAsOriginator := numAsOriginator pAd + 1\<rparr>))"
proof -
  have "\<exists>j. 1 \<le> j \<and> j < 128 \<and> ORI_BA_Status (oris pAd j) = Originator_NONE"
    using tab_ok_room [OF ba_okD(3) [OF assms(1), unfolded ori_tab_def]] assms(2) by auto
  then show ?thesis
    using ori_scan_spec [of 1 127 pAd Idx] assms(2) by (simp add: BATableAllocOriEntry_def ba_consts)
qed


section \<open>The handlers\<close>

lemma unat_plus1: "unat (x::u32) < 127 \<Longrightarrow> unat (x + 1) = unat x + 1"
  by (simp add: unat_word_ariths)

text \<open>A new entry: the effect of an allocator followed by the writes of its caller.\<close>

lemma new_ori_ok:
  assumes ok: "ba_ok pAd" and i: "1 \<le> i" "i < 128" "ORI_BA_Status (oris pAd i) = Originator_NONE"
    and n: "unat (numAsOriginator pAd) < 127" and w: "w < 32" "t < 8" "BAOriWcidArray (mac pAd w) ! t = 0"
    and f: "\<And>e. ORI_BA_Status (f e) = Originator_WaitRes \<and> oWcid (f e) = w \<and> oTID (f e) = t"
  shows "ba_ok (upd_ori i f (upd_mac w (\<lambda>m. m\<lparr>BAOriWcidArray := (BAOriWcidArray m)[t := i]\<rparr>)
    (upd_ori i g (pAd\<lparr>numAsOriginator := numAsOriginator pAd + 1\<rparr>))))" (is "ba_ok ?r")
proof -
  note k = ba_okD [OF ok] and sh = shapeD [OF ba_okD(1) [OF ok]]
  have macr: "BARecWcidArray (mac ?r w') = BARecWcidArray (mac pAd w') \<and> Aid (mac ?r w') = Aid (mac pAd w') \<and>
      BAOriWcidArray (mac ?r w') = (if w' = w then (BAOriWcidArray (mac pAd w'))[t := i]
         else BAOriWcidArray (mac pAd w'))" if "w' < 32" for w'
    using that sh(1) by (simp add: mac_upd)
  have orir: "oris ?r j = (if j = i then f (g (oris pAd j)) else oris pAd j)" if "j < 128" for j
    using that sh(3) by (simp add: oris_upd)
  have "shape ?r" using sh macr by (simp add: shape_def)
  moreover have rs: "rec_side pAd ?r" using macr by (simp add: rec_side_def)
  moreover have "ori_tab ?r"
    unfolding ori_tab_def
  proof (rule tab_ok_add [OF k(3) [unfolded ori_tab_def], of i w t])
    show "unat (numAsOriginator ?r) = unat (numAsOriginator pAd) + 1"
      using unat_plus1 [OF n] by simp
  qed (use macr orir sh w i f in \<open>simp_all add: nth_list_update\<close>)
  moreover have "done_count ?r"
  proof -
    have "{j. j < 128 \<and> ORI_BA_Status (oris ?r j) = Originator_Done} =
      {j. j < 128 \<and> ORI_BA_Status (oris pAd j) = Originator_Done}"
      using orir f i by (auto split: if_splits)
    then show ?thesis using k(4) by (simp add: done_count_def)
  qed
  ultimately show ?thesis
    using rec_side_tab [OF rs] rec_side_queues [OF rs] k by (simp add: ba_ok_def)
qed

lemma new_rec_ok:
  assumes ok: "ba_ok pAd" and i: "1 \<le> i" "i < 128" "REC_BA_Status (recs pAd i) = Recipient_NONE"
    and n: "unat (numAsRecipient pAd) < 127" and w: "w < 32" "t < 8" "BARecWcidArray (mac pAd w) ! t = 0"
    and f: "\<And>e. REC_BA_Status (f e) = Recipient_Accept \<and> rWcid (f e) = w \<and> rTID (f e) = t \<and> re_list (f e) = re_list e"
    and g: "\<And>e. re_list (g e) = re_list e"
    and h: "\<And>m. BARecWcidArray (h m) = (BARecWcidArray m)[t := i] \<and> BAOriWcidArray (h m) = BAOriWcidArray m \<and> Aid (h m) = Aid m"
  shows "ba_ok (upd_mac w h (upd_rec i f
    (upd_rec i g (pAd\<lparr>numAsRecipient := numAsRecipient pAd + 1\<rparr>))))" (is "ba_ok ?r")
proof -
  note k = ba_okD [OF ok] and sh = shapeD [OF ba_okD(1) [OF ok]]
  have macr: "BAOriWcidArray (mac ?r w') = BAOriWcidArray (mac pAd w') \<and> Aid (mac ?r w') = Aid (mac pAd w') \<and>
      BARecWcidArray (mac ?r w') = (if w' = w then (BARecWcidArray (mac pAd w'))[t := i]
         else BARecWcidArray (mac pAd w'))" if "w' < 32" for w'
    using that sh(1) by (simp add: mac_upd h)
  have recr: "recs ?r j = (if j = i then f (g (recs pAd j)) else recs pAd j)" if "j < 128" for j
    using that sh(2) by (simp add: recs_upd)
  have "shape ?r" using sh macr by (simp add: shape_def)
  moreover have os: "ori_side pAd ?r" using macr by (simp add: ori_side_def)
  moreover have "rec_tab ?r"
    unfolding rec_tab_def
  proof (rule tab_ok_add [OF k(2) [unfolded rec_tab_def], of i w t])
    show "unat (numAsRecipient ?r) = unat (numAsRecipient pAd) + 1"
      using unat_plus1 [OF n] by simp
  qed (use macr recr sh w i f in \<open>simp_all add: nth_list_update\<close>)
  moreover have "queues_ok ?r"
    using k(5) recr f g by (auto simp: queues_ok_def lists_ok_def)
  ultimately show ?thesis
    using ori_side_tab [OF os] ori_side_done [OF os] k by (simp add: ba_ok_def)
qed

lemma SetUp_ok:
  assumes ok: "ba_ok pAd" and w: "w < 32"
  shows "ba_ok (BAOriSessionSetUp w TID TimeOut DelayTime isForced pAd)"
proof (cases "TID \<ge> NUM_OF_TID \<or> (\<not> AutoBA pAd \<and> \<not> isForced) \<or> FixedTxMode pAd \<noteq> 0")
  case True
  then have "BAOriSessionSetUp w TID TimeOut DelayTime isForced pAd = pAd"
    unfolding BAOriSessionSetUp_def Let_def by auto
  then show ?thesis using ok by simp
next
  case False
  note k = ba_okD [OF ok] and sh = shapeD [OF ba_okD(1) [OF ok]]
  have t: "TID < 8" using False by (simp add: ba_consts)
  let ?arr = "BAOriWcidArray (mac pAd w) ! TID"
  show ?thesis
  proof (cases "?arr = 0")
    case True
    show ?thesis
    proof (cases "unat (numAsOriginator pAd) < 127")
      case n: True
      obtain j where j: "1 \<le> j" "j < 128" "ORI_BA_Status (oris pAd j) = Originator_NONE"
        and al: "BATableAllocOriEntry pAd 0 = (Some j, j, upd_ori j (\<lambda>e. e\<lparr>ORI_BA_Status := Originator_USED\<rparr>)
          (pAd\<lparr>numAsOriginator := numAsOriginator pAd + 1\<rparr>))"
        using AllocOri_spec [OF ok n] by blast
      have used: "ORI_BA_Status (oris (upd_ori j (\<lambda>e. e\<lparr>ORI_BA_Status := Originator_USED\<rparr>)
          (pAd\<lparr>numAsOriginator := numAsOriginator pAd + 1\<rparr>)) j) = Originator_USED"
        using j sh(3) by (simp add: oris_upd)
      show ?thesis
        using False True used sh(6) [OF w]
        by (auto simp: BAOriSessionSetUp_def Let_def al intro!: new_ori_ok [OF ok j n w t True] ok)
    next
      case n: False
      then show ?thesis using False True ok
        by (simp add: BAOriSessionSetUp_def Let_def BATableAllocOriEntry_def ba_consts)
    qed
  next
    case nz: False
    then have a: "?arr < 128" "ORI_BA_Status (oris pAd ?arr) \<noteq> Originator_NONE"
      "oWcid (oris pAd ?arr) = w" "oTID (oris pAd ?arr) = TID"
      using k(3) w t by (simp_all add: ori_tab_def tab_ok_def)
    show ?thesis
    proof (cases "ORI_BA_Status (oris pAd ?arr) \<in> {Originator_WaitRes, Originator_Done}")
      case True
      then show ?thesis using False nz ok by (auto simp: BAOriSessionSetUp_def Let_def)
    next
      case u: False
      then have used: "ORI_BA_Status (oris pAd ?arr) = Originator_USED"
        using a(2) by (cases "ORI_BA_Status (oris pAd ?arr)") auto
      define r where "r = BAOriSessionSetUp w TID TimeOut DelayTime isForced pAd"
      have macr: "mac r w' = mac pAd w'" if "w' < 32" for w'
        using False nz used that sh(1) by (simp add: r_def BAOriSessionSetUp_def Let_def mac_upd)
      have rest: "length (MacTab r) = 32" "length (BAOriEntry r) = 128" "BARecEntry r = BARecEntry pAd"
        "env r = env pAd" "numAsRecipient r = numAsRecipient pAd"
        "numAsOriginator r = numAsOriginator pAd" "numDoneOriginator r = numDoneOriginator pAd"
        using False nz used sh by (simp_all add: r_def BAOriSessionSetUp_def Let_def)
      have orir: "oTID (oris r j) = oTID (oris pAd j) \<and> oWcid (oris r j) = oWcid (oris pAd j) \<and>
          ORI_BA_Status (oris r j) = (if j = ?arr then Originator_WaitRes else ORI_BA_Status (oris pAd j))"
        if "j < 128" for j
        using False nz used that sh(3) a sh(6) [OF w]
        by (auto simp: r_def BAOriSessionSetUp_def Let_def oris_upd)
      have "shape r" using sh macr rest by (simp add: shape_def)
      moreover have rs: "rec_side pAd r" using macr rest by (simp add: rec_side_def)
      moreover have "ori_tab r"
        unfolding ori_tab_def
        by (rule tab_ok_cong [OF k(3) [unfolded ori_tab_def]]) (use macr orir a rest in auto)
      moreover have "done_count r"
      proof -
        have "{j. j < 128 \<and> ORI_BA_Status (oris r j) = Originator_Done} =
          {j. j < 128 \<and> ORI_BA_Status (oris pAd j) = Originator_Done}"
          using orir used by (auto split: if_splits)
        then show ?thesis using k(4) by (simp add: done_count_def rest)
      qed
      ultimately show ?thesis unfolding r_def [symmetric]
        using rec_side_tab [OF rs] rec_side_queues [OF rs] k by (simp add: ba_ok_def)
    qed
  qed
qed


lemma OriAdd_ok:
  assumes ok: "ba_ok pAd" and w: "w < 32" and r: "BAOriSessionAdd w f pAd = Some pAd'"
  shows "ba_ok pAd'"
proof -
  note k = ba_okD [OF ok] and sh = shapeD [OF ba_okD(1) [OF ok]]
  let ?t = "f_TID f"
  let ?i = "BAOriWcidArray (mac pAd w) ! ?t"
  have t: "?t < 8" using r by (auto simp: BAOriSessionAdd_def ba_consts Let_def split: if_splits)
  show ?thesis
  proof (cases "?i \<noteq> 0 \<and> oTID (oris pAd ?i) = ?t \<and> ORI_BA_Status (oris pAd ?i) = Originator_WaitRes")
    case False
    then show ?thesis using r ok t by (auto simp: BAOriSessionAdd_def Let_def ba_consts)
  next
    case True
    then have i: "?i < 128" using k(3) w t by (simp add: ori_tab_def tab_ok_def)
    define g :: "ba_ori_entry \<Rightarrow> ba_ori_entry" where "g = (\<lambda>b. b\<lparr>oBAWinSize := BA_MaxWinSizeReasign pAd (mac pAd w)
          (min (oBAWinSize (oris pAd ?i)) (if (of_nat (f_BufSize f) :: u8) > 0
             then of_nat (f_BufSize f) - 1 else 0)),
        oTimeOutValue := f_TimeOut f, ORI_BA_Status := Originator_Done,
        oSequence := TxSeq (mac pAd w) ! ?t,
        ORIBATimer := (RTMPCancelTimer (ORIBATimer b))\<lparr>TimerValue := 0\<rparr>\<rparr>)"
    define q where "q = upd_ori ?i g (upd_mac w (\<lambda>m. m\<lparr>TXBAbitmap := TXBAbitmap m OR tid_bit ?t\<rparr>)
        (pAd\<lparr>numDoneOriginator := numDoneOriginator pAd + 1\<rparr>))"
    obtain ok2 q2 where al: "os_alloc_mem q = (ok2, q2)" by (cases "os_alloc_mem q")
    have eq: "BAOriSessionAdd w f pAd = (if \<not> ok2 then Some q2
        else Some (log (Send_BAR (oWcid (oris q2 ?i)) ?t (oSequence (oris q2 ?i))) q2))"
      using True t al by (simp add: BAOriSessionAdd_def Let_def ba_consts q_def g_def)
    have macr: "BAOriWcidArray (mac q w') = BAOriWcidArray (mac pAd w') \<and> Aid (mac q w') = Aid (mac pAd w') \<and>
        BARecWcidArray (mac q w') = BARecWcidArray (mac pAd w')" if "w' < 32" for w'
      using that sh(1) by (simp add: q_def mac_upd)
    have orir: "oTID (oris q j) = oTID (oris pAd j) \<and> oWcid (oris q j) = oWcid (oris pAd j) \<and>
        ORI_BA_Status (oris q j) = (if j = ?i then Originator_Done else ORI_BA_Status (oris pAd j))"
      if "j < 128" for j
      using that sh(3) by (simp add: q_def oris_upd g_def)
    have rest: "length (MacTab q) = 32" "length (BAOriEntry q) = 128" "BARecEntry q = BARecEntry pAd"
      "env q = env pAd" "numAsRecipient q = numAsRecipient pAd"
      "numAsOriginator q = numAsOriginator pAd" "numDoneOriginator q = numDoneOriginator pAd + 1"
      using sh by (simp_all add: q_def)
    have "shape q" using sh macr rest by (simp add: shape_def)
    moreover have rs: "rec_side pAd q" using macr rest by (simp add: rec_side_def)
    moreover have "ori_tab q"
      unfolding ori_tab_def
      by (rule tab_ok_cong [OF k(3) [unfolded ori_tab_def]]) (use macr orir True rest in auto)
    moreover have "done_count q"
    proof -
      let ?D = "{j. j < 128 \<and> ORI_BA_Status (oris pAd j) = Originator_Done}"
      have e: "{j. j < 128 \<and> ORI_BA_Status (oris q j) = Originator_Done} = insert ?i ?D"
        using orir i by (auto split: if_splits)
      have ni: "?i \<notin> ?D" using True by simp
      have "card ?D \<le> card {..<128::nat}" by (intro card_mono) auto
      then have "unat (numDoneOriginator pAd) \<le> 128" using k(4) by (simp add: done_count_def)
      then have "unat (numDoneOriginator pAd + 1) = unat (numDoneOriginator pAd) + 1"
        by (simp add: unat_word_ariths)
      then show ?thesis using k(4) ni by (simp add: done_count_def e rest)
    qed
    ultimately have "ba_ok q"
      using rec_side_tab [OF rs] rec_side_queues [OF rs] k by (simp add: ba_ok_def)
    then have "ba_ok q2" using same_tables_ok same_tables_alloc [OF al] by blast
    then show ?thesis using r eq same_tables_ok same_tables_misc(1) by (auto split: if_splits)
  qed
qed

lemma OriTearDown_ok:
  assumes ok: "ba_ok pAd" and r: "BAOriSessionTearDown w t bP bF pAd = Some pAd'"
  shows "ba_ok pAd'"
proof -
  note sh = shapeD [OF ba_okD(1) [OF ok]]
  have al: "os_alloc_mem pAd = (b, q) \<Longrightarrow> ba_ok q" for b q
    using same_tables_alloc same_tables_ok ok by blast
  have lg: "ba_ok q \<Longrightarrow> ba_ok (log x q)" for q x using same_tables_ok same_tables_misc(1) by blast
  have fr: "ba_ok q \<Longrightarrow> ba_ok (BATableFreeOriEntry i
      (upd_ori i (\<lambda>b. b\<lparr>ORIBATimer := RTMPCancelTimer (ORIBATimer b)\<rparr>) q))" for q i
    by (intro FreeOri_ok same_tables_ok [OF _ same_tables_ori]) (auto dest: ba_okD(1) shapeD(3))
  show ?thesis
    using r ok al lg fr
    by (auto simp: BAOriSessionTearDown_def Let_def split: if_splits prod.splits)
qed

lemma SetupTimeout_ok:
  assumes ok: "ba_ok pAd"
  shows "ba_ok (BAOriSessionSetupTimeout i pAd)"
proof -
  have lg: "ba_ok (log x pAd)" for x using same_tables_ok same_tables_misc(1) ok by blast
  have up: "ba_ok q \<Longrightarrow> (\<And>e. oWcid (f e) = oWcid e \<and> oTID (f e) = oTID e \<and> ORI_BA_Status (f e) = ORI_BA_Status e) \<Longrightarrow>
      ba_ok (upd_ori i f q)" for q f
    by (intro same_tables_ok [OF _ same_tables_ori]) (auto dest: ba_okD(1) shapeD(3))
  show ?thesis
    using ok FreeOri_ok [OF ok] up lg by (simp add: BAOriSessionSetupTimeout_def Let_def)
qed

lemma RecAdd_ok:
  assumes ok: "ba_ok pAd" and w: "w < 32" and r: "BARecSessionAdd w f pAd = Some (b, pAd')"
  shows "ba_ok pAd'"
proof -
  note k = ba_okD [OF ok] and sh = shapeD [OF ba_okD(1) [OF ok]]
  let ?t = "f_TID f"
  let ?arr = "BARecWcidArray (mac pAd w) ! ?t"
  have t: "?t < 8" using r by (auto simp: BARecSessionAdd_def ba_consts Let_def split: if_splits)
  have lg: "ba_ok q \<Longrightarrow> ba_ok (log x q)" for q x using same_tables_ok same_tables_misc(1) by blast
  show ?thesis
  proof (cases "?arr = 0")
    case True
    show ?thesis
    proof (cases "unat (numAsRecipient pAd) < 127")
      case n: True
      obtain j where j: "1 \<le> j" "j < 128" "REC_BA_Status (recs pAd j) = Recipient_NONE"
        and al: "BATableAllocRecEntry pAd 0 = (Some j, j, upd_rec j (\<lambda>e. e\<lparr>REC_BA_Status := Recipient_USED\<rparr>)
          (pAd\<lparr>numAsRecipient := numAsRecipient pAd + 1\<rparr>))"
        using AllocRec_spec [OF ok n] by blast
      show ?thesis
        using r True t sh(6) [OF w]
        by (simp add: BARecSessionAdd_def Let_def al ba_consts)
          (elim conjE, hypsubst, rule lg, rule new_rec_ok [OF ok j n w t True], simp_all)
    next
      case n: False
      then show ?thesis using r True ok t
        by (simp add: BARecSessionAdd_def Let_def BATableAllocRecEntry_def ba_consts)
    qed
  next
    case nz: False
    then have a: "?arr < 128" "REC_BA_Status (recs pAd ?arr) \<noteq> Recipient_NONE"
      "rWcid (recs pAd ?arr) = w" "rTID (recs pAd ?arr) = ?t"
      using k(2) w t by (simp_all add: rec_tab_def tab_ok_def)
    let ?q = "on_rec ?arr ba_refresh_reordering_mpdus pAd"
    have st: "same_tables pAd ?q" by (rule same_tables_on_rec [OF sh(2) a(1) keeps_refresh])
    then have ok2: "ba_ok ?q" using ok same_tables_ok by blast
    note k2 = ba_okD [OF ok2] and sh2 = shapeD [OF ba_okD(1) [OF ok2]]
    have a2: "REC_BA_Status (recs ?q ?arr) \<noteq> Recipient_NONE" "rWcid (recs ?q ?arr) = w"
      "rTID (recs ?q ?arr) = ?t" using st a by (simp_all add: same_tables_def)
    have mq: "MacTab ?q = MacTab pAd" by (simp add: on_rec_def split: prod.splits)
    have gen: "ba_ok (upd_mac w h (upd_rec ?arr g ?q))"
      if h: "\<And>m. BARecWcidArray (h m) = (BARecWcidArray m)[?t := ?arr] \<and>
          BAOriWcidArray (h m) = BAOriWcidArray m \<and> Aid (h m) = Aid m"
        and g: "\<And>e. REC_BA_Status (g e) = Recipient_Accept \<and> rWcid (g e) = w \<and> rTID (g e) = ?t \<and>
          re_list (g e) = re_list e" for h g
    proof -
      let ?r = "upd_mac w h (upd_rec ?arr g ?q)"
      have macr: "BAOriWcidArray (mac ?r w') = BAOriWcidArray (mac ?q w') \<and> Aid (mac ?r w') = Aid (mac ?q w') \<and>
          BARecWcidArray (mac ?r w') = BARecWcidArray (mac ?q w')" if "w' < 32" for w'
        using that sh2(1) h by (auto simp add: mac_upd mq)
      have recr: "recs ?r j = (if j = ?arr then g (recs ?q j) else recs ?q j)" if "j < 128" for j
        using that sh2(2) by (simp add: recs_upd)
      have "shape ?r" using sh2 macr by (simp add: shape_def)
      moreover have os: "ori_side ?q ?r" using macr by (simp add: ori_side_def)
      moreover have "rec_tab ?r"
        unfolding rec_tab_def
        by (rule tab_ok_cong [OF k2(2) [unfolded rec_tab_def]]) (use macr recr a2 g in auto)
      moreover have "queues_ok ?r"
        using k2(5) recr g by (auto simp: queues_ok_def lists_ok_def)
      ultimately show ?thesis
        using ori_side_tab [OF os] ori_side_done [OF os] k2 by (simp add: ba_ok_def)
    qed
    show ?thesis
      using r nz t sh(6) [OF w]
      by (simp add: BARecSessionAdd_def Let_def ba_consts)
        (elim conjE, hypsubst, rule lg, rule gen, simp_all)
  qed
qed

lemma log_ok: "ba_ok q \<Longrightarrow> ba_ok (log x q)"
  using same_tables_ok same_tables_misc(1) by blast

lemma alloc_ok: "ba_ok q \<Longrightarrow> os_alloc_mem q = (b, q') \<Longrightarrow> ba_ok q'"
  using same_tables_alloc same_tables_ok by blast

lemma on_rec_ok: "ba_ok q \<Longrightarrow> i < 128 \<Longrightarrow> keeps f \<Longrightarrow> ba_ok (on_rec i f q)"
  using same_tables_on_rec same_tables_ok ba_okD(1) shapeD(2) by blast

lemma upd_rec_ok:
  "ba_ok q \<Longrightarrow> (\<And>e. rWcid (f e) = rWcid e \<and> rTID (f e) = rTID e \<and> REC_BA_Status (f e) = REC_BA_Status e \<and>
     re_list (f e) = re_list e) \<Longrightarrow> ba_ok (upd_rec i f q)"
  using same_tables_rec same_tables_ok ba_okD(1) shapeD(2) by blast

lemma upd_mac_ok:
  "ba_ok q \<Longrightarrow> (\<And>m. BARecWcidArray (f m) = BARecWcidArray m \<and> BAOriWcidArray (f m) = BAOriWcidArray m \<and>
     Aid (f m) = Aid m) \<Longrightarrow> ba_ok (upd_mac w f q)"
  using same_tables_mac same_tables_ok ba_okD(1) shapeD(1) by blast

lemma rec_index:
  assumes "ba_ok pAd" "w < 32" "t < 8"
  shows "BARecWcidArray (mac pAd w) ! t < 128"
  using ba_okD(2) [OF assms(1)] assms(2,3)
  by (cases "BARecWcidArray (mac pAd w) ! t = 0") (simp_all add: rec_tab_def tab_ok_def)

text \<open>The tear-down of a recipient session clears the index of the station itself and then frees
  the entry, which clears it again: together they are the release of the entry.\<close>

lemma FreeRec_clear:
  assumes ok: "ba_ok q" and i: "i < 128" "0 < i" "REC_BA_Status (recs q i) \<noteq> Recipient_NONE"
    and wt: "rWcid (recs q i) = w" "rTID (recs q i) = t"
    and f: "\<And>m. BARecWcidArray (f m) = (BARecWcidArray m)[t := 0] \<and>
      BAOriWcidArray (f m) = BAOriWcidArray m \<and> Aid (f m) = Aid m"
  shows "ba_ok (BATableFreeRecEntry i (log x (upd_mac w f q)))"
proof -
  note sh = shapeD [OF ba_okD(1) [OF ok]]
  have w: "w < 32" "t < 8" using ba_okD(2) [OF ok] i wt by (auto simp: rec_tab_def tab_ok_def)
  let ?r = "BATableFreeRecEntry i (log x (upd_mac w f q))"
  let ?s = "BATableFreeRecEntry i q"
  have logs [simp]: "MacTab (log x p) = MacTab p" "BARecEntry (log x p) = BARecEntry p"
    "BAOriEntry (log x p) = BAOriEntry p" "numAsRecipient (log x p) = numAsRecipient p"
    "numAsOriginator (log x p) = numAsOriginator p" "numDoneOriginator (log x p) = numDoneOriginator p"
    "length (MacTab (log x p)) = length (MacTab p)" for p
    by (simp_all add: log_def)
  have "same_tables ?s ?r"
    using sh i wt w f unfolding same_tables_def
    by (simp add: BATableFreeRecEntry_def Let_def ba_consts mac_upd recs_upd queues_ok_def)
  then show ?thesis using FreeRec_ok [OF ok] same_tables_ok by blast
qed

lemma RecTearDown_ok:
  assumes ok: "ba_ok pAd" and r: "BARecSessionTearDown w t bP pAd = Some pAd'"
  shows "ba_ok pAd'"
proof (cases "w \<ge> MAX_LEN_OF_MAC_TABLE \<or> BARecWcidArray (mac pAd w) ! t = 0 \<or>
    \<not> (t = rTID (recs pAd (BARecWcidArray (mac pAd w) ! t)) \<and>
       REC_BA_Status (recs pAd (BARecWcidArray (mac pAd w) ! t)) = Recipient_Accept)")
  case True
  then have "pAd' = pAd \<or> pAd' = BATableFreeRecEntry (BARecWcidArray (mac pAd w) ! t) pAd"
    using r by (auto simp: BARecSessionTearDown_def Let_def split: if_splits)
  then show ?thesis using ok FreeRec_ok [OF ok] by auto
next
  case False
  let ?i = "BARecWcidArray (mac pAd w) ! t"
  have w: "w < 32" using False by (simp add: ba_consts)
  have t: "t < 8" using r w by (auto simp: BARecSessionTearDown_def ba_consts split: if_splits)
  have i: "?i < 128" "0 < ?i" "rWcid (recs pAd ?i) = w" "rTID (recs pAd ?i) = t"
    using ba_okD(2) [OF ok] w t False by (auto simp: rec_tab_def tab_ok_def)
  define q1 where "q1 = upd_rec ?i (\<lambda>b. b\<lparr>RECBATimer := RTMPCancelTimer (RECBATimer b)\<rparr>) pAd"
  obtain b q2 where q2: "(if \<not> bP then
        (case os_alloc_mem q1 of (ok, pAd) \<Rightarrow> (ok, if ok then log (Mlme_DELBA w t False) pAd else pAd))
      else (True, q1)) = (b, q2)"
    by (rule prod.exhaust)
  have s1: "same_tables pAd q1"
    unfolding q1_def by (rule same_tables_rec) (use shapeD(2) [OF ba_okD(1) [OF ok]] in auto)
  have "same_tables q1 q2"
    using q2 same_tables_alloc [of q1] same_tables_misc(1) same_tables_trans
    by (auto split: if_splits prod.splits)
  with s1 have s2: "same_tables pAd q2" by (rule same_tables_trans)
  have eq: "pAd' = (if \<not> b then q2 else
      (let q3 = upd_rec ?i (\<lambda>b. b\<lparr>LastIndSeq := RESET_RCV_SEQ, rBAWinSize := 0\<rparr>)
                  (on_rec ?i ba_refresh_reordering_mpdus q2)
       in BATableFreeRecEntry ?i (log (DEL_BA_SESSION_FROM_ASIC w t)
            (upd_mac w (\<lambda>m. m\<lparr>RXBAbitmap := RXBAbitmap m AND NOT (tid_bit (rTID (BARecEntry q3 ! ?i))),
               BARecWcidArray := (BARecWcidArray m)[t := 0]\<rparr>) q3))))"
    using r False t q2 by (simp add: BARecSessionTearDown_def Let_def ba_consts flip: q1_def split: if_splits)
  show ?thesis
  proof (cases b)
    case False
    then show ?thesis using eq same_tables_ok [OF ok s2] by simp
  next
    case True
    define q3 where "q3 = upd_rec ?i (\<lambda>b. b\<lparr>LastIndSeq := RESET_RCV_SEQ, rBAWinSize := 0\<rparr>)
                  (on_rec ?i ba_refresh_reordering_mpdus q2)"
    have l2: "length (BARecEntry q2) = 128" using s2 shapeD(2) [OF ba_okD(1) [OF ok]] by (simp add: same_tables_def)
    have s3: "same_tables q2 (on_rec ?i ba_refresh_reordering_mpdus q2)"
      by (rule same_tables_on_rec [OF l2 i(1) keeps_refresh])
    have "same_tables (on_rec ?i ba_refresh_reordering_mpdus q2) q3"
      unfolding q3_def by (rule same_tables_rec) (use s3 l2 in \<open>auto simp: same_tables_def\<close>)
    then have s: "same_tables pAd q3" using s2 s3 same_tables_trans by blast
    have e: "REC_BA_Status (recs q3 ?i) \<noteq> Recipient_NONE" "rWcid (recs q3 ?i) = w" "rTID (recs q3 ?i) = t"
      using s i False by (simp_all add: same_tables_def)
    have "ba_ok (BATableFreeRecEntry ?i (log (DEL_BA_SESSION_FROM_ASIC w t)
            (upd_mac w (\<lambda>m. m\<lparr>RXBAbitmap := RXBAbitmap m AND NOT (tid_bit (rTID (BARecEntry q3 ! ?i))),
               BARecWcidArray := (BARecWcidArray m)[t := 0]\<rparr>) q3)))"
      by (rule FreeRec_clear [OF same_tables_ok [OF ok s] i(1,2) e]) simp
    then show ?thesis using eq True by (simp add: q3_def [symmetric] Let_def)
  qed
qed

lemma tear_down_tids_ok:
  "ba_ok pAd \<Longrightarrow> tear_down_tids n i w pAd = Some pAd' \<Longrightarrow> ba_ok pAd'"
proof (induction n arbitrary: i pAd)
  case (Suc n)
  from Suc.prems(2) obtain p1 p2 where p: "BAOriSessionTearDown w i False False pAd = Some p1"
    "BARecSessionTearDown w i False p1 = Some p2" "tear_down_tids n (i + 1) w p2 = Some pAd'"
    by (auto simp: bind_eq_Some_conv)
  show ?case
    by (rule Suc.IH [OF RecTearDown_ok [OF OriTearDown_ok [OF Suc.prems(1) p(1)] p(2)] p(3)])
qed simp

lemma TearDownALL_ok:
  "ba_ok pAd \<Longrightarrow> BASessionTearDownALL w pAd = Some pAd' \<Longrightarrow> ba_ok pAd'"
  unfolding BASessionTearDownALL_def by (rule tear_down_tids_ok)

lemma IdleTimeout_ok: "ba_ok pAd \<Longrightarrow> i < 128 \<Longrightarrow> ba_ok (BARecSessionIdleTimeout i Now32 pAd)"
  using on_rec_ok [OF _ _ keeps_refresh] by (simp add: BARecSessionIdleTimeout_def Let_def)

lemma PeerAddBAReq_ok:
  assumes ok: "ba_ok pAd" and r: "PeerAddBAReqAction w f pAd = Some pAd'"
  shows "ba_ok pAd'"
proof (cases "w < 32")
  case False
  then show ?thesis using r ok by (simp add: PeerAddBAReqAction_def ba_consts)
next
  case True
  have fin: "ba_ok p" if "ba_ok q"
    "(case os_alloc_mem q of (ok, q) \<Rightarrow> if \<not> ok then Some q else Some (log (Send_ADDBA_RSP w st (f_TID f)
       (if min (of_nat (f_BufSize f) :: u8) (RxBAWinLimit q) = 0 then 64
        else unat (min (of_nat (f_BufSize f) :: u8) (RxBAWinLimit q)))) q)) = Some p" for st q p
    using that log_ok alloc_ok [OF that(1)] by (cases "os_alloc_mem q") (auto split: if_splits)
  let ?X = "if PeerAddBAReqActionSanity f then
            (if \<not> bBADecline pAd \<and> HtSta (MacTab pAd ! w) then
               map_option (\<lambda>(ok, pAd). (if ok then 0 else 38 :: nat, pAd)) (BARecSessionAdd w f pAd)
             else Some (37, pAd))
          else Some (1, pAd)"
  obtain st q where q: "?X = Some (st, q)"
    using r True by (cases ?X) (auto simp: PeerAddBAReqAction_def ba_consts)
  have p: "(case os_alloc_mem q of (ok, q) \<Rightarrow> if \<not> ok then Some q else Some (log (Send_ADDBA_RSP w st (f_TID f)
       (if min (of_nat (f_BufSize f) :: u8) (RxBAWinLimit q) = 0 then 64
        else unat (min (of_nat (f_BufSize f) :: u8) (RxBAWinLimit q)))) q)) = Some pAd'"
    using r True unfolding PeerAddBAReqAction_def q Let_def ba_consts by simp
  have "ba_ok q"
    using q ok RecAdd_ok [OF ok True] by (auto split: if_splits)
  then show ?thesis using fin p by blast
qed

lemma PeerAddBARsp_ok:
  assumes ok: "ba_ok pAd" and r: "PeerAddBARspAction w f pAd = Some pAd'"
  shows "ba_ok pAd'"
proof (cases "w < 32 \<and> PeerAddBARspActionSanity f")
  case False
  then show ?thesis using r ok by (auto simp: PeerAddBARspAction_def ba_consts split: if_splits)
next
  case True
  obtain q where q: "(if f_Status f = 0 then BAOriSessionAdd w f pAd
      else BAOriSessionTearDown w (f_TID f) True False pAd) = Some q"
    and pq: "pAd' = (if f_Status f = 37 \<or> (TGnWifiTest q \<and> f_Status f \<noteq> 0)
       then upd_mac w (\<lambda>m. m\<lparr>BADeclineBitmap := BADeclineBitmap m OR tid_bit (f_TID f)\<rparr>) q else q)"
    using r True unfolding PeerAddBARspAction_def ba_consts map_option_eq_Some by auto
  have "ba_ok q" using q True OriAdd_ok [OF ok] OriTearDown_ok [OF ok] by (auto split: if_splits)
  then show ?thesis using pq upd_mac_ok by auto
qed

lemma PeerDelBA_ok:
  "ba_ok pAd \<Longrightarrow> PeerDelBAAction w f pAd = Some pAd' \<Longrightarrow> ba_ok pAd'"
  by (auto simp: PeerDelBAAction_def split: if_splits intro: RecTearDown_ok OriTearDown_ok)

lemma Cntl_ok: "ba_ok pAd \<Longrightarrow> ba_ok (snd (CntlEnqueueForRecv w n t S pAd))"
  using on_rec_ok [OF _ rec_index keeps_bar]
  by (simp add: CntlEnqueueForRecv_def Let_def ba_consts)

lemma Indicate_ok:
  assumes ok: "ba_ok pAd" and r: "Indicate_AMPDU_Packet w t b Now32 pAd = Some pAd'"
  shows "ba_ok pAd'"
  using r ok on_rec_ok [OF ok _ keeps_Indicate] rec_index [OF ok]
    same_tables_ok [OF ok same_tables_misc(2)]
  by (auto simp: Indicate_AMPDU_Packet_def Let_def ba_consts INDICATE_eq split: if_splits)

lemma maintain_tid_ok: "ba_ok pAd \<Longrightarrow> w < 32 \<Longrightarrow> t < 8 \<Longrightarrow> ba_ok (maintain_tid w Now32 t pAd)"
  using on_rec_ok [OF _ _ keeps_flush] rec_index by (simp add: maintain_tid_def)

lemma fold_ok:
  assumes "\<And>x p. x \<in> set xs \<Longrightarrow> ba_ok p \<Longrightarrow> ba_ok (f x p)" "ba_ok p"
  shows "ba_ok (fold f xs p)"
  using assms by (induction xs arbitrary: p) auto

lemma Maintain_ok: "ba_ok pAd \<Longrightarrow> ba_ok (BaReOrderingBufferMaintain Now32 pAd)"
  unfolding BaReOrderingBufferMaintain_def
  by (intro fold_ok) (auto intro!: fold_ok maintain_tid_ok simp: ba_consts)


end
