(* ===== verification/BaReach.thy ===== *)
theory BaReach
  imports BaTables
begin

text \<open>
  The Block Ack sessions as a state machine: the step relation over all events the code
  handles, the reachable states, and the properties of the session layer.
\<close>

section \<open>Reachable states\<close>

text \<open>Every event the session code handles, in any order: requests to set a session up,
  frames of the peer, data frames and Block Ack Requests, timers, the tear-down of a
  station, the periodic maintenance, and the outcome of memory allocations.\<close>

inductive ba_step :: "ba_adapter \<Rightarrow> ba_adapter \<Rightarrow> bool" where
  set_up: "w < MAX_LEN_OF_MAC_TABLE \<Longrightarrow> ba_step p (BAOriSessionSetUp w t tmo d forced p)"
| retry: "ba_step p (BAOriSessionSetupTimeout i p)"
| idle: "i < MAX_LEN_OF_BA_REC_TABLE \<Longrightarrow> ba_step p (BARecSessionIdleTimeout i now p)"
| addba_req: "PeerAddBAReqAction w f p = Some p' \<Longrightarrow> ba_step p p'"
| addba_rsp: "PeerAddBARspAction w f p = Some p' \<Longrightarrow> ba_step p p'"
| delba: "PeerDelBAAction w g p = Some p' \<Longrightarrow> ba_step p p'"
| bar: "ba_step p (snd (CntlEnqueueForRecv w n t S p))"
| frame: "Indicate_AMPDU_Packet w t r now p = Some p' \<Longrightarrow> ba_step p p'"
| maintain: "ba_step p (BaReOrderingBufferMaintain now p)"
| tear_down: "BASessionTearDownALL w p = Some p' \<Longrightarrow> ba_step p p'"
| memory: "ba_step p (p\<lparr>allocs := bs\<rparr>)"

inductive ba_reach :: "ba_adapter \<Rightarrow> ba_adapter \<Rightarrow> bool" for p0 where
  start: "ba_reach p0 p0"
| step: "ba_reach p0 p \<Longrightarrow> ba_step p p' \<Longrightarrow> ba_reach p0 p'"

inductive_cases ba_stepE: "ba_step p p'"

lemma ba_step_ok: "ba_step p p' \<Longrightarrow> ba_ok p \<Longrightarrow> ba_ok p'"
proof (induction rule: ba_step.induct)
  case (set_up w p t tmo d forced)
  then show ?case by (intro SetUp_ok) (simp_all add: ba_consts)
next
  case (idle i now p)
  then show ?case by (intro IdleTimeout_ok) (simp_all add: ba_consts)
next
  case (memory p bs)
  then show ?case using same_tables_ok same_tables_misc(3) by blast
qed (blast intro: SetupTimeout_ok PeerAddBAReq_ok PeerAddBARsp_ok PeerDelBA_ok Cntl_ok Indicate_ok
      Maintain_ok TearDownALL_ok)+

lemma ba_reach_ok: "ba_reach p0 p \<Longrightarrow> ba_ok p0 \<Longrightarrow> ba_ok p"
  by (induction rule: ba_reach.induct) (auto dest: ba_step_ok)

text \<open>The state \<open>BATableInit\<close> makes of an adapter whose station table is zeroed.\<close>

lemma clear_recs_spec:
  "n \<le> length es \<Longrightarrow> length (clear_recs n es) = length es \<and>
    (\<forall>j<length es. clear_recs n es ! j = (if j < n then (es ! j)\<lparr>REC_BA_Status := Recipient_NONE\<rparr> else es ! j))"
  by (induction n) (auto simp: nth_list_update less_Suc_eq)

lemma clear_oris_spec:
  "n \<le> length es \<Longrightarrow> length (clear_oris n es) = length es \<and>
    (\<forall>j<length es. clear_oris n es ! j = (if j < n then (es ! j)\<lparr>ORI_BA_Status := Originator_NONE\<rparr> else es ! j))"
  by (induction n) (auto simp: nth_list_update less_Suc_eq)

definition zeroed :: "ba_adapter \<Rightarrow> bool" where
  "zeroed p \<longleftrightarrow> shape p \<and> queues_ok p \<and>
    (\<forall>w<32. \<forall>t<8. BARecWcidArray (mac p w) ! t = 0 \<and> BAOriWcidArray (mac p w) ! t = 0)"

lemma Init_ok:
  assumes "zeroed p"
  shows "ba_ok (BATableInit p)"
proof -
  let ?q = "BATableInit p"
  have sh: "shape p" "queues_ok p" using assms by (simp_all add: zeroed_def)
  note l = shapeD(2,3) [OF sh(1)]
  have r: "recs ?q j = (recs p j)\<lparr>REC_BA_Status := Recipient_NONE\<rparr>"
    and o: "oris ?q j = (oris p j)\<lparr>ORI_BA_Status := Originator_NONE\<rparr>" if "j < 128" for j
    using that l clear_recs_spec [of 128 "BARecEntry p"] clear_oris_spec [of 128 "BAOriEntry p"]
    by (simp_all add: BATableInit_def ba_consts)
  have len: "length (BARecEntry ?q) = 128" "length (BAOriEntry ?q) = 128" "MacTab ?q = MacTab p" "env ?q = env p"
    using l clear_recs_spec [of 128 "BARecEntry p"] clear_oris_spec [of 128 "BAOriEntry p"]
    by (simp_all add: BATableInit_def ba_consts)
  have num: "numAsRecipient ?q = 0" "numAsOriginator ?q = 0" "numDoneOriginator ?q = 0"
    by (simp_all add: BATableInit_def)
  have "shape ?q" using sh(1) len by (simp add: shape_def)
  moreover have "rec_tab ?q"
    using assms r by (auto simp: rec_tab_def tab_ok_def zeroed_def len num)
  moreover have "ori_tab ?q"
    using assms o by (auto simp: ori_tab_def tab_ok_def zeroed_def len num)
  moreover have "done_count ?q"
    using o by (auto simp: done_count_def num)
  moreover have "queues_ok ?q" using sh(2) r by (simp add: queues_ok_def lists_ok_def len)
  ultimately show ?thesis by (simp add: ba_ok_def)
qed


definition idle_timer :: RALINK_TIMER_STRUCT where
  "idle_timer = \<lparr>Valid = False, State = False, PeriodicType = False, Repeat = False,
     TimerValue = 0, armed = False\<rparr>"

definition ex_mac :: "nat \<Rightarrow> mac_entry" where
  "ex_mac w = \<lparr>Aid = of_nat w, Addr = w, EntryNone = False, HtSta = True, EncryptionDisabled = True,
     MaxRAmpduFactor = 3, RXBAbitmap = 0, TXBAbitmap = 0, BADeclineBitmap = 0,
     BARecWcidArray = replicate 8 0, BAOriWcidArray = replicate 8 0, TxSeq = replicate 8 0\<rparr>"

definition ex_ori :: ba_ori_entry where
  "ex_ori = \<lparr>oWcid = 0, oTID = 0, oBAWinSize = 0, oToken = 0, oSequence = 0, oTimeOutValue = 0,
     ORI_BA_Status = Originator_NONE, ORIBATimer = idle_timer\<rparr>"

definition ex_adapter :: ba_adapter where
  "ex_adapter = \<lparr>env = ex_env 4, numAsRecipient = 0, numAsOriginator = 0, numDoneOriginator = 0,
     BAOriEntry = replicate 128 ex_ori, BARecEntry = replicate 128 (ex_entry 0),
     MacTab = map ex_mac [0..<32], ctl = [], allocs = [], MACVersion = 0x30710000, AutoBA = True,
     RxBAWinLimit = 32, bBADecline = False, FixedTxMode = 0, HaltInProgress = False,
     MonitorOn = False, AteOn = False, ScanHold = False, TGnWifiTest = False\<rparr>"

lemma ex_zeroed: "zeroed ex_adapter"
proof -
  have "unat (ucast (of_nat w :: u16) :: u8) = w" if "w < 32" for w
    using that by (simp add: unat_of_nat unsigned_ucast_eq take_bit_eq_mod)
  then show ?thesis
    by (simp add: zeroed_def shape_def ex_adapter_def ex_mac_def queues_ok_def lists_ok_def ex_env_def ex_entry_def)
qed


lemma tab_ok_inj:
  assumes "tab_ok N arr used wc td num" "w < 32" "t < 8" "w' < 32" "t' < 8"
    and "arr w t \<noteq> 0" "arr w t = arr w' t'"
  shows "(w, t) = (w', t')"
proof -
  have A: "\<forall>w<32. \<forall>t<8. arr w t \<noteq> 0 \<longrightarrow> wc (arr w t) = w \<and> td (arr w t) = t"
    using assms(1) unfolding tab_ok_def by blast
  have 1: "wc (arr w t) = w \<and> td (arr w t) = t" using A assms(2,3,6) by blast
  have "arr w' t' \<noteq> 0" using assms(6) unfolding assms(7) .
  then have 2: "wc (arr w' t') = w' \<and> td (arr w' t') = t'" using A assms(4,5) by blast
  have "w = w'" using 1 2 arg_cong [OF assms(7), of wc] by (rule_tac trans [OF sym [OF conjunct1 [OF 1]]]) metis
  moreover have "t = t'" using 1 2 arg_cong [OF assms(7), of td] by (rule_tac trans [OF sym [OF conjunct2 [OF 1]]]) metis
  ultimately show ?thesis by blast
qed



text \<open>The recipient allocator never hands out an entry in use: in a consistent state it fails
  exactly when all 127 usable entries are taken, and otherwise the entry it returns was free
  and its index is the one it reports.\<close>
theorem rec_alloc_correct:
  assumes "ba_ok p"
  shows "if unat (numAsRecipient p) \<ge> MAX_LEN_OF_BA_REC_TABLE - 1
    then BATableAllocRecEntry p Idx = (None, Idx, p)
    else \<exists>j p'. BATableAllocRecEntry p Idx = (Some j, j, p') \<and> 1 \<le> j \<and> j < MAX_LEN_OF_BA_REC_TABLE \<and>
      REC_BA_Status (recs p j) = Recipient_NONE"
proof (cases "unat (numAsRecipient p) \<ge> 127")
  case True
  then show ?thesis by (simp add: BATableAllocRecEntry_def ba_consts)
next
  case False
  then show ?thesis using AllocRec_spec [OF assms, of Idx] by (auto simp: ba_consts)
qed

theorem rec_alloc_correct_witness:
  "\<exists>j p'. BATableAllocRecEntry (BATableInit ex_adapter) 0 = (Some j, j, p') \<and> 1 \<le> j \<and> j < MAX_LEN_OF_BA_REC_TABLE \<and>
      REC_BA_Status (recs (BATableInit ex_adapter) j) = Recipient_NONE"
  using rec_alloc_correct [OF Init_ok [OF ex_zeroed], of 0] by (simp add: BATableInit_def ba_consts)


text \<open>Iterating the set-up time-out of an originator session that gets no answer.\<close>

lemma retry_step:
  assumes "shape p" "i < 128" "ORI_BA_Status (oris p i) = Originator_WaitRes" "oToken (oris p i) < 8"
    and "\<not> MonitorOn p" "\<not> AteOn p" "\<not> ScanHold p"
  shows "\<exists>x. ctl (BAOriSessionSetupTimeout i p) = ctl p @ [Mlme_ADDBA x (oTID (oris p i)) (oToken (oris p i)) (RxBAWinLimit p)]"
    and "ORI_BA_Status (oris (BAOriSessionSetupTimeout i p) i) = Originator_WaitRes"
    and "oToken (oris (BAOriSessionSetupTimeout i p) i) = oToken (oris p i) + 1"
    and "MonitorOn (BAOriSessionSetupTimeout i p) = MonitorOn p" "AteOn (BAOriSessionSetupTimeout i p) = AteOn p"
    and "ScanHold (BAOriSessionSetupTimeout i p) = ScanHold p"
  using assms shapeD(3) [OF assms(1)]
  by (simp_all add: BAOriSessionSetupTimeout_def Let_def ORI_SESSION_MAX_RETRY_def upd_ori_def log_def)

definition addba_sent :: "ba_adapter \<Rightarrow> nat" where
  "addba_sent p = length (filter (\<lambda>x. case x of Mlme_ADDBA _ _ _ _ \<Rightarrow> True | _ \<Rightarrow> False) (ctl p))"

lemma retry_run:
  assumes "ba_ok p" "i < 128" "ORI_BA_Status (oris p i) = Originator_WaitRes" "oToken (oris p i) = 1"
    and "\<not> MonitorOn p" "\<not> AteOn p" "\<not> ScanHold p"
  shows "n \<le> 7 \<Longrightarrow> let q = (BAOriSessionSetupTimeout i ^^ n) p in
    ba_ok q \<and> ORI_BA_Status (oris q i) = Originator_WaitRes \<and> oToken (oris q i) = 1 + of_nat n \<and>
    \<not> MonitorOn q \<and> \<not> AteOn q \<and> \<not> ScanHold q \<and> addba_sent q = addba_sent p + n"
proof (induction n)
  case 0
  then show ?case using assms by simp
next
  case (Suc n)
  define q where "q = (BAOriSessionSetupTimeout i ^^ n) p"
  have q: "ba_ok q" "ORI_BA_Status (oris q i) = Originator_WaitRes" "oToken (oris q i) = 1 + of_nat n"
    "\<not> MonitorOn q" "\<not> AteOn q" "\<not> ScanHold q" "addba_sent q = addba_sent p + n"
    using Suc by (simp_all add: q_def Let_def)
  have "unat (word_of_nat (1 + n) :: u8) = 1 + n"
    unfolding unat_of_nat using Suc.prems by simp
  then have t: "oToken (oris q i) < 8"
    using Suc.prems by (simp add: word_less_nat_alt q(3))
  note s = retry_step [OF ba_okD(1) [OF q(1)] assms(2) q(2) t q(4-6)]
  have "addba_sent (BAOriSessionSetupTimeout i q) = addba_sent q + 1"
    using s(1) by (auto simp: addba_sent_def)
  then show ?case using s SetupTimeout_ok [OF q(1)] q by (simp add: q_def Let_def)
qed

text \<open>A session request that is never answered ends: starting in state \<open>WaitRes\<close> with token 1,
  and outside scanning, monitor and test mode, the driver queues exactly seven ADDBA requests
  and the eighth time-out frees the entry, leaving the tables consistent.\<close>
theorem unanswered_session_is_freed:
  assumes "ba_ok p" "i < MAX_LEN_OF_BA_ORI_TABLE" "ORI_BA_Status (oris p i) = Originator_WaitRes"
    and "oToken (oris p i) = 1" "\<not> MonitorOn p" "\<not> AteOn p" "\<not> ScanHold p"
  shows "let q = (BAOriSessionSetupTimeout i ^^ 8) p in
    ORI_BA_Status (oris q i) = Originator_NONE \<and> addba_sent q = addba_sent p + 7 \<and> ba_ok q"
proof -
  have i: "i < 128" using assms(2) by (simp add: ba_consts)
  define q where "q = (BAOriSessionSetupTimeout i ^^ 7) p"
  have q: "ba_ok q" "ORI_BA_Status (oris q i) = Originator_WaitRes" "oToken (oris q i) = 8"
    "\<not> MonitorOn q" "\<not> AteOn q" "addba_sent q = addba_sent p + 7"
    using retry_run [OF assms(1) i assms(3-7), of 7] by (simp_all add: q_def Let_def)
  have e: "0 < i" "BAOriWcidArray (mac q (oWcid (oris q i))) ! oTID (oris q i) = i"
    using ba_okD(3) [OF q(1)] i q(2) by (auto simp: ori_tab_def tab_ok_def)
  have r: "BAOriSessionSetupTimeout i q = BATableFreeOriEntry i q"
    using q e by (simp add: BAOriSessionSetupTimeout_def Let_def ORI_SESSION_MAX_RETRY_def)
  have "ORI_BA_Status (oris (BATableFreeOriEntry i q) i) = Originator_NONE"
    using q(2) i e(1) shapeD(3) [OF ba_okD(1) [OF q(1)]]
    by (simp add: BATableFreeOriEntry_def Let_def ba_consts oris_upd)
  moreover have "ctl (BATableFreeOriEntry i q) = ctl q"
    by (simp add: BATableFreeOriEntry_def Let_def upd_mac_def upd_ori_def)
  moreover have "(BAOriSessionSetupTimeout i ^^ 8) p = BAOriSessionSetupTimeout i q"
    by (simp add: q_def numeral_eq_Suc)
  ultimately show ?thesis using q FreeOri_ok [OF q(1)] by (simp add: r addba_sent_def Let_def)
qed

definition ex_wait :: ba_adapter where
  "ex_wait = upd_ori 1 (\<lambda>e. e\<lparr>ORI_BA_Status := Originator_WaitRes, oWcid := 1, oTID := 5, oToken := 1\<rparr>)
    (upd_mac 1 (\<lambda>m. m\<lparr>BAOriWcidArray := (BAOriWcidArray m)[5 := 1]\<rparr>)
      (upd_ori 1 (\<lambda>e. e\<lparr>ORI_BA_Status := Originator_USED\<rparr>)
        ((BATableInit ex_adapter)\<lparr>numAsOriginator := numAsOriginator (BATableInit ex_adapter) + 1\<rparr>)))"

lemma ex_waiting:
  "ba_ok ex_wait" "ORI_BA_Status (oris ex_wait 1) = Originator_WaitRes" "oToken (oris ex_wait 1) = 1"
  "\<not> MonitorOn ex_wait" "\<not> AteOn ex_wait" "\<not> ScanHold ex_wait"
proof -
  note ok = Init_ok [OF ex_zeroed]
  have "ORI_BA_Status (oris (BATableInit ex_adapter) 1) = Originator_NONE"
    using clear_oris_spec [of 128 "BAOriEntry ex_adapter"]
    by (simp add: BATableInit_def ba_consts ex_adapter_def)
  then show "ba_ok ex_wait" unfolding ex_wait_def
    by (intro new_ori_ok [OF ok]) (simp_all add: BATableInit_def ex_adapter_def ex_mac_def)
  show "ORI_BA_Status (oris ex_wait 1) = Originator_WaitRes" "oToken (oris ex_wait 1) = 1"
    using shapeD(3) [OF ba_okD(1) [OF ok]] by (simp_all add: ex_wait_def oris_upd)
  show "\<not> MonitorOn ex_wait" "\<not> AteOn ex_wait" "\<not> ScanHold ex_wait"
    by (simp_all add: ex_wait_def upd_ori_def upd_mac_def BATableInit_def ex_adapter_def)
qed

theorem unanswered_session_is_freed_witness:
  "let q = (BAOriSessionSetupTimeout 1 ^^ 8) ex_wait in
    ORI_BA_Status (oris q 1) = Originator_NONE \<and> addba_sent q = addba_sent ex_wait + 7 \<and> ba_ok q"
  by (rule unanswered_session_is_freed [OF ex_waiting(1) _ ex_waiting(2-6)]) (simp add: ba_consts)

text \<open>An ADDBA request whose traffic identifier is 8 or more (the field has four bits) makes the
  handler access the eight-element index array of the station out of its bounds: no check
  stands between the frame and the access.\<close>
theorem addba_tid_out_of_bounds:
  assumes "w < MAX_LEN_OF_MAC_TABLE" "PeerAddBAReqActionSanity f" "\<not> bBADecline p" "HtSta (mac p w)"
  shows "PeerAddBAReqAction w f p = None \<longleftrightarrow> f_TID f \<ge> NUM_OF_TID"
proof -
  have "BARecSessionAdd w f p = None \<longleftrightarrow> f_TID f \<ge> NUM_OF_TID"
    by (auto simp: BARecSessionAdd_def Let_def split: prod.splits option.splits)
  then show ?thesis
    using assms by (cases "BARecSessionAdd w f p") (auto simp: PeerAddBAReqAction_def Let_def split: prod.splits)
qed

theorem addba_tid_out_of_bounds_witness:
  "PeerAddBAReqAction 1 \<lparr>f_TID = 9, f_BufSize = 64, f_TimeOut = 0, f_Status = 0, f_PolicyImmed = True,
     f_LenOk = True\<rparr> (BATableInit ex_adapter) = None"
  by (subst addba_tid_out_of_bounds)
    (simp_all add: ba_consts PeerAddBAReqActionSanity_def BATableInit_def ex_adapter_def ex_mac_def)

text \<open>The window size an originator session ends up with is never larger than asked for, never
  more than 31 frames, and at most 7 towards an encrypting station on a chip of the 3070 family.\<close>
theorem win_size_bounds:
  "BA_MaxWinSizeReasign p m s \<le> min s (if EncryptionDisabled m \<or> MACVersion p < RALINK_3070_VERSION then 31 else 7)"
proof -
  define X where "X = (of_int ((push_bit (unat (MaxRAmpduFactor m) + 3) 1 * 10) div 16 - 1) :: u8)"
  define M where "M = (if MACVersion p \<ge> RALINK_2883_VERSION then
        if MACVersion p \<ge> RALINK_3070_VERSION then if \<not> EncryptionDisabled m then 7 else 13 else 31
      else if MACVersion p \<ge> RALINK_2880E_VERSION then if \<not> EncryptionDisabled m then 7 else 13
      else 7 :: u8)"
  have R: "BA_MaxWinSizeReasign p m s = (if s > min X M then min X M else s)"
    unfolding BA_MaxWinSizeReasign_def X_def M_def Let_def by (rule refl)
  have "M \<le> (if EncryptionDisabled m \<or> MACVersion p < RALINK_3070_VERSION then 31 else 7)"
    by (auto simp: M_def RALINK_2883_VERSION_def RALINK_3070_VERSION_def not_less)
  moreover have "BA_MaxWinSizeReasign p m s \<le> s" "BA_MaxWinSizeReasign p m s \<le> M"
    unfolding R by (auto simp: not_less)
  ultimately show ?thesis using order_trans by auto
qed

end
