(* ===== verification/QueueSpec.thy ===== *)
theory QueueSpec
  imports Prelude
begin

text \<open>
  The contract of a first-in first-out queue, as a locale. Three components of the
  drivers provide it: the linked list of \<open>link_list.h\<close>, the ring of MLME messages,
  and the key buffer of the infrared receiver. The provider relates its state to the
  list of queued elements with \<open>rep\<close>; \<open>room\<close> says when an insertion is legal for it.
\<close>

text \<open>Two offsets inside a ring that reach the same slot are equal.\<close>

lemma mod_shift_inj:
  assumes "(h + j) mod n = (h + k) mod n" "j < n" "k < (n::nat)"
  shows "j = k"
proof -
  have "int (h + j) mod int n = int (h + k) mod int n" using assms(1) by (metis of_nat_mod)
  then have "int n dvd int (h + j) - int (h + k)" by (metis mod_eq_dvd_iff)
  then have d: "int n dvd int j - int k" by simp
  have b: "\<bar>int j - int k\<bar> < int n" using assms(2,3) by linarith
  have "int j - int k = 0" using d b zdvd_imp_le [of "int n" "\<bar>int j - int k\<bar>"] by fastforce
  then show ?thesis by simp
qed

datatype 'a qop = Enq 'a | Deq

fun q_run :: "('s \<Rightarrow> 'a \<Rightarrow> 's) \<Rightarrow> ('s \<Rightarrow> 'a option \<times> 's) \<Rightarrow> 's \<Rightarrow> 'a qop list \<Rightarrow> 'a list \<times> 's" where
  "q_run enq deq s [] = ([], s)"
| "q_run enq deq s (Enq x # ops) = q_run enq deq (enq s x) ops"
| "q_run enq deq s (Deq # ops) =
    (case deq s of (r, s') \<Rightarrow> case q_run enq deq s' ops of (out, s'') \<Rightarrow>
       ((case r of None \<Rightarrow> [] | Some x \<Rightarrow> [x]) @ out, s''))"

fun q_legal :: "('s \<Rightarrow> 'a \<Rightarrow> bool) \<Rightarrow> ('s \<Rightarrow> 'a \<Rightarrow> 's) \<Rightarrow> ('s \<Rightarrow> 'a option \<times> 's) \<Rightarrow> 's \<Rightarrow> 'a qop list \<Rightarrow> bool"
where
  "q_legal room enq deq s [] \<longleftrightarrow> True"
| "q_legal room enq deq s (Enq x # ops) \<longleftrightarrow> room s x \<and> q_legal room enq deq (enq s x) ops"
| "q_legal room enq deq s (Deq # ops) \<longleftrightarrow> q_legal room enq deq (snd (deq s)) ops"

fun q_inputs :: "'a qop list \<Rightarrow> 'a list" where
  "q_inputs [] = []"
| "q_inputs (Enq x # ops) = x # q_inputs ops"
| "q_inputs (Deq # ops) = q_inputs ops"

text \<open>The core of the contract: what is put in comes out in order. A completion ring, which is told by
  the hardware how many elements to take, promises no more than this.\<close>

fun deq_n :: "('s \<Rightarrow> 'a option \<times> 's) \<Rightarrow> nat \<Rightarrow> 's \<Rightarrow> 'a list \<times> 's" where
  "deq_n deq 0 s = ([], s)"
| "deq_n deq (Suc n) s =
    (case deq s of (r, s') \<Rightarrow> case deq_n deq n s' of (out, s'') \<Rightarrow> ((case r of None \<Rightarrow> [] | Some x \<Rightarrow> [x]) @ out, s''))"

locale fifo_core =
  fixes enq :: "'s \<Rightarrow> 'a \<Rightarrow> 's"
    and deq :: "'s \<Rightarrow> 'a option \<times> 's"
    and rep :: "'s \<Rightarrow> 'a list \<Rightarrow> bool"
    and room :: "'s \<Rightarrow> 'a \<Rightarrow> bool"
  assumes enq_rep: "rep s xs \<Longrightarrow> room s x \<Longrightarrow> rep (enq s x) (xs @ [x])"
    and deq_Cons: "rep s (x # xs) \<Longrightarrow> fst (deq s) = Some x \<and> rep (snd (deq s)) xs"
begin

text \<open>A batch of at most as many elements as are queued takes the oldest ones.\<close>

lemma deq_n_rep:
  "rep s xs \<Longrightarrow> n \<le> length xs \<Longrightarrow> fst (deq_n deq n s) = take n xs \<and> rep (snd (deq_n deq n s)) (drop n xs)"
proof (induction n arbitrary: s xs)
  case 0
  then show ?case by simp
next
  case (Suc n)
  then obtain x ys where xs: "xs = x # ys" by (cases xs) auto
  then have d: "fst (deq s) = Some x" "rep (snd (deq s)) ys" using deq_Cons Suc.prems by auto
  from Suc.IH [OF d(2)] Suc.prems xs d(1) show ?case by (auto split: prod.splits)
qed

end

text \<open>A queue also notices that it is empty.\<close>

locale fifo_queue = fifo_core +
  assumes deq_Nil: "rep s [] \<Longrightarrow> fst (deq s) = None \<and> rep (snd (deq s)) []"
begin

text \<open>Over any legal sequence of operations, what came out followed by what is left
  is what was in followed by what was put in, in order.\<close>

lemma fifo_history:
  assumes "rep s xs" "q_legal room enq deq s ops"
  shows "\<exists>ys. rep (snd (q_run enq deq s ops)) ys \<and>
    xs @ q_inputs ops = fst (q_run enq deq s ops) @ ys"
  using assms
proof (induction ops arbitrary: s xs)
  case Nil
  then show ?case by auto
next
  case (Cons p ops)
  show ?case
  proof (cases p)
    case (Enq x)
    then have "rep (enq s x) (xs @ [x])" "q_legal room enq deq (enq s x) ops"
      using Cons.prems enq_rep by auto
    from Cons.IH [OF this] Enq show ?thesis by simp
  next
    case Deq
    have legal: "q_legal room enq deq (snd (deq s)) ops" using Cons.prems Deq by simp
    show ?thesis
    proof (cases xs)
      case Nil
      then have d: "fst (deq s) = None" "rep (snd (deq s)) []"
        using deq_Nil Cons.prems by auto
      from Cons.IH [OF d(2) legal] d(1) Deq Nil show ?thesis
        by (auto split: prod.splits)
    next
      case (Cons x xs')
      then have d: "fst (deq s) = Some x" "rep (snd (deq s)) xs'"
        using deq_Cons \<open>rep s xs\<close> by auto
      from Cons.IH [OF d(2) legal] d(1) Deq Cons show ?thesis
        by (auto split: prod.splits)
    qed
  qed
qed

end

end
