(* ===== verification/LinkList.thy ===== *)
theory LinkList
  imports QueueSpec
begin

text \<open>
  The singly linked list of \<open>rt3370/include/link_list.h\<close>: a header with head and tail
  pointers and an 8-bit element count, over entries linked through \<open>pNext\<close>. The
  memory is an explicit store from entry addresses to the address in \<open>pNext\<close>; address 0
  is the null pointer. Each operation takes the store and the header it changes.
\<close>

type_synonym ptr = nat
type_synonym store = "ptr \<Rightarrow> ptr"

record LIST_HEADER =
  pHead :: ptr
  pTail :: ptr
  size_of :: u8

definition initList :: "LIST_HEADER \<Rightarrow> LIST_HEADER" where
  "initList pList = pList\<lparr>pHead := 0, pTail := 0, size_of := 0\<rparr>"

definition insertTailList :: "store \<Rightarrow> LIST_HEADER \<Rightarrow> ptr \<Rightarrow> store \<times> LIST_HEADER" where
  "insertTailList pNext pList pEntry =
    (let pNext = pNext(pEntry := 0);
         (pNext, pList) =
           (if pTail pList \<noteq> 0 then (pNext(pTail pList := pEntry), pList)
            else (pNext, pList\<lparr>pHead := pEntry\<rparr>))
     in (pNext, pList\<lparr>pTail := pEntry, size_of := size_of pList + 1\<rparr>))"

definition removeHeadList :: "store \<Rightarrow> LIST_HEADER \<Rightarrow> ptr \<times> LIST_HEADER" where
  "removeHeadList pNext pList =
    (let pEntry = pHead pList
     in if pHead pList \<noteq> 0 then
          (let n = pNext (pHead pList);
               pList = pList\<lparr>pHead := n\<rparr>;
               pList = (if n = 0 then pList\<lparr>pTail := 0\<rparr> else pList)
           in (pEntry, pList\<lparr>size_of := size_of pList - 1\<rparr>))
        else (pEntry, pList))"

definition getListSize :: "LIST_HEADER \<Rightarrow> int" where
  "getListSize pList = uint (size_of pList)"

text \<open>The search loop of \<open>delEntryList\<close>; on a cyclic list it would not end, so the
  value is an option and \<open>None\<close> is not returning.\<close>

partial_function (option) del_loop ::
  "store \<Rightarrow> LIST_HEADER \<Rightarrow> ptr \<Rightarrow> ptr \<Rightarrow> ptr \<Rightarrow> (ptr \<times> store \<times> LIST_HEADER) option" where
  "del_loop pNext pList pEntry pPrvEntry pCurEntry =
    (if pCurEntry = 0 then Some (pCurEntry, pNext, pList)
     else if pEntry = pCurEntry then
       Some (pCurEntry, pNext(pPrvEntry := pNext pCurEntry),
             (if pEntry = pTail pList then pList\<lparr>pTail := pPrvEntry\<rparr> else pList)
               \<lparr>size_of := size_of pList - 1\<rparr>)
     else del_loop pNext pList pEntry pCurEntry (pNext pCurEntry))"

definition delEntryList ::
  "store \<Rightarrow> LIST_HEADER \<Rightarrow> ptr \<Rightarrow> (ptr \<times> store \<times> LIST_HEADER) option" where
  "delEntryList pNext pList pEntry =
    (if pHead pList = 0 then Some (0, pNext, pList)
     else if pEntry = pHead pList then
       (let pCurEntry = pHead pList;
            pList = pList\<lparr>pHead := pNext pCurEntry\<rparr>;
            pList = (if pHead pList = 0 then pList\<lparr>pTail := 0\<rparr> else pList)
        in Some (pCurEntry, pNext, pList\<lparr>size_of := size_of pList - 1\<rparr>))
     else del_loop pNext pList pEntry (pHead pList) (pNext (pHead pList)))"

section \<open>What a header represents\<close>

fun linked :: "store \<Rightarrow> ptr \<Rightarrow> ptr list \<Rightarrow> bool" where
  "linked pNext p [] \<longleftrightarrow> p = 0"
| "linked pNext p (x # xs) \<longleftrightarrow> p = x \<and> x \<noteq> 0 \<and> linked pNext (pNext x) xs"

definition list_rep :: "store \<times> LIST_HEADER \<Rightarrow> ptr list \<Rightarrow> bool" where
  "list_rep s xs \<longleftrightarrow> linked (fst s) (pHead (snd s)) xs \<and> distinct xs \<and>
    pTail (snd s) = (if xs = [] then 0 else last xs) \<and> size_of (snd s) = of_nat (length xs)"

lemma linked_upd: "p \<notin> set xs \<Longrightarrow> linked (pNext(p := q)) r xs = linked pNext r xs"
  by (induction xs arbitrary: r) auto

lemma linked_nonzero: "linked pNext p xs \<Longrightarrow> 0 \<notin> set xs"
  by (induction xs arbitrary: p) auto

lemma linked_snoc:
  "linked pNext p (xs @ [y]) \<Longrightarrow> distinct (xs @ [y]) \<Longrightarrow> e \<notin> set (xs @ [y]) \<Longrightarrow> e \<noteq> 0 \<Longrightarrow>
    linked (pNext(e := 0, y := e)) p (xs @ [y, e])"
  by (induction xs arbitrary: p) (auto simp: linked_upd)

definition ll_enq :: "store \<times> LIST_HEADER \<Rightarrow> ptr \<Rightarrow> store \<times> LIST_HEADER" where
  "ll_enq s e = insertTailList (fst s) (snd s) e"

definition ll_deq :: "store \<times> LIST_HEADER \<Rightarrow> ptr option \<times> store \<times> LIST_HEADER" where
  "ll_deq s = (case removeHeadList (fst s) (snd s) of
     (p, l) \<Rightarrow> (if p = 0 then None else Some p, fst s, l))"

text \<open>An entry can be inserted when it is a real one and not linked already.\<close>

definition ll_room :: "store \<times> LIST_HEADER \<Rightarrow> ptr \<Rightarrow> bool" where
  "ll_room s e \<longleftrightarrow> e \<noteq> 0 \<and> (\<forall>xs. list_rep s xs \<longrightarrow> e \<notin> set xs)"

lemma insertTail_rep:
  assumes "list_rep (pNext, l) xs" "e \<noteq> 0" "e \<notin> set xs"
  shows "list_rep (insertTailList pNext l e) (xs @ [e])"
proof (cases xs rule: rev_cases)
  case Nil
  then show ?thesis using assms by (simp add: list_rep_def insertTailList_def)
next
  case (snoc ys y)
  then have "y \<noteq> 0" using assms linked_nonzero by (fastforce simp: list_rep_def)
  then show ?thesis using assms snoc linked_snoc [of pNext "pHead l" ys y e]
    by (simp add: list_rep_def insertTailList_def)
qed

lemma removeHead_rep:
  assumes "list_rep (pNext, l) xs"
  shows "fst (removeHeadList pNext l) = (if xs = [] then 0 else hd xs)"
    and "list_rep (pNext, snd (removeHeadList pNext l)) (tl xs)"
proof -
  show "fst (removeHeadList pNext l) = (if xs = [] then 0 else hd xs)"
    using assms by (cases xs) (auto simp: list_rep_def removeHeadList_def Let_def)
  show "list_rep (pNext, snd (removeHeadList pNext l)) (tl xs)"
  proof (cases xs)
    case Nil
    then show ?thesis using assms by (simp add: list_rep_def removeHeadList_def)
  next
    case (Cons x ys)
    then have l: "linked pNext (pNext x) ys" "pHead l = x" "x \<noteq> 0"
      using assms by (auto simp: list_rep_def)
    then have "pNext x = 0 \<longleftrightarrow> ys = []" by (cases ys) auto
    then show ?thesis using assms Cons l by (auto simp: list_rep_def removeHeadList_def Let_def)
  qed
qed

interpretation llq: fifo_queue ll_enq ll_deq list_rep ll_room
proof
  show "list_rep (ll_enq s x) (xs @ [x])" if "list_rep s xs" "ll_room s x" for s xs x
    using that insertTail_rep by (cases s) (auto simp: ll_enq_def ll_room_def)
  show "fst (ll_deq s) = None \<and> list_rep (snd (ll_deq s)) []" if "list_rep s []" for s
    using that removeHead_rep [of "fst s" "snd s" "[]"] by (auto simp: ll_deq_def split: prod.splits)
  show "fst (ll_deq s) = Some x \<and> list_rep (snd (ll_deq s)) xs" if "list_rep s (x # xs)" for s x xs
    using that removeHead_rep [of "fst s" "snd s" "x # xs"] linked_nonzero
    by (fastforce simp: ll_deq_def list_rep_def split: prod.splits)
qed

section \<open>Deletion\<close>

lemma del_loop_rep:
  assumes "linked pNext cur ys" "pNext prv = cur" "distinct (prv # ys)" "e \<noteq> prv"
    and "pTail l = last (prv # ys)"
  shows "\<exists>p n' l'. del_loop pNext l e prv cur = Some (p, n', l') \<and>
    (if e \<in> set ys then p = e \<and> pHead l' = pHead l \<and> size_of l' = size_of l - 1 \<and>
        pTail l' = last (prv # remove1 e ys) \<and> linked n' (n' prv) (remove1 e ys) \<and>
        (\<forall>q. q \<notin> set (prv # ys) \<longrightarrow> n' q = pNext q)
     else p = 0 \<and> n' = pNext \<and> l' = l)"
  using assms
proof (induction ys arbitrary: prv cur)
  case Nil
  then show ?case by (simp add: del_loop.simps)
next
  case (Cons z zs)
  then have z: "cur = z" "z \<noteq> 0" "linked pNext (pNext z) zs" "prv \<notin> set zs" by auto
  show ?case
  proof (cases "e = z")
    case True
    have "(z = pTail l) = (zs = [])"
      using Cons.prems(3,5) last_in_set [of zs] by (cases "zs = []") auto
    moreover have "del_loop pNext l e prv cur = Some (z, pNext(prv := pNext z),
        (if z = pTail l then l\<lparr>pTail := prv\<rparr> else l)\<lparr>size_of := size_of l - 1\<rparr>)"
      by (subst del_loop.simps) (simp add: True z)
    ultimately show ?thesis using True z Cons.prems(5) by (auto simp: linked_upd)
  next
    case False
    have "distinct (z # zs)" "pTail l = last (z # zs)" using Cons.prems by auto
    from Cons.IH [OF z(3) refl this(1) False this(2)]
    obtain p n' l' where IH: "del_loop pNext l e z (pNext z) = Some (p, n', l')"
      "if e \<in> set zs then p = e \<and> pHead l' = pHead l \<and> size_of l' = size_of l - 1 \<and>
        pTail l' = last (z # remove1 e zs) \<and> linked n' (n' z) (remove1 e zs) \<and>
        (\<forall>q. q \<notin> set (z # zs) \<longrightarrow> n' q = pNext q)
       else p = 0 \<and> n' = pNext \<and> l' = l" by blast
    have "del_loop pNext l e prv cur = Some (p, n', l')"
      by (subst del_loop.simps) (use False z IH(1) in simp)
    moreover have "prv \<notin> set (z # zs)" using Cons.prems(3) by auto
    ultimately show ?thesis using IH(2) False z Cons.prems(2) by (auto split: if_splits)
  qed
qed

text \<open>On every well formed list (no cycle), \<open>delEntryList\<close> returns: an entry of the list is
  unlinked and returned, all others keep their order, head, tail and count are right for
  the shorter list; for any other entry the result is the null pointer and nothing changes.\<close>
theorem delEntry_correct:
  assumes "list_rep (pNext, l) xs" "e \<noteq> 0"
  shows "\<exists>p n' l'. delEntryList pNext l e = Some (p, n', l') \<and>
    (if e \<in> set xs then p = e \<and> list_rep (n', l') (remove1 e xs)
     else p = 0 \<and> n' = pNext \<and> l' = l)"
proof (cases xs)
  case Nil
  then show ?thesis using assms by (simp add: delEntryList_def list_rep_def)
next
  case (Cons x ys)
  then have r: "pHead l = x" "x \<noteq> 0" "linked pNext (pNext x) ys" "distinct (x # ys)"
    "pTail l = last (x # ys)" "size_of l = of_nat (Suc (length ys))"
    using assms by (auto simp: list_rep_def)
  show ?thesis
  proof (cases "e = x")
    case True
    have "pNext x = 0 \<longleftrightarrow> ys = []" using r(3) by (cases ys) auto
    then show ?thesis using r Cons True by (auto simp: delEntryList_def list_rep_def Let_def)
  next
    case False
    obtain p n' l' where d: "del_loop pNext l e x (pNext x) = Some (p, n', l')"
      "if e \<in> set ys then p = e \<and> pHead l' = pHead l \<and> size_of l' = size_of l - 1 \<and>
        pTail l' = last (x # remove1 e ys) \<and> linked n' (n' x) (remove1 e ys) \<and>
        (\<forall>q. q \<notin> set (x # ys) \<longrightarrow> n' q = pNext q)
       else p = 0 \<and> n' = pNext \<and> l' = l"
      using del_loop_rep [OF r(3) refl r(4) False r(5)] by blast
    have eq: "delEntryList pNext l e = Some (p, n', l')"
      using d(1) r False by (simp add: delEntryList_def)
    have "list_rep (n', l') (x # remove1 e ys)" if "e \<in> set ys"
      using d(2) that r length_remove1 [of e ys] length_pos_if_in_set [OF that]
        set_remove1_subset [of e ys]
      by (auto simp: list_rep_def distinct_remove1)
        (metis Suc_pred of_nat_Suc add_diff_cancel_left' add.commute)?
    then show ?thesis using d(2) eq Cons False by (auto split: if_splits)
  qed
qed

definition ex_ll :: "store \<times> LIST_HEADER" where
  "ex_ll = ll_enq (ll_enq (ll_enq (\<lambda>_. 0, \<lparr>pHead = 0, pTail = 0, size_of = 0\<rparr>) 5) 8) 9"

lemma ex_ll_rep: "list_rep ex_ll [5, 8, 9]"
  by (simp add: ex_ll_def ll_enq_def insertTailList_def list_rep_def)

theorem delEntry_correct_witness:
  "\<exists>p n' l'. delEntryList (fst ex_ll) (snd ex_ll) 8 = Some (p, n', l') \<and>
    (if 8 \<in> set [5, 8, 9::nat] then p = 8 \<and> list_rep (n', l') (remove1 8 [5, 8, 9])
     else p = 0 \<and> n' = fst ex_ll \<and> l' = snd ex_ll)"
  by (rule delEntry_correct) (simp_all add: ex_ll_rep)

text \<open>C31: The list is a first-in first-out queue: over any sequence of \<open>insertTailList\<close> and
  \<open>removeHeadList\<close> that only inserts entries not linked already, the entries removed, followed
  by the entries left, are the initial entries followed by the inserted ones in order.\<close>
theorem link_list_fifo:
  assumes "list_rep s xs" "q_legal ll_room ll_enq ll_deq s ops"
  shows "\<exists>ys. list_rep (snd (q_run ll_enq ll_deq s ops)) ys \<and>
    xs @ q_inputs ops = fst (q_run ll_enq ll_deq s ops) @ ys"
  by (rule llq.fifo_history [OF assms])

lemma list_rep_unique: "list_rep s xs \<Longrightarrow> list_rep s ys \<Longrightarrow> xs = ys"
proof -
  have "linked n p xs \<Longrightarrow> linked n p ys \<Longrightarrow> xs = ys" for n p xs ys
    by (induction xs arbitrary: p ys) (case_tac ys, auto)+
  then show "list_rep s xs \<Longrightarrow> list_rep s ys \<Longrightarrow> xs = ys" by (auto simp: list_rep_def)
qed

theorem link_list_fifo_witness:
  "\<exists>ys. list_rep (snd (q_run ll_enq ll_deq ex_ll [Deq, Enq 3])) ys \<and>
    [5, 8, 9] @ q_inputs [Deq, Enq 3] = fst (q_run ll_enq ll_deq ex_ll [Deq, Enq 3]) @ ys"
proof (rule link_list_fifo [OF ex_ll_rep])
  have "list_rep (snd (ll_deq ex_ll)) [8, 9]" using llq.deq_Cons [OF ex_ll_rep] by simp
  then show "q_legal ll_room ll_enq ll_deq ex_ll [Deq, Enq 3]"
    using list_rep_unique by (fastforce simp: ll_room_def)
qed

end
