(* ===== verification/MlmeQueue.thy ===== *)
theory MlmeQueue
  imports QueueSpec
begin

text \<open>
  The queue of management messages of the wireless driver (\<open>MlmeQueueInit\<close>,
  \<open>MlmeEnqueue\<close>, \<open>MlmeDequeue\<close>, \<open>MlmeQueueEmpty\<close>, \<open>MlmeQueueFull\<close>,
  \<open>MlmeQueueDestroy\<close> in \<open>rt3370/common/mlme.c\<close>, the types in \<open>rt3370/include/mlme.h\<close>): a
  ring of 40 slots with a head, a tail and a count, all unsigned 32-bit. A slot keeps a
  message buffer of \<open>MGMT_DMA_BUFFER_SIZE\<close> bytes, here a function from the offset to
  the byte. The spin lock makes each operation atomic and is not represented. The queue
  interprets the locale \<open>fifo_queue\<close> with the way the MLME task takes messages out: test
  for emptiness, dequeue, release the slot.
\<close>

section \<open>Data\<close>

type_synonym mem = "nat \<Rightarrow> u8"

definition NdisMoveMemory :: "mem \<Rightarrow> mem \<Rightarrow> nat \<Rightarrow> mem" where
  "NdisMoveMemory dst src n = (\<lambda>i. if i < n then src i else dst i)"

definition NdisZeroMemory :: "mem \<Rightarrow> nat \<Rightarrow> mem" where
  "NdisZeroMemory dst n = (\<lambda>i. if i < n then 0 else dst i)"

record mlme_elem =
  Msg :: mem
  Machine :: u32
  MsgType :: u32
  MsgLen :: u32
  TimeStampLow :: u32
  TimeStampHigh :: u32
  Rssi0 :: u8
  Rssi1 :: u8
  Rssi2 :: u8
  Signal :: u8
  Channel :: u8
  Wcid :: u8
  Occupied :: bool
  OpMode :: u8
  Priv :: u32

record mlme_queue =
  Num :: u32
  Head :: u32
  Tail :: u32
  Entry :: "mlme_elem list"

abbreviation MAX_LEN_OF_MLME_QUEUE :: nat where "MAX_LEN_OF_MLME_QUEUE \<equiv> 40"
abbreviation MLME_BUFFER_SIZE :: nat where "MLME_BUFFER_SIZE \<equiv> 1600"
abbreviation RESERVED_WCID :: u8 where "RESERVED_WCID \<equiv> 0xFF"

abbreviation fRTMP_ADAPTER_MLME_RESET_IN_PROGRESS :: u32 where "fRTMP_ADAPTER_MLME_RESET_IN_PROGRESS \<equiv> 0x20"
abbreviation fRTMP_ADAPTER_HALT_IN_PROGRESS :: u32 where "fRTMP_ADAPTER_HALT_IN_PROGRESS \<equiv> 0x40"
abbreviation fRTMP_ADAPTER_NIC_NOT_EXIST :: u32 where "fRTMP_ADAPTER_NIC_NOT_EXIST \<equiv> 0x100"

definition RTMP_TEST_FLAG :: "u32 \<Rightarrow> u32 \<Rightarrow> bool" where
  "RTMP_TEST_FLAG flags f \<longleftrightarrow> flags AND f \<noteq> 0"

section \<open>Operations\<close>

definition init_entry :: "mlme_elem \<Rightarrow> mlme_elem" where
  "init_entry e = e\<lparr>Occupied := False, MsgLen := 0, Msg := NdisZeroMemory (Msg e) MLME_BUFFER_SIZE\<rparr>"

definition MlmeQueueInit :: "mlme_queue \<Rightarrow> mlme_queue" where
  "MlmeQueueInit q = q\<lparr>Num := 0, Head := 0, Tail := 0, Entry := map init_entry (Entry q)\<rparr>"

definition MlmeQueueEmpty :: "mlme_queue \<Rightarrow> bool" where
  "MlmeQueueEmpty q \<longleftrightarrow> Num q = 0"

definition MlmeQueueFull :: "mlme_queue \<Rightarrow> u8 \<Rightarrow> bool" where
  "MlmeQueueFull q SendId =
    (if SendId = 0 then Num q \<ge> of_nat (MAX_LEN_OF_MLME_QUEUE div 2) \<or> Occupied (Entry q ! unat (Tail q))
     else Num q = of_nat MAX_LEN_OF_MLME_QUEUE)"

definition ring_next :: "u32 \<Rightarrow> u32" where
  "ring_next i = (if i + 1 = of_nat MAX_LEN_OF_MLME_QUEUE then 0 else i + 1)"

text \<open>\<open>Msg = None\<close> is the null pointer.\<close>

definition MlmeEnqueue ::
  "u32 \<Rightarrow> u32 \<Rightarrow> u32 \<Rightarrow> u32 \<Rightarrow> mem option \<Rightarrow> u32 \<Rightarrow> mlme_queue \<Rightarrow> bool \<times> mlme_queue" where
  "MlmeEnqueue Flags mach mty len msg prv q =
    (if RTMP_TEST_FLAG Flags (fRTMP_ADAPTER_HALT_IN_PROGRESS OR fRTMP_ADAPTER_NIC_NOT_EXIST) then (False, q)
     else if unat len > MLME_BUFFER_SIZE then (False, q)
     else if MlmeQueueFull q 1 then (False, q)
     else
       let t = unat (Tail q);
           q = q\<lparr>Tail := ring_next (Tail q), Num := Num q + 1\<rparr>;
           e = (Entry q ! t)\<lparr>Wcid := RESERVED_WCID, Occupied := True, Machine := mach, MsgType := mty,
             MsgLen := len, Priv := prv\<rparr>;
           e = (case msg of None \<Rightarrow> e | Some src \<Rightarrow> e\<lparr>Msg := NdisMoveMemory (Msg e) src (unat len)\<rparr>)
       in (True, q\<lparr>Entry := (Entry q)[t := e]\<rparr>))"

text \<open>\<open>MlmeDequeue\<close> hands out the address of the slot at the head, here its index; it does
  not test whether the queue is empty.\<close>

definition MlmeDequeue :: "mlme_queue \<Rightarrow> nat \<times> mlme_queue" where
  "MlmeDequeue q = (unat (Head q), q\<lparr>Num := Num q - 1, Head := ring_next (Head q)\<rparr>)"

definition MlmeQueueDestroy :: "mlme_queue \<Rightarrow> mlme_queue" where
  "MlmeQueueDestroy q = q\<lparr>Num := 0, Head := 0, Tail := 0\<rparr>"

text \<open>The last two statements of the loop body of \<open>MlmeHandler\<close>.\<close>

definition mlme_release :: "nat \<Rightarrow> mlme_queue \<Rightarrow> mlme_queue" where
  "mlme_release i q = q\<lparr>Entry := (Entry q)[i := (Entry q ! i)\<lparr>Occupied := False, MsgLen := 0\<rparr>]\<rparr>"

section \<open>The ring and the list it holds\<close>

type_synonym mlme_msg = "u32 \<times> u32 \<times> u32 \<times> u8 list"

definition elem_msg :: "mlme_elem \<Rightarrow> mlme_msg" where
  "elem_msg e = (Machine e, MsgType e, Priv e, map (Msg e) [0..<unat (MsgLen e)])"

definition slot :: "mlme_queue \<Rightarrow> nat \<Rightarrow> nat" where
  "slot q k = (unat (Head q) + k) mod MAX_LEN_OF_MLME_QUEUE"

text \<open>The shape of the ring, which every operation keeps.\<close>

definition ring_ok :: "mlme_queue \<Rightarrow> bool" where
  "ring_ok q \<longleftrightarrow> length (Entry q) = MAX_LEN_OF_MLME_QUEUE \<and> unat (Num q) \<le> MAX_LEN_OF_MLME_QUEUE \<and>
     unat (Head q) < MAX_LEN_OF_MLME_QUEUE \<and> unat (Tail q) = slot q (unat (Num q))"

text \<open>Between two messages exactly the queued slots are marked occupied.\<close>

definition mlme_rep :: "mlme_queue \<Rightarrow> mlme_msg list \<Rightarrow> bool" where
  "mlme_rep q xs \<longleftrightarrow> ring_ok q \<and> unat (Num q) = length xs \<and>
     (\<forall>k<length xs. elem_msg (Entry q ! slot q k) = xs ! k) \<and>
     (\<forall>k<MAX_LEN_OF_MLME_QUEUE. Occupied (Entry q ! slot q k) \<longleftrightarrow> k < length xs)"

lemma slot_less [simp]: "slot q k < 40" by (simp add: slot_def)

lemma slot_inj: "slot q j = slot q k \<Longrightarrow> j < 40 \<Longrightarrow> k < 40 \<Longrightarrow> j = k"
  unfolding slot_def by (rule mod_shift_inj)

lemma full_iff: "(n::u32) = of_nat 40 \<longleftrightarrow> unat n = 40"
  by (simp add: word_unat_eq_iff)

lemma unat_inc: "unat (n::u32) < 40 \<Longrightarrow> unat (n + 1) = unat n + 1"
  by (simp add: unat_word_ariths)

lemma unat_ring_next: "unat i < 40 \<Longrightarrow> unat (ring_next i) = (unat i + 1) mod 40"
  using unat_inc [of i] full_iff [of "i + 1"] by (auto simp: ring_next_def)

lemma unat_dec: "unat (n::u32) = Suc m \<Longrightarrow> unat (n - 1) = m"
  using unat_minus_one [of n] by force

section \<open>Insertion at the tail\<close>

text \<open>Both insertions (\<open>MlmeEnqueue\<close> and \<open>MlmeEnqueueForRecv\<close>) advance the tail and the
  count and overwrite the slot at the old tail.\<close>

definition mlme_put :: "mlme_elem \<Rightarrow> mlme_queue \<Rightarrow> mlme_queue" where
  "mlme_put e q = q\<lparr>Tail := ring_next (Tail q), Num := Num q + 1, Entry := (Entry q)[unat (Tail q) := e]\<rparr>"

lemma put_slot [simp]: "slot (mlme_put e q) k = slot q k"
  by (simp add: mlme_put_def slot_def)

lemma put_ring:
  assumes "ring_ok q" "unat (Num q) < 40"
  shows "ring_ok (mlme_put e q)" and "unat (Num (mlme_put e q)) = unat (Num q) + 1"
    and "Entry (mlme_put e q) = (Entry q)[slot q (unat (Num q)) := e]"
proof -
  have t: "unat (Tail q) = slot q (unat (Num q))" "unat (Tail q) < 40"
    using assms(1) by (simp_all add: ring_ok_def)
  show n: "unat (Num (mlme_put e q)) = unat (Num q) + 1"
    using unat_inc [OF assms(2)] by (simp add: mlme_put_def)
  show "Entry (mlme_put e q) = (Entry q)[slot q (unat (Num q)) := e]"
    by (simp add: mlme_put_def t(1))
  have "unat (Tail (mlme_put e q)) = slot q (unat (Num q) + 1)"
    using unat_ring_next [OF t(2)] t(1) by (simp add: mlme_put_def slot_def mod_simps)
  then show "ring_ok (mlme_put e q)"
    unfolding ring_ok_def n using assms by (simp add: mlme_put_def slot_def ring_ok_def)
qed

lemma put_rep:
  assumes "mlme_rep q xs" "length xs < 40" "Occupied e" "elem_msg e = x"
  shows "mlme_rep (mlme_put e q) (xs @ [x])"
proof -
  have r: "ring_ok q" and n: "unat (Num q) = length xs" using assms(1) by (auto simp: mlme_rep_def)
  then have n': "unat (Num q) < 40" using assms(2) by simp
  note P = put_ring [OF r n', of e]
  have l: "length (Entry q) = 40" using r by (simp add: ring_ok_def)
  have at: "Entry (mlme_put e q) ! slot q k = (if k = length xs then e else Entry q ! slot q k)" if "k < 40" for k
    using slot_inj [of q k "length xs"] that assms(2) by (auto simp: P(3) n l nth_list_update)
  have "elem_msg (Entry (mlme_put e q) ! slot q k) = (xs @ [x]) ! k" if "k < length (xs @ [x])" for k
    using that at [of k] assms(1,2,4) by (auto simp: mlme_rep_def nth_append)
  moreover have "Occupied (Entry (mlme_put e q) ! slot q k) \<longleftrightarrow> k < length (xs @ [x])" if "k < 40" for k
    using that at [of k] assms(1,3) by (auto simp: mlme_rep_def)
  ultimately show ?thesis using P(1,2) n by (simp add: mlme_rep_def)
qed

text \<open>\<open>MlmeEnqueue\<close> rejects or puts.\<close>

definition own_elem :: "mlme_elem \<Rightarrow> u32 \<Rightarrow> u32 \<Rightarrow> u32 \<Rightarrow> mem option \<Rightarrow> u32 \<Rightarrow> mlme_elem" where
  "own_elem e mach mty len msg prv =
    (let e = e\<lparr>Wcid := RESERVED_WCID, Occupied := True, Machine := mach, MsgType := mty, MsgLen := len, Priv := prv\<rparr>
     in case msg of None \<Rightarrow> e | Some src \<Rightarrow> e\<lparr>Msg := NdisMoveMemory (Msg e) src (unat len)\<rparr>)"

definition own_room :: "u32 \<Rightarrow> mlme_queue \<Rightarrow> u32 \<Rightarrow> bool" where
  "own_room Flags q len \<longleftrightarrow> \<not> RTMP_TEST_FLAG Flags (fRTMP_ADAPTER_HALT_IN_PROGRESS OR fRTMP_ADAPTER_NIC_NOT_EXIST) \<and>
     unat len \<le> MLME_BUFFER_SIZE \<and> unat (Num q) \<noteq> MAX_LEN_OF_MLME_QUEUE"

lemma MlmeEnqueue_put:
  "MlmeEnqueue Flags mach mty len msg prv q =
    (if own_room Flags q len then (True, mlme_put (own_elem (Entry q ! unat (Tail q)) mach mty len msg prv) q)
     else (False, q))"
  unfolding MlmeEnqueue_def own_room_def MlmeQueueFull_def mlme_put_def own_elem_def Let_def
  using full_iff [of "Num q"] by (auto split: option.split)

lemma own_elem_simps [simp]:
  "Occupied (own_elem e mach mty len msg prv)"
  "Machine (own_elem e mach mty len msg prv) = mach"
  "MsgType (own_elem e mach mty len msg prv) = mty"
  "MsgLen (own_elem e mach mty len msg prv) = len"
  "Priv (own_elem e mach mty len msg prv) = prv"
  by (cases msg; simp add: own_elem_def Let_def)+

lemma own_elem_msg: "elem_msg (own_elem e mach mty len (Some src) prv) = (mach, mty, prv, map src [0..<unat len])"
  by (simp add: elem_msg_def) (simp add: own_elem_def NdisMoveMemory_def Let_def)

section \<open>Removal at the head\<close>

text \<open>What the MLME task does with each message: test, dequeue, use, release.\<close>

definition mlme_take :: "mlme_queue \<Rightarrow> mlme_msg option \<times> mlme_queue" where
  "mlme_take q = (if MlmeQueueEmpty q then (None, q)
    else case MlmeDequeue q of (i, q') \<Rightarrow> (Some (elem_msg (Entry q' ! i)), mlme_release i q'))"

lemma dequeue_ring:
  assumes "ring_ok q" "unat (Num q) = Suc m"
  shows "ring_ok (snd (MlmeDequeue q))" "unat (Num (snd (MlmeDequeue q))) = m"
    "fst (MlmeDequeue q) = slot q 0" "slot (snd (MlmeDequeue q)) k = slot q (Suc k)"
    "Entry (snd (MlmeDequeue q)) = Entry q"
proof -
  have h: "unat (Head q) < 40" using assms(1) by (simp add: ring_ok_def)
  show n: "unat (Num (snd (MlmeDequeue q))) = m" using unat_dec [OF assms(2)] by (simp add: MlmeDequeue_def)
  show sl: "slot (snd (MlmeDequeue q)) k = slot q (Suc k)" for k
    using unat_ring_next [OF h] by (simp add: MlmeDequeue_def slot_def mod_simps)
  show "fst (MlmeDequeue q) = slot q 0" using h by (simp add: MlmeDequeue_def slot_def)
  show "Entry (snd (MlmeDequeue q)) = Entry q" by (simp add: MlmeDequeue_def)
  show "ring_ok (snd (MlmeDequeue q))"
    using assms unat_ring_next [OF h] unfolding ring_ok_def n sl by (simp add: MlmeDequeue_def)
qed

lemma release_simps [simp]:
  "Num (mlme_release i q) = Num q" "Head (mlme_release i q) = Head q" "Tail (mlme_release i q) = Tail q"
  "slot (mlme_release i q) k = slot q k" "ring_ok (mlme_release i q) = ring_ok q"
  by (simp_all add: mlme_release_def slot_def ring_ok_def)

lemma take_Nil: "mlme_rep q [] \<Longrightarrow> mlme_take q = (None, q)"
  by (simp add: mlme_rep_def mlme_take_def MlmeQueueEmpty_def unat_eq_0)

lemma take_Cons:
  assumes "mlme_rep q (x # xs)"
  shows "fst (mlme_take q) = Some x" "mlme_rep (snd (mlme_take q)) xs"
proof -
  have r: "ring_ok q" and n: "unat (Num q) = Suc (length xs)" using assms by (auto simp: mlme_rep_def)
  note D = dequeue_ring [OF r n]
  have ne: "\<not> MlmeQueueEmpty q" using n by (auto simp: MlmeQueueEmpty_def)
  have l: "length (Entry q) = 40" "length xs < 40" using r n by (auto simp: ring_ok_def)
  define i q' where "i = fst (MlmeDequeue q)" and "q' = snd (MlmeDequeue q)"
  have T: "mlme_take q = (Some (elem_msg (Entry q' ! i)), mlme_release i q')"
    using ne by (simp add: mlme_take_def i_def q'_def split: prod.split)
  have i: "i = slot q 0" and e: "Entry q' = Entry q" and sl: "\<And>k. slot q' k = slot q (Suc k)"
    and r': "ring_ok q'" and n': "unat (Num q') = length xs" using D by (simp_all add: i_def q'_def)
  show "fst (mlme_take q) = Some x" using assms by (auto simp: T i e mlme_rep_def)
  have neq: "slot q (Suc k) \<noteq> slot q 0" if "k < 39" for k using slot_inj [of q "Suc k" 0] that by auto
  have last: "slot q 40 = slot q 0" by (simp add: slot_def)
  have at: "Entry (mlme_release i q') ! slot q (Suc k) = Entry q ! slot q (Suc k)" if "k < 39" for k
    using neq [OF that] by (simp add: mlme_release_def e i)
  have xs: "elem_msg (Entry (mlme_release i q') ! slot q' k) = xs ! k" if "k < length xs" for k
    using that l assms at [of k] unfolding sl by (auto simp: mlme_rep_def)
  have oc: "Occupied (Entry (mlme_release i q') ! slot q' k) \<longleftrightarrow> k < length xs" if k: "k < 40" for k
  proof (cases "k = 39")
    case True
    have "\<not> Occupied (Entry (mlme_release i q') ! slot q 0)" using l by (simp add: mlme_release_def e i)
    then show ?thesis using True l last sl [of 39] by simp
  next
    case False
    then have "k < 39" using k by simp
    then show ?thesis using assms at [of k] unfolding sl by (auto simp: mlme_rep_def)
  qed
  show "mlme_rep (snd (mlme_take q)) xs"
    unfolding T using r' n' xs oc by (simp add: mlme_rep_def)
qed

section \<open>The queue as a first-in first-out queue\<close>

definition bytes_mem :: "u8 list \<Rightarrow> mem" where
  "bytes_mem bs = (\<lambda>i. if i < length bs then bs ! i else 0)"

fun own_enq :: "u32 \<Rightarrow> mlme_queue \<Rightarrow> mlme_msg \<Rightarrow> mlme_queue" where
  "own_enq Flags q (mach, mty, prv, bs) =
    snd (MlmeEnqueue Flags mach mty (of_nat (length bs)) (Some (bytes_mem bs)) prv q)"

fun own_enq_room :: "u32 \<Rightarrow> mlme_queue \<Rightarrow> mlme_msg \<Rightarrow> bool" where
  "own_enq_room Flags q (mach, mty, prv, bs) \<longleftrightarrow>
    length bs \<le> MLME_BUFFER_SIZE \<and> own_room Flags q (of_nat (length bs))"

lemma MlmeEnqueue_rep:
  assumes "mlme_rep q xs" "own_room Flags q len"
  shows "fst (MlmeEnqueue Flags mach mty len (Some src) prv q)"
    and "mlme_rep (snd (MlmeEnqueue Flags mach mty len (Some src) prv q)) (xs @ [(mach, mty, prv, map src [0..<unat len])])"
proof -
  have "length xs < 40"
    using assms by (auto simp: mlme_rep_def ring_ok_def own_room_def)
  then show "mlme_rep (snd (MlmeEnqueue Flags mach mty len (Some src) prv q)) (xs @ [(mach, mty, prv, map src [0..<unat len])])"
    using assms(2) put_rep [OF assms(1)] by (simp add: MlmeEnqueue_put own_elem_msg)
  show "fst (MlmeEnqueue Flags mach mty len (Some src) prv q)"
    using assms(2) by (simp add: MlmeEnqueue_put)
qed

lemma own_enq_rep:
  assumes "mlme_rep q xs" "own_enq_room Flags q x"
  shows "mlme_rep (own_enq Flags q x) (xs @ [x])"
proof -
  obtain mach mty prv bs where x: "x = (mach, mty, prv, bs)" by (cases x)
  have l: "length bs \<le> 1600" and room: "own_room Flags q (of_nat (length bs))" using assms(2) by (auto simp: x)
  have "unat (of_nat (length bs) :: u32) = length bs" using l by (simp add: unat_of_nat)
  moreover have "map (bytes_mem bs) [0..<length bs] = bs" by (auto simp: bytes_mem_def intro: nth_equalityI)
  ultimately show ?thesis
    using MlmeEnqueue_rep(2) [OF assms(1) room, of mach mty "bytes_mem bs" prv] by (simp add: x)
qed

interpretation mq: fifo_queue "own_enq Flags" mlme_take mlme_rep "own_enq_room Flags" for Flags
  by unfold_locales (use own_enq_rep take_Nil take_Cons in auto)

definition ex_elem :: mlme_elem where
  "ex_elem = \<lparr>Msg = \<lambda>_. 7, Machine = 0, MsgType = 0, MsgLen = 5, TimeStampLow = 0, TimeStampHigh = 0, Rssi0 = 0,
     Rssi1 = 0, Rssi2 = 0, Signal = 0, Channel = 0, Wcid = 0, Occupied = True, OpMode = 0, Priv = 0\<rparr>"

definition ex_queue :: mlme_queue where
  "ex_queue = MlmeQueueInit \<lparr>Num = 9, Head = 77, Tail = 3, Entry = replicate MAX_LEN_OF_MLME_QUEUE ex_elem\<rparr>"

lemma Init_rep:
  assumes "length (Entry q) = MAX_LEN_OF_MLME_QUEUE"
  shows "mlme_rep (MlmeQueueInit q) []"
  using assms by (auto simp: mlme_rep_def ring_ok_def MlmeQueueInit_def slot_def init_entry_def)

lemma ex_queue_rep: "mlme_rep ex_queue []"
  unfolding ex_queue_def by (rule Init_rep) simp

text \<open>C9: The MLME ring is a first-in first-out queue: over any legal sequence of insertions by
  MlmeEnqueue and removals by the MLME task, the messages handed to the state machines followed
  by those still queued are the messages that were queued followed by those put in, in order
  and with their contents.\<close>
theorem mlme_queue_fifo:
  assumes "mlme_rep q xs" "q_legal (own_enq_room Flags) (own_enq Flags) mlme_take q ops"
  shows "\<exists>ys. mlme_rep (snd (q_run (own_enq Flags) mlme_take q ops)) ys \<and>
    xs @ q_inputs ops = fst (q_run (own_enq Flags) mlme_take q ops) @ ys"
  using assms by (rule mq.fifo_history)

theorem mlme_queue_fifo_witness:
  "\<exists>ys. mlme_rep (snd (q_run (own_enq 0) mlme_take ex_queue [Enq (1, 2, 0, [5, 6]), Deq])) ys \<and>
    [(1, 2, 0, [5, 6])] = fst (q_run (own_enq 0) mlme_take ex_queue [Enq (1, 2, 0, [5, 6]), Deq]) @ ys"
  using mlme_queue_fifo [OF ex_queue_rep, of 0 "[Enq (1, 2, 0, [5, 6]), Deq]"]
  by (simp add: own_room_def RTMP_TEST_FLAG_def ex_queue_def MlmeQueueInit_def)

text \<open>MlmeEnqueue accepts a message exactly when the driver is not halting, the message fits a
  slot and fewer than 40 messages are queued; it then appends the message and its bytes, and
  otherwise leaves the queue as it was.\<close>
theorem MlmeEnqueue_correct:
  assumes "mlme_rep q xs"
  shows "if \<not> RTMP_TEST_FLAG Flags (fRTMP_ADAPTER_HALT_IN_PROGRESS OR fRTMP_ADAPTER_NIC_NOT_EXIST) \<and>
      unat len \<le> MLME_BUFFER_SIZE \<and> length xs < MAX_LEN_OF_MLME_QUEUE
    then fst (MlmeEnqueue Flags mach mty len (Some src) prv q) \<and>
      mlme_rep (snd (MlmeEnqueue Flags mach mty len (Some src) prv q)) (xs @ [(mach, mty, prv, map src [0..<unat len])])
    else MlmeEnqueue Flags mach mty len (Some src) prv q = (False, q)"
proof -
  have "unat (Num q) = length xs" "length xs \<le> 40" using assms by (auto simp: mlme_rep_def ring_ok_def)
  then have room: "own_room Flags q len \<longleftrightarrow>
      \<not> RTMP_TEST_FLAG Flags (fRTMP_ADAPTER_HALT_IN_PROGRESS OR fRTMP_ADAPTER_NIC_NOT_EXIST) \<and>
      unat len \<le> MLME_BUFFER_SIZE \<and> length xs < MAX_LEN_OF_MLME_QUEUE"
    by (auto simp: own_room_def)
  show ?thesis
    unfolding room [symmetric] using MlmeEnqueue_rep [OF assms] by (auto simp: MlmeEnqueue_put)
qed

theorem MlmeEnqueue_correct_witness:
  "MlmeEnqueue 0x40 1 2 5 (Some (\<lambda>_. 0)) 0 ex_queue = (False, ex_queue)"
  using MlmeEnqueue_correct [OF ex_queue_rep, of "0x40" 5] by (simp add: RTMP_TEST_FLAG_def)

text \<open>A message enqueued while the MLME task works on the head of a full queue is damaged: the
  dequeue has already lowered the count, so MlmeEnqueue accepts the message and writes it into
  the slot still in use, and the release that ends the handling of the old message clears the
  length and the occupied mark of the new one.\<close>
theorem full_queue_loses_message:
  assumes "mlme_rep q xs" "length xs = MAX_LEN_OF_MLME_QUEUE"
    and "\<not> RTMP_TEST_FLAG Flags (fRTMP_ADAPTER_HALT_IN_PROGRESS OR fRTMP_ADAPTER_NIC_NOT_EXIST)"
    and "unat len \<le> MLME_BUFFER_SIZE"
  shows "case MlmeDequeue q of (i, q1) \<Rightarrow> case MlmeEnqueue Flags mach mty len msg prv q1 of (ok, q2) \<Rightarrow>
    ok \<and> unat (Tail q1) = i \<and> unat (Num (mlme_release i q2)) = MAX_LEN_OF_MLME_QUEUE \<and>
    elem_msg (Entry (mlme_release i q2) ! slot (mlme_release i q2) 39) = (mach, mty, prv, []) \<and>
    \<not> Occupied (Entry (mlme_release i q2) ! slot (mlme_release i q2) 39)"
proof -
  have r: "ring_ok q" and n: "unat (Num q) = Suc 39" using assms(1,2) by (auto simp: mlme_rep_def)
  note D = dequeue_ring [OF r n]
  define i q1 where "i = fst (MlmeDequeue q)" and "q1 = snd (MlmeDequeue q)"
  have DQ: "MlmeDequeue q = (i, q1)" by (simp add: i_def q1_def)
  have r1: "ring_ok q1" and n1: "unat (Num q1) = 39" and sl: "\<And>k. slot q1 k = slot q (Suc k)" and i: "i = slot q 0"
    using D by (simp_all add: i_def q1_def)
  have room: "own_room Flags q1 len" using assms(3,4) n1 by (simp add: own_room_def)
  have last: "slot q1 39 = i" unfolding sl i by (simp add: slot_def)
  then have t: "unat (Tail q1) = i" using r1 n1 by (simp add: ring_ok_def)
  have l: "i < length (Entry q1)" using r1 i by (simp add: ring_ok_def)
  have slq: "slot (q2\<lparr>Entry := es\<rparr>) k = slot q2 k" for q2 :: mlme_queue and es k by (simp add: slot_def)
  have P: "unat (Num (mlme_put e q1)) = 40" for e using put_ring(2) [OF r1, of e] n1 by simp
  show ?thesis
    using room t l P slq by (simp add: DQ MlmeEnqueue_put mlme_release_def elem_msg_def last)
       (simp add: mlme_put_def)
qed

fun fill_queue :: "nat \<Rightarrow> mlme_queue \<Rightarrow> mlme_queue" where
  "fill_queue 0 q = q"
| "fill_queue (Suc n) q = fill_queue n (own_enq 0 q (1, 2, 0, [9]))"

lemma fill_rep: "mlme_rep q xs \<Longrightarrow> length xs + n \<le> 40 \<Longrightarrow> \<exists>ys. mlme_rep (fill_queue n q) ys \<and> length ys = length xs + n"
proof (induction n arbitrary: q xs)
  case 0
  then show ?case by auto
next
  case (Suc n)
  have "own_enq_room 0 q (1, 2, 0, [9])"
    using Suc.prems by (auto simp: own_room_def RTMP_TEST_FLAG_def mlme_rep_def)
  then have "mlme_rep (own_enq 0 q (1, 2, 0, [9])) (xs @ [(1, 2, 0, [9])])"
    using own_enq_rep [OF Suc.prems(1)] by blast
  from Suc.IH [OF this] Suc.prems(2) show ?case by auto
qed

theorem full_queue_loses_message_witness:
  "case MlmeDequeue (fill_queue 40 ex_queue) of (i, q1) \<Rightarrow> case MlmeEnqueue 0 3 4 6 None 0 q1 of (ok, q2) \<Rightarrow>
    ok \<and> elem_msg (Entry (mlme_release i q2) ! slot (mlme_release i q2) 39) = (3, 4, 0, [])"
proof -
  obtain ys where "mlme_rep (fill_queue 40 ex_queue) ys" "length ys = 40"
    using fill_rep [OF ex_queue_rep, of 40] by auto
  from full_queue_loses_message [OF this, where Flags = 0 and len = 6 and mach = 3 and mty = 4 and msg = None and prv = 0] show ?thesis
    by (auto simp: RTMP_TEST_FLAG_def split: prod.splits)
qed

end
