(* ===== verification/MlmeMachine.thy ===== *)
theory MlmeMachine
  imports MlmeQueue
begin

text \<open>
  The state machines of the MLME task: the generic machine of \<open>rt3370/common/mlme.c\<close>
  (\<open>StateMachineInit\<close>, \<open>StateMachineSetAction\<close>, \<open>StateMachinePerformAction\<close>), the
  tables the station fills in (\<open>sta/assoc.c\<close>, \<open>sta/auth.c\<close>, \<open>sta/auth_rsp.c\<close>,
  \<open>sta/sync.c\<close>, \<open>common/action.c\<close>, \<open>common/cmm_wpa.c\<close>), the classification of
  received frames (\<open>MsgTypeSubst\<close>, \<open>WpaMsgTypeSubst\<close>), the insertion of received frames
  (\<open>MlmeEnqueueForRecv\<close>) and the main loop \<open>MlmeHandler\<close>. The action functions are
  named by \<open>sm_func\<close>; what they do to the adapter is an argument \<open>act\<close> of the loop.
  The build is the station one with ATE, USB and 802.11n, without DLS. A received frame is
  the memory at its address, so its bytes are a function of the offset.
\<close>

section \<open>The generic state machine\<close>

datatype sm_func = Drop
  | MlmeAssocReqAction | MlmeReassocReqAction | MlmeDisassocReqAction | PeerDisassocAction
  | InvalidStateWhenAssoc | InvalidStateWhenReassoc | InvalidStateWhenDisassociate
  | PeerAssocRspAction | PeerReassocRspAction | AssocTimeoutAction | ReassocTimeoutAction | DisassocTimeoutAction
  | MlmeAuthReqAction | InvalidStateWhenAuth | PeerAuthRspAtSeq2Action | PeerAuthRspAtSeq4Action | AuthTimeoutAction
  | PeerDeauthAction
  | MlmeScanReqAction | MlmeJoinReqAction | MlmeStartReqAction | PeerBeacon | PeerProbeReqAction
  | InvalidStateWhenScan | InvalidStateWhenJoin | InvalidStateWhenStart | PeerBeaconAtJoinAction
  | BeaconTimeoutAtJoinAction | PeerBeaconAtScanAction | ScanTimeoutAction
  | PeerSpectrumAction | PeerQOSAction | ReservedAction | PeerBAAction | PeerHTAction | MlmeADDBAAction
  | MlmeDELBAAction | PeerPublicAction | PeerRMAction | MlmeQOSAction | MlmeDLSAction | MlmeInvalidAction
  | WpaEAPPacketAction | WpaEAPOLStartAction | WpaEAPOLLogoffAction | WpaEAPOLKeyAction | WpaEAPOLASFAlertAction
  | MlmeCntlMachinePerformAction

text \<open>The array \<open>TransFunc\<close> points to is kept in the machine; \<open>None\<close> is a null function pointer.\<close>

record state_machine =
  Base :: u32
  NrState :: u32
  NrMsg :: u32
  CurrState :: u32
  TransFunc :: "sm_func option list"

definition StateMachineInit ::
  "state_machine \<Rightarrow> u32 \<Rightarrow> u32 \<Rightarrow> sm_func option \<Rightarrow> u32 \<Rightarrow> u32 \<Rightarrow> state_machine" where
  "StateMachineInit S StNr MsgNr DefFunc InitState bas =
    S\<lparr>NrState := StNr, NrMsg := MsgNr, Base := bas,
      TransFunc := fold (\<lambda>i. fold (\<lambda>j T. T[i * unat MsgNr + j := DefFunc]) [0..<unat MsgNr]) [0..<unat StNr] (TransFunc S),
      CurrState := InitState\<rparr>"

definition StateMachineSetAction :: "u32 \<Rightarrow> u32 \<Rightarrow> sm_func \<Rightarrow> state_machine \<Rightarrow> state_machine" where
  "StateMachineSetAction St ms Fn S =
    (let MsgIdx = ms - Base S in
     if St < NrState S \<and> MsgIdx < NrMsg S
     then S\<lparr>TransFunc := (TransFunc S)[unat (St * NrMsg S + MsgIdx) := Some Fn]\<rparr> else S)"

text \<open>The result is the function called, if any; \<open>None\<close> is a read outside the table.\<close>

definition StateMachinePerformAction :: "state_machine \<Rightarrow> mlme_elem \<Rightarrow> u32 \<Rightarrow> sm_func option option" where
  "StateMachinePerformAction S e cur =
    (let i = unat (cur * NrMsg S + MsgType e - Base S) in
     if i < length (TransFunc S) then Some (TransFunc S ! i) else None)"

definition set_actions :: "(u32 \<times> u32 \<times> sm_func) list \<Rightarrow> state_machine \<Rightarrow> state_machine" where
  "set_actions = fold (\<lambda>(St, ms, f). StateMachineSetAction St ms f)"

section \<open>The tables of the station\<close>

abbreviation ASSOC_STATE_MACHINE :: u32 where "ASSOC_STATE_MACHINE \<equiv> 1"
abbreviation AUTH_STATE_MACHINE :: u32 where "AUTH_STATE_MACHINE \<equiv> 2"
abbreviation AUTH_RSP_STATE_MACHINE :: u32 where "AUTH_RSP_STATE_MACHINE \<equiv> 3"
abbreviation SYNC_STATE_MACHINE :: u32 where "SYNC_STATE_MACHINE \<equiv> 4"
abbreviation MLME_CNTL_STATE_MACHINE :: u32 where "MLME_CNTL_STATE_MACHINE \<equiv> 5"
abbreviation WPA_PSK_STATE_MACHINE :: u32 where "WPA_PSK_STATE_MACHINE \<equiv> 6"
abbreviation ACTION_STATE_MACHINE :: u32 where "ACTION_STATE_MACHINE \<equiv> 9"
abbreviation WPA_STATE_MACHINE :: u32 where "WPA_STATE_MACHINE \<equiv> 23"

abbreviation CNTL_IDLE :: u32 where "CNTL_IDLE \<equiv> 0"
abbreviation MT2_RESET_CONF :: u32 where "MT2_RESET_CONF \<equiv> 45"

abbreviation ASSOC_IDLE :: u32 where "ASSOC_IDLE \<equiv> 0"
abbreviation ASSOC_WAIT_RSP :: u32 where "ASSOC_WAIT_RSP \<equiv> 1"
abbreviation REASSOC_WAIT_RSP :: u32 where "REASSOC_WAIT_RSP \<equiv> 2"
abbreviation DISASSOC_WAIT_RSP :: u32 where "DISASSOC_WAIT_RSP \<equiv> 3"
abbreviation MAX_ASSOC_STATE :: u32 where "MAX_ASSOC_STATE \<equiv> 4"
abbreviation MT2_MLME_ASSOC_REQ :: u32 where "MT2_MLME_ASSOC_REQ \<equiv> 0"
abbreviation MT2_MLME_REASSOC_REQ :: u32 where "MT2_MLME_REASSOC_REQ \<equiv> 1"
abbreviation MT2_MLME_DISASSOC_REQ :: u32 where "MT2_MLME_DISASSOC_REQ \<equiv> 2"
abbreviation MT2_PEER_DISASSOC_REQ :: u32 where "MT2_PEER_DISASSOC_REQ \<equiv> 3"
abbreviation MT2_PEER_ASSOC_REQ :: u32 where "MT2_PEER_ASSOC_REQ \<equiv> 4"
abbreviation MT2_PEER_ASSOC_RSP :: u32 where "MT2_PEER_ASSOC_RSP \<equiv> 5"
abbreviation MT2_PEER_REASSOC_REQ :: u32 where "MT2_PEER_REASSOC_REQ \<equiv> 6"
abbreviation MT2_PEER_REASSOC_RSP :: u32 where "MT2_PEER_REASSOC_RSP \<equiv> 7"
abbreviation MT2_DISASSOC_TIMEOUT :: u32 where "MT2_DISASSOC_TIMEOUT \<equiv> 8"
abbreviation MT2_ASSOC_TIMEOUT :: u32 where "MT2_ASSOC_TIMEOUT \<equiv> 9"
abbreviation MT2_REASSOC_TIMEOUT :: u32 where "MT2_REASSOC_TIMEOUT \<equiv> 10"
abbreviation MAX_ASSOC_MSG :: u32 where "MAX_ASSOC_MSG \<equiv> 11"

definition AssocStateMachineInit :: "state_machine \<Rightarrow> state_machine" where
  "AssocStateMachineInit S =
    set_actions
     [(ASSOC_IDLE, MT2_MLME_ASSOC_REQ, MlmeAssocReqAction),
      (ASSOC_IDLE, MT2_MLME_REASSOC_REQ, MlmeReassocReqAction),
      (ASSOC_IDLE, MT2_MLME_DISASSOC_REQ, MlmeDisassocReqAction),
      (ASSOC_IDLE, MT2_PEER_DISASSOC_REQ, PeerDisassocAction),
      (ASSOC_WAIT_RSP, MT2_MLME_ASSOC_REQ, InvalidStateWhenAssoc),
      (ASSOC_WAIT_RSP, MT2_MLME_REASSOC_REQ, InvalidStateWhenReassoc),
      (ASSOC_WAIT_RSP, MT2_MLME_DISASSOC_REQ, InvalidStateWhenDisassociate),
      (ASSOC_WAIT_RSP, MT2_PEER_DISASSOC_REQ, PeerDisassocAction),
      (ASSOC_WAIT_RSP, MT2_PEER_ASSOC_RSP, PeerAssocRspAction),
      (ASSOC_WAIT_RSP, MT2_PEER_REASSOC_RSP, PeerAssocRspAction),
      (ASSOC_WAIT_RSP, MT2_ASSOC_TIMEOUT, AssocTimeoutAction),
      (REASSOC_WAIT_RSP, MT2_MLME_ASSOC_REQ, InvalidStateWhenAssoc),
      (REASSOC_WAIT_RSP, MT2_MLME_REASSOC_REQ, InvalidStateWhenReassoc),
      (REASSOC_WAIT_RSP, MT2_MLME_DISASSOC_REQ, InvalidStateWhenDisassociate),
      (REASSOC_WAIT_RSP, MT2_PEER_DISASSOC_REQ, PeerDisassocAction),
      (REASSOC_WAIT_RSP, MT2_PEER_REASSOC_RSP, PeerReassocRspAction),
      (REASSOC_WAIT_RSP, MT2_PEER_ASSOC_RSP, PeerReassocRspAction),
      (REASSOC_WAIT_RSP, MT2_REASSOC_TIMEOUT, ReassocTimeoutAction),
      (DISASSOC_WAIT_RSP, MT2_MLME_ASSOC_REQ, InvalidStateWhenAssoc),
      (DISASSOC_WAIT_RSP, MT2_MLME_REASSOC_REQ, InvalidStateWhenReassoc),
      (DISASSOC_WAIT_RSP, MT2_MLME_DISASSOC_REQ, InvalidStateWhenDisassociate),
      (DISASSOC_WAIT_RSP, MT2_PEER_DISASSOC_REQ, PeerDisassocAction),
      (DISASSOC_WAIT_RSP, MT2_DISASSOC_TIMEOUT, DisassocTimeoutAction)]
     (StateMachineInit S MAX_ASSOC_STATE MAX_ASSOC_MSG (Some Drop) ASSOC_IDLE 0)"

abbreviation AUTH_REQ_IDLE :: u32 where "AUTH_REQ_IDLE \<equiv> 0"
abbreviation AUTH_WAIT_SEQ2 :: u32 where "AUTH_WAIT_SEQ2 \<equiv> 1"
abbreviation AUTH_WAIT_SEQ4 :: u32 where "AUTH_WAIT_SEQ4 \<equiv> 2"
abbreviation MAX_AUTH_STATE :: u32 where "MAX_AUTH_STATE \<equiv> 3"
abbreviation MT2_MLME_AUTH_REQ :: u32 where "MT2_MLME_AUTH_REQ \<equiv> 0"
abbreviation MT2_PEER_AUTH_EVEN :: u32 where "MT2_PEER_AUTH_EVEN \<equiv> 1"
abbreviation MT2_AUTH_TIMEOUT :: u32 where "MT2_AUTH_TIMEOUT \<equiv> 2"
abbreviation MAX_AUTH_MSG :: u32 where "MAX_AUTH_MSG \<equiv> 3"

definition AuthStateMachineInit :: "state_machine \<Rightarrow> state_machine" where
  "AuthStateMachineInit S =
    set_actions
     [(AUTH_REQ_IDLE, MT2_MLME_AUTH_REQ, MlmeAuthReqAction),
      (AUTH_WAIT_SEQ2, MT2_MLME_AUTH_REQ, InvalidStateWhenAuth),
      (AUTH_WAIT_SEQ2, MT2_PEER_AUTH_EVEN, PeerAuthRspAtSeq2Action),
      (AUTH_WAIT_SEQ2, MT2_AUTH_TIMEOUT, AuthTimeoutAction),
      (AUTH_WAIT_SEQ4, MT2_MLME_AUTH_REQ, InvalidStateWhenAuth),
      (AUTH_WAIT_SEQ4, MT2_PEER_AUTH_EVEN, PeerAuthRspAtSeq4Action),
      (AUTH_WAIT_SEQ4, MT2_AUTH_TIMEOUT, AuthTimeoutAction)]
     (StateMachineInit S MAX_AUTH_STATE MAX_AUTH_MSG (Some Drop) AUTH_REQ_IDLE 0)"

abbreviation AUTH_RSP_IDLE :: u32 where "AUTH_RSP_IDLE \<equiv> 0"
abbreviation AUTH_RSP_WAIT_CHAL :: u32 where "AUTH_RSP_WAIT_CHAL \<equiv> 1"
abbreviation MAX_AUTH_RSP_STATE :: u32 where "MAX_AUTH_RSP_STATE \<equiv> 2"
abbreviation MT2_PEER_AUTH_ODD :: u32 where "MT2_PEER_AUTH_ODD \<equiv> 1"
abbreviation MT2_PEER_DEAUTH :: u32 where "MT2_PEER_DEAUTH \<equiv> 2"
abbreviation MAX_AUTH_RSP_MSG :: u32 where "MAX_AUTH_RSP_MSG \<equiv> 3"

definition AuthRspStateMachineInit :: "state_machine \<Rightarrow> state_machine" where
  "AuthRspStateMachineInit S =
    set_actions
     [(AUTH_RSP_IDLE, MT2_PEER_DEAUTH, PeerDeauthAction),
      (AUTH_RSP_WAIT_CHAL, MT2_PEER_DEAUTH, PeerDeauthAction)]
     (StateMachineInit S MAX_AUTH_RSP_STATE MAX_AUTH_RSP_MSG (Some Drop) AUTH_RSP_IDLE 0)"

abbreviation SYNC_IDLE :: u32 where "SYNC_IDLE \<equiv> 0"
abbreviation JOIN_WAIT_BEACON :: u32 where "JOIN_WAIT_BEACON \<equiv> 1"
abbreviation SCAN_LISTEN :: u32 where "SCAN_LISTEN \<equiv> 2"
abbreviation SCAN_PENDING :: u32 where "SCAN_PENDING \<equiv> 3"
abbreviation MAX_SYNC_STATE :: u32 where "MAX_SYNC_STATE \<equiv> 4"
abbreviation MT2_MLME_SCAN_REQ :: u32 where "MT2_MLME_SCAN_REQ \<equiv> 0"
abbreviation MT2_MLME_JOIN_REQ :: u32 where "MT2_MLME_JOIN_REQ \<equiv> 1"
abbreviation MT2_MLME_START_REQ :: u32 where "MT2_MLME_START_REQ \<equiv> 2"
abbreviation MT2_PEER_BEACON :: u32 where "MT2_PEER_BEACON \<equiv> 3"
abbreviation MT2_PEER_PROBE_RSP :: u32 where "MT2_PEER_PROBE_RSP \<equiv> 4"
abbreviation MT2_PEER_ATIM :: u32 where "MT2_PEER_ATIM \<equiv> 5"
abbreviation MT2_SCAN_TIMEOUT :: u32 where "MT2_SCAN_TIMEOUT \<equiv> 6"
abbreviation MT2_BEACON_TIMEOUT :: u32 where "MT2_BEACON_TIMEOUT \<equiv> 7"
abbreviation MT2_PEER_PROBE_REQ :: u32 where "MT2_PEER_PROBE_REQ \<equiv> 9"
abbreviation MAX_SYNC_MSG :: u32 where "MAX_SYNC_MSG \<equiv> 10"

definition SyncStateMachineInit :: "state_machine \<Rightarrow> state_machine" where
  "SyncStateMachineInit S =
    set_actions
     [(SYNC_IDLE, MT2_MLME_SCAN_REQ, MlmeScanReqAction),
      (SYNC_IDLE, MT2_MLME_JOIN_REQ, MlmeJoinReqAction),
      (SYNC_IDLE, MT2_MLME_START_REQ, MlmeStartReqAction),
      (SYNC_IDLE, MT2_PEER_BEACON, PeerBeacon),
      (SYNC_IDLE, MT2_PEER_PROBE_REQ, PeerProbeReqAction),
      (JOIN_WAIT_BEACON, MT2_MLME_SCAN_REQ, InvalidStateWhenScan),
      (JOIN_WAIT_BEACON, MT2_MLME_JOIN_REQ, InvalidStateWhenJoin),
      (JOIN_WAIT_BEACON, MT2_MLME_START_REQ, InvalidStateWhenStart),
      (JOIN_WAIT_BEACON, MT2_PEER_BEACON, PeerBeaconAtJoinAction),
      (JOIN_WAIT_BEACON, MT2_BEACON_TIMEOUT, BeaconTimeoutAtJoinAction),
      (JOIN_WAIT_BEACON, MT2_PEER_PROBE_RSP, PeerBeaconAtScanAction),
      (SCAN_LISTEN, MT2_MLME_SCAN_REQ, InvalidStateWhenScan),
      (SCAN_LISTEN, MT2_MLME_JOIN_REQ, InvalidStateWhenJoin),
      (SCAN_LISTEN, MT2_MLME_START_REQ, InvalidStateWhenStart),
      (SCAN_LISTEN, MT2_PEER_BEACON, PeerBeaconAtScanAction),
      (SCAN_LISTEN, MT2_PEER_PROBE_RSP, PeerBeaconAtScanAction),
      (SCAN_LISTEN, MT2_SCAN_TIMEOUT, ScanTimeoutAction),
      (SCAN_PENDING, MT2_MLME_SCAN_REQ, MlmeScanReqAction)]
     (StateMachineInit S MAX_SYNC_STATE MAX_SYNC_MSG (Some Drop) SYNC_IDLE 0)"

abbreviation ACT_IDLE :: u32 where "ACT_IDLE \<equiv> 0"
abbreviation MAX_ACT_STATE :: u32 where "MAX_ACT_STATE \<equiv> 1"
abbreviation MT2_PEER_SPECTRUM_CATE :: u32 where "MT2_PEER_SPECTRUM_CATE \<equiv> 0"
abbreviation MT2_PEER_QOS_CATE :: u32 where "MT2_PEER_QOS_CATE \<equiv> 1"
abbreviation MT2_PEER_DLS_CATE :: u32 where "MT2_PEER_DLS_CATE \<equiv> 2"
abbreviation MT2_PEER_BA_CATE :: u32 where "MT2_PEER_BA_CATE \<equiv> 3"
abbreviation MT2_PEER_PUBLIC_CATE :: u32 where "MT2_PEER_PUBLIC_CATE \<equiv> 4"
abbreviation MT2_PEER_RM_CATE :: u32 where "MT2_PEER_RM_CATE \<equiv> 5"
abbreviation MT2_PEER_HT_CATE :: u32 where "MT2_PEER_HT_CATE \<equiv> 7"
abbreviation MAX_PEER_CATE_MSG :: u32 where "MAX_PEER_CATE_MSG \<equiv> 17"
abbreviation MT2_MLME_ADD_BA_CATE :: u32 where "MT2_MLME_ADD_BA_CATE \<equiv> 18"
abbreviation MT2_MLME_ORI_DELBA_CATE :: u32 where "MT2_MLME_ORI_DELBA_CATE \<equiv> 19"
abbreviation MT2_MLME_REC_DELBA_CATE :: u32 where "MT2_MLME_REC_DELBA_CATE \<equiv> 20"
abbreviation MT2_MLME_QOS_CATE :: u32 where "MT2_MLME_QOS_CATE \<equiv> 21"
abbreviation MT2_MLME_DLS_CATE :: u32 where "MT2_MLME_DLS_CATE \<equiv> 22"
abbreviation MT2_ACT_INVALID :: u32 where "MT2_ACT_INVALID \<equiv> 23"
abbreviation MAX_ACT_MSG :: u32 where "MAX_ACT_MSG \<equiv> 24"

definition ActionStateMachineInit :: "state_machine \<Rightarrow> state_machine" where
  "ActionStateMachineInit S =
    set_actions
     [(ACT_IDLE, MT2_PEER_SPECTRUM_CATE, PeerSpectrumAction),
      (ACT_IDLE, MT2_PEER_QOS_CATE, PeerQOSAction),
      (ACT_IDLE, MT2_PEER_DLS_CATE, ReservedAction),
      (ACT_IDLE, MT2_PEER_BA_CATE, PeerBAAction),
      (ACT_IDLE, MT2_PEER_HT_CATE, PeerHTAction),
      (ACT_IDLE, MT2_MLME_ADD_BA_CATE, MlmeADDBAAction),
      (ACT_IDLE, MT2_MLME_ORI_DELBA_CATE, MlmeDELBAAction),
      (ACT_IDLE, MT2_MLME_REC_DELBA_CATE, MlmeDELBAAction),
      (ACT_IDLE, MT2_PEER_PUBLIC_CATE, PeerPublicAction),
      (ACT_IDLE, MT2_PEER_RM_CATE, PeerRMAction),
      (ACT_IDLE, MT2_MLME_QOS_CATE, MlmeQOSAction),
      (ACT_IDLE, MT2_MLME_DLS_CATE, MlmeDLSAction),
      (ACT_IDLE, MT2_ACT_INVALID, MlmeInvalidAction)]
     (StateMachineInit S MAX_ACT_STATE MAX_ACT_MSG (Some Drop) ACT_IDLE 0)"

abbreviation WPA_PTK :: u32 where "WPA_PTK \<equiv> 0"
abbreviation MAX_WPA_PTK_STATE :: u32 where "MAX_WPA_PTK_STATE \<equiv> 1"
abbreviation MT2_EAPPacket :: u32 where "MT2_EAPPacket \<equiv> 0"
abbreviation MT2_EAPOLStart :: u32 where "MT2_EAPOLStart \<equiv> 1"
abbreviation MT2_EAPOLLogoff :: u32 where "MT2_EAPOLLogoff \<equiv> 2"
abbreviation MT2_EAPOLKey :: u32 where "MT2_EAPOLKey \<equiv> 3"
abbreviation MT2_EAPOLASFAlert :: u32 where "MT2_EAPOLASFAlert \<equiv> 4"
abbreviation MAX_WPA_MSG :: u32 where "MAX_WPA_MSG \<equiv> 5"

definition WpaStateMachineInit :: "state_machine \<Rightarrow> state_machine" where
  "WpaStateMachineInit S =
    set_actions
     [(WPA_PTK, MT2_EAPPacket, WpaEAPPacketAction),
      (WPA_PTK, MT2_EAPOLStart, WpaEAPOLStartAction),
      (WPA_PTK, MT2_EAPOLLogoff, WpaEAPOLLogoffAction),
      (WPA_PTK, MT2_EAPOLKey, WpaEAPOLKeyAction),
      (WPA_PTK, MT2_EAPOLASFAlert, WpaEAPOLASFAlertAction)]
     (StateMachineInit S MAX_WPA_PTK_STATE MAX_WPA_MSG (Some Drop) WPA_PTK 0)"

section \<open>Classification of received frames\<close>

abbreviation LENGTH_802_11 :: nat where "LENGTH_802_11 \<equiv> 24"
abbreviation LENGTH_802_1_H :: nat where "LENGTH_802_1_H \<equiv> 8"
abbreviation BTYPE_DATA :: u8 where "BTYPE_DATA \<equiv> 2"

definition FC_Type :: "mem \<Rightarrow> u8" where
  "FC_Type frame = drop_bit 2 (frame 0) AND 3"

definition FC_SubType :: "mem \<Rightarrow> u8" where
  "FC_SubType frame = drop_bit 4 (frame 0) AND 15"

definition ushort_at :: "mem \<Rightarrow> nat \<Rightarrow> u16" where
  "ushort_at m i = ucast (m i) OR push_bit 8 (ucast (m (i + 1)))"

definition WpaMsgTypeSubst :: "u8 \<Rightarrow> u32 \<Rightarrow> bool \<times> u32" where
  "WpaMsgTypeSubst EAPType mty =
    (if EAPType = 0 then (True, MT2_EAPPacket)
     else if EAPType = 1 then (True, MT2_EAPOLStart)
     else if EAPType = 2 then (True, MT2_EAPOLLogoff)
     else if EAPType = 3 then (True, MT2_EAPOLKey)
     else if EAPType = 4 then (True, MT2_EAPOLASFAlert)
     else (False, mty))"

text \<open>\<open>mach\<close> and \<open>mty\<close> are the values the caller's variables have on entry.\<close>

definition MsgTypeSubst :: "mem \<Rightarrow> u32 \<Rightarrow> u32 \<Rightarrow> bool \<times> u32 \<times> u32" where
  "MsgTypeSubst frame mach mty =
    (if FC_Type frame = BTYPE_DATA
     then case WpaMsgTypeSubst (frame (LENGTH_802_11 + LENGTH_802_1_H + 1)) mty of
       (ok, t) \<Rightarrow> (ok, WPA_STATE_MACHINE, t)
     else
       let st = FC_SubType frame in
       if st = 0 then (True, ASSOC_STATE_MACHINE, MT2_PEER_ASSOC_REQ)
       else if st = 1 then (True, ASSOC_STATE_MACHINE, MT2_PEER_ASSOC_RSP)
       else if st = 2 then (True, ASSOC_STATE_MACHINE, MT2_PEER_REASSOC_REQ)
       else if st = 3 then (True, ASSOC_STATE_MACHINE, MT2_PEER_REASSOC_RSP)
       else if st = 4 then (True, SYNC_STATE_MACHINE, MT2_PEER_PROBE_REQ)
       else if st = 5 then (True, SYNC_STATE_MACHINE, MT2_PEER_PROBE_RSP)
       else if st = 8 then (True, SYNC_STATE_MACHINE, MT2_PEER_BEACON)
       else if st = 9 then (True, SYNC_STATE_MACHINE, MT2_PEER_ATIM)
       else if st = 10 then (True, ASSOC_STATE_MACHINE, MT2_PEER_DISASSOC_REQ)
       else if st = 11 then
         (let Seq = ushort_at frame (LENGTH_802_11 + 2); Alg = ushort_at frame LENGTH_802_11 in
          if Seq = 1 \<or> Seq = 3 then (True, AUTH_RSP_STATE_MACHINE, MT2_PEER_AUTH_ODD)
          else if Seq = 2 \<or> Seq = 4 then
            (if Alg = 0 \<or> Alg = 1 then (True, AUTH_STATE_MACHINE, MT2_PEER_AUTH_EVEN) else (True, mach, mty))
          else (False, mach, mty))
       else if st = 12 then (True, AUTH_RSP_STATE_MACHINE, MT2_PEER_DEAUTH)
       else if st = 13 then
         (let c = ucast (frame LENGTH_802_11 AND 0x7F) in
          (True, ACTION_STATE_MACHINE, if c > MAX_PEER_CATE_MSG then MT2_ACT_INVALID else c))
       else (False, mach, mty))"

text \<open>The arguments are those of the C function, in its order, after the parts of the adapter
  it reads (flags, ATE mode, channel). The result is the returned flag, whether the MLME task
  was woken, and the queue.\<close>

definition MlmeEnqueueForRecv ::
  "u32 \<Rightarrow> bool \<Rightarrow> u8 \<Rightarrow> u32 \<Rightarrow> u32 \<Rightarrow> u32 \<Rightarrow> u8 \<Rightarrow> u8 \<Rightarrow> u8 \<Rightarrow> u32 \<Rightarrow> mem \<Rightarrow> u8 \<Rightarrow> u8 \<Rightarrow>
    mlme_queue \<Rightarrow> bool \<times> bool \<times> mlme_queue" where
  "MlmeEnqueueForRecv Flags ate chan wc tsh tsl r0 r1 r2 len frame sig opm q =
    (if ate then (False, False, q)
     else if RTMP_TEST_FLAG Flags (fRTMP_ADAPTER_HALT_IN_PROGRESS OR fRTMP_ADAPTER_NIC_NOT_EXIST) then (False, False, q)
     else if unat len > MLME_BUFFER_SIZE then (False, False, q)
     else if MlmeQueueFull q 0 then (False, False, q)
     else case MsgTypeSubst frame 0xFF 0 of (ok, mach, mty) \<Rightarrow>
       if \<not> ok then (False, False, q)
       else
         let t = unat (Tail q);
             q = q\<lparr>Tail := ring_next (Tail q), Num := Num q + 1\<rparr>;
             e = (Entry q ! t)\<lparr>Occupied := True, Machine := mach, MsgType := mty, MsgLen := len,
               TimeStampLow := tsl, TimeStampHigh := tsh, Rssi0 := r0, Rssi1 := r1, Rssi2 := r2,
               Signal := sig, Wcid := ucast wc, OpMode := opm, Priv := 0, Channel := chan,
               Msg := NdisMoveMemory (Msg (Entry q ! t)) frame (unat len)\<rparr>
         in (True, True, q\<lparr>Entry := (Entry q)[t := e]\<rparr>))"

section \<open>The MLME task\<close>

datatype mlme_timer = AssocTimer | ReassocTimer | DisassocTimer | AuthTimer | BeaconTimer | ScanTimer
  | LinkDownTimer | StaQuickResponeForRateUpTimer | WpaDisassocAndBlockAssocTimer | AutoWakeupTimer
  | PeriodicTimer | RxAntEvalTimer

datatype mlme_event = CancelTimer mlme_timer | InitTimer mlme_timer bool | SetTimer mlme_timer nat
  | BssTableInit | AsicSwitchChannel u8 | AsicLockChannel u8 | ResumeMsduTransmission

abbreviation MLME_TASK_EXEC_INTV :: nat where "MLME_TASK_EXEC_INTV \<equiv> 100"

text \<open>The part of the adapter the MLME task uses: the flags, ATE mode, the operating channel, the
  MLME structure, and a log of the calls made to other parts of the driver.\<close>

record mlme_ad =
  Flags :: u32
  ate_on :: bool
  CfgChannel :: u8
  bRunning :: bool
  Queue :: mlme_queue
  CntlState :: u32
  AssocMachine :: state_machine
  AuthMachine :: state_machine
  AuthRspMachine :: state_machine
  SyncMachine :: state_machine
  WpaPskMachine :: state_machine
  ActMachine :: state_machine
  WpaMachine :: state_machine
  StaQuickResponeForRateUpTimerRunning :: bool
  AutoWakeupTimerRunning :: bool
  mlme_log :: "mlme_event list"

text \<open>The timers the machines' own initialisers create are logged here, in order; \<open>InitTimer t rep\<close>
  creates timer \<open>t\<close>, repeating or not.\<close>

definition MlmeInit :: "'a mlme_ad_scheme \<Rightarrow> 'a mlme_ad_scheme" where
  "MlmeInit s = s\<lparr>Queue := MlmeQueueInit (Queue s), bRunning := False,
     AssocMachine := AssocStateMachineInit (AssocMachine s),
     AuthMachine := AuthStateMachineInit (AuthMachine s),
     AuthRspMachine := AuthRspStateMachineInit (AuthRspMachine s),
     SyncMachine := SyncStateMachineInit (SyncMachine s),
     CntlState := CNTL_IDLE,
     WpaMachine := WpaStateMachineInit (WpaMachine s),
     ActMachine := ActionStateMachineInit (ActMachine s),
     StaQuickResponeForRateUpTimerRunning := False,
     AutoWakeupTimerRunning := False,
     mlme_log := mlme_log s @
       [BssTableInit,
        InitTimer AssocTimer False, InitTimer ReassocTimer False, InitTimer DisassocTimer False,
        InitTimer AuthTimer False, InitTimer BeaconTimer False, InitTimer ScanTimer False,
        InitTimer LinkDownTimer False, InitTimer StaQuickResponeForRateUpTimer False,
        InitTimer WpaDisassocAndBlockAssocTimer False, InitTimer AutoWakeupTimer False,
        InitTimer PeriodicTimer True, SetTimer PeriodicTimer MLME_TASK_EXEC_INTV, InitTimer RxAntEvalTimer False]\<rparr>"

definition MlmeRestartStateMachine :: "'a mlme_ad_scheme \<Rightarrow> 'a mlme_ad_scheme" where
  "MlmeRestartStateMachine s = s\<lparr>
     mlme_log := mlme_log s @
       [CancelTimer AssocTimer, CancelTimer ReassocTimer, CancelTimer DisassocTimer, CancelTimer AuthTimer,
        CancelTimer BeaconTimer, CancelTimer ScanTimer,
        AsicSwitchChannel (CfgChannel s), AsicLockChannel (CfgChannel s), ResumeMsduTransmission],
     CntlState := CNTL_IDLE,
     AssocMachine := (AssocMachine s)\<lparr>CurrState := ASSOC_IDLE\<rparr>,
     AuthMachine := (AuthMachine s)\<lparr>CurrState := AUTH_REQ_IDLE\<rparr>,
     AuthRspMachine := (AuthRspMachine s)\<lparr>CurrState := AUTH_RSP_IDLE\<rparr>,
     SyncMachine := (SyncMachine s)\<lparr>CurrState := SYNC_IDLE\<rparr>,
     ActMachine := (ActMachine s)\<lparr>CurrState := ACT_IDLE\<rparr>\<rparr>"

text \<open>The switch of \<open>MlmeHandler\<close>: the function to call, nothing for an illegal machine, or
  \<open>None\<close> when a table is read out of its bounds.\<close>

definition mlme_dispatch :: "'a mlme_ad_scheme \<Rightarrow> mlme_elem \<Rightarrow> sm_func option option" where
  "mlme_dispatch s e =
    (if Machine e = ASSOC_STATE_MACHINE
       then StateMachinePerformAction (AssocMachine s) e (CurrState (AssocMachine s))
     else if Machine e = AUTH_STATE_MACHINE
       then StateMachinePerformAction (AuthMachine s) e (CurrState (AuthMachine s))
     else if Machine e = AUTH_RSP_STATE_MACHINE
       then StateMachinePerformAction (AuthRspMachine s) e (CurrState (AuthRspMachine s))
     else if Machine e = SYNC_STATE_MACHINE
       then StateMachinePerformAction (SyncMachine s) e (CurrState (SyncMachine s))
     else if Machine e = MLME_CNTL_STATE_MACHINE then Some (Some MlmeCntlMachinePerformAction)
     else if Machine e = WPA_PSK_STATE_MACHINE
       then StateMachinePerformAction (WpaPskMachine s) e (CurrState (WpaPskMachine s))
     else if Machine e = ACTION_STATE_MACHINE
       then StateMachinePerformAction (ActMachine s) e (CurrState (ActMachine s))
     else if Machine e = WPA_STATE_MACHINE
       then StateMachinePerformAction (WpaMachine s) e (CurrState (WpaMachine s))
     else Some None)"

datatype mlme_fault = Bad_table_index | Out_of_fuel

type_synonym sm_call = "sm_func option \<times> mlme_msg"

definition add_call :: "sm_call \<Rightarrow> mlme_fault + sm_call list \<times> 'b \<Rightarrow> mlme_fault + sm_call list \<times> 'b" where
  "add_call c r = (case r of Inl f \<Rightarrow> Inl f | Inr (cs, s) \<Rightarrow> Inr (c # cs, s))"

text \<open>The loop, with the list of the messages it dispatched and the function called for each.
  \<open>act f i s\<close> is the effect of the action function \<open>f\<close> on the message in slot \<open>i\<close>.\<close>

fun mlme_loop ::
  "(sm_func \<Rightarrow> nat \<Rightarrow> 'a mlme_ad_scheme \<Rightarrow> 'a mlme_ad_scheme) \<Rightarrow> nat \<Rightarrow> 'a mlme_ad_scheme \<Rightarrow>
    mlme_fault + sm_call list \<times> 'a mlme_ad_scheme" where
  "mlme_loop act 0 s = Inl Out_of_fuel"
| "mlme_loop act (Suc n) s =
    (if MlmeQueueEmpty (Queue s) then Inr ([], s)
     else if RTMP_TEST_FLAG (Flags s) fRTMP_ADAPTER_MLME_RESET_IN_PROGRESS \<or>
       RTMP_TEST_FLAG (Flags s) fRTMP_ADAPTER_HALT_IN_PROGRESS \<or>
       RTMP_TEST_FLAG (Flags s) fRTMP_ADAPTER_NIC_NOT_EXIST then Inr ([], s)
     else if ate_on s then Inr ([], s)
     else case MlmeDequeue (Queue s) of (i, q) \<Rightarrow>
       let s = s\<lparr>Queue := q\<rparr>; e = Entry q ! i in
       if MsgType e = MT2_RESET_CONF then
         let s = MlmeRestartStateMachine s in
         add_call (None, elem_msg e) (mlme_loop act n (s\<lparr>Queue := mlme_release i (Queue s)\<rparr>))
       else (case mlme_dispatch s e of None \<Rightarrow> Inl Bad_table_index
         | Some f \<Rightarrow>
           let s = (case f of None \<Rightarrow> s | Some g \<Rightarrow> act g i s) in
           add_call (f, elem_msg e) (mlme_loop act n (s\<lparr>Queue := mlme_release i (Queue s)\<rparr>))))"

definition MlmeHandler ::
  "(sm_func \<Rightarrow> nat \<Rightarrow> 'a mlme_ad_scheme \<Rightarrow> 'a mlme_ad_scheme) \<Rightarrow> nat \<Rightarrow> 'a mlme_ad_scheme \<Rightarrow>
    mlme_fault + sm_call list \<times> 'a mlme_ad_scheme" where
  "MlmeHandler act fuel s =
    (if bRunning s then Inr ([], s)
     else case mlme_loop act fuel (s\<lparr>bRunning := True\<rparr>) of
       Inl f \<Rightarrow> Inl f | Inr (cs, s') \<Rightarrow> Inr (cs, s'\<lparr>bRunning := False\<rparr>))"

section \<open>The tables\<close>

definition table_ok :: "u32 \<Rightarrow> u32 \<Rightarrow> state_machine \<Rightarrow> bool" where
  "table_ok st ms S \<longleftrightarrow> NrState S = st \<and> NrMsg S = ms \<and> Base S = 0 \<and>
     length (TransFunc S) = unat st * unat ms"

lemma fold_update_length: "length (fold (\<lambda>j T. T[g j := d]) js T) = length T"
  by (induction js arbitrary: T) auto

lemma fold2_update_length: "length (fold (\<lambda>i. fold (\<lambda>j T. T[g i j := d]) js) is T) = length T"
  by (induction "is" arbitrary: T) (auto simp: fold_update_length)

lemma Init_table:
  "length (TransFunc S) = unat st * unat ms \<Longrightarrow> table_ok st ms (StateMachineInit S st ms d i 0)"
  by (simp add: table_ok_def StateMachineInit_def fold2_update_length)

lemma set_action_table: "table_ok st ms S \<Longrightarrow> table_ok st ms (StateMachineSetAction a b f S)"
  by (simp add: table_ok_def StateMachineSetAction_def Let_def)

lemma set_actions_table: "table_ok st ms S \<Longrightarrow> table_ok st ms (set_actions xs S)"
  unfolding set_actions_def by (induction xs arbitrary: S) (auto intro: set_action_table)

lemma set_action_curr [simp]: "CurrState (StateMachineSetAction a b f S) = CurrState S"
  by (simp add: StateMachineSetAction_def Let_def)

lemma set_actions_curr [simp]: "CurrState (set_actions xs S) = CurrState S"
  unfolding set_actions_def by (induction xs arbitrary: S) auto

lemma init_curr [simp]: "CurrState (StateMachineInit S st ms d i b) = i"
  by (simp add: StateMachineInit_def)

lemma perform_in_table:
  assumes "table_ok st ms S" "c < st" "MsgType e < ms" "unat st * unat ms < 2 ^ 32"
  shows "StateMachinePerformAction S e c = Some (TransFunc S ! (unat c * unat ms + unat (MsgType e)))"
proof -
  have c: "unat c < unat st" and m: "unat (MsgType e) < unat ms"
    using assms(2,3) by (simp_all add: word_less_nat_alt)
  have "(unat c + 1) * unat ms \<le> unat st * unat ms" using c by (intro mult_right_mono) simp_all
  then have b: "unat c * unat ms + unat (MsgType e) < unat st * unat ms" using m by simp
  have "unat (c * ms + MsgType e) = unat c * unat ms + unat (MsgType e)"
    using b assms(4) by (simp add: unat_word_ariths)
  then show ?thesis using assms(1) b by (simp add: StateMachinePerformAction_def table_ok_def)
qed

lemma table_index:
  assumes "c < NrState S" "ms - Base S < NrMsg S" "unat (NrState S) * unat (NrMsg S) < 2 ^ 32"
  shows "unat (c * NrMsg S + ms - Base S) = unat c * unat (NrMsg S) + unat (ms - Base S)"
    and "unat c * unat (NrMsg S) + unat (ms - Base S) < unat (NrState S) * unat (NrMsg S)"
proof -
  have c: "unat c < unat (NrState S)" and m: "unat (ms - Base S) < unat (NrMsg S)"
    using assms(1,2) by (simp_all add: word_less_nat_alt)
  have "(unat c + 1) * unat (NrMsg S) \<le> unat (NrState S) * unat (NrMsg S)" using c by (intro mult_right_mono) simp_all
  then show b: "unat c * unat (NrMsg S) + unat (ms - Base S) < unat (NrState S) * unat (NrMsg S)" using m by simp
  have "c * NrMsg S + ms - Base S = c * NrMsg S + (ms - Base S)" by simp
  moreover have "unat (c * NrMsg S + (ms - Base S)) = unat c * unat (NrMsg S) + unat (ms - Base S)"
    using b assms(3) by (simp add: unat_word_ariths)
  ultimately show "unat (c * NrMsg S + ms - Base S) = unat c * unat (NrMsg S) + unat (ms - Base S)" by metis
qed

lemma two_digit_inj:
  assumes "a * n + b = c * n + d" "b < n" "d < (n::nat)"
  shows "a = c \<and> b = d"
proof -
  have "(a * n + b) div n = a" "(c * n + d) div n = c" using assms(2,3) by simp_all
  then have "a = c" using assms(1) by metis
  then show ?thesis using assms(1) by simp
qed

text \<open>The table of a state machine behaves as a map from (state, message): after
  StateMachineSetAction the pair it names yields the new function and every other pair in range
  the function it had; a state or message out of range changes nothing. The bounds check uses
  the message number relative to the machine's base, so a message below the base is rejected.\<close>
theorem set_action_lookup:
  assumes "length (TransFunc S) = unat (NrState S) * unat (NrMsg S)" "unat (NrState S) * unat (NrMsg S) < 2 ^ 32"
    and "c < NrState S" "MsgType e - Base S < NrMsg S"
  shows "StateMachinePerformAction (StateMachineSetAction St ms f S) e c =
    (if St = c \<and> ms = MsgType e then Some (Some f) else StateMachinePerformAction S e c)"
proof (cases "St < NrState S \<and> ms - Base S < NrMsg S")
  case False
  then have "\<not> (St = c \<and> ms = MsgType e)" using assms(3,4) by auto
  then show ?thesis using False by (auto simp: StateMachineSetAction_def Let_def)
next
  case True
  note I = table_index [OF assms(3,4,2)] and J = table_index [OF conjunct1 [OF True] conjunct2 [OF True] assms(2)]
  have J': "unat (St * NrMsg S + (ms - Base S)) = unat St * unat (NrMsg S) + unat (ms - Base S)"
    using J(1) by (simp add: add_diff_eq)
  have m: "unat (MsgType e - Base S) < unat (NrMsg S)" "unat (ms - Base S) < unat (NrMsg S)"
    using assms(4) True by (simp_all add: word_less_nat_alt)
  have "unat St * unat (NrMsg S) + unat (ms - Base S) = unat c * unat (NrMsg S) + unat (MsgType e - Base S)
      \<longleftrightarrow> St = c \<and> ms = MsgType e"
    using two_digit_inj [OF _ m(2,1), of "unat St" "unat c"] by (auto simp: word_unat_eq_iff [symmetric])
  then show ?thesis
    using I J' J(2) assms(1) True
    by (simp add: StateMachineSetAction_def StateMachinePerformAction_def Let_def nth_list_update)
qed

theorem set_action_lookup_witness:
  "StateMachinePerformAction (StateMachineSetAction 1 6 PeerBeacon
     \<lparr>Base = 5, NrState = 2, NrMsg = 2, CurrState = 0, TransFunc = [None, None, None, None]\<rparr>)
     (ex_elem\<lparr>MsgType := 6\<rparr>) 1 = Some (Some PeerBeacon)"
  by (subst set_action_lookup) simp_all

text \<open>The authentication machine built by AuthStateMachineInit is the table documented in its
  header comment, whatever the array held before: rows are the states idle, wait-seq-2 and
  wait-seq-4, columns the messages request, even frame and time-out.\<close>
theorem auth_table:
  assumes "length (TransFunc S) = 9"
  shows "TransFunc (AuthStateMachineInit S) = map Some
    [MlmeAuthReqAction, Drop, Drop,
     InvalidStateWhenAuth, PeerAuthRspAtSeq2Action, AuthTimeoutAction,
     InvalidStateWhenAuth, PeerAuthRspAtSeq4Action, AuthTimeoutAction]"
proof -
  obtain a b c d e f g h i where "TransFunc S = [a, b, c, d, e, f, g, h, i]"
    using assms by (auto simp: length_Suc_conv eval_nat_numeral)
  then show ?thesis
    by (simp add: AuthStateMachineInit_def set_actions_def StateMachineInit_def StateMachineSetAction_def
        Let_def upt_rec)
qed

theorem auth_table_witness:
  "TransFunc (AuthStateMachineInit \<lparr>Base = 5, NrState = 2, NrMsg = 2, CurrState = 2, TransFunc = replicate 9 None\<rparr>) ! 4 =
    Some PeerAuthRspAtSeq2Action"
  by (subst auth_table) simp_all

end
