(* ===== verification/MlmeTask.thy ===== *)
theory MlmeTask
  imports MlmeMachine
begin

text \<open>
  The correctness of the MLME task of \<open>MlmeMachine\<close>: no message, received or queued by the
  driver itself, makes \<open>MlmeHandler\<close> read a state table out of bounds; received frames are
  accepted or refused as a whole; the handler empties the queue in order. Last, the shift
  register behind \<open>RandomByte\<close>.
\<close>

section \<open>Messages and tables\<close>

text \<open>The messages every table has a column for. The WPA-PSK machine has no table: \<open>MlmeInit\<close>
  never fills \<open>WpaPskMachine\<close>.\<close>

definition msg_ok :: "u32 \<Rightarrow> u32 \<Rightarrow> bool" where
  "msg_ok mach mty \<longleftrightarrow>
    (if mty = MT2_RESET_CONF then True
     else if mach = ASSOC_STATE_MACHINE then mty < MAX_ASSOC_MSG
     else if mach = AUTH_STATE_MACHINE then mty < MAX_AUTH_MSG
     else if mach = AUTH_RSP_STATE_MACHINE then mty < MAX_AUTH_RSP_MSG
     else if mach = SYNC_STATE_MACHINE then mty < MAX_SYNC_MSG
     else if mach = ACTION_STATE_MACHINE then mty < MAX_ACT_MSG
     else if mach = WPA_STATE_MACHINE then mty < MAX_WPA_MSG
     else mach \<noteq> WPA_PSK_STATE_MACHINE)"

definition machines_ok :: "'a mlme_ad_scheme \<Rightarrow> bool" where
  "machines_ok s \<longleftrightarrow>
     table_ok MAX_ASSOC_STATE MAX_ASSOC_MSG (AssocMachine s) \<and> CurrState (AssocMachine s) < MAX_ASSOC_STATE \<and>
     table_ok MAX_AUTH_STATE MAX_AUTH_MSG (AuthMachine s) \<and> CurrState (AuthMachine s) < MAX_AUTH_STATE \<and>
     table_ok MAX_AUTH_RSP_STATE MAX_AUTH_RSP_MSG (AuthRspMachine s) \<and> CurrState (AuthRspMachine s) < MAX_AUTH_RSP_STATE \<and>
     table_ok MAX_SYNC_STATE MAX_SYNC_MSG (SyncMachine s) \<and> CurrState (SyncMachine s) < MAX_SYNC_STATE \<and>
     table_ok MAX_ACT_STATE MAX_ACT_MSG (ActMachine s) \<and> CurrState (ActMachine s) < MAX_ACT_STATE \<and>
     table_ok MAX_WPA_PTK_STATE MAX_WPA_MSG (WpaMachine s) \<and> CurrState (WpaMachine s) < MAX_WPA_PTK_STATE"

definition queued_ok :: "mlme_queue \<Rightarrow> bool" where
  "queued_ok q \<longleftrightarrow> ring_ok q \<and>
     (\<forall>k<unat (Num q). msg_ok (Machine (Entry q ! slot q k)) (MsgType (Entry q ! slot q k)))"

definition task_ok :: "'a mlme_ad_scheme \<Rightarrow> bool" where
  "task_ok s \<longleftrightarrow> machines_ok s \<and> queued_ok (Queue s)"

text \<open>The storage of the machines as the adapter declares it.\<close>

definition storage_ok :: "'a mlme_ad_scheme \<Rightarrow> bool" where
  "storage_ok s \<longleftrightarrow> length (Entry (Queue s)) = MAX_LEN_OF_MLME_QUEUE \<and>
     length (TransFunc (AssocMachine s)) = 44 \<and> length (TransFunc (AuthMachine s)) = 9 \<and>
     length (TransFunc (AuthRspMachine s)) = 6 \<and> length (TransFunc (SyncMachine s)) = 40 \<and>
     length (TransFunc (ActMachine s)) = 24 \<and> length (TransFunc (WpaMachine s)) = 5"

lemma MlmeInit_machines: "storage_ok s \<Longrightarrow> machines_ok (MlmeInit s)"
  by (simp add: storage_ok_def machines_ok_def MlmeInit_def AssocStateMachineInit_def AuthStateMachineInit_def
      AuthRspStateMachineInit_def SyncStateMachineInit_def ActionStateMachineInit_def WpaStateMachineInit_def
      set_actions_table Init_table)

lemma rep_Nil_queued: "mlme_rep q [] \<Longrightarrow> queued_ok q"
  by (simp add: mlme_rep_def queued_ok_def)

lemma MlmeInit_ok: "storage_ok s \<Longrightarrow> task_ok (MlmeInit s)"
  using MlmeInit_machines [of s] rep_Nil_queued [OF Init_rep, of "Queue s"]
  by (simp add: task_ok_def storage_ok_def MlmeInit_def)

lemma dispatch_in_table:
  assumes "machines_ok s" "msg_ok (Machine e) (MsgType e)" "MsgType e \<noteq> MT2_RESET_CONF"
  shows "\<exists>f. mlme_dispatch s e = Some f"
  using assms unfolding machines_ok_def msg_ok_def mlme_dispatch_def
  by (simp add: perform_in_table split: if_splits)

lemma MsgTypeSubst_ok:
  assumes "MsgTypeSubst frame 0xFF 0 = (True, mach, mty)"
  shows "msg_ok mach mty"
  using assms unfolding MsgTypeSubst_def WpaMsgTypeSubst_def msg_ok_def Let_def
  by (auto split: if_splits simp: not_less intro: le_less_trans [of _ MAX_PEER_CATE_MSG MAX_ACT_MSG])

text \<open>Every frame the classifier accepts is given a state machine and a message number inside that
  machine's table, whatever bytes the frame has; authentication frames of an unknown algorithm
  keep the illegal machine number 0xFF, which the task ignores.\<close>
theorem MsgTypeSubst_in_table:
  assumes "MsgTypeSubst frame 0xFF 0 = (True, mach, mty)"
  shows "msg_ok mach mty"
  using assms by (rule MsgTypeSubst_ok)

theorem MsgTypeSubst_in_table_witness:
  "msg_ok ACTION_STATE_MACHINE MT2_ACT_INVALID"
  using MsgTypeSubst_in_table [of "\<lambda>i. if i = 0 then 0xD0 else 0xFF"]
  by (simp add: MsgTypeSubst_def FC_Type_def FC_SubType_def Let_def)

section \<open>Received frames\<close>

definition rx_accepts :: "u32 \<Rightarrow> bool \<Rightarrow> u32 \<Rightarrow> mem \<Rightarrow> mlme_queue \<Rightarrow> bool" where
  "rx_accepts Flgs ate len frame q \<longleftrightarrow> \<not> ate \<and>
     \<not> RTMP_TEST_FLAG Flgs (fRTMP_ADAPTER_HALT_IN_PROGRESS OR fRTMP_ADAPTER_NIC_NOT_EXIST) \<and>
     unat len \<le> MLME_BUFFER_SIZE \<and> \<not> MlmeQueueFull q 0 \<and> fst (MsgTypeSubst frame 0xFF 0)"

lemma MlmeEnqueueForRecv_put:
  "\<exists>e. MlmeEnqueueForRecv Flgs ate chan wc tsh tsl r0 r1 r2 len frame sig opm q =
     (if rx_accepts Flgs ate len frame q then (True, True, mlme_put e q) else (False, False, q)) \<and>
     Occupied e \<and> Machine e = fst (snd (MsgTypeSubst frame 0xFF 0)) \<and>
     MsgType e = snd (snd (MsgTypeSubst frame 0xFF 0)) \<and>
     elem_msg e = (Machine e, MsgType e, 0, map frame [0..<unat len])"
proof -
  obtain ok mach mty where M: "MsgTypeSubst frame 0xFF 0 = (ok, mach, mty)" by (rule prod_cases3)
  define e where "e = (Entry q ! unat (Tail q))\<lparr>Occupied := True, Machine := mach, MsgType := mty, MsgLen := len,
               TimeStampLow := tsl, TimeStampHigh := tsh, Rssi0 := r0, Rssi1 := r1, Rssi2 := r2,
               Signal := sig, Wcid := ucast wc, OpMode := opm, Priv := 0, Channel := chan,
               Msg := NdisMoveMemory (Msg (Entry q ! unat (Tail q))) frame (unat len)\<rparr>"
  have "MlmeEnqueueForRecv Flgs ate chan wc tsh tsl r0 r1 r2 len frame sig opm q =
     (if rx_accepts Flgs ate len frame q then (True, True, mlme_put e q) else (False, False, q))"
    by (simp add: MlmeEnqueueForRecv_def rx_accepts_def M mlme_put_def e_def Let_def)
  moreover have "elem_msg e = (mach, mty, 0, map frame [0..<unat len])" "Occupied e" "Machine e = mach" "MsgType e = mty"
    by (simp_all add: elem_msg_def e_def NdisMoveMemory_def)
  ultimately show ?thesis by (intro exI [of _ e]) (simp add: M)
qed

lemma full0_rep: "mlme_rep q xs \<Longrightarrow> MlmeQueueFull q 0 \<longleftrightarrow> length xs \<ge> 20"
proof -
  assume a: "mlme_rep q xs"
  have n: "unat (Num q) = length xs" "length xs \<le> 40" and t: "unat (Tail q) = slot q (length xs)"
    using a by (auto simp: mlme_rep_def ring_ok_def)
  have "Occupied (Entry q ! slot q (length xs)) \<longleftrightarrow> length xs = 40"
  proof (cases "length xs = 40")
    case True
    then have "slot q (length xs) = slot q 0" by (simp add: slot_def)
    then show ?thesis using a True by (auto simp: mlme_rep_def)
  next
    case False
    then show ?thesis using a n by (auto simp: mlme_rep_def)
  qed
  then show ?thesis using n t by (auto simp: MlmeQueueFull_def word_le_nat_alt)
qed

text \<open>C20: A received frame is queued, and the MLME task woken, exactly when the driver is neither
  halting nor in test mode, the frame fits a slot, fewer than 20 messages are queued (received
  frames leave half of the ring to the driver's own messages) and the classifier knows it; it is
  then appended with the machine and message number the classifier gives and all its bytes, and
  otherwise the queue is left as it was.\<close>
theorem MlmeEnqueueForRecv_correct:
  assumes "mlme_rep q xs"
  shows "if \<not> ate \<and> \<not> RTMP_TEST_FLAG Flgs (fRTMP_ADAPTER_HALT_IN_PROGRESS OR fRTMP_ADAPTER_NIC_NOT_EXIST) \<and>
      unat len \<le> MLME_BUFFER_SIZE \<and> length xs < 20 \<and> fst (MsgTypeSubst frame 0xFF 0)
    then \<exists>q'. MlmeEnqueueForRecv Flgs ate chan wc tsh tsl r0 r1 r2 len frame sig opm q = (True, True, q') \<and>
      mlme_rep q' (xs @ [(fst (snd (MsgTypeSubst frame 0xFF 0)), snd (snd (MsgTypeSubst frame 0xFF 0)), 0, map frame [0..<unat len])])
    else MlmeEnqueueForRecv Flgs ate chan wc tsh tsl r0 r1 r2 len frame sig opm q = (False, False, q)"
proof -
  obtain e where R: "MlmeEnqueueForRecv Flgs ate chan wc tsh tsl r0 r1 r2 len frame sig opm q =
     (if rx_accepts Flgs ate len frame q then (True, True, mlme_put e q) else (False, False, q))"
    and e: "Occupied e" "Machine e = fst (snd (MsgTypeSubst frame 0xFF 0))" "MsgType e = snd (snd (MsgTypeSubst frame 0xFF 0))"
     "elem_msg e = (Machine e, MsgType e, 0, map frame [0..<unat len])"
    using MlmeEnqueueForRecv_put by metis
  have acc: "rx_accepts Flgs ate len frame q \<longleftrightarrow>
      \<not> ate \<and> \<not> RTMP_TEST_FLAG Flgs (fRTMP_ADAPTER_HALT_IN_PROGRESS OR fRTMP_ADAPTER_NIC_NOT_EXIST) \<and>
      unat len \<le> MLME_BUFFER_SIZE \<and> length xs < 20 \<and> fst (MsgTypeSubst frame 0xFF 0)"
    using full0_rep [OF assms] by (auto simp: rx_accepts_def)
  show ?thesis unfolding acc [symmetric] R
  proof (simp, intro impI)
    assume "rx_accepts Flgs ate len frame q"
    then have "length xs < 40" unfolding acc by simp
    from put_rep [OF assms this e(1,4)]
    show "mlme_rep (mlme_put e q) (xs @ [(fst (snd (MsgTypeSubst frame 255 0)), snd (snd (MsgTypeSubst frame 255 0)), 0, map frame [0..<unat len])])"
      by (simp add: e(2,3))
  qed
qed

theorem MlmeEnqueueForRecv_correct_witness:
  "\<exists>q'. MlmeEnqueueForRecv 0 False 1 0 0 0 0 0 0 30 (\<lambda>i. if i = 0 then 0x80 else 0) 0 0 ex_queue = (True, True, q') \<and>
     mlme_rep q' [(SYNC_STATE_MACHINE, MT2_PEER_BEACON, 0, map (\<lambda>i. if i = 0 then 0x80 else 0) [0..<30])]"
  using MlmeEnqueueForRecv_correct [OF ex_queue_rep, of False 0 30 "\<lambda>i. if i = 0 then 0x80 else 0" 1 0 0 0 0 0 0 0 0]
  by (simp add: MsgTypeSubst_def FC_Type_def FC_SubType_def RTMP_TEST_FLAG_def Let_def)

lemma put_queued:
  assumes "queued_ok q" "unat (Num q) < 40" "msg_ok (Machine e) (MsgType e)"
  shows "queued_ok (mlme_put e q)"
proof -
  have r: "ring_ok q" using assms(1) by (simp add: queued_ok_def)
  note P = put_ring [OF r assms(2), of e]
  have l: "length (Entry q) = 40" using r by (simp add: ring_ok_def)
  have "msg_ok (Machine (Entry (mlme_put e q) ! slot q k)) (MsgType (Entry (mlme_put e q) ! slot q k))"
    if k: "k < unat (Num q) + 1" for k
    using slot_inj [of q k "unat (Num q)"] assms k unfolding P(3) queued_ok_def
    by (cases "k = unat (Num q)") (auto simp: l nth_list_update)
  then show ?thesis using P(1,2) by (simp add: queued_ok_def)
qed

lemma rx_room: "ring_ok q \<Longrightarrow> \<not> MlmeQueueFull q 0 \<Longrightarrow> unat (Num q) < 40"
  by (simp add: MlmeQueueFull_def word_le_nat_alt)

lemma rx_queued:
  assumes "queued_ok q"
  shows "queued_ok (snd (snd (MlmeEnqueueForRecv Flgs ate chan wc tsh tsl r0 r1 r2 len frame sig opm q)))"
proof -
  obtain e where R: "MlmeEnqueueForRecv Flgs ate chan wc tsh tsl r0 r1 r2 len frame sig opm q =
     (if rx_accepts Flgs ate len frame q then (True, True, mlme_put e q) else (False, False, q))"
    and e: "Machine e = fst (snd (MsgTypeSubst frame 0xFF 0))" "MsgType e = snd (snd (MsgTypeSubst frame 0xFF 0))"
    using MlmeEnqueueForRecv_put by metis
  show ?thesis
  proof (cases "rx_accepts Flgs ate len frame q")
    case True
    then obtain m t where M: "MsgTypeSubst frame 0xFF 0 = (True, m, t)"
      by (metis (full_types) rx_accepts_def prod.collapse)
    have "unat (Num q) < 40" using True assms rx_room by (auto simp: rx_accepts_def queued_ok_def)
    from put_queued [OF assms this, of e] MsgTypeSubst_ok [OF M] show ?thesis
      by (simp add: R True e M)
  qed (simp add: R assms)
qed

lemma own_queued:
  "queued_ok q \<Longrightarrow> msg_ok mach mty \<Longrightarrow> queued_ok (snd (MlmeEnqueue Flgs mach mty len msg prv q))"
  using put_queued [of q "own_elem (Entry q ! unat (Tail q)) mach mty len msg prv"]
  by (auto simp: MlmeEnqueue_put own_room_def queued_ok_def ring_ok_def)

section \<open>The main loop\<close>

lemma restart_ok: "task_ok s \<Longrightarrow> task_ok (MlmeRestartStateMachine s)"
  by (simp add: task_ok_def machines_ok_def MlmeRestartStateMachine_def table_ok_def)

lemma restart_fields [simp]:
  "Queue (MlmeRestartStateMachine s) = Queue s" "mlme_ad.Flags (MlmeRestartStateMachine s) = mlme_ad.Flags s"
  "ate_on (MlmeRestartStateMachine s) = ate_on s"
  by (simp_all add: MlmeRestartStateMachine_def)

lemma release_queued: "queued_ok q \<Longrightarrow> queued_ok (mlme_release i q)"
proof -
  assume a: "queued_ok q"
  have "Machine (Entry (mlme_release i q) ! j) = Machine (Entry q ! j) \<and> MsgType (Entry (mlme_release i q) ! j) = MsgType (Entry q ! j)" for j
    by (cases "i < length (Entry q)"; cases "i = j") (auto simp: mlme_release_def list_update_beyond)
  then show ?thesis using a by (simp add: queued_ok_def)
qed

lemma release_task: "task_ok s \<Longrightarrow> task_ok (s\<lparr>Queue := mlme_release i (Queue s)\<rparr>)"
  by (simp add: task_ok_def machines_ok_def release_queued)

lemma dequeue_task:
  assumes "task_ok s" "\<not> MlmeQueueEmpty (Queue s)" "MlmeDequeue (Queue s) = (i, q)"
  shows "task_ok (s\<lparr>Queue := q\<rparr>)" and "msg_ok (Machine (Entry q ! i)) (MsgType (Entry q ! i))"
proof -
  have r: "ring_ok (Queue s)" and M: "queued_ok (Queue s)" using assms(1) by (auto simp: task_ok_def queued_ok_def)
  obtain m where n: "unat (Num (Queue s)) = Suc m"
    using assms(2) by (metis MlmeQueueEmpty_def not0_implies_Suc unat_eq_0)
  note D = dequeue_ring [OF r n, unfolded assms(3) fst_conv snd_conv]
  have "queued_ok q" using D M n by (simp add: queued_ok_def)
  then show "task_ok (s\<lparr>Queue := q\<rparr>)" using assms(1) by (simp add: task_ok_def machines_ok_def)
  show "msg_ok (Machine (Entry q ! i)) (MsgType (Entry q ! i))" using D M n by (simp add: queued_ok_def)
qed

lemma add_call_Inl: "add_call c r = Inl f \<longleftrightarrow> r = Inl f"
  by (auto simp: add_call_def split: sum.splits)

lemma loop_in_table:
  assumes act: "\<And>f i s. task_ok s \<Longrightarrow> task_ok (act f i s)" and s: "task_ok s"
  shows "mlme_loop act n s \<noteq> Inl Bad_table_index"
  using s
proof (induction n arbitrary: s)
  case 0
  then show ?case by simp
next
  case (Suc n)
  show ?case
  proof (cases "MlmeQueueEmpty (Queue s)")
    case True
    then show ?thesis by simp
  next
    case False
    obtain i q where D: "MlmeDequeue (Queue s) = (i, q)" by fastforce
    note T = dequeue_task [OF Suc.prems False D]
    let ?s = "s\<lparr>Queue := q\<rparr>"
    have R: "mlme_loop act n (t\<lparr>Queue := mlme_release i (Queue t)\<rparr>) \<noteq> Inl Bad_table_index" if "task_ok t" for t
      using Suc.IH release_task [OF that] by blast
    have "machines_ok ?s" using T(1) by (simp add: task_ok_def)
    then have "MsgType (Entry q ! i) \<noteq> MT2_RESET_CONF \<Longrightarrow> \<exists>f. mlme_dispatch ?s (Entry q ! i) = Some f"
      using T(2) dispatch_in_table by blast
    then show ?thesis
      using R [OF T(1)] R [OF restart_ok [OF T(1)]] R [OF act [OF T(1)]] False D
      by (auto simp: add_call_Inl Let_def split: option.splits)
  qed
qed

text \<open>C7: The MLME task never reads a state table out of its bounds: if the driver is in a state where
  every queued message has a column in its machine's table, and the action functions keep it so
  (as queueing any received frame and any well-numbered message does), then MlmeHandler never
  faults, however many messages it handles.\<close>
theorem mlme_handler_in_table:
  assumes "\<And>f i s. task_ok s \<Longrightarrow> task_ok (act f i s)" and "task_ok s"
  shows "MlmeHandler act fuel s \<noteq> Inl Bad_table_index"
proof -
  have "task_ok (s\<lparr>bRunning := True\<rparr>)" using assms(2) by (simp add: task_ok_def machines_ok_def)
  from loop_in_table [where act = act and n = fuel, OF assms(1) this] show ?thesis
    by (auto simp: MlmeHandler_def split: sum.splits)
qed

definition zero_machine :: "nat \<Rightarrow> state_machine" where
  "zero_machine n = \<lparr>Base = 0, NrState = 0, NrMsg = 0, CurrState = 0, TransFunc = replicate n None\<rparr>"

definition ex_mlme :: mlme_ad where
  "ex_mlme = MlmeInit \<lparr>Flags = 0, ate_on = False, CfgChannel = 1, bRunning = True, Queue = ex_queue, CntlState = 3,
     AssocMachine = zero_machine 44, AuthMachine = zero_machine 9, AuthRspMachine = zero_machine 6,
     SyncMachine = zero_machine 40, WpaPskMachine = zero_machine 0, ActMachine = zero_machine 24,
     WpaMachine = zero_machine 5, StaQuickResponeForRateUpTimerRunning = True, AutoWakeupTimerRunning = True, mlme_log = []\<rparr>"

lemma ex_mlme_ok: "task_ok ex_mlme"
  unfolding ex_mlme_def
  by (rule MlmeInit_ok) (simp add: storage_ok_def zero_machine_def ex_queue_def MlmeQueueInit_def)

text \<open>An action that answers every message by queueing a received beacon and a scan request.\<close>

definition busy_act :: "sm_func \<Rightarrow> nat \<Rightarrow> mlme_ad \<Rightarrow> mlme_ad" where
  "busy_act f i s = s\<lparr>Queue := snd (MlmeEnqueue 0 SYNC_STATE_MACHINE MT2_MLME_SCAN_REQ 0 None 0
     (snd (snd (MlmeEnqueueForRecv 0 False 1 0 0 0 0 0 0 30 (\<lambda>i. if i = 0 then 0x80 else 0) 0 0 (Queue s)))))\<rparr>"

lemma busy_ok: "task_ok s \<Longrightarrow> task_ok (busy_act f i s)"
  unfolding busy_act_def task_ok_def machines_ok_def
  by (simp add: own_queued rx_queued msg_ok_def)

theorem mlme_handler_in_table_witness:
  "MlmeHandler busy_act 1000 (busy_act Drop 0 ex_mlme) \<noteq> Inl Bad_table_index"
  by (rule mlme_handler_in_table) (auto intro: busy_ok ex_mlme_ok)

text \<open>When the actions leave the queue alone, one pass of the loop is the removal of the queue's
  interface.\<close>

lemma loop_drains:
  assumes act: "\<And>f i s. task_ok s \<Longrightarrow> task_ok (act f i s)"
    and quiet: "\<And>f i s. Queue (act f i s) = Queue s" "\<And>f i s. mlme_ad.Flags (act f i s) = mlme_ad.Flags s"
      "\<And>f i s. ate_on (act f i s) = ate_on s"
    and fl: "\<not> RTMP_TEST_FLAG (mlme_ad.Flags s) fRTMP_ADAPTER_MLME_RESET_IN_PROGRESS"
      "\<not> RTMP_TEST_FLAG (mlme_ad.Flags s) fRTMP_ADAPTER_HALT_IN_PROGRESS"
      "\<not> RTMP_TEST_FLAG (mlme_ad.Flags s) fRTMP_ADAPTER_NIC_NOT_EXIST" "\<not> ate_on s"
    and s: "task_ok s" "mlme_rep (Queue s) xs" "length xs < n"
  shows "\<exists>cs s'. mlme_loop act n s = Inr (cs, s') \<and> map snd cs = xs \<and> mlme_rep (Queue s') []"
  using s fl
proof (induction xs arbitrary: n s)
  case Nil
  then obtain m where "n = Suc m" by (cases n) auto
  moreover have "MlmeQueueEmpty (Queue s)" using Nil.prems(2) by (simp add: mlme_rep_def MlmeQueueEmpty_def unat_eq_0)
  ultimately show ?case using Nil.prems(2) by auto
next
  case (Cons x xs)
  then obtain m where n: "n = Suc m" "length xs < m" by (cases n) auto
  note T = take_Cons [OF Cons.prems(2)]
  have ne: "\<not> MlmeQueueEmpty (Queue s)" using Cons.prems(2) by (auto simp: mlme_rep_def MlmeQueueEmpty_def)
  obtain i q where D: "MlmeDequeue (Queue s) = (i, q)" by fastforce
  have x: "elem_msg (Entry q ! i) = x" and q: "mlme_rep (mlme_release i q) xs"
    using T ne by (simp_all add: mlme_take_def D)
  note K = dequeue_task [OF Cons.prems(1) ne D]
  let ?s = "s\<lparr>Queue := q\<rparr>"
  have go: "\<exists>cs s'. mlme_loop act m (t\<lparr>Queue := mlme_release i (Queue t)\<rparr>) = Inr (cs, s') \<and> map snd cs = xs \<and> mlme_rep (Queue s') []"
    if "task_ok t" "Queue t = q" "mlme_ad.Flags t = mlme_ad.Flags s" "ate_on t = ate_on s" for t
    using Cons.IH [OF release_task [OF that(1), of i], of m] q n(2) that Cons.prems(4-7) by simp
  have c: "\<exists>cs s'. add_call (f, x) r = Inr (cs, s') \<and> map snd cs = x # xs \<and> mlme_rep (Queue s') []"
    if "\<exists>cs s'. r = Inr (cs, s') \<and> map snd cs = xs \<and> mlme_rep (Queue s') []" for f r
    using that by (auto simp: add_call_def)
  have "machines_ok ?s" using K(1) by (simp add: task_ok_def)
  show ?case
  proof (cases "MsgType (Entry q ! i) = MT2_RESET_CONF")
    case True
    show ?thesis
      using c [OF go [OF restart_ok [OF K(1)]]] True ne Cons.prems(4-7)
      by (simp add: n D x Let_def)
  next
    case False
    then obtain f where f: "mlme_dispatch ?s (Entry q ! i) = Some f"
      using dispatch_in_table \<open>machines_ok ?s\<close> K(2) by blast
    define t where "t = (case f of None \<Rightarrow> ?s | Some g \<Rightarrow> act g i ?s)"
    have "task_ok t" "Queue t = q" "mlme_ad.Flags t = mlme_ad.Flags s" "ate_on t = ate_on s"
      using K(1) act quiet by (auto simp: t_def split: option.split)
    from c [OF go [OF this], of f] show ?thesis
      using False f ne Cons.prems(4-7) by (simp add: n D x Let_def t_def)
  qed
qed

text \<open>C8: MlmeHandler handles every queued message exactly once, in the order of arrival, and leaves
  the queue empty: when the device is up and the actions do not queue further messages, one more
  turn than there are messages is enough, and the messages dispatched are those queued.\<close>
theorem mlme_handler_drains:
  assumes "\<And>f i s. task_ok s \<Longrightarrow> task_ok (act f i s)"
    and "\<And>f i s. Queue (act f i s) = Queue s" "\<And>f i s. mlme_ad.Flags (act f i s) = mlme_ad.Flags s"
      "\<And>f i s. ate_on (act f i s) = ate_on s"
    and "\<not> RTMP_TEST_FLAG (mlme_ad.Flags s) fRTMP_ADAPTER_MLME_RESET_IN_PROGRESS"
      "\<not> RTMP_TEST_FLAG (mlme_ad.Flags s) fRTMP_ADAPTER_HALT_IN_PROGRESS"
      "\<not> RTMP_TEST_FLAG (mlme_ad.Flags s) fRTMP_ADAPTER_NIC_NOT_EXIST" "\<not> ate_on s"
    and "task_ok s" "mlme_rep (Queue s) xs" "length xs < fuel" "\<not> bRunning s"
  shows "\<exists>cs s'. MlmeHandler act fuel s = Inr (cs, s') \<and> map snd cs = xs \<and> mlme_rep (Queue s') [] \<and> \<not> bRunning s'"
proof -
  have "task_ok (s\<lparr>bRunning := True\<rparr>)" using assms(9) by (simp add: task_ok_def machines_ok_def)
  from loop_drains [where act = act and s = "s\<lparr>bRunning := True\<rparr>" and xs = xs and n = fuel, OF assms(1-4)] this assms(5-12) show ?thesis
    by (auto simp: MlmeHandler_def split: sum.split)
qed

lemma ex_mlme_queued:
  "task_ok (busy_act Drop 0 ex_mlme)"
  "mlme_rep (Queue ex_mlme) []"
  using busy_ok [OF ex_mlme_ok] Init_rep [of ex_queue]
  by (simp_all add: ex_mlme_def MlmeInit_def ex_queue_def MlmeQueueInit_def)

definition ex_mlme1 :: mlme_ad where
  "ex_mlme1 = ex_mlme\<lparr>Queue := own_enq 0 (Queue ex_mlme) (SYNC_STATE_MACHINE, MT2_MLME_SCAN_REQ, 0, [1])\<rparr>"

lemma ex_mlme1_ok: "task_ok ex_mlme1" "mlme_rep (Queue ex_mlme1) [(SYNC_STATE_MACHINE, MT2_MLME_SCAN_REQ, 0, [1])]"
proof -
  show "task_ok ex_mlme1"
    using ex_mlme_ok by (simp add: ex_mlme1_def task_ok_def machines_ok_def own_queued msg_ok_def)
  have "Num (Queue ex_mlme) = 0" by (simp add: ex_mlme_def MlmeInit_def MlmeQueueInit_def)
  then show "mlme_rep (Queue ex_mlme1) [(SYNC_STATE_MACHINE, MT2_MLME_SCAN_REQ, 0, [1])]"
    using own_enq_rep [OF ex_mlme_queued(2), of 0 "(SYNC_STATE_MACHINE, MT2_MLME_SCAN_REQ, 0, [1])"]
    by (simp add: ex_mlme1_def own_room_def RTMP_TEST_FLAG_def)
qed

theorem mlme_handler_drains_witness:
  "\<exists>cs s'. MlmeHandler (\<lambda>f i s. s) 2 ex_mlme1 = Inr (cs, s') \<and>
    map snd cs = [(SYNC_STATE_MACHINE, MT2_MLME_SCAN_REQ, 0, [1])] \<and> mlme_rep (Queue s') [] \<and> \<not> bRunning s'"
  by (rule mlme_handler_drains)
    (use ex_mlme1_ok in \<open>simp_all add: ex_mlme1_def ex_mlme_def MlmeInit_def RTMP_TEST_FLAG_def\<close>)

section \<open>The shift register of RandomByte\<close>

definition lfsr_step :: "u32 \<times> u8 \<Rightarrow> u32 \<times> u8" where
  "lfsr_step = (\<lambda>(reg, R).
    if reg AND 1 \<noteq> 0
    then (drop_bit 1 (reg XOR 0x80000057) OR 0x80000000, push_bit 1 R OR 1)
    else (drop_bit 1 reg, push_bit 1 R OR 0))"

text \<open>\<open>now\<close> is the uptime the register is seeded with when it is zero.\<close>

definition RandomByte :: "u32 \<Rightarrow> u32 \<Rightarrow> u32 \<times> u8" where
  "RandomByte now reg = (lfsr_step ^^ 8) (if reg = 0 then now else reg, 0)"

lemma lfsr_nonzero: "fst p \<noteq> 0 \<Longrightarrow> fst (lfsr_step p) \<noteq> 0"
proof (cases p)
  case (Pair reg R)
  assume a: "fst p \<noteq> 0"
  show ?thesis
  proof (cases "reg AND 1 = 0")
    case True
    then have z: "\<not> bit reg 0" by (metis and_one_eq bit_0 odd_iff_mod_2_eq_one one_neq_zero)
    obtain n where n: "bit reg n" using a Pair by (metis bit_eqI bit_0_eq bot_apply bot_bool_def fst_conv)
    then obtain m where "n = Suc m" using z by (cases n) auto
    then have "bit (drop_bit 1 reg) m" using n by (simp add: bit_drop_bit_eq)
    then have "drop_bit 1 reg \<noteq> 0" by auto
    then show ?thesis using True Pair by (simp add: lfsr_step_def)
  next
    case False
    have "bit (0x80000000 :: u32) 31" by simp
    then have "bit (drop_bit 1 (reg XOR 0x80000057) OR 0x80000000) 31"
      unfolding bit_or_iff by (rule disjI2)
    then have "drop_bit 1 (reg XOR 0x80000057) OR 0x80000000 \<noteq> 0" by (metis bit_0_eq bot_apply bot_bool_def)
    then show ?thesis using False Pair by (simp add: lfsr_step_def)
  qed
qed

text \<open>The generator behind RandomByte does not get stuck: once seeded with a nonzero value (the
  uptime is only read when the register is zero) the register is never zero again.\<close>
theorem random_never_stuck:
  assumes "reg \<noteq> 0 \<or> now \<noteq> 0"
  shows "fst (RandomByte now reg) \<noteq> 0"
proof -
  have "fst ((lfsr_step ^^ n) p) \<noteq> 0" if "fst p \<noteq> 0" for n p
    using that by (induction n) (simp_all add: lfsr_nonzero)
  then show ?thesis using assms by (simp add: RandomByte_def)
qed

theorem random_never_stuck_witness: "fst (RandomByte 5 0) \<noteq> 0"
  by (rule random_never_stuck) simp

end
