(* ===== verification/HashStream.thy ===== *)
theory HashStream
  imports Prelude
begin

text \<open>
  What the two digests of \<open>rt3370/common/crypt_md5.c\<close> share: cutting a byte string in
  blocks of 64, the byte order of 32-bit words, the padding of a message, the reference
  definition of HMAC, and the contract of an incremental digest as the locale
  \<open>stream_hash\<close>: feeding a message in pieces and finishing gives the reference digest of
  the whole message. The HMAC construction is proved once, inside the locale.
\<close>

section \<open>Blocks\<close>

function absorb :: "('s \<Rightarrow> u8 list \<Rightarrow> 's) \<Rightarrow> 's \<Rightarrow> u8 list \<Rightarrow> 's \<times> u8 list" where
  "absorb tf b bs = (if length bs < 64 then (b, bs) else absorb tf (tf b (take 64 bs)) (drop 64 bs))"
  by pat_completeness auto
termination by (relation "measure (\<lambda>(_, _, bs). length bs)") auto

declare absorb.simps [simp del]

lemma absorb_short [simp]: "length bs < 64 \<Longrightarrow> absorb tf b bs = (b, bs)"
  by (simp add: absorb.simps)

lemma absorb_block: "length bs = 64 \<Longrightarrow> absorb tf b (bs @ cs) = absorb tf (tf b bs) cs"
  by (subst absorb.simps) simp

lemma absorb_append: "absorb tf b (xs @ ys) = (case absorb tf b xs of (b', r) \<Rightarrow> absorb tf b' (r @ ys))"
proof (induction tf b xs rule: absorb.induct)
  case (1 tf b bs)
  show ?case
  proof (cases "length bs < 64")
    case True
    then show ?thesis by simp
  next
    case False
    have "absorb tf b (bs @ ys) = absorb tf (tf b (take 64 bs)) (drop 64 bs @ ys)"
      using False by (subst absorb.simps) simp
    also have "\<dots> = (case absorb tf (tf b (take 64 bs)) (drop 64 bs) of (b', r) \<Rightarrow> absorb tf b' (r @ ys))"
      using 1 False by simp
    also have "absorb tf (tf b (take 64 bs)) (drop 64 bs) = absorb tf b bs"
      using False by (subst (2) absorb.simps) simp
    finally show ?thesis .
  qed
qed

lemma absorb_length: "length (snd (absorb tf b bs)) = length bs mod 64"
proof (induction tf b bs rule: absorb.induct)
  case (1 tf b bs)
  then show ?case by (cases "length bs < 64") (simp_all add: absorb.simps [of tf b bs] le_mod_geq)
qed

section \<open>Bytes and words\<close>

definition le32 :: "u8 list \<Rightarrow> u32" where
  "le32 bs = ucast (bs ! 0) OR push_bit 8 (ucast (bs ! 1)) OR push_bit 16 (ucast (bs ! 2)) OR push_bit 24 (ucast (bs ! 3))"

text \<open>The block buffer read as an array of \<open>n\<close> words of the (little-endian) target.\<close>

definition words_at :: "u8 list \<Rightarrow> nat \<Rightarrow> u32 list" where
  "words_at bs n = map (\<lambda>i. le32 (drop (4 * i) bs)) [0..<n]"

definition le_bytes :: "u32 \<Rightarrow> u8 list" where
  "le_bytes w = map (\<lambda>i. ucast (drop_bit (8 * i) w)) [0..<4]"

definition be_bytes :: "u32 \<Rightarrow> u8 list" where
  "be_bytes w = map (\<lambda>i. ucast (drop_bit (8 * (3 - i)) w)) [0..<4]"

lemma le_bytes_length [simp]: "length (le_bytes w) = 4" by (simp add: le_bytes_def)
lemma be_bytes_length [simp]: "length (be_bytes w) = 4" by (simp add: be_bytes_def)

lemma le32_le_bytes: "le32 (le_bytes w @ xs) = w"
proof (rule bit_eqI)
  fix n assume n: "possible_bit TYPE(32 word) n"
  have "le_bytes w = [ucast w, ucast (drop_bit 8 w), ucast (drop_bit 16 w), ucast (drop_bit 24 w)]"
    by (simp add: le_bytes_def upt_rec)
  then have "le32 (le_bytes w @ xs) = ucast (ucast w :: u8) OR push_bit 8 (ucast (ucast (drop_bit 8 w) :: u8)) OR
      push_bit 16 (ucast (ucast (drop_bit 16 w) :: u8)) OR push_bit 24 (ucast (ucast (drop_bit 24 w) :: u8))"
    by (simp add: le32_def)
  then show "bit (le32 (le_bytes w @ xs)) n = bit w n"
    using n by (cases "n < 16"; cases "n < 24") (auto simp: bit_or_iff bit_push_bit_iff bit_ucast_iff bit_drop_bit_eq possible_bit_def)
qed

definition copy_at :: "'a list \<Rightarrow> nat \<Rightarrow> 'a list \<Rightarrow> 'a list" where
  "copy_at dst off src = take off dst @ src @ drop (off + length src) dst"

lemma copy_length: "off + length src \<le> length dst \<Longrightarrow> length (copy_at dst off src) = length dst"
  by (simp add: copy_at_def)

lemma take_copy:
  "off + length src \<le> length dst \<Longrightarrow> take (off + length src) (copy_at dst off src) = take off dst @ src"
  by (simp add: copy_at_def)

section \<open>Exclusive or of two byte strings\<close>

text \<open>As far as the shorter one goes; shared by the stream ciphers and the modes of the block cipher.\<close>

definition xor_bytes :: "u8 list \<Rightarrow> u8 list \<Rightarrow> u8 list" where
  "xor_bytes xs ks = map2 (XOR) xs ks"

lemma xor_bytes_length [simp]: "length (xor_bytes xs ks) = min (length xs) (length ks)"
  by (simp add: xor_bytes_def)

lemma xor_bytes_Cons [simp]: "xor_bytes (x # xs) (k # ks) = (x XOR k) # xor_bytes xs ks"
  by (simp add: xor_bytes_def)

lemma xor_bytes_Nil [simp]: "xor_bytes [] ks = []" "xor_bytes xs [] = []"
  by (simp_all add: xor_bytes_def)

lemma xor_bytes_twice: "length xs \<le> length ks \<Longrightarrow> xor_bytes (xor_bytes xs ks) ks = xs"
  by (induction xs ks rule: list_induct2') (simp_all add: xor.assoc)

lemma xor_bytes_commute: "xor_bytes a b = xor_bytes b a"
  by (induction a b rule: list_induct2') (simp_all add: xor.commute)

lemma xor_bytes_append:
  "length a = length b \<Longrightarrow> xor_bytes (a @ c) (b @ d) = xor_bytes a b @ xor_bytes c d"
  by (simp add: xor_bytes_def)

lemma xor_bytes_take: "length a \<le> length b \<Longrightarrow> xor_bytes a (b @ d) = xor_bytes a b"
  by (induction a b rule: list_induct2') simp_all

lemma xor_bytes_nth: "i < length a \<Longrightarrow> i < length b \<Longrightarrow> xor_bytes a b ! i = a ! i XOR b ! i"
  by (simp add: xor_bytes_def)

section \<open>Padding\<close>

text \<open>A 0x80 byte, zeros up to 56 modulo 64, and the eight bytes of the bit count.\<close>

definition md_pad :: "(u32 \<Rightarrow> u32 \<Rightarrow> u8 list) \<Rightarrow> u8 list \<Rightarrow> u8 list" where
  "md_pad enc bs = bs @ [0x80] @ replicate ((119 - length bs mod 64) mod 64) 0 @
     enc (of_nat (8 * length bs)) (of_nat (8 * length bs div 2 ^ 32))"

text \<open>The two ways the message ends, by the number of bytes left in the last block.\<close>

lemma pad_one_block:
  assumes "absorb tf b bs = (b', r)" "length r < 56" "length e = 8"
    and "e = enc (of_nat (8 * length bs)) (of_nat (8 * length bs div 2 ^ 32))"
  shows "absorb tf b (md_pad enc bs) = (tf b' (r @ [0x80] @ replicate (55 - length r) 0 @ e), [])"
proof -
  have l: "length bs mod 64 = length r" using absorb_length [of tf b bs] assms(1) by simp
  have z: "(119 - length bs mod 64) mod 64 = 55 - length r"
    using assms(2) unfolding l by (simp add: le_mod_geq)
  have "absorb tf b (md_pad enc bs) = absorb tf b' ((r @ [0x80] @ replicate (55 - length r) 0 @ e) @ [])"
    unfolding md_pad_def z assms(4) by (subst absorb_append) (simp add: assms(1))
  also have "\<dots> = (tf b' (r @ [0x80] @ replicate (55 - length r) 0 @ e), [])"
    using assms(2,3) by (subst absorb_block) simp_all
  finally show ?thesis .
qed

lemma pad_two_blocks:
  assumes "absorb tf b bs = (b', r)" "56 \<le> length r" "length e = 8"
    and "e = enc (of_nat (8 * length bs)) (of_nat (8 * length bs div 2 ^ 32))"
  shows "absorb tf b (md_pad enc bs) =
    (tf (tf b' (r @ [0x80] @ replicate (63 - length r) 0)) (replicate 56 0 @ e), [])"
proof -
  have l: "length bs mod 64 = length r" using absorb_length [of tf b bs] assms(1) by simp
  then have l64: "length r < 64" by (metis mod_less_divisor zero_less_numeral)
  have z: "(119 - length bs mod 64) mod 64 = (63 - length r) + 56"
    using assms(2) l64 unfolding l by simp
  have "absorb tf b (md_pad enc bs) =
      absorb tf b' ((r @ [0x80] @ replicate (63 - length r) 0) @ (replicate 56 0 @ e) @ [])"
    unfolding md_pad_def z assms(4) replicate_add by (subst absorb_append) (simp add: assms(1))
  also have "\<dots> = (tf (tf b' (r @ [0x80] @ replicate (63 - length r) 0)) (replicate 56 0 @ e), [])"
    using assms(2,3) l64 by (subst absorb_block, simp, subst absorb_block) simp_all
  finally show ?thesis .
qed

section \<open>The buffering both digests do\<close>

text \<open>\<open>MD5Update\<close> and \<open>SHAUpdate\<close> agree, from the computation of the fill level \<open>temp\<close> on,
  up to the transform \<open>tf\<close> and to what is done to the buffer just before it (\<open>prep\<close>: nothing
  for MD5, clearing the 16 bytes behind the block for SHA-1). The data pointer is the list of
  the bytes behind it.\<close>

fun stream_blocks ::
  "(u8 list \<Rightarrow> u8 list) \<Rightarrow> ('s \<Rightarrow> u8 list \<Rightarrow> 's) \<Rightarrow> nat \<Rightarrow> 's \<Rightarrow> u8 list \<Rightarrow> u8 list \<Rightarrow> u32 \<Rightarrow>
    's \<times> u8 list \<times> u8 list \<times> u32" where
  "stream_blocks prep tf 0 buf inp dat len = (buf, inp, dat, len)"
| "stream_blocks prep tf (Suc n) buf inp dat len =
    (let inp = prep (copy_at inp 0 (take 64 dat)) in
     stream_blocks prep tf n (tf buf inp) inp (drop 64 dat) (len - 64))"

definition stream_rest ::
  "(u8 list \<Rightarrow> u8 list) \<Rightarrow> ('s \<Rightarrow> u8 list \<Rightarrow> 's) \<Rightarrow> 's \<Rightarrow> u8 list \<Rightarrow> u8 list \<Rightarrow> u32 \<Rightarrow> 's \<times> u8 list" where
  "stream_rest prep tf buf inp dat len =
    (case stream_blocks prep tf (unat (drop_bit 6 len)) buf inp dat len of (buf, inp, dat, len) \<Rightarrow>
       (buf, if len \<noteq> 0 then copy_at inp 0 (take (unat len) dat) else inp))"

definition stream_update ::
  "(u8 list \<Rightarrow> u8 list) \<Rightarrow> ('s \<Rightarrow> u8 list \<Rightarrow> 's) \<Rightarrow> u32 \<Rightarrow> 's \<Rightarrow> u8 list \<Rightarrow> u8 list \<Rightarrow> u32 \<Rightarrow> 's \<times> u8 list" where
  "stream_update prep tf temp buf inp dat len =
    (if temp \<noteq> 0 then
       if temp + len < 64 then (buf, copy_at inp (unat temp) (take (unat len) dat))
       else
         let n = unat (64 - temp);
             inp = prep (copy_at inp (unat temp) (take n dat))
         in stream_rest prep tf (tf buf inp) inp (drop n dat) (len - (64 - temp))
     else stream_rest prep tf buf inp dat len)"

text \<open>The padding both \<open>Final\<close> functions do, with the eight bytes \<open>e\<close> of the length; the two
  branches may differ in what they clear before the transform.\<close>

definition stream_final ::
  "(u8 list \<Rightarrow> u8 list) \<Rightarrow> (u8 list \<Rightarrow> u8 list) \<Rightarrow> ('s \<Rightarrow> u8 list \<Rightarrow> 's) \<Rightarrow> u8 list \<Rightarrow> u8 \<Rightarrow> 's \<Rightarrow> u8 list \<Rightarrow>
    's \<times> u8 list" where
  "stream_final prep1 prep2 tf e Remainder buf inp =
    (let PadLen = (if Remainder < 56 then 56 - Remainder else 120 - Remainder);
         inp = copy_at inp (unat Remainder) [0x80];
         PadLen = PadLen - 1
     in if Remainder < 56 then
          let inp = copy_at inp (unat Remainder + 1) (replicate (unat PadLen) 0);
              inp = prep1 (copy_at inp 56 e)
          in (tf buf inp, inp)
        else
          let inp = prep2 (copy_at inp (unat Remainder + 1) (replicate (64 - unat Remainder - 1) 0));
              PadLen = PadLen - (64 - Remainder - 1);
              buf = tf buf inp;
              inp = copy_at inp 0 (replicate (unat PadLen) 0);
              inp = prep2 (copy_at inp 56 e)
          in (tf buf inp, inp))"

text \<open>What the two instances supply: \<open>prep\<close> keeps the size of the buffer and its first 64 bytes,
  and the transform only reads those.\<close>

definition prep_ok :: "nat \<Rightarrow> (u8 list \<Rightarrow> u8 list) \<Rightarrow> bool" where
  "prep_ok N prep \<longleftrightarrow> (\<forall>inp. length inp = N \<longrightarrow> length (prep inp) = N \<and> take 64 (prep inp) = take 64 inp)"

definition tf_ok :: "nat \<Rightarrow> ('s \<Rightarrow> u8 list \<Rightarrow> 's) \<Rightarrow> bool" where
  "tf_ok N tf \<longleftrightarrow> 64 \<le> N \<and> (\<forall>b inp. length inp = N \<longrightarrow> tf b (take 64 inp) = tf b inp)"

lemma tf_prep:
  assumes "prep_ok N prep" "tf_ok N tf" "length inp = N"
  shows "tf b (prep inp) = tf b (take 64 inp)" "length (prep inp) = N"
  using assms unfolding prep_ok_def tf_ok_def by metis+

lemma stream_blocks_absorb:
  assumes "prep_ok N prep" "tf_ok N tf" "length inp = N" "length dat = unat len" "n = unat len div 64"
  shows "case stream_blocks prep tf n buf inp dat len of (buf', inp', dat', len') \<Rightarrow>
    absorb tf buf dat = (buf', dat') \<and> length inp' = N \<and> length dat' = unat len' \<and> unat len' = unat len mod 64"
  using assms(3-5)
proof (induction n arbitrary: buf inp dat len)
  case 0
  then show ?case by simp
next
  case (Suc n)
  have N: "64 \<le> N" using assms(2) by (simp add: tf_ok_def)
  have d: "64 \<le> unat len" using Suc.prems(3) by (cases "unat len < 64") auto
  let ?inp = "copy_at inp 0 (take 64 dat)"
  have li: "length ?inp = N" and ti: "take 64 ?inp = take 64 dat"
    using N d Suc.prems by (simp_all add: copy_at_def)
  have u: "unat (len - 64) = unat len - 64" using d by (simp add: unat_sub word_le_nat_alt)
  have l: "length (drop 64 dat) = unat (len - 64)" "n = unat (len - 64) div 64"
    using Suc.prems d u by (simp_all add: le_div_geq)
  have a: "absorb tf buf dat = absorb tf (tf buf (take 64 dat)) (drop 64 dat)"
    using d Suc.prems by (subst absorb.simps) simp
  show ?case
    using Suc.IH [OF tf_prep(2) [OF assms(1,2) li] l, of "tf buf (prep ?inp)"] tf_prep(1) [OF assms(1,2) li, of buf] d
    by (simp add: Let_def ti a u le_mod_geq [OF d])
qed

lemma stream_rest_absorb:
  assumes "prep_ok N prep" "tf_ok N tf" "length inp = N" "length dat = unat len"
  shows "case stream_rest prep tf buf inp dat len of (buf', inp') \<Rightarrow>
    absorb tf buf dat = (buf', take (length dat mod 64) inp') \<and> length inp' = N"
proof -
  have q: "unat (drop_bit 6 len) = unat len div 64" by (simp add: drop_bit_eq_div unat_div)
  obtain buf' inp' dat' len' where B: "stream_blocks prep tf (unat len div 64) buf inp dat len = (buf', inp', dat', len')"
    by (cases "stream_blocks prep tf (unat len div 64) buf inp dat len")
  note A = stream_blocks_absorb [OF assms refl, of buf, unfolded B prod.case]
  have "64 \<le> N" using assms(2) by (simp add: tf_ok_def)
  moreover have "unat len' < 64" using A by simp
  ultimately show ?thesis using A assms(4)
    by (auto simp: stream_rest_def q B copy_at_def unat_eq_0 [symmetric])
qed

lemma stream_update_absorb:
  assumes "prep_ok N prep" "tf_ok N tf" "length inp = N" "length dat = unat len" "unat len < 2 ^ 31"
    and "unat temp < 64" "r = take (unat temp) inp"
  shows "case stream_update prep tf temp buf inp dat len of (buf', inp') \<Rightarrow>
    absorb tf buf (r @ dat) = (buf', take (length (r @ dat) mod 64) inp') \<and> length inp' = N"
proof -
  have N: "64 \<le> N" using assms(2) by (simp add: tf_ok_def)
  have lr: "length r = unat temp" using N assms(3,6,7) by simp
  have sum: "unat (temp + len) = unat temp + unat len" using assms(5,6) by (simp add: unat_word_ariths)
  consider "temp = 0" | "temp \<noteq> 0" "temp + len < 64" | "temp \<noteq> 0" "\<not> temp + len < 64" by blast
  then show ?thesis
  proof cases
    case 1
    then show ?thesis
      using stream_rest_absorb [OF assms(1-4), of buf] assms(7) by (simp add: stream_update_def)
  next
    case 2
    then have s: "unat temp + unat len < 64" using sum by (simp add: word_less_nat_alt)
    then have "take (unat temp + unat len) (copy_at inp (unat temp) dat) = r @ dat"
      using take_copy [of "unat temp" dat inp] N assms(3,4,7) by simp
    then show ?thesis
      using 2 s lr N assms(3,4) copy_length [of "unat temp" dat inp] by (simp add: stream_update_def)
  next
    case 3
    then have s: "64 \<le> unat temp + unat len" using sum by (simp add: word_less_nat_alt)
    have u: "unat (64 - temp) = 64 - unat temp" using assms(6) by (simp add: unat_sub word_le_nat_alt)
    define n where "n = 64 - unat temp"
    have n: "n \<le> unat len" "unat temp + n = 64" using s assms(6) by (simp_all add: n_def)
    have u2: "unat (len - (64 - temp)) = unat len - n" using n(1) u by (simp add: unat_sub word_le_nat_alt n_def)
    let ?inp = "copy_at inp (unat temp) (take n dat)"
    have li: "length ?inp = N" using N n assms(3,4) by (intro trans [OF copy_length]) simp_all
    have ti: "take 64 ?inp = r @ take n dat"
      using take_copy [of "unat temp" "take n dat" inp] N n assms(3,4,7) by simp
    have l: "length (drop n dat) = unat (len - (64 - temp))" using u2 assms(4) by simp
    have "r @ dat = (r @ take n dat) @ drop n dat" by simp
    then have a: "absorb tf buf (r @ dat) = absorb tf (tf buf (r @ take n dat)) (drop n dat)"
      using n lr assms(4) absorb_block [of "r @ take n dat" tf buf "drop n dat"] by simp
    have m: "length (r @ dat) mod 64 = length (drop n dat) mod 64"
    proof -
      have "length (r @ dat) = 64 + length (drop n dat)" using n lr assms(4) by simp
      then show ?thesis by (metis mod_add_self1)
    qed
    show ?thesis
      using stream_rest_absorb [OF assms(1,2) tf_prep(2) [OF assms(1,2) li] l, of "tf buf (prep ?inp)"]
        tf_prep(1) [OF assms(1,2) li, of buf] 3
      unfolding a m by (simp add: stream_update_def u n_def [symmetric] ti)
  qed
qed

lemma stream_final_absorb:
  assumes "prep_ok N prep1" "prep_ok N prep2" "tf_ok N tf" "length inp = N"
    and "unat rem < 64" "absorb tf b bs = (buf, take (unat rem) inp)"
    and "length e = 8" "e = enc (of_nat (8 * length bs)) (of_nat (8 * length bs div 2 ^ 32))"
  shows "fst (stream_final prep1 prep2 tf e rem buf inp) = fst (absorb tf b (md_pad enc bs))"
    and "length (snd (stream_final prep1 prep2 tf e rem buf inp)) = N"
proof -
  have N: "64 \<le> N" using assms(3) by (simp add: tf_ok_def)
  define r where "r = take (unat rem) inp"
  have lr: "length r = unat rem" using N assms(4,5) by (simp add: r_def)
  let ?i1 = "copy_at inp (unat rem) [0x80]"
  have l1: "length ?i1 = N" and t1: "take (unat rem + 1) ?i1 = r @ [0x80]"
    using copy_length [of "unat rem" "[0x80]" inp] take_copy [of "unat rem" "[0x80]" inp] N assms(4,5)
    by (simp_all add: r_def)
  have "fst (stream_final prep1 prep2 tf e rem buf inp) = fst (absorb tf b (md_pad enc bs)) \<and>
    length (snd (stream_final prep1 prep2 tf e rem buf inp)) = N"
  proof (cases "rem < 56")
    case True
    then have lt: "unat rem < 56" by (simp add: word_less_nat_alt)
    have p: "unat (55 - rem) = 55 - unat rem"
      using lt by (simp add: unat_sub word_le_nat_alt)
    let ?i2 = "copy_at ?i1 (unat rem + 1) (replicate (55 - unat rem) 0)"
    have l2: "length ?i2 = N" and t2: "take 56 ?i2 = r @ [0x80] @ replicate (55 - unat rem) 0"
      using copy_length [of "unat rem + 1" "replicate (55 - unat rem) 0" ?i1]
        take_copy [of "unat rem + 1" "replicate (55 - unat rem) 0" ?i1] N l1 t1 lt by simp_all
    let ?i3 = "copy_at ?i2 56 e"
    have l3: "length ?i3 = N" and t3: "take 64 ?i3 = r @ [0x80] @ replicate (55 - unat rem) 0 @ e"
      using copy_length [of 56 e ?i2] take_copy [of 56 e ?i2] N l2 t2 assms(7) by simp_all
    have "absorb tf b (md_pad enc bs) = (tf buf (r @ [0x80] @ replicate (55 - length r) 0 @ e), [])"
      using lt lr assms(6) by (intro pad_one_block assms(7,8)) (simp_all add: r_def)
    then show ?thesis
      using True tf_prep [OF assms(1,3) l3] t3 by (simp add: stream_final_def Let_def p lr)
  next
    case False
    then have ge: "56 \<le> unat rem" by (simp add: word_less_nat_alt)
    have p: "unat (120 - rem - 1 - (64 - rem - 1)) = 56"
      by (simp add: diff_diff_add diff_diff_eq2)
    let ?i2 = "copy_at ?i1 (unat rem + 1) (replicate (63 - unat rem) 0)"
    have l2: "length ?i2 = N" and t2: "take 64 ?i2 = r @ [0x80] @ replicate (63 - unat rem) 0"
      using copy_length [of "unat rem + 1" "replicate (63 - unat rem) 0" ?i1]
        take_copy [of "unat rem + 1" "replicate (63 - unat rem) 0" ?i1] N l1 t1 assms(5) by simp_all
    note P2 = tf_prep [OF assms(2,3) l2]
    let ?i3 = "copy_at (prep2 ?i2) 0 (replicate 56 0)"
    have l3: "length ?i3 = N" and t3: "take 56 ?i3 = replicate 56 0"
      using copy_length [of 0 "replicate 56 0" "prep2 ?i2"] take_copy [of 0 "replicate 56 0" "prep2 ?i2"] N P2(2) by simp_all
    let ?i4 = "copy_at ?i3 56 e"
    have l4: "length ?i4 = N" and t4: "take 64 ?i4 = replicate 56 0 @ e"
      using copy_length [of 56 e ?i3] take_copy [of 56 e ?i3] N l3 t3 assms(7) by simp_all
    have "absorb tf b (md_pad enc bs) = (tf (tf buf (r @ [0x80] @ replicate (63 - length r) 0)) (replicate 56 0 @ e), [])"
      using ge lr assms(6) by (intro pad_two_blocks assms(7,8)) (simp_all add: r_def)
    then show ?thesis
      using False P2(1) tf_prep [OF assms(2,3) l4] t4 t2 by (simp add: stream_final_def Let_def p lr)
  qed
  then show "fst (stream_final prep1 prep2 tf e rem buf inp) = fst (absorb tf b (md_pad enc bs))"
    and "length (snd (stream_final prep1 prep2 tf e rem buf inp)) = N" by blast+
qed

text \<open>The bit counter, kept in two words: after a message of \<open>n\<close> bytes and \<open>d\<close> more.\<close>

lemma carry_nat: "x < M \<Longrightarrow> y < M \<Longrightarrow> (x + y) mod M < x \<longleftrightarrow> M \<le> x + (y::nat)"
  by (cases "x + y < M") (simp_all add: le_mod_geq not_less)

lemma bit_count_step:
  fixes d :: u32
  assumes "lo = of_nat (8 * n)" "hi = of_nat (8 * n div 2 ^ 32)"
  shows "lo + push_bit 3 d = of_nat (8 * (n + unat d))"
    and "(if lo + push_bit 3 d < lo then hi + 1 else hi) + drop_bit 29 d = of_nat (8 * (n + unat d) div 2 ^ 32)"
proof -
  define M A B where "M = (2::nat) ^ 32" and "A = 8 * n" and "B = 8 * unat d"
  have AB: "8 * (n + unat d) = A + B" by (simp add: A_def B_def)
  have pb: "push_bit 3 d = of_nat B" by (simp add: push_bit_eq_mult B_def)
  show "lo + push_bit 3 d = of_nat (8 * (n + unat d))"
    unfolding AB pb assms(1) A_def by (rule of_nat_add [symmetric])
  have ulo: "unat lo = A mod M" and upb: "unat (push_bit 3 d) = B mod M"
    unfolding assms(1) pb A_def M_def using unat_of_nat [where ?'a = 32] by (simp_all del: of_nat_mult)
  have db: "drop_bit 29 d = of_nat (B div M)"
  proof -
    have "B div M = unat d div 2 ^ 29" using div_mult_mult1 [of 8 "unat d" "2 ^ 29"] by (simp add: B_def M_def)
    moreover have "unat (drop_bit 29 d) = unat d div 2 ^ 29" by (simp add: drop_bit_eq_div unat_div)
    ultimately show ?thesis by (metis of_nat_unat ucast_id)
  qed
  have c: "lo + push_bit 3 d < lo \<longleftrightarrow> M \<le> A mod M + B mod M"
    using carry_nat [of "A mod M" M "B mod M"]
    by (simp add: word_less_nat_alt unat_word_ariths ulo upb) (simp add: M_def)
  have s: "(A + B) div M = A div M + B div M + (if M \<le> A mod M + B mod M then 1 else 0)"
  proof -
    have "(A mod M + B mod M) div M = (if M \<le> A mod M + B mod M then 1 else 0)"
    proof (cases "M \<le> A mod M + B mod M")
      case True
      have "A mod M < M" "B mod M < M" by (simp_all add: M_def)
      then show ?thesis using True by (subst le_div_geq) (simp_all add: M_def)
    qed simp
    then show ?thesis unfolding div_add1_eq [of A B M] by (rule arg_cong)
  qed
  show "(if lo + push_bit 3 d < lo then hi + 1 else hi) + drop_bit 29 d = of_nat (8 * (n + unat d) div 2 ^ 32)"
    unfolding AB c db using s by (simp add: assms(2) A_def M_def del: of_nat_mult)
qed

lemma rem_count: "unat (drop_bit 3 (of_nat (8 * n) :: u32) AND 0x3f) = n mod 64"
proof -
  have m: "w AND 0x3f = take_bit 6 w" for w :: u32
    using take_bit_eq_mask [of 6 w] by (simp add: mask_eq_exp_minus_1)
  have "unat (drop_bit 3 (of_nat (8 * n) :: u32)) = (8 * n) mod 2 ^ 32 div 8"
    using unat_of_nat [of "8 * n", where ?'a = 32] by (simp add: drop_bit_eq_div unat_div del: of_nat_mult)
  also have "(8 * n) mod 2 ^ 32 = 8 * (n mod 2 ^ 29)"
    using mult_mod_right [of 8 n "2 ^ 29"] by simp
  finally have "unat (drop_bit 3 (of_nat (8 * n) :: u32)) = n mod 2 ^ 29" by simp
  then show ?thesis
    unfolding m unsigned_take_bit_eq by (simp add: take_bit_eq_mod [where ?'a = nat] mod_mod_cancel)
qed

section \<open>HMAC\<close>

text \<open>The construction of RFC 2104 over a digest \<open>H\<close> with 64-byte blocks.\<close>

definition hmac_key :: "(u8 list \<Rightarrow> u8 list) \<Rightarrow> u8 list \<Rightarrow> u8 list" where
  "hmac_key H k = (let k' = (if length k > 64 then H k else k) in k' @ replicate (64 - length k') 0)"

definition hmac_ref :: "(u8 list \<Rightarrow> u8 list) \<Rightarrow> u8 list \<Rightarrow> u8 list \<Rightarrow> u8 list" where
  "hmac_ref H k text =
    H (map (\<lambda>x. x XOR 0x5c) (hmac_key H k) @ H (map (\<lambda>x. x XOR 0x36) (hmac_key H k) @ text))"

text \<open>The pad array of the code: 65 bytes of zeros, the key copied in, the first 64 bytes masked.\<close>

definition key_pad :: "u8 \<Rightarrow> u8 list \<Rightarrow> u8 list" where
  "key_pad m k = (let p = copy_at (replicate 65 0) 0 k in map (\<lambda>x. x XOR m) (take 64 p) @ drop 64 p)"

lemma key_pad_take: "length k \<le> 64 \<Longrightarrow> take 64 (key_pad m k) = map (\<lambda>x. x XOR m) (k @ replicate (64 - length k) 0)"
  by (simp add: key_pad_def copy_at_def Let_def take_map)

lemma key_pad_length: "length k \<le> 64 \<Longrightarrow> length (key_pad m k) = 65"
  by (simp add: key_pad_def copy_at_def Let_def)

section \<open>The contract of an incremental digest\<close>

locale stream_hash =
  fixes init :: "'c \<Rightarrow> 'c" and update :: "'c \<Rightarrow> u8 list \<Rightarrow> 'c" and final :: "'c \<Rightarrow> u8 list \<times> 'c"
    and shape :: "'c \<Rightarrow> bool" and rep :: "'c \<Rightarrow> u8 list \<Rightarrow> bool" and H :: "u8 list \<Rightarrow> u8 list" and out :: nat
  assumes init_rep: "shape c \<Longrightarrow> rep (init c) []"
    and update_rep: "rep c bs \<Longrightarrow> length ds < 2 ^ 31 \<Longrightarrow> length (bs @ ds) < 2 ^ 61 \<Longrightarrow> rep (update c ds) (bs @ ds)"
    and final_digest: "rep c bs \<Longrightarrow> fst (final c) = H bs"
    and final_shape: "rep c bs \<Longrightarrow> shape (snd (final c))"
    and digest_length: "length (H bs) = out" "out \<le> 64"
begin

lemma pieces_rep:
  assumes "rep c bs" "\<forall>d\<in>set ds. length d < 2 ^ 31" "length (bs @ concat ds) < 2 ^ 61"
  shows "rep (foldl update c ds) (bs @ concat ds)"
  using assms
proof (induction ds arbitrary: c bs)
  case Nil
  then show ?case by simp
next
  case (Cons d ds)
  have "rep (update c d) (bs @ d)" using Cons.prems by (intro update_rep) auto
  from Cons.IH [OF this] Cons.prems show ?case by simp
qed

lemma pieces_digest:
  assumes "shape c" "\<forall>d\<in>set ds. length d < 2 ^ 31" "length (concat ds) < 2 ^ 61"
  shows "fst (final (foldl update (init c) ds)) = H (concat ds)"
    and "shape (snd (final (foldl update (init c) ds)))"
  using pieces_rep [OF init_rep [OF assms(1)] assms(2)] assms(3) final_digest final_shape by auto

lemma one_piece:
  assumes "shape c" "length d < 2 ^ 31"
  shows "fst (final (update (init c) d)) = H d" and "shape (snd (final (update (init c) d)))"
  using pieces_digest [of c "[d]"] assms by simp_all

lemma two_pieces:
  assumes "shape c" "length d < 2 ^ 31" "length e < 2 ^ 31"
  shows "fst (final (update (update (init c) d) e)) = H (d @ e)"
    and "shape (snd (final (update (update (init c) d) e)))"
  using pieces_digest [of c "[d, e]"] assms by simp_all

lemma hmac_passes:
  assumes "shape c" "length k \<le> 64" "length text < 2 ^ 31"
  defines "p1 \<equiv> final (update (update (init c) (take 64 (key_pad 0x36 k))) text)"
  shows "fst (final (update (update (init (snd p1)) (take 64 (key_pad 0x5c k))) (fst p1))) =
    H (map (\<lambda>x. x XOR 0x5c) (k @ replicate (64 - length k) 0) @
       H (map (\<lambda>x. x XOR 0x36) (k @ replicate (64 - length k) 0) @ text))"
proof -
  have a: "length (take 64 (key_pad m k)) < 2 ^ 31" for m by simp
  note P1 = two_pieces [OF assms(1) a [of "0x36"] assms(3), folded p1_def]
  have b: "length (fst p1) < 2 ^ 31" using P1(1) digest_length by (simp add: order_le_less_trans)
  show ?thesis
    using two_pieces(1) [OF P1(2) a [of "0x5c"] b] P1(1) assms(2) by (simp add: key_pad_take)
qed

end

end
