(* ===== verification/Md5.thy ===== *)
theory Md5
  imports HashStream
begin

text \<open>
  The MD5 digest and the MACs over it, \<open>rt3370/common/crypt_md5.c\<close>: \<open>MD5Init\<close>,
  \<open>MD5Update\<close>, \<open>MD5Final\<close>, \<open>MD5Transform\<close>, \<open>md5_mac\<close> and \<open>hmac_md5\<close>. The context is
  a record with the four state words, the 64-byte buffer and the two words of the bit count.
  The target is little-endian, so \<open>byteReverse\<close> does nothing. \<open>MD5Final\<close> returns the digest
  and the context. The digest interprets \<open>stream_hash\<close>.
\<close>

type_synonym md5_buf = "u32 \<times> u32 \<times> u32 \<times> u32"

record md5_ctx =
  Buf :: md5_buf
  Input :: "u8 list"
  LenInBitCount0 :: u32
  LenInBitCount1 :: u32

section \<open>The transform\<close>

definition MD5_F1 :: "u32 \<Rightarrow> u32 \<Rightarrow> u32 \<Rightarrow> u32" where "MD5_F1 x y z = ((x AND y) OR (NOT x AND z))"
definition MD5_F2 :: "u32 \<Rightarrow> u32 \<Rightarrow> u32 \<Rightarrow> u32" where "MD5_F2 x y z = ((x AND z) OR (y AND NOT z))"
definition MD5_F3 :: "u32 \<Rightarrow> u32 \<Rightarrow> u32 \<Rightarrow> u32" where "MD5_F3 x y z = (x XOR y XOR z)"
definition MD5_F4 :: "u32 \<Rightarrow> u32 \<Rightarrow> u32 \<Rightarrow> u32" where "MD5_F4 x y z = (y XOR (x OR NOT z))"

definition CYCLIC_LEFT_SHIFT :: "u32 \<Rightarrow> nat \<Rightarrow> u32" where
  "CYCLIC_LEFT_SHIFT w s = (push_bit s w OR drop_bit (32 - s) w)"

definition MD5Step :: "(u32 \<Rightarrow> u32 \<Rightarrow> u32 \<Rightarrow> u32) \<Rightarrow> u32 \<Rightarrow> u32 \<Rightarrow> u32 \<Rightarrow> u32 \<Rightarrow> u32 \<Rightarrow> u32 \<Rightarrow> nat \<Rightarrow> u32" where
  "MD5Step f w x y z d t s = (let w = w + (f x y z + d + t); w = CYCLIC_LEFT_SHIFT w s in w + x)"

definition LShiftVal :: "nat list" where
  "LShiftVal = [7, 12, 17, 22, 5, 9, 14, 20, 4, 11, 16, 23, 6, 10, 15, 21]"

definition MD5Table :: "u32 list" where
  "MD5Table =
   [0xd76aa478, 0xe8c7b756, 0x242070db, 0xc1bdceee, 0xf57c0faf, 0x4787c62a, 0xa8304613, 0xfd469501,
    0x698098d8, 0x8b44f7af, 0xffff5bb1, 0x895cd7be, 0x6b901122, 0xfd987193, 0xa679438e, 0x49b40821,
    0xf61e2562, 0xc040b340, 0x265e5a51, 0xe9b6c7aa, 0xd62f105d, 0x02441453, 0xd8a1e681, 0xe7d3fbc8,
    0x21e1cde6, 0xc33707d6, 0xf4d50d87, 0x455a14ed, 0xa9e3e905, 0xfcefa3f8, 0x676f02d9, 0x8d2a4c8a,
    0xfffa3942, 0x8771f681, 0x6d9d6122, 0xfde5380c, 0xa4beea44, 0x4bdecfa9, 0xf6bb4b60, 0xbebfbc70,
    0x289b7ec6, 0xeaa127fa, 0xd4ef3085, 0x04881d05, 0xd9d4d039, 0xe6db99e5, 0x1fa27cf8, 0xc4ac5665,
    0xf4292244, 0x432aff97, 0xab9423a7, 0xfc93a039, 0x655b59c3, 0x8f0ccc92, 0xffeff47d, 0x85845dd1,
    0x6fa87e4f, 0xfe2ce6e0, 0xa3014314, 0x4e0811a1, 0xf7537e82, 0xbd3af235, 0x2ad7d2bb, 0xeb86d391]"

text \<open>One turn of a loop: the step on \<open>Reg[0]\<close>, then the one-word right shift of the registers.\<close>

definition md5_turn :: "(u32 \<Rightarrow> u32 \<Rightarrow> u32 \<Rightarrow> u32) \<Rightarrow> u32 \<Rightarrow> u32 \<Rightarrow> nat \<Rightarrow> md5_buf \<Rightarrow> md5_buf" where
  "md5_turn f m t s = (\<lambda>(r0, r1, r2, r3). (r3, MD5Step f r0 r1 r2 r3 m t s, r1, r2))"

definition MD5Transform :: "md5_buf \<Rightarrow> u32 list \<Rightarrow> md5_buf" where
  "MD5Transform b Mes =
    (let reg = b;
         reg = fold (\<lambda>i. md5_turn MD5_F1 (Mes ! i) (MD5Table ! i) (LShiftVal ! (i mod 4))) [0..<16] reg;
         reg = fold (\<lambda>i. md5_turn MD5_F2 (Mes ! ((5 * (i mod 16) + 1) mod 16)) (MD5Table ! i)
                 (LShiftVal ! (4 + i mod 4))) [16..<32] reg;
         reg = fold (\<lambda>i. md5_turn MD5_F3 (Mes ! ((3 * (i mod 16) + 5) mod 16)) (MD5Table ! i)
                 (LShiftVal ! (8 + i mod 4))) [32..<48] reg;
         reg = fold (\<lambda>i. md5_turn MD5_F4 (Mes ! ((7 * (i mod 16)) mod 16)) (MD5Table ! i)
                 (LShiftVal ! (12 + i mod 4))) [48..<64] reg
     in case b of (b0, b1, b2, b3) \<Rightarrow> case reg of (r0, r1, r2, r3) \<Rightarrow> (b0 + r0, b1 + r1, b2 + r2, b3 + r3))"

section \<open>The incremental digest\<close>

abbreviation md5_iv :: md5_buf where
  "md5_iv \<equiv> (0x67452301, 0xefcdab89, 0x98badcfe, 0x10325476)"

definition MD5Init :: "md5_ctx \<Rightarrow> md5_ctx" where
  "MD5Init c = c\<lparr>Buf := md5_iv, LenInBitCount0 := 0, LenInBitCount1 := 0\<rparr>"

text \<open>The cast of the buffer to an array of 16 words.\<close>

definition md5_block :: "md5_buf \<Rightarrow> u8 list \<Rightarrow> md5_buf" where
  "md5_block b inp = MD5Transform b (words_at inp 16)"

definition MD5Update :: "md5_ctx \<Rightarrow> u8 list \<Rightarrow> u32 \<Rightarrow> md5_ctx" where
  "MD5Update c dat LenInBytes =
    (let temp = LenInBitCount0 c;
         lo = temp + push_bit 3 LenInBytes;
         hi = (if lo < temp then LenInBitCount1 c + 1 else LenInBitCount1 c) + drop_bit 29 LenInBytes;
         temp = drop_bit 3 temp AND 0x3f
     in case stream_update id md5_block temp (Buf c) (Input c) dat LenInBytes of (b, inp) \<Rightarrow>
       c\<lparr>Buf := b, Input := inp, LenInBitCount0 := lo, LenInBitCount1 := hi\<rparr>)"

definition md5_digest :: "md5_buf \<Rightarrow> u8 list" where
  "md5_digest = (\<lambda>(b0, b1, b2, b3). le_bytes b0 @ le_bytes b1 @ le_bytes b2 @ le_bytes b3)"

text \<open>The length field, low word first. The last statement of \<open>MD5Final\<close> clears
  \<open>sizeof(pCtx)\<close> bytes, the size of a pointer: the first state word only.\<close>

definition md5_len :: "u32 \<Rightarrow> u32 \<Rightarrow> u8 list" where
  "md5_len lo hi = le_bytes lo @ le_bytes hi"

definition MD5Final :: "md5_ctx \<Rightarrow> u8 list \<times> md5_ctx" where
  "MD5Final c =
    (let Remainder = ucast (drop_bit 3 (LenInBitCount0 c) AND 0x3f)
     in case stream_final id id md5_block (md5_len (LenInBitCount0 c) (LenInBitCount1 c)) Remainder (Buf c) (Input c)
       of ((b0, b1, b2, b3), inp) \<Rightarrow>
         (md5_digest (b0, b1, b2, b3), c\<lparr>Buf := (0, b1, b2, b3), Input := inp\<rparr>))"

section \<open>The MACs\<close>

text \<open>The data argument of a call is the list of the bytes it reads. \<open>c\<close> is the uninitialised context on the stack or from the allocator; \<open>alloc\<close> says whether
  the allocation succeeds; \<open>mac\<close> is what the output buffer held.\<close>

definition md5_mac :: "md5_ctx \<Rightarrow> u8 list \<Rightarrow> u8 list \<Rightarrow> u8 list" where
  "md5_mac c key dat =
    (let c = MD5Init c;
         c = MD5Update c key (of_nat (length key));
         c = MD5Update c dat (of_nat (length dat));
         c = MD5Update c key (of_nat (length key))
     in fst (MD5Final c))"

definition hmac_md5 :: "bool \<Rightarrow> md5_ctx \<Rightarrow> u8 list \<Rightarrow> u8 list \<Rightarrow> u8 list \<Rightarrow> u8 list" where
  "hmac_md5 alloc c key dat mac =
    (if \<not> alloc then mac
     else
       case (if length key > 64
             then (case MD5Final (MD5Update (MD5Init c) key (of_nat (length key))) of (tk, c) \<Rightarrow> (tk, c))
             else (key, c)) of (key, c) \<Rightarrow>
       let k_ipad = key_pad 0x36 key;
           k_opad = key_pad 0x5c key;
           c = MD5Init c;
           c = MD5Update c (take 64 k_ipad) 64;
           c = MD5Update c dat (of_nat (length dat))
       in case MD5Final c of (mac, c) \<Rightarrow>
       let c = MD5Init c;
           c = MD5Update c (take 64 k_opad) 64;
           c = MD5Update c mac 16
       in fst (MD5Final c))"

section \<open>Correctness of the incremental digest\<close>

text \<open>The digest of RFC 1321: the blocks of the padded message folded with the transform.\<close>

definition md5_ref :: "u8 list \<Rightarrow> u8 list" where
  "md5_ref bs = md5_digest (fst (absorb md5_block md5_iv (md_pad md5_len bs)))"

definition md5_shape :: "md5_ctx \<Rightarrow> bool" where
  "md5_shape c \<longleftrightarrow> length (Input c) = 64"

definition md5_rep :: "md5_ctx \<Rightarrow> u8 list \<Rightarrow> bool" where
  "md5_rep c bs \<longleftrightarrow> length (Input c) = 64 \<and>
     absorb md5_block md5_iv bs = (Buf c, take (length bs mod 64) (Input c)) \<and>
     LenInBitCount0 c = of_nat (8 * length bs) \<and> LenInBitCount1 c = of_nat (8 * length bs div 2 ^ 32)"

lemma words_take: "4 * n \<le> N \<Longrightarrow> N \<le> length inp \<Longrightarrow> words_at (take N inp) n = words_at inp n"
  unfolding words_at_def le32_def by (rule map_cong) auto

lemma md5_ok: "prep_ok 64 id" "tf_ok 64 md5_block"
  by (simp_all add: prep_ok_def tf_ok_def)

lemma md5_digest_length [simp]: "length (md5_digest b) = 16"
  by (simp add: md5_digest_def split: prod.split)

lemma md5_len_length [simp]: "length (md5_len lo hi) = 8" by (simp add: md5_len_def)

lemma md5_init_rep: "md5_shape c \<Longrightarrow> md5_rep (MD5Init c) []"
  by (simp add: md5_shape_def md5_rep_def MD5Init_def)

lemma md5_update_rep:
  assumes "md5_rep c bs" "length ds = unat len" "unat len < 2 ^ 31"
  shows "md5_rep (MD5Update c ds len) (bs @ ds)"
proof -
  have r: "length (Input c) = 64" "absorb md5_block md5_iv bs = (Buf c, take (length bs mod 64) (Input c))"
    "LenInBitCount0 c = of_nat (8 * length bs)" "LenInBitCount1 c = of_nat (8 * length bs div 2 ^ 32)"
    using assms(1) by (auto simp: md5_rep_def)
  define temp where "temp = drop_bit 3 (LenInBitCount0 c) AND 0x3f"
  have t: "unat temp = length bs mod 64" unfolding temp_def r(3) by (rule rem_count)
  note C = bit_count_step [OF r(3,4), of len, folded assms(2)]
  obtain b inp where U: "stream_update id md5_block temp (Buf c) (Input c) ds len = (b, inp)" by fastforce
  have "unat temp < 64" unfolding t by simp
  from stream_update_absorb [OF md5_ok r(1) assms(2,3) this refl, of "Buf c", unfolded U prod.case]
  have A: "absorb md5_block (Buf c) (take (length bs mod 64) (Input c) @ ds) =
      (b, take (length (take (length bs mod 64) (Input c) @ ds) mod 64) inp)" "length inp = 64"
    unfolding t by blast+
  have l: "length (take (length bs mod 64) (Input c) @ ds) mod 64 = length (bs @ ds) mod 64"
    using r(1) by (simp add: mod_simps min_def)
  have "absorb md5_block md5_iv (bs @ ds) = (b, take (length (bs @ ds) mod 64) inp)"
    using A(1) r(2) unfolding l by (subst absorb_append) simp
  then show ?thesis
    using C A(2) U by (simp add: md5_rep_def MD5Update_def Let_def temp_def [symmetric])
qed

lemma md5_final_rep:
  assumes "md5_rep c bs"
  shows "fst (MD5Final c) = md5_ref bs" and "md5_shape (snd (MD5Final c))"
proof -
  have r: "length (Input c) = 64" "absorb md5_block md5_iv bs = (Buf c, take (length bs mod 64) (Input c))"
    "LenInBitCount0 c = of_nat (8 * length bs)" "LenInBitCount1 c = of_nat (8 * length bs div 2 ^ 32)"
    using assms(1) by (auto simp: md5_rep_def)
  define rem :: u8 where "rem = ucast (drop_bit 3 (LenInBitCount0 c) AND 0x3f)"
  have t: "unat rem = length bs mod 64"
  proof -
    have "unat (drop_bit 3 (LenInBitCount0 c) AND 0x3f) = length bs mod 64" unfolding r(3) by (rule rem_count)
    then show ?thesis unfolding rem_def by (simp add: unsigned_ucast_eq take_bit_eq_mod)
  qed
  have "unat rem < 64" unfolding t by simp
  note F = stream_final_absorb [OF md5_ok(1,1,2) r(1) this, where b = md5_iv and bs = bs and buf = "Buf c"
      and e = "md5_len (LenInBitCount0 c) (LenInBitCount1 c)" and enc = md5_len, unfolded t, OF r(2) md5_len_length]
  have e: "md5_len (LenInBitCount0 c) (LenInBitCount1 c) = md5_len (of_nat (8 * length bs)) (of_nat (8 * length bs div 2 ^ 32))"
    by (simp only: r(3,4))
  show "fst (MD5Final c) = md5_ref bs" and "md5_shape (snd (MD5Final c))"
    using F [OF e] unfolding md5_ref_def md5_shape_def
    by (auto simp: MD5Final_def Let_def rem_def [symmetric] split: prod.splits)
qed


interpretation md5: stream_hash MD5Init "\<lambda>c ds. MD5Update c ds (of_nat (length ds))" MD5Final md5_shape md5_rep md5_ref 16
proof
  fix c :: md5_ctx and bs ds :: "u8 list"
  show "md5_shape c \<Longrightarrow> md5_rep (MD5Init c) []" by (rule md5_init_rep)
  show "md5_rep c bs \<Longrightarrow> fst (MD5Final c) = md5_ref bs" "md5_rep c bs \<Longrightarrow> md5_shape (snd (MD5Final c))"
    by (rule md5_final_rep, assumption)+
  show "length (md5_ref bs) = 16" "(16::nat) \<le> 64" by (simp_all add: md5_ref_def)
  assume "md5_rep c bs" and l: "length ds < 2 ^ 31"
  moreover have "length ds = unat (of_nat (length ds) :: u32)" using l by (simp add: unat_of_nat)
  ultimately show "md5_rep (MD5Update c ds (of_nat (length ds))) (bs @ ds)"
    using l by (intro md5_update_rep) simp_all
qed

definition ex_md5_ctx :: md5_ctx where
  "ex_md5_ctx = \<lparr>Buf = (1, 2, 3, 4), Input = replicate 64 0xEE, LenInBitCount0 = 77, LenInBitCount1 = 9\<rparr>"

lemma ex_md5_shape: "md5_shape ex_md5_ctx" by (simp add: md5_shape_def ex_md5_ctx_def)



text \<open>hmac_md5 computes the HMAC of RFC 2104 over MD5, for keys of any length (longer keys are
  hashed first); if the context cannot be allocated the output is left as it was.\<close>
theorem hmac_md5_correct:
  assumes "length (Input c) = 64" "length key < 2 ^ 31" "length dat < 2 ^ 31"
  shows "hmac_md5 alloc c key dat mac = (if alloc then hmac_ref md5_ref key dat else mac)"
proof (cases alloc)
  case True
  define p where "p = (if length key > 64
    then (case MD5Final (MD5Update (MD5Init c) key (of_nat (length key))) of (tk, c) \<Rightarrow> (tk, c)) else (key, c))"
  have sh: "md5_shape c" using assms(1) by (simp add: md5_shape_def)
  have p: "fst p = (if length key > 64 then md5_ref key else key)" "md5_shape (snd p)"
    using md5.one_piece [OF sh assms(2)] sh by (simp_all add: p_def split: prod.split)
  then have l: "length (fst p) \<le> 64" using md5.digest_length by simp
  define p1 where "p1 = MD5Final (MD5Update (MD5Update (MD5Init (snd p)) (take 64 (key_pad 0x36 (fst p))) 64) dat (of_nat (length dat)))"
  have n: "of_nat (length (take 64 (key_pad m (fst p)))) = (64 :: u32)" for m
    using key_pad_length [OF l, of m] by simp
  have p1: "length (fst p1) = 16"
    using md5.two_pieces(1) [OF p(2), of "take 64 (key_pad 0x36 (fst p))" dat] assms(3) md5.digest_length n
    by (simp add: p1_def)
  have "hmac_md5 alloc c key dat mac =
      fst (MD5Final (MD5Update (MD5Update (MD5Init (snd p1)) (take 64 (key_pad 0x5c (fst p))) 64) (fst p1) 16))"
    using True by (simp add: hmac_md5_def p_def [symmetric] p1_def Let_def split: prod.split)
  moreover have "of_nat (length (fst p1)) = (16 :: u32)" using p1 by simp
  ultimately show ?thesis
    using md5.hmac_passes [OF p(2) l assms(3), unfolded n, folded p1_def] True
    unfolding p(1) hmac_ref_def hmac_key_def Let_def by simp
qed (simp add: hmac_md5_def)

theorem hmac_md5_correct_witness:
  "hmac_md5 True ex_md5_ctx (replicate 70 1) [1, 2] [] = hmac_ref md5_ref (replicate 70 1) [1, 2]"
  using hmac_md5_correct [of ex_md5_ctx "replicate 70 1" "[1, 2]" True "[]"] by (simp add: ex_md5_ctx_def)

text \<open>Known answers of RFC 1321: the code's digest of the empty message and of "abc".\<close>
theorem md5_known_answers:
  "map (\<lambda>m. fst (MD5Final (MD5Update (MD5Init ex_md5_ctx) m (of_nat (length m))))) [[], [0x61, 0x62, 0x63]] =
   [[0xd4, 0x1d, 0x8c, 0xd9, 0x8f, 0x00, 0xb2, 0x04, 0xe9, 0x80, 0x09, 0x98, 0xec, 0xf8, 0x42, 0x7e],
    [0x90, 0x01, 0x50, 0x98, 0x3c, 0xd2, 0x4f, 0xb0, 0xd6, 0x96, 0x3f, 0x7d, 0x28, 0xe1, 0x7f, 0x72]]"
  by code_simp

text \<open>MD5Final does not erase the context although its last statement is meant to: it clears
  \<open>sizeof(pCtx)\<close> bytes, the size of the pointer, so the last twelve bytes of the digest it returned
  can be read back from the state words.\<close>
theorem md5_final_not_erased:
  "drop 4 (fst (MD5Final c)) = drop 4 (md5_digest (Buf (snd (MD5Final c))))"
  by (simp add: MD5Final_def md5_digest_def Let_def split: prod.split)

end
