(* ===== verification/Sha1.thy ===== *)
theory Sha1
  imports HashStream
begin

text \<open>
  The SHA-1 digest and its HMAC, \<open>rt3370/common/crypt_md5.c\<close>: \<open>SHAInit\<close>,
  \<open>SHAUpdate\<close>, \<open>SHAFinal\<close>, \<open>SHATransform\<close> and \<open>HMAC_SHA1\<close>. The buffer of the context has
  80 bytes, the last 16 of which the code clears before each transform. \<open>SHATransform\<close>
  allocates its message schedule: \<open>alloc\<close> says whether the allocator succeeds, and when it
  does not the transform silently does nothing. The digest interprets \<open>stream_hash\<close> when
  memory is available.
\<close>

type_synonym sha_buf = "u32 \<times> u32 \<times> u32 \<times> u32 \<times> u32"

record sha_ctx =
  Buf :: sha_buf
  Input :: "u8 list"
  LenInBitCount0 :: u32
  LenInBitCount1 :: u32

section \<open>The transform\<close>

definition SHA1_F1 :: "u32 \<Rightarrow> u32 \<Rightarrow> u32 \<Rightarrow> u32" where "SHA1_F1 b c d = ((b AND c) OR (NOT b AND d))"
definition SHA1_F2 :: "u32 \<Rightarrow> u32 \<Rightarrow> u32 \<Rightarrow> u32" where "SHA1_F2 b c d = (b XOR c XOR d)"
definition SHA1_F3 :: "u32 \<Rightarrow> u32 \<Rightarrow> u32 \<Rightarrow> u32" where "SHA1_F3 b c d = ((b AND c) OR (b AND d) OR (c AND d))"

definition CYCLIC_LEFT_SHIFT :: "u32 \<Rightarrow> nat \<Rightarrow> u32" where
  "CYCLIC_LEFT_SHIFT w s = (push_bit s w OR drop_bit (32 - s) w)"

text \<open>The step changes \<open>e\<close> and \<open>b\<close>; the turn of the loop then shifts the registers right.\<close>

definition SHA1Step ::
  "(u32 \<Rightarrow> u32 \<Rightarrow> u32 \<Rightarrow> u32) \<Rightarrow> sha_buf \<Rightarrow> u32 \<Rightarrow> u32 \<Rightarrow> sha_buf" where
  "SHA1Step f = (\<lambda>(a, b, c, d, e) w k. (a, CYCLIC_LEFT_SHIFT b 30, c, d, e + (f b c d + w + k + CYCLIC_LEFT_SHIFT a 5)))"

definition sha_turn :: "u32 list \<Rightarrow> nat \<Rightarrow> sha_buf \<Rightarrow> sha_buf" where
  "sha_turn W i reg =
    (case (if i < 20 then SHA1Step SHA1_F1 reg (W ! i) 0x5a827999
           else if i < 40 then SHA1Step SHA1_F2 reg (W ! i) 0x6ed9eba1
           else if i < 60 then SHA1Step SHA1_F3 reg (W ! i) 0x8f1bbcdc
           else SHA1Step SHA1_F2 reg (W ! i) 0xca62c1d6)
     of (r0, r1, r2, r3, r4) \<Rightarrow> (r4, r0, r1, r2, r3))"

text \<open>The first 16 words of the schedule are the message words with their bytes reversed.\<close>

definition byte_swap :: "u32 \<Rightarrow> u32" where
  "byte_swap m = ((drop_bit 24 m AND 0xff) OR (drop_bit 8 m AND 0xff00) OR
     (push_bit 8 m AND 0xff0000) OR (push_bit 24 m AND 0xff000000))"

fun sha_extend :: "nat \<Rightarrow> nat \<Rightarrow> u32 list \<Rightarrow> u32 list" where
  "sha_extend 0 i W = W"
| "sha_extend (Suc n) i W =
    sha_extend n (i + 1) (W @ [CYCLIC_LEFT_SHIFT (W ! i XOR W ! (2 + i) XOR W ! (8 + i) XOR W ! (13 + i)) 1])"

definition sha_schedule :: "u32 list \<Rightarrow> u32 list" where
  "sha_schedule Mes = sha_extend 64 0 (map (\<lambda>i. byte_swap (Mes ! i)) [0..<16])"

definition SHATransform :: "bool \<Rightarrow> sha_buf \<Rightarrow> u32 list \<Rightarrow> sha_buf" where
  "SHATransform alloc b Mes =
    (if \<not> alloc then b
     else
       let W = sha_schedule Mes;
           reg = fold (sha_turn W) [0..<80] b
       in case b of (b0, b1, b2, b3, b4) \<Rightarrow> case reg of (r0, r1, r2, r3, r4) \<Rightarrow>
         (b0 + r0, b1 + r1, b2 + r2, b3 + r3, b4 + r4))"

section \<open>The incremental digest\<close>

abbreviation sha_iv :: sha_buf where
  "sha_iv \<equiv> (0x67452301, 0xefcdab89, 0x98badcfe, 0x10325476, 0xc3d2e1f0)"

definition SHAInit :: "sha_ctx \<Rightarrow> sha_ctx" where
  "SHAInit c = c\<lparr>Buf := sha_iv, LenInBitCount0 := 0, LenInBitCount1 := 0\<rparr>"

definition sha_block :: "bool \<Rightarrow> sha_buf \<Rightarrow> u8 list \<Rightarrow> sha_buf" where
  "sha_block alloc b inp = SHATransform alloc b (words_at inp 20)"

text \<open>The clearing of the bytes behind the block.\<close>

definition clear_tail :: "nat \<Rightarrow> u8 list \<Rightarrow> u8 list" where
  "clear_tail n inp = copy_at inp 64 (replicate n 0)"

text \<open>The first result is the error code: 1 when the high word of the bit count overflows, in
  which case the counters are already changed and the data is not taken.\<close>

definition SHAUpdate :: "bool \<Rightarrow> sha_ctx \<Rightarrow> u8 list \<Rightarrow> u32 \<Rightarrow> u8 \<times> sha_ctx" where
  "SHAUpdate alloc c dat LenInBytes =
    (let temp1 = LenInBitCount0 c;
         temp2 = LenInBitCount1 c;
         lo = temp1 + push_bit 3 LenInBytes;
         hi = (if lo < temp1 then temp2 + 1 else temp2) + drop_bit 29 LenInBytes;
         c = c\<lparr>LenInBitCount0 := lo, LenInBitCount1 := hi\<rparr>
     in if hi < temp2 then (1, c)
        else
          case stream_update (clear_tail 16) (sha_block alloc) (drop_bit 3 temp1 AND 0x3f) (Buf c) (Input c) dat LenInBytes
          of (b, inp) \<Rightarrow> (0, c\<lparr>Buf := b, Input := inp\<rparr>))"

definition sha_digest :: "sha_buf \<Rightarrow> u8 list" where
  "sha_digest = (\<lambda>(b0, b1, b2, b3, b4). be_bytes b0 @ be_bytes b1 @ be_bytes b2 @ be_bytes b3 @ be_bytes b4)"

definition sha_len :: "u32 \<Rightarrow> u32 \<Rightarrow> u8 list" where
  "sha_len lo hi = be_bytes hi @ be_bytes lo"

definition SHAFinal :: "bool \<Rightarrow> sha_ctx \<Rightarrow> u8 list \<times> sha_ctx" where
  "SHAFinal alloc c =
    (let Remainder = ucast (drop_bit 3 (LenInBitCount0 c) AND 0x3f)
     in case stream_final (clear_tail 14) (clear_tail 16) (sha_block alloc)
          (sha_len (LenInBitCount0 c) (LenInBitCount1 c)) Remainder (Buf c) (Input c)
       of ((b0, b1, b2, b3, b4), inp) \<Rightarrow>
         (sha_digest (b0, b1, b2, b3, b4), c\<lparr>Buf := (0, b1, b2, b3, b4), Input := inp\<rparr>))"

text \<open>The HMAC. A key longer than 64 bytes is replaced by its digest in the caller's own
  buffer: the second result is what that buffer holds on return. \<open>ctx_alloc\<close> is the outcome of
  the allocation of the context.\<close>

definition sha_upd :: "bool \<Rightarrow> sha_ctx \<Rightarrow> u8 list \<Rightarrow> sha_ctx" where
  "sha_upd alloc c dat = snd (SHAUpdate alloc c dat (of_nat (length dat)))"

definition HMAC_SHA1 :: "bool \<Rightarrow> bool \<Rightarrow> sha_ctx \<Rightarrow> u8 list \<Rightarrow> u8 list \<Rightarrow> u8 list \<Rightarrow> u8 list \<times> u8 list" where
  "HMAC_SHA1 ctx_alloc alloc c text key digest =
    (if \<not> ctx_alloc then (digest, key)
     else
       case (if length key > 64
             then (case SHAFinal alloc (sha_upd alloc (SHAInit c) key) of (d, c) \<Rightarrow> (d, copy_at key 0 d, c))
             else (key, key, c)) of (k, buf, c) \<Rightarrow>
       let k_ipad = key_pad 0x36 k;
           k_opad = key_pad 0x5c k;
           c = SHAInit c;
           c = sha_upd alloc c (take 64 k_ipad);
           c = sha_upd alloc c text
       in case SHAFinal alloc c of (digest, c) \<Rightarrow>
       let c = SHAInit c;
           c = sha_upd alloc c (take 64 k_opad);
           c = sha_upd alloc c digest
       in (fst (SHAFinal alloc c), buf))"

section \<open>Correctness of the incremental digest\<close>

definition sha_ref :: "u8 list \<Rightarrow> u8 list" where
  "sha_ref bs = sha_digest (fst (absorb (sha_block True) sha_iv (md_pad sha_len bs)))"

definition sha_shape :: "sha_ctx \<Rightarrow> bool" where
  "sha_shape c \<longleftrightarrow> length (Input c) = 80"

definition sha_rep :: "bool \<Rightarrow> sha_ctx \<Rightarrow> u8 list \<Rightarrow> bool" where
  "sha_rep alloc c bs \<longleftrightarrow> length (Input c) = 80 \<and>
     absorb (sha_block alloc) sha_iv bs = (Buf c, take (length bs mod 64) (Input c)) \<and>
     LenInBitCount0 c = of_nat (8 * length bs) \<and> LenInBitCount1 c = of_nat (8 * length bs div 2 ^ 32)"

lemma sha_words: "length inp = 80 \<Longrightarrow> i < 16 \<Longrightarrow> words_at (take 64 inp) 20 ! i = words_at inp 20 ! i"
  by (simp add: words_at_def le32_def)

lemma sha_schedule_cong: "(\<And>i. i < 16 \<Longrightarrow> M ! i = M' ! i) \<Longrightarrow> sha_schedule M = sha_schedule M'"
  unfolding sha_schedule_def by (rule arg_cong [where f = "sha_extend 64 0"]) (rule map_cong, simp_all)

lemma sha_ok: "prep_ok 80 (clear_tail 16)" "prep_ok 80 (clear_tail 14)" "tf_ok 80 (sha_block alloc)"
proof -
  show "prep_ok 80 (clear_tail 16)" "prep_ok 80 (clear_tail 14)"
    by (simp_all add: prep_ok_def clear_tail_def copy_at_def)
  have "sha_schedule (words_at (take 64 inp) 20) = sha_schedule (words_at inp 20)" if "length inp = 80" for inp
    by (rule sha_schedule_cong) (rule sha_words [OF that])
  then show "tf_ok 80 (sha_block alloc)"
    by (simp add: tf_ok_def sha_block_def SHATransform_def Let_def)
qed

lemma sha_digest_length [simp]: "length (sha_digest b) = 20"
  by (simp add: sha_digest_def split: prod.split)

lemma sha_len_length [simp]: "length (sha_len lo hi) = 8" by (simp add: sha_len_def)

lemma sha_init_rep: "sha_shape c \<Longrightarrow> sha_rep alloc (SHAInit c) []"
  by (simp add: sha_shape_def sha_rep_def SHAInit_def)

text \<open>Below 2^61 bytes the high word never decreases.\<close>

lemma high_word_mono:
  assumes "n + d < 2 ^ 61"
  shows "(of_nat (8 * n div 2 ^ 32) :: u32) \<le> of_nat (8 * (n + d) div 2 ^ 32)"
proof -
  have a: "8 * n div 2 ^ 32 \<le> 8 * (n + d) div 2 ^ 32" by (intro div_le_mono) simp
  have b: "8 * (n + d) div 2 ^ 32 < 2 ^ 32"
  proof -
    have "8 * (n + d) < 2 ^ 64" using assms by simp
    then have "8 * (n + d) < 2 ^ 32 * 2 ^ 32" by simp
    then show ?thesis by (rule less_mult_imp_div_less)
  qed
  show ?thesis
    using a b unat_of_nat [of "8 * n div 2 ^ 32", where ?'a = 32] unat_of_nat [of "8 * (n + d) div 2 ^ 32", where ?'a = 32]
    by (simp add: word_le_nat_alt del: of_nat_mult of_nat_add)
qed

lemma sha_update_rep:
  assumes "sha_rep alloc c bs" "length ds < 2 ^ 31" "length (bs @ ds) < 2 ^ 61"
  shows "fst (SHAUpdate alloc c ds (of_nat (length ds))) = 0" and "sha_rep alloc (sha_upd alloc c ds) (bs @ ds)"
proof -
  define len :: u32 where "len = of_nat (length ds)"
  have len: "length ds = unat len" using assms(2) by (simp add: unat_of_nat len_def)
  have r: "length (Input c) = 80" "absorb (sha_block alloc) sha_iv bs = (Buf c, take (length bs mod 64) (Input c))"
    "LenInBitCount0 c = of_nat (8 * length bs)" "LenInBitCount1 c = of_nat (8 * length bs div 2 ^ 32)"
    using assms(1) by (auto simp: sha_rep_def)
  define temp where "temp = drop_bit 3 (LenInBitCount0 c) AND 0x3f"
  have t: "unat temp = length bs mod 64" unfolding temp_def r(3) by (rule rem_count)
  note C = bit_count_step [OF r(3,4), of len, folded len]
  have no: "\<not> (of_nat (8 * (length bs + length ds) div 2 ^ 32) :: u32) < LenInBitCount1 c"
    using high_word_mono [of "length bs" "length ds"] assms(3) unfolding r(4) not_less by simp
  obtain b inp where U: "stream_update (clear_tail 16) (sha_block alloc) temp (Buf c) (Input c) ds len = (b, inp)" by fastforce
  have "unat temp < 64" unfolding t by simp
  from stream_update_absorb [OF sha_ok(1,3) r(1) len assms(2) [unfolded len] this refl, of alloc "Buf c", unfolded U prod.case]
  have A: "absorb (sha_block alloc) (Buf c) (take (length bs mod 64) (Input c) @ ds) =
      (b, take (length (take (length bs mod 64) (Input c) @ ds) mod 64) inp)" "length inp = 80"
    unfolding t by blast+
  have l: "length (take (length bs mod 64) (Input c) @ ds) mod 64 = length (bs @ ds) mod 64"
    using r(1) by (simp add: mod_simps min_def)
  have "absorb (sha_block alloc) sha_iv (bs @ ds) = (b, take (length (bs @ ds) mod 64) inp)"
    using A(1) r(2) unfolding l by (subst absorb_append) simp
  moreover have "SHAUpdate alloc c ds len = (0, c\<lparr>Buf := b, Input := inp,
      LenInBitCount0 := of_nat (8 * (length bs + length ds)),
      LenInBitCount1 := of_nat (8 * (length bs + length ds) div 2 ^ 32)\<rparr>)"
    unfolding SHAUpdate_def Let_def C(2)
    unfolding C(1) temp_def [symmetric] using no U by (simp del: of_nat_mult of_nat_add)
  ultimately show "fst (SHAUpdate alloc c ds (of_nat (length ds))) = 0" "sha_rep alloc (sha_upd alloc c ds) (bs @ ds)"
    using A(2) by (simp_all add: sha_rep_def sha_upd_def len_def [symmetric] del: of_nat_mult of_nat_add)
qed

lemma sha_final_rep:
  assumes "sha_rep alloc c bs"
  shows "fst (SHAFinal alloc c) = sha_digest (fst (absorb (sha_block alloc) sha_iv (md_pad sha_len bs)))"
    and "sha_shape (snd (SHAFinal alloc c))"
proof -
  have r: "length (Input c) = 80" "absorb (sha_block alloc) sha_iv bs = (Buf c, take (length bs mod 64) (Input c))"
    "LenInBitCount0 c = of_nat (8 * length bs)" "LenInBitCount1 c = of_nat (8 * length bs div 2 ^ 32)"
    using assms(1) by (auto simp: sha_rep_def)
  define rem :: u8 where "rem = ucast (drop_bit 3 (LenInBitCount0 c) AND 0x3f)"
  have t: "unat rem = length bs mod 64"
  proof -
    have "unat (drop_bit 3 (LenInBitCount0 c) AND 0x3f) = length bs mod 64" unfolding r(3) by (rule rem_count)
    then show ?thesis unfolding rem_def by (simp add: unsigned_ucast_eq take_bit_eq_mod)
  qed
  have "unat rem < 64" unfolding t by simp
  note F = stream_final_absorb [OF sha_ok(2,1,3) r(1) this, where b = sha_iv and bs = bs and buf = "Buf c"
      and e = "sha_len (LenInBitCount0 c) (LenInBitCount1 c)" and enc = sha_len, unfolded t, OF r(2) sha_len_length]
  have e: "sha_len (LenInBitCount0 c) (LenInBitCount1 c) = sha_len (of_nat (8 * length bs)) (of_nat (8 * length bs div 2 ^ 32))"
    by (simp only: r(3,4))
  show "fst (SHAFinal alloc c) = sha_digest (fst (absorb (sha_block alloc) sha_iv (md_pad sha_len bs)))"
    and "sha_shape (snd (SHAFinal alloc c))"
    using F [OF e] unfolding sha_shape_def
    by (auto simp: SHAFinal_def Let_def rem_def [symmetric] split: prod.splits)
qed

interpretation sha: stream_hash SHAInit "sha_upd True" "SHAFinal True" sha_shape "sha_rep True" sha_ref 20
  by unfold_locales (auto simp: sha_ref_def sha_init_rep sha_final_rep intro: sha_update_rep(2))

definition ex_sha_ctx :: sha_ctx where
  "ex_sha_ctx = \<lparr>Buf = (1, 2, 3, 4, 5), Input = replicate 80 0xEE, LenInBitCount0 = 77, LenInBitCount1 = 9\<rparr>"

text \<open>The SHA-1 digest of a message fed in any pieces, none of which reports an error, is the
  RFC 3174 digest of the whole message, whatever the context held before.\<close>
theorem sha1_stream_correct:
  assumes "length (Input c) = 80" "\<forall>d\<in>set ds. length d < 2 ^ 31" "length (concat ds) < 2 ^ 61"
  shows "fst (SHAFinal True (foldl (sha_upd True) (SHAInit c) ds)) = sha_ref (concat ds)"
  by (rule sha.pieces_digest(1)) (use assms in \<open>simp_all add: sha_shape_def\<close>)

theorem sha1_stream_correct_witness:
  "fst (SHAFinal True (sha_upd True (sha_upd True (SHAInit ex_sha_ctx) [0x61]) [0x62, 0x63])) = sha_ref [0x61, 0x62, 0x63]"
  using sha1_stream_correct [of ex_sha_ctx "[[0x61], [0x62, 0x63]]"] by (simp add: ex_sha_ctx_def)



text \<open>When the message schedule cannot be allocated SHA-1 fails silently: no error is reported and
  the digest of every message is the same constant, the initial state, so any two messages collide.\<close>
theorem sha1_without_memory:
  assumes "length (Input c) = 80" "length d < 2 ^ 31"
  shows "fst (SHAUpdate False (SHAInit c) d (of_nat (length d))) = 0 \<and>
    fst (SHAFinal False (sha_upd False (SHAInit c) d)) = sha_digest sha_iv"
proof -
  have f: "fst (absorb (sha_block False) b bs) = b" for b bs
  proof (induction "sha_block False" b bs rule: absorb.induct)
    case (1 b bs)
    then show ?case by (subst absorb.simps) (simp add: sha_block_def SHATransform_def)
  qed
  have "sha_rep False (SHAInit c) []" using assms(1) by (intro sha_init_rep) (simp add: sha_shape_def)
  note U = sha_update_rep [OF this assms(2)]
  show ?thesis using U assms(2) sha_final_rep(1) [OF U(2)] by (simp add: f)
qed

theorem sha1_without_memory_witness:
  "fst (SHAFinal False (sha_upd False (SHAInit ex_sha_ctx) [1])) = fst (SHAFinal False (sha_upd False (SHAInit ex_sha_ctx) [2]))"
  using sha1_without_memory [of ex_sha_ctx "[1]"] sha1_without_memory [of ex_sha_ctx "[2]"] by (simp add: ex_sha_ctx_def)

section \<open>A known answer\<close>

text \<open>The schedule and the state after every 20 steps for the single block of the message "abc".\<close>

definition abc_schedule :: "u32 list" where
  "abc_schedule =
   [0x61626380, 0x0, 0x0, 0x0, 0x0, 0x0, 0x0, 0x0, 0x0, 0x0,
    0x0, 0x0, 0x0, 0x0, 0x0, 0x18, 0xc2c4c700, 0x0, 0x30, 0x85898e01,
    0x0, 0x60, 0xb131c03, 0x30, 0x85898ec1, 0x16263806, 0x0, 0x180, 0x2c4c700c, 0xf0,
    0x93afb507, 0x5898e048, 0x8e9a9202, 0x600, 0xb131c0f0, 0x16263bc6, 0x4ebed41e, 0x626380a1, 0x16263806, 0x18c0,
    0xd2e138c4, 0xf00, 0x3afb5079, 0x898e04e5, 0xe2ba3c2b, 0x60c0, 0x53a37cd, 0x74458547, 0xda9415ed, 0x26380a16,
    0x626383a1, 0x4ebf54de, 0x3835b44b, 0xf600, 0x1e84c7a3, 0x98e04d98, 0x651d16a0, 0x62658ca1, 0x458544d6, 0x44584cb7,
    0x7ba06619, 0x6380aea2, 0xae55269, 0x627b49a1, 0x7cd45c9d, 0xf0000, 0xfb50753a, 0xec6765e8, 0xba3c2be2, 0x60c000,
    0x3a37cd05, 0x458546f4, 0xb8599dd6, 0x380a1a26, 0x1e02203, 0xe7cc3456, 0xe6e60b69, 0xf60a00, 0x5795ef4f, 0x822e0879]"

lemma abc_pad: "md_pad sha_len [0x61, 0x62, 0x63] = [0x61, 0x62, 0x63, 0x80] @ replicate 59 0 @ [24]"
  by (simp add: md_pad_def sha_len_def be_bytes_def upt_rec) (simp add: eval_nat_numeral)

lemma abc_words: "map (\<lambda>i. byte_swap (words_at (md_pad sha_len [0x61, 0x62, 0x63]) 20 ! i)) [0..<16] = take 16 abc_schedule"
  unfolding abc_pad by code_simp

lemma sha_extend_add: "sha_extend (m + n) i W = sha_extend n (i + m) (sha_extend m i W)"
  by (induction m arbitrary: i W) simp_all

lemma abc_extend1: "sha_extend 16 0 (take 16 abc_schedule) = take 32 abc_schedule" by code_simp
lemma abc_extend2: "sha_extend 16 16 (take 32 abc_schedule) = take 48 abc_schedule" by code_simp
lemma abc_extend3: "sha_extend 16 32 (take 48 abc_schedule) = take 64 abc_schedule" by code_simp
lemma abc_extend4: "sha_extend 16 48 (take 64 abc_schedule) = abc_schedule" by code_simp

lemma abc_extend: "sha_extend 64 0 (take 16 abc_schedule) = abc_schedule"
proof -
  have "(64::nat) = 16 + (16 + (16 + 16))" by simp
  then have "sha_extend 64 0 W = sha_extend 16 48 (sha_extend 16 32 (sha_extend 16 16 (sha_extend 16 0 W)))" for W
    using sha_extend_add [of 16 "16 + (16 + 16)" 0 W] sha_extend_add [of 16 "16 + 16" 16] sha_extend_add [of 16 16 32] by simp
  then show ?thesis by (simp only: abc_extend1 abc_extend2 abc_extend3 abc_extend4)
qed

lemma abc_round1: "fold (sha_turn abc_schedule) [0..<20] (0x67452301, 0xefcdab89, 0x98badcfe, 0x10325476, 0xc3d2e1f0) =
    (0xfd9e1d7d, 0xdc64901d, 0x20aa99ca, 0xd3a49608, 0xc82f758b)"
  by code_simp

lemma abc_round2: "fold (sha_turn abc_schedule) [20..<40] (0xfd9e1d7d, 0xdc64901d, 0x20aa99ca, 0xd3a49608, 0xc82f758b) =
    (0x32de1cba, 0x4c986405, 0xf718e5cf, 0x3d447f6, 0xf72eec32)"
  by code_simp

lemma abc_round3: "fold (sha_turn abc_schedule) [40..<60] (0x32de1cba, 0x4c986405, 0xf718e5cf, 0x3d447f6, 0xf72eec32) =
    (0x3f52de5a, 0x9d785fd, 0x3498bfd4, 0xf211824f, 0xd79915ab)"
  by code_simp

lemma abc_round4: "fold (sha_turn abc_schedule) [60..<80] (0x3f52de5a, 0x9d785fd, 0x3498bfd4, 0xf211824f, 0xd79915ab) =
    (0x42541b35, 0x5738d5e1, 0x21834873, 0x681e6df6, 0xd8fdf6ad)"
  by code_simp

lemma abc_steps: "fold (sha_turn abc_schedule) [0..<80] sha_iv = (0x42541b35, 0x5738d5e1, 0x21834873, 0x681e6df6, 0xd8fdf6ad)"
proof -
  have "[0..<80] = [0..<20] @ [20..<40] @ [40..<60] @ [60..<80 :: nat]"
    using upt_add_eq_append [of 0 20 60] upt_add_eq_append [of 20 40 40] upt_add_eq_append [of 40 60 20] by simp
  then show ?thesis by (simp only: fold_append o_apply abc_round1 abc_round2 abc_round3 abc_round4)
qed

text \<open>Known answer of RFC 3174: the code's SHA-1 digest of "abc".\<close>
theorem sha1_known_answer:
  "fst (SHAFinal True (sha_upd True (SHAInit ex_sha_ctx) [0x61, 0x62, 0x63])) =
   [0xa9, 0x99, 0x3e, 0x36, 0x47, 0x06, 0x81, 0x6a, 0xba, 0x3e, 0x25, 0x71, 0x78, 0x50, 0xc2, 0x6c, 0x9c, 0xd0, 0xd8, 0x9d]"
proof -
  have sh: "sha_shape ex_sha_ctx" by (simp add: sha_shape_def ex_sha_ctx_def)
  have l: "length (md_pad sha_len [0x61, 0x62, 0x63]) = 64" by (simp add: md_pad_def)
  have "sha_schedule (words_at (md_pad sha_len [0x61, 0x62, 0x63]) 20) = abc_schedule"
    unfolding sha_schedule_def abc_words by (rule abc_extend)
  then have "sha_block True sha_iv (md_pad sha_len [0x61, 0x62, 0x63]) = (0xa9993e36, 0x4706816a, 0xba3e2571, 0x7850c26c, 0x9cd0d89d)"
    unfolding sha_block_def SHATransform_def Let_def by (simp only: abc_steps not_True_eq_False if_False prod.case) simp
  then have "sha_ref [0x61, 0x62, 0x63] = sha_digest (0xa9993e36, 0x4706816a, 0xba3e2571, 0x7850c26c, 0x9cd0d89d)"
    using absorb_block [OF l, of "sha_block True" sha_iv "[]"] by (simp add: sha_ref_def)
  also have "\<dots> = [0xa9, 0x99, 0x3e, 0x36, 0x47, 0x06, 0x81, 0x6a, 0xba, 0x3e, 0x25, 0x71, 0x78, 0x50, 0xc2, 0x6c, 0x9c, 0xd0, 0xd8, 0x9d]"
    by code_simp
  finally show ?thesis using sha.one_piece(1) [OF sh, of "[0x61, 0x62, 0x63]"] by simp
qed

end
