(* ===== verification/Aes.thy ===== *)
theory Aes
  imports AesTables
begin

text \<open>
  The AES block cipher of \<open>rt3370/common/crypt_aes.c\<close>: \<open>RT_AES_KeyExpansion\<close>,
  \<open>RT_AES_Encrypt\<close> and \<open>RT_AES_Decrypt\<close>, for keys of 16, 24 and 32 bytes. \<open>State[r][c]\<close> is kept
  at index \<open>r + 4 * c\<close> of a list, so that the transfer of a block to the state and back is the
  identity; \<open>KeyWordExpansion[r][i]\<close> is byte \<open>r\<close> of word \<open>i\<close>. Decryption undoes encryption, and
  encryption is the cipher of FIPS 197.
\<close>

section \<open>The four transformations\<close>

definition sub_bytes :: "u8 list \<Rightarrow> u8 list" where
  "sub_bytes s = map (\<lambda>x. aes_sbox_enc ! unat x) s"

definition inv_sub_bytes :: "u8 list \<Rightarrow> u8 list" where
  "inv_sub_bytes s = map (\<lambda>x. aes_sbox_dec ! unat x) s"

definition shift_rows :: "u8 list \<Rightarrow> u8 list" where
  "shift_rows s =
    [s ! 0, s ! 5, s ! 10, s ! 15, s ! 4, s ! 9, s ! 14, s ! 3,
     s ! 8, s ! 13, s ! 2, s ! 7, s ! 12, s ! 1, s ! 6, s ! 11]"

definition inv_shift_rows :: "u8 list \<Rightarrow> u8 list" where
  "inv_shift_rows s =
    [s ! 0, s ! 13, s ! 10, s ! 7, s ! 4, s ! 1, s ! 14, s ! 11,
     s ! 8, s ! 5, s ! 2, s ! 15, s ! 12, s ! 9, s ! 6, s ! 3]"

definition mix_col :: "u8 \<Rightarrow> u8 \<Rightarrow> u8 \<Rightarrow> u8 \<Rightarrow> u8 list" where
  "mix_col Row0 Row1 Row2 Row3 =
    [aes_mul_2 ! unat Row0 XOR aes_mul_3 ! unat Row1 XOR Row2 XOR Row3,
     Row0 XOR aes_mul_2 ! unat Row1 XOR aes_mul_3 ! unat Row2 XOR Row3,
     Row0 XOR Row1 XOR aes_mul_2 ! unat Row2 XOR aes_mul_3 ! unat Row3,
     aes_mul_3 ! unat Row0 XOR Row1 XOR Row2 XOR aes_mul_2 ! unat Row3]"

definition inv_mix_col :: "u8 \<Rightarrow> u8 \<Rightarrow> u8 \<Rightarrow> u8 \<Rightarrow> u8 list" where
  "inv_mix_col Row0 Row1 Row2 Row3 =
    [aes_mul_e ! unat Row0 XOR aes_mul_b ! unat Row1 XOR aes_mul_d ! unat Row2 XOR aes_mul_9 ! unat Row3,
     aes_mul_9 ! unat Row0 XOR aes_mul_e ! unat Row1 XOR aes_mul_b ! unat Row2 XOR aes_mul_d ! unat Row3,
     aes_mul_d ! unat Row0 XOR aes_mul_9 ! unat Row1 XOR aes_mul_e ! unat Row2 XOR aes_mul_b ! unat Row3,
     aes_mul_b ! unat Row0 XOR aes_mul_d ! unat Row1 XOR aes_mul_9 ! unat Row2 XOR aes_mul_e ! unat Row3]"

definition on_columns :: "(u8 \<Rightarrow> u8 \<Rightarrow> u8 \<Rightarrow> u8 \<Rightarrow> u8 list) \<Rightarrow> u8 list \<Rightarrow> u8 list" where
  "on_columns f s = concat (map (\<lambda>c. f (s ! (4 * c)) (s ! (1 + 4 * c)) (s ! (2 + 4 * c)) (s ! (3 + 4 * c))) [0..<4])"

definition add_round_key :: "u8 list list \<Rightarrow> nat \<Rightarrow> u8 list \<Rightarrow> u8 list" where
  "add_round_key kw round s = map2 (XOR) s (concat (map (\<lambda>c. kw ! (round * 4 + c)) [0..<4]))"

section \<open>The key schedule\<close>

definition rot_sub_word :: "nat \<Rightarrow> u8 list \<Rightarrow> u8 list" where
  "rot_sub_word n t =
    (let Temprcon = aes_rcon ! n in
     [aes_sbox_enc ! unat (t ! 1) XOR ucast (drop_bit 24 Temprcon AND 0xff),
      aes_sbox_enc ! unat (t ! 2) XOR ucast (drop_bit 16 Temprcon AND 0xff),
      aes_sbox_enc ! unat (t ! 3) XOR ucast (drop_bit 8 Temprcon AND 0xff),
      aes_sbox_enc ! unat (t ! 0) XOR ucast (Temprcon AND 0xff)])"

text \<open>The second loop; the first argument is the number of words it still has to make.\<close>

fun expand_words :: "nat \<Rightarrow> nat \<Rightarrow> u8 list list \<Rightarrow> u8 list list" where
  "expand_words 0 Nk kw = kw"
| "expand_words (Suc n) Nk kw =
    (let i = length kw;
         t = kw ! (i - 1);
         t = (if i mod Nk = 0 then rot_sub_word (i div Nk) t
              else if Nk > 6 \<and> i mod Nk = 4 then sub_bytes t else t)
     in expand_words n Nk (kw @ [map2 (XOR) (kw ! (i - Nk)) t]))"

definition RT_AES_KeyExpansion :: "u8 list \<Rightarrow> u32 \<Rightarrow> u8 list list" where
  "RT_AES_KeyExpansion Key KeyLength =
    (let Nk = unat (drop_bit 2 KeyLength) in
     expand_words (4 * (Nk + 6 + 1) - Nk) Nk (map (\<lambda>i. [Key ! (4 * i), Key ! (4 * i + 1), Key ! (4 * i + 2), Key ! (4 * i + 3)]) [0..<Nk]))"

section \<open>The cipher\<close>

definition aes_round :: "u8 list list \<Rightarrow> nat \<Rightarrow> u8 list \<Rightarrow> u8 list" where
  "aes_round kw r s = add_round_key kw r (on_columns mix_col (shift_rows (sub_bytes s)))"

definition aes_rounds :: "u8 list list \<Rightarrow> nat \<Rightarrow> u8 list \<Rightarrow> u8 list" where
  "aes_rounds kw nr s = add_round_key kw nr (shift_rows (sub_bytes (fold (aes_round kw) [1..<nr] (add_round_key kw 0 s))))"

definition inv_round :: "u8 list list \<Rightarrow> nat \<Rightarrow> u8 list \<Rightarrow> u8 list" where
  "inv_round kw r s = on_columns inv_mix_col (add_round_key kw r (inv_sub_bytes (inv_shift_rows s)))"

definition inv_rounds :: "u8 list list \<Rightarrow> nat \<Rightarrow> u8 list \<Rightarrow> u8 list" where
  "inv_rounds kw nr s =
    add_round_key kw 0 (inv_sub_bytes (inv_shift_rows (fold (inv_round kw) (rev [1..<nr]) (add_round_key kw nr s))))"

definition key_length_ok :: "u32 \<Rightarrow> bool" where
  "key_length_ok KeyLength \<longleftrightarrow> KeyLength = 16 \<or> KeyLength = 24 \<or> KeyLength = 32"

text \<open>A refused call, and one whose context cannot be allocated (\<open>alloc\<close>), leaves the output block and
  its size as they were: nothing is reported to the caller. The last two arguments and the result are
  the output block and its size.\<close>

definition RT_AES_Encrypt :: "bool \<Rightarrow> u8 list \<Rightarrow> u32 \<Rightarrow> u8 list \<Rightarrow> u32 \<Rightarrow> u8 list \<Rightarrow> u32 \<Rightarrow> u8 list \<times> u32" where
  "RT_AES_Encrypt alloc PlainBlock PlainBlockSize Key KeyLength CipherBlock CipherBlockSize =
    (if PlainBlockSize \<noteq> 16 then (CipherBlock, CipherBlockSize)
     else if \<not> key_length_ok KeyLength then (CipherBlock, CipherBlockSize)
     else if CipherBlockSize < 16 then (CipherBlock, CipherBlockSize)
     else if \<not> alloc then (CipherBlock, CipherBlockSize)
     else (copy_at CipherBlock 0
             (aes_rounds (RT_AES_KeyExpansion Key KeyLength) (unat (drop_bit 2 KeyLength) + 6) (take 16 PlainBlock)), 16))"

definition RT_AES_Decrypt :: "bool \<Rightarrow> u8 list \<Rightarrow> u32 \<Rightarrow> u8 list \<Rightarrow> u32 \<Rightarrow> u8 list \<Rightarrow> u32 \<Rightarrow> u8 list \<times> u32" where
  "RT_AES_Decrypt alloc CipherBlock CipherBlockSize Key KeyLength PlainBlock PlainBlockSize =
    (if PlainBlockSize < 16 then (PlainBlock, PlainBlockSize)
     else if \<not> key_length_ok KeyLength then (PlainBlock, PlainBlockSize)
     else if CipherBlockSize \<noteq> 16 then (PlainBlock, PlainBlockSize)
     else if \<not> alloc then (PlainBlock, PlainBlockSize)
     else (copy_at PlainBlock 0
             (inv_rounds (RT_AES_KeyExpansion Key KeyLength) (unat (drop_bit 2 KeyLength) + 6) (take 16 CipherBlock)), 16))"

section \<open>Decryption undoes encryption\<close>

lemma inv_mix_mix:
  "inv_mix_col (mix_col a b c d ! 0) (mix_col a b c d ! 1) (mix_col a b c d ! 2) (mix_col a b c d ! 3) = [a, b, c, d]"
  by (simp add: inv_mix_col_def mix_col_def mul_tables times_values xtime_xor ac_simps xor_cancel)

lemma length16: "length (s :: 'a list) = 16 \<Longrightarrow> s = map ((!) s) [0, 1, 2, 3, 4, 5, 6, 7, 8, 9, 10, 11, 12, 13, 14, 15]"
proof -
  assume "length s = 16"
  then have "s = map ((!) s) [0..<16]" by (metis map_nth)
  moreover have "[0..<16] = [0, 1, 2, 3, 4, 5, 6, 7, 8, 9, 10, 11, 12, 13, 14, 15 :: nat]" by (simp add: upt_rec)
  ultimately show ?thesis by (simp only:)
qed

lemma transform_lengths [simp]:
  "length (shift_rows s) = 16" "length (inv_shift_rows s) = 16" "length (sub_bytes s) = length s"
  "length (inv_sub_bytes s) = length s" "length (on_columns mix_col s) = 16" "length (on_columns inv_mix_col s) = 16"
  by (simp_all add: shift_rows_def inv_shift_rows_def sub_bytes_def inv_sub_bytes_def on_columns_def mix_col_def inv_mix_col_def
      upt_rec)

lemma inv_sub_sub: "inv_sub_bytes (sub_bytes s) = s"
  by (simp add: inv_sub_bytes_def sub_bytes_def sbox_inverse o_def)

lemma inv_shift_shift: "length s = 16 \<Longrightarrow> inv_shift_rows (shift_rows s) = s"
proof -
  assume "length s = 16"
  moreover have "inv_shift_rows (shift_rows s) = map ((!) s) [0, 1, 2, 3, 4, 5, 6, 7, 8, 9, 10, 11, 12, 13, 14, 15]"
    by (simp add: inv_shift_rows_def shift_rows_def)
  ultimately show ?thesis using length16 [of s] by (simp only:)
qed

lemma upt4: "[0..<4] = [0, 1, 2, 3 :: nat]" by (simp add: upt_rec)

lemma on_columns_eq:
  "on_columns f s = f (s ! 0) (s ! 1) (s ! 2) (s ! 3) @ f (s ! 4) (s ! 5) (s ! 6) (s ! 7) @
     f (s ! 8) (s ! 9) (s ! 10) (s ! 11) @ f (s ! 12) (s ! 13) (s ! 14) (s ! 15)"
  by (simp add: on_columns_def upt4 numeral_2_eq_2)

lemma mix_col_list: "\<exists>p q r t. mix_col a b c d = [p, q, r, t]" by (simp add: mix_col_def)

lemma inv_mix_columns:
  assumes "length s = 16"
  shows "on_columns inv_mix_col (on_columns mix_col s) = s"
proof -
  have g: "inv_mix_col p q r t = [a, b, c, d]" if "mix_col a b c d = [p, q, r, t]" for a b c d p q r t
    using inv_mix_mix [of a b c d] unfolding that by simp
  obtain p0 q0 r0 t0 where c0: "mix_col (s ! 0) (s ! 1) (s ! 2) (s ! 3) = [p0, q0, r0, t0]" using mix_col_list by blast
  obtain p1 q1 r1 t1 where c1: "mix_col (s ! 4) (s ! 5) (s ! 6) (s ! 7) = [p1, q1, r1, t1]" using mix_col_list by blast
  obtain p2 q2 r2 t2 where c2: "mix_col (s ! 8) (s ! 9) (s ! 10) (s ! 11) = [p2, q2, r2, t2]" using mix_col_list by blast
  obtain p3 q3 r3 t3 where c3: "mix_col (s ! 12) (s ! 13) (s ! 14) (s ! 15) = [p3, q3, r3, t3]" using mix_col_list by blast
  have "on_columns mix_col s = [p0, q0, r0, t0, p1, q1, r1, t1, p2, q2, r2, t2, p3, q3, r3, t3]"
    unfolding on_columns_eq c0 c1 c2 c3 by simp
  then have "on_columns inv_mix_col (on_columns mix_col s) = map ((!) s) [0, 1, 2, 3, 4, 5, 6, 7, 8, 9, 10, 11, 12, 13, 14, 15]"
    using g [OF c0] g [OF c1] g [OF c2] g [OF c3] by (simp add: on_columns_eq [of inv_mix_col])
  then show ?thesis using length16 [OF assms] by (simp only:)
qed

text \<open>A key schedule: words of four bytes.\<close>

definition words_ok :: "nat \<Rightarrow> u8 list list \<Rightarrow> bool" where
  "words_ok n kw \<longleftrightarrow> length kw = n \<and> (\<forall>w\<in>set kw. length w = 4)"

lemma round_key_length: "words_ok n kw \<Longrightarrow> round * 4 + 4 \<le> n \<Longrightarrow> length (concat (map (\<lambda>c. kw ! (round * 4 + c)) [0..<4])) = 16"
  by (simp add: upt4 words_ok_def)

lemma xor_twice: "length k = length s \<Longrightarrow> map2 (XOR) (map2 (XOR) s k) k = (s :: u8 list)"
  by (induction k s rule: list_induct2) (simp_all add: xor.assoc)

lemma add_round_key_twice:
  assumes "words_ok n kw" "round * 4 + 4 \<le> n" "length s = 16"
  shows "add_round_key kw round (add_round_key kw round s) = s" and "length (add_round_key kw round s) = 16"
  using round_key_length [OF assms(1,2)] assms(3) xor_twice by (simp_all add: add_round_key_def)

lemma inv_round_round:
  assumes "words_ok n kw" "r * 4 + 4 \<le> n" "length s = 16"
  shows "inv_round kw r (shift_rows (sub_bytes (aes_round kw r s))) = shift_rows (sub_bytes s)"
    and "length (aes_round kw r s) = 16"
  using add_round_key_twice [OF assms(1,2)] assms(3)
  by (simp_all add: inv_round_def aes_round_def inv_shift_shift inv_sub_sub inv_mix_columns)

lemma rounds_back:
  assumes "words_ok n kw" "k * 4 \<le> n" "length s = 16"
  shows "fold (inv_round kw) (rev [1..<k]) (shift_rows (sub_bytes (fold (aes_round kw) [1..<k] s))) = shift_rows (sub_bytes s) \<and>
    length (fold (aes_round kw) [1..<k] s) = 16"
  using assms(2)
proof (induction k)
  case (Suc k)
  show ?case
  proof (cases "k = 0")
    case True
    then show ?thesis using assms(3) by simp
  next
    case False
    then have e: "[1..<Suc k] = [1..<k] @ [k]" by simp
    have I: "fold (inv_round kw) (rev [1..<k]) (shift_rows (sub_bytes (fold (aes_round kw) [1..<k] s))) = shift_rows (sub_bytes s)"
      "length (fold (aes_round kw) [1..<k] s) = 16" using Suc by auto
    note R = inv_round_round [OF assms(1) _ I(2), of k]
    show ?thesis unfolding e using R Suc.prems I by (simp del: upt_Suc)
  qed
qed (use assms(3) in simp)

lemma inv_rounds_rounds:
  assumes "words_ok n kw" "nr * 4 + 4 \<le> n" "length s = 16"
  shows "inv_rounds kw nr (aes_rounds kw nr s) = s" and "length (aes_rounds kw nr s) = 16"
proof -
  have A0: "add_round_key kw 0 (add_round_key kw 0 s) = s" "length (add_round_key kw 0 s) = 16"
    using add_round_key_twice [of n kw 0 s] assms by simp_all
  note B = rounds_back [OF assms(1) _ A0(2), of nr]
  let ?f = "fold (aes_round kw) [1..<nr] (add_round_key kw 0 s)"
  have A1: "add_round_key kw nr (add_round_key kw nr (shift_rows (sub_bytes ?f))) = shift_rows (sub_bytes ?f)"
    "length (add_round_key kw nr (shift_rows (sub_bytes ?f))) = 16"
    using add_round_key_twice [OF assms(1,2), of "shift_rows (sub_bytes ?f)"] by simp_all
  show "inv_rounds kw nr (aes_rounds kw nr s) = s" "length (aes_rounds kw nr s) = 16"
    using A0 A1 B assms(2) by (simp_all add: inv_rounds_def aes_rounds_def inv_shift_shift inv_sub_sub)
qed

lemma expand_words_ok:
  assumes "words_ok m kw" "0 < Nk" "Nk \<le> m"
  shows "words_ok (m + n) (expand_words n Nk kw)"
  using assms(1,3)
proof (induction n arbitrary: kw m)
  case (Suc n)
  let ?t = "if length kw mod Nk = 0 then rot_sub_word (length kw div Nk) (kw ! (length kw - 1))
    else if Nk > 6 \<and> length kw mod Nk = 4 then sub_bytes (kw ! (length kw - 1)) else kw ! (length kw - 1)"
  have l: "length kw = m" using Suc.prems by (simp add: words_ok_def)
  have "kw ! (length kw - 1) \<in> set kw" "kw ! (length kw - Nk) \<in> set kw"
    using l Suc.prems(2) assms(2) by (intro nth_mem; linarith)+
  then have "length (kw ! (length kw - 1)) = 4" "length (kw ! (length kw - Nk)) = 4"
    using Suc.prems(1) by (auto simp: words_ok_def)
  then have "length (map2 (XOR) (kw ! (length kw - Nk)) ?t) = 4" by (simp add: rot_sub_word_def Let_def)
  then have "words_ok (Suc m) (kw @ [map2 (XOR) (kw ! (length kw - Nk)) ?t])"
    using Suc.prems(1) by (simp add: words_ok_def)
  from Suc.IH [OF this] Suc.prems(2)
  have "words_ok (Suc m + n) (expand_words n Nk (kw @ [map2 (XOR) (kw ! (length kw - Nk)) ?t]))" by simp
  then show ?case by (simp only: expand_words.simps Let_def add_Suc_right add_Suc)
qed simp

lemma key_expansion_ok:
  assumes "key_length_ok KeyLength"
  shows "words_ok (4 * (unat (drop_bit 2 KeyLength) + 7)) (RT_AES_KeyExpansion Key KeyLength)"
proof -
  define Nk where "Nk = unat (drop_bit 2 KeyLength)"
  have N: "Nk = 4 \<or> Nk = 6 \<or> Nk = 8" using assms by (auto simp: key_length_ok_def Nk_def)
  have "words_ok Nk (map (\<lambda>i. [Key ! (4 * i), Key ! (4 * i + 1), Key ! (4 * i + 2), Key ! (4 * i + 3)]) [0..<Nk])"
    by (auto simp: words_ok_def)
  moreover have "0 < Nk" using N by auto
  ultimately have "words_ok (Nk + (4 * (Nk + 7) - Nk)) (expand_words (4 * (Nk + 7) - Nk) Nk
      (map (\<lambda>i. [Key ! (4 * i), Key ! (4 * i + 1), Key ! (4 * i + 2), Key ! (4 * i + 3)]) [0..<Nk]))"
    by (rule expand_words_ok) simp
  then have "words_ok (Nk + (4 * (Nk + 7) - Nk)) (RT_AES_KeyExpansion Key KeyLength)"
    by (simp add: RT_AES_KeyExpansion_def Nk_def [symmetric])
  moreover have "Nk + (4 * (Nk + 7) - Nk) = 4 * (Nk + 7)" by simp
  ultimately show ?thesis by (simp only: Nk_def)
qed

section \<open>The cipher of FIPS 197\<close>

text \<open>The reference works on a matrix, a function of row and column; the key schedule is a recursion on
  the index of the word, with the round constants as powers of x.\<close>

type_synonym matrix = "nat \<Rightarrow> nat \<Rightarrow> u8"

definition fips_sub_word :: "u8 list \<Rightarrow> u8 list" where "fips_sub_word w = map (\<lambda>x. aes_sbox_enc ! unat x) w"
definition fips_rot_word :: "u8 list \<Rightarrow> u8 list" where "fips_rot_word w = [w ! 1, w ! 2, w ! 3, w ! 0]"
definition fips_rcon :: "nat \<Rightarrow> u8 list" where "fips_rcon i = [(xtime ^^ (i - 1)) 1, 0, 0, 0]"

function fips_word :: "u8 list \<Rightarrow> nat \<Rightarrow> nat \<Rightarrow> u8 list" where
  "fips_word Key Nk i =
    (if Nk = 0 \<or> i < Nk then [Key ! (4 * i), Key ! (4 * i + 1), Key ! (4 * i + 2), Key ! (4 * i + 3)]
     else
       let temp = fips_word Key Nk (i - 1);
           temp = (if i mod Nk = 0 then map2 (XOR) (fips_sub_word (fips_rot_word temp)) (fips_rcon (i div Nk))
                   else if Nk > 6 \<and> i mod Nk = 4 then fips_sub_word temp else temp)
       in map2 (XOR) (fips_word Key Nk (i - Nk)) temp)"
  by pat_completeness auto
termination by (relation "measure (\<lambda>(_, _, i). i)") auto

declare fips_word.simps [simp del]

definition fips_sub :: "matrix \<Rightarrow> matrix" where "fips_sub s = (\<lambda>r c. aes_sbox_enc ! unat (s r c))"
definition fips_shift :: "matrix \<Rightarrow> matrix" where "fips_shift s = (\<lambda>r c. s r ((c + r) mod 4))"

text \<open>The matrix of the column transformation is circulant, with first row 2, 3, 1, 1.\<close>

definition fips_mix :: "matrix \<Rightarrow> matrix" where
  "fips_mix s = (\<lambda>r c. foldr (\<lambda>k a. times ([2, 3, 1, 1] ! ((k + 4 - r) mod 4)) (s k c) XOR a) [0..<4] 0)"

definition fips_add :: "(nat \<Rightarrow> u8 list) \<Rightarrow> nat \<Rightarrow> matrix \<Rightarrow> matrix" where
  "fips_add w round s = (\<lambda>r c. s r c XOR w (4 * round + c) ! r)"

definition fips_round :: "(nat \<Rightarrow> u8 list) \<Rightarrow> nat \<Rightarrow> matrix \<Rightarrow> matrix" where
  "fips_round w round s = fips_add w round (fips_mix (fips_shift (fips_sub s)))"

definition fips_cipher :: "u8 list \<Rightarrow> u8 list \<Rightarrow> u8 list" where
  "fips_cipher Key bs =
    (let Nk = length Key div 4; nr = Nk + 6; w = fips_word Key Nk;
         s = fips_add w 0 (\<lambda>r c. bs ! (r + 4 * c));
         s = fold (fips_round w) [1..<nr] s;
         s = fips_add w nr (fips_shift (fips_sub s))
     in map (\<lambda>i. s (i mod 4) (i div 4)) [0..<16])"

text \<open>A list of sixteen bytes and the matrix it stands for.\<close>

definition stands_for :: "u8 list \<Rightarrow> matrix \<Rightarrow> bool" where
  "stands_for s m \<longleftrightarrow> length s = 16 \<and> (\<forall>r<4. \<forall>c<4. s ! (r + 4 * c) = m r c)"

lemma less4: "(\<forall>r<4. P r) \<longleftrightarrow> P 0 \<and> P 1 \<and> P 2 \<and> P (3::nat)"
proof -
  have "r < 4 \<longleftrightarrow> r = 0 \<or> r = 1 \<or> r = 2 \<or> r = 3" for r :: nat by linarith
  then show ?thesis by auto
qed

lemma stands_for_eq:
  "stands_for s m \<longleftrightarrow> s = [m 0 0, m 1 0, m 2 0, m 3 0, m 0 1, m 1 1, m 2 1, m 3 1, m 0 2, m 1 2, m 2 2, m 3 2,
     m 0 3, m 1 3, m 2 3, m 3 3]" (is "_ \<longleftrightarrow> s = ?l")
proof
  assume "stands_for s m"
  then have "length s = 16" "map ((!) s) [0, 1, 2, 3, 4, 5, 6, 7, 8, 9, 10, 11, 12, 13, 14, 15] = ?l"
    unfolding stands_for_def less4 by simp_all
  then show "s = ?l" using length16 [of s] by (simp only:)
next
  assume e: "s = ?l"
  show "stands_for s m" unfolding stands_for_def less4 e by simp
qed

lemma sub_stands: "stands_for s m \<Longrightarrow> stands_for (sub_bytes s) (fips_sub m)"
  unfolding stands_for_eq by (simp add: sub_bytes_def fips_sub_def)

lemma shift_stands: "stands_for s m \<Longrightarrow> stands_for (shift_rows s) (fips_shift m)"
  unfolding stands_for_eq by (simp add: shift_rows_def fips_shift_def del: One_nat_def) (simp add: numeral_2_eq_2)

lemma times_1: "times (Suc 0) x = x" by (simp add: times_def bit_0)

lemma mix_stands: "stands_for s m \<Longrightarrow> stands_for (on_columns mix_col s) (fips_mix m)"
  unfolding stands_for_eq on_columns_eq by (simp add: mix_col_def fips_mix_def upt4 mul_tables times_1 ac_simps numeral_2_eq_2)

lemma add_stands:
  assumes "stands_for s m" "words_ok n kw" "round * 4 + 4 \<le> n" "\<And>i. i < n \<Longrightarrow> kw ! i = w i"
  shows "stands_for (add_round_key kw round s) (fips_add w round m)"
proof -
  have l: "\<exists>a b c d. kw ! i = [a, b, c, d]" if "i < n" for i
  proof -
    have "length (kw ! i) = 4" using assms(2) that by (auto simp: words_ok_def)
    then show ?thesis by (auto simp: numeral_eq_Suc length_Suc_conv)
  qed
  obtain a0 b0 c0 d0 where 0: "kw ! (round * 4) = [a0, b0, c0, d0]" using l [of "round * 4"] assms(3) by auto
  obtain a1 b1 c1 d1 where 1: "kw ! (round * 4 + 1) = [a1, b1, c1, d1]" using l [of "round * 4 + 1"] assms(3) by auto
  obtain a2 b2 c2 d2 where 2: "kw ! (round * 4 + 2) = [a2, b2, c2, d2]" using l [of "round * 4 + 2"] assms(3) by auto
  obtain a3 b3 c3 d3 where 3: "kw ! (round * 4 + 3) = [a3, b3, c3, d3]" using l [of "round * 4 + 3"] assms(3) by auto
  have w: "w (4 * round) = kw ! (round * 4)" "w (4 * round + 1) = kw ! (round * 4 + 1)"
    "w (4 * round + 2) = kw ! (round * 4 + 2)" "w (4 * round + 3) = kw ! (round * 4 + 3)"
    using assms(3,4) by (simp_all add: mult.commute)
  have k: "concat (map (\<lambda>c. kw ! (round * 4 + c)) [0..<4]) =
      [a0, b0, c0, d0, a1, b1, c1, d1, a2, b2, c2, d2, a3, b3, c3, d3]"
    unfolding upt4 using 0 1 2 3 by simp
  show ?thesis
    using assms(1) unfolding add_round_key_def k stands_for_eq fips_add_def
    using w 0 1 2 3 by simp
qed

lemma rcon_words: "list_all (\<lambda>n. aes_rcon ! n = push_bit 24 (ucast ((xtime ^^ (n - 1)) 1))) [1, 2, 3, 4, 5, 6, 7, 8, 9, 10]"
  by code_simp

lemma rcon_word: "1 \<le> n \<Longrightarrow> n \<le> 10 \<Longrightarrow> aes_rcon ! n = push_bit 24 (ucast ((xtime ^^ (n - 1)) 1))"
proof -
  assume "1 \<le> n" "n \<le> 10"
  then have "n \<in> set [1, 2, 3, 4, 5, 6, 7, 8, 9, 10]" by (simp only: list.set insert_iff empty_iff) arith
  then show ?thesis using rcon_words unfolding list_all_iff by blast
qed

lemma rot_sub_fips:
  assumes "1 \<le> n" "n \<le> 10"
  shows "rot_sub_word n t = map2 (XOR) (fips_sub_word (fips_rot_word t)) (fips_rcon n)"
proof -
  have b: "ucast (drop_bit 24 (push_bit 24 (ucast x)) AND 0xff :: u32) = x"
    "ucast (drop_bit 16 (push_bit 24 (ucast x)) AND 0xff :: u32) = (0::u8)"
    "ucast (drop_bit 8 (push_bit 24 (ucast x)) AND 0xff :: u32) = (0::u8)"
    "ucast (push_bit 24 (ucast x) AND 0xff :: u32) = (0::u8)" for x :: u8
  proof -
    have m: "(0xff :: u32) = mask 8" by (simp add: mask_eq_exp_minus_1)
    show "ucast (drop_bit 24 (push_bit 24 (ucast x)) AND 0xff :: u32) = x"
      "ucast (drop_bit 16 (push_bit 24 (ucast x)) AND 0xff :: u32) = (0::u8)"
      "ucast (drop_bit 8 (push_bit 24 (ucast x)) AND 0xff :: u32) = (0::u8)"
      "ucast (push_bit 24 (ucast x) AND 0xff :: u32) = (0::u8)"
      unfolding m by (rule bit_word_eqI; auto simp: bit_ucast_iff bit_and_iff bit_mask_iff bit_drop_bit_eq bit_push_bit_iff)+
  qed
  show ?thesis
    unfolding rot_sub_word_def Let_def rcon_word [OF assms] b
    by (simp add: fips_sub_word_def fips_rot_word_def fips_rcon_def)
qed

lemma expand_fips:
  assumes "0 < Nk" "Nk \<le> length kw" "\<And>i. i < length kw \<Longrightarrow> kw ! i = fips_word Key Nk i" "length kw + n \<le> 11 * Nk"
    and "i < length kw + n"
  shows "expand_words n Nk kw ! i = fips_word Key Nk i"
  using assms(2-5)
proof (induction n arbitrary: kw)
  case (Suc n)
  let ?l = "length kw"
  let ?t = "if ?l mod Nk = 0 then rot_sub_word (?l div Nk) (kw ! (?l - 1))
    else if Nk > 6 \<and> ?l mod Nk = 4 then sub_bytes (kw ! (?l - 1)) else kw ! (?l - 1)"
  have q: "1 \<le> ?l div Nk" "?l div Nk \<le> 10"
  proof -
    show "1 \<le> ?l div Nk" using Suc.prems(1) assms(1) by (simp add: Suc_le_eq div_greater_zero_iff)
    have "?l < 11 * Nk" using Suc.prems(3) by simp
    then have "?l div Nk < 11" using assms(1) by (simp add: less_mult_imp_div_less)
    then show "?l div Nk \<le> 10" by simp
  qed
  have k1: "kw ! (?l - 1) = fips_word Key Nk (?l - 1)" "kw ! (?l - Nk) = fips_word Key Nk (?l - Nk)"
    using Suc.prems(1) assms(1) by (intro Suc.prems(2); linarith)+
  have n: "map2 (XOR) (kw ! (?l - Nk)) ?t = fips_word Key Nk ?l"
    using Suc.prems(1) assms(1)
    by (subst fips_word.simps) (auto simp: Let_def k1 [unfolded One_nat_def] rot_sub_fips [OF q] fips_sub_word_def sub_bytes_def)
  have "expand_words n Nk (kw @ [map2 (XOR) (kw ! (?l - Nk)) ?t]) ! i = fips_word Key Nk i"
  proof (rule Suc.IH)
    fix j
    assume "j < length (kw @ [map2 (XOR) (kw ! (?l - Nk)) ?t])"
    then show "(kw @ [map2 (XOR) (kw ! (?l - Nk)) ?t]) ! j = fips_word Key Nk j"
      unfolding n using Suc.prems(2) by (cases "j = ?l") (simp_all add: nth_append)
  qed (use Suc.prems in simp_all)
  then show ?case by (simp only: expand_words.simps Let_def)
qed simp

lemma schedule_fips:
  assumes "key_length_ok KeyLength" "i < 4 * (unat (drop_bit 2 KeyLength) + 7)"
  shows "RT_AES_KeyExpansion Key KeyLength ! i = fips_word Key (unat (drop_bit 2 KeyLength)) i"
proof -
  define Nk where "Nk = unat (drop_bit 2 KeyLength)"
  have N: "Nk = 4 \<or> Nk = 6 \<or> Nk = 8" using assms(1) by (auto simp: key_length_ok_def Nk_def)
  let ?kw = "map (\<lambda>i. [Key ! (4 * i), Key ! (4 * i + 1), Key ! (4 * i + 2), Key ! (4 * i + 3)]) [0..<Nk]"
  have "expand_words (4 * (Nk + 6 + 1) - Nk) Nk ?kw ! i = fips_word Key Nk i"
  proof (rule expand_fips)
    fix j
    assume "j < length ?kw"
    then show "?kw ! j = fips_word Key Nk j" by (subst fips_word.simps) simp
  qed (use N assms(2) Nk_def in auto)
  then show ?thesis by (simp only: RT_AES_KeyExpansion_def Let_def Nk_def)
qed

lemma rounds_stand:
  assumes "stands_for s m" "words_ok n kw" "k * 4 \<le> n" "\<And>i. i < n \<Longrightarrow> kw ! i = w i"
  shows "stands_for (fold (aes_round kw) [1..<k] s) (fold (fips_round w) [1..<k] m)"
  using assms(3)
proof (induction k)
  case (Suc k)
  show ?case
  proof (cases "k = 0")
    case False
    then have e: "[1..<Suc k] = [1..<k] @ [k]" by simp
    have "stands_for (fold (aes_round kw) [1..<k] s) (fold (fips_round w) [1..<k] m)" using Suc by simp
    moreover have "k * 4 + 4 \<le> n" using Suc.prems by simp
    ultimately have "stands_for (add_round_key kw k (on_columns mix_col (shift_rows (sub_bytes (fold (aes_round kw) [1..<k] s)))))
        (fips_add w k (fips_mix (fips_shift (fips_sub (fold (fips_round w) [1..<k] m)))))"
      by (intro add_stands [OF _ assms(2)] mix_stands shift_stands sub_stands assms(4))
    then show ?thesis
      by (simp only: e fold_append fold_simps o_apply id_apply aes_round_def [of kw k] fips_round_def [of w k])
  qed (use assms(1) in simp)
qed (use assms(1) in simp)

lemma aes_rounds_fips:
  assumes "key_length_ok KeyLength" "length Key = unat KeyLength" "length bs = 16"
  shows "aes_rounds (RT_AES_KeyExpansion Key KeyLength) (unat (drop_bit 2 KeyLength) + 6) bs = fips_cipher Key bs"
proof -
  define Nk where "Nk = unat (drop_bit 2 KeyLength)"
  have N: "length Key div 4 = Nk" using assms(1,2) by (auto simp: key_length_ok_def Nk_def)
  let ?kw = "RT_AES_KeyExpansion Key KeyLength" and ?w = "fips_word Key Nk"
  note K = key_expansion_ok [OF assms(1), of Key, folded Nk_def]
  have W: "?kw ! i = ?w i" if "i < 4 * (Nk + 7)" for i using schedule_fips [OF assms(1)] that by (simp add: Nk_def)
  have "stands_for bs (\<lambda>r c. bs ! (r + 4 * c))" using assms(3) by (simp add: stands_for_def)
  from add_stands [OF this K _ W, of 0]
  have "stands_for (add_round_key ?kw 0 bs) (fips_add ?w 0 (\<lambda>r c. bs ! (r + 4 * c)))" by simp
  from rounds_stand [OF this K _ W, of "Nk + 6"]
  have "stands_for (fold (aes_round ?kw) [1..<Nk + 6] (add_round_key ?kw 0 bs))
    (fold (fips_round ?w) [1..<Nk + 6] (fips_add ?w 0 (\<lambda>r c. bs ! (r + 4 * c))))" by simp
  from add_stands [OF shift_stands [OF sub_stands [OF this]] K _ W, of "Nk + 6"]
  have "stands_for (aes_rounds ?kw (Nk + 6) bs)
    (fips_add ?w (Nk + 6) (fips_shift (fips_sub (fold (fips_round ?w) [1..<Nk + 6] (fips_add ?w 0 (\<lambda>r c. bs ! (r + 4 * c)))))))"
    by (simp add: aes_rounds_def)
  moreover have "map (\<lambda>i. m (i mod 4) (i div 4)) [0..<16] = s" if "stands_for s m" for s m
  proof -
    have "[0..<16] = [0, 1, 2, 3, 4, 5, 6, 7, 8, 9, 10, 11, 12, 13, 14, 15 :: nat]" by (simp add: upt_rec)
    then show ?thesis using that unfolding stands_for_eq by (simp only: list.map) simp
  qed
  ultimately show ?thesis unfolding fips_cipher_def Let_def N Nk_def [symmetric] by simp
qed

section \<open>The properties\<close>

lemma rt_encrypt:
  assumes "key_length_ok KeyLength" "length Key = unat KeyLength" "length bs = 16" "16 \<le> CipherBlockSize"
  shows "RT_AES_Encrypt True bs 16 Key KeyLength CipherBlock CipherBlockSize = (copy_at CipherBlock 0 (fips_cipher Key bs), 16)"
  using assms aes_rounds_fips [OF assms(1-3)] by (auto simp: RT_AES_Encrypt_def dest: leD)

lemma fips_cipher_length [simp]: "length (fips_cipher Key bs) = 16" by (simp add: fips_cipher_def Let_def)

text \<open>C4: For a key of 16, 24 or 32 bytes the encryption is the cipher of FIPS 197, written over the first
  sixteen bytes of the output block.\<close>
theorem aes_encrypt_fips:
  assumes "KeyLength = 16 \<or> KeyLength = 24 \<or> KeyLength = 32" "length Key = unat KeyLength" "length PlainBlock = 16"
    and "16 \<le> CipherBlockSize"
  shows "RT_AES_Encrypt True PlainBlock 16 Key KeyLength CipherBlock CipherBlockSize =
    (fips_cipher Key PlainBlock @ drop 16 CipherBlock, 16)"
  using rt_encrypt [of KeyLength Key PlainBlock] assms by (simp add: key_length_ok_def copy_at_def)

theorem aes_encrypt_fips_witness:
  "RT_AES_Encrypt True (replicate 16 1) 16 (replicate 24 2) 24 (replicate 16 0) 16 = (fips_cipher (replicate 24 2) (replicate 16 1), 16)"
  using aes_encrypt_fips [of 24 "replicate 24 2" "replicate 16 1" 16 "replicate 16 0"] by (simp del: replicate.simps)

text \<open>C24: Decryption gives back every encrypted block, for all three key lengths.\<close>
theorem aes_roundtrip:
  assumes "KeyLength = 16 \<or> KeyLength = 24 \<or> KeyLength = 32" "length b = 16" "length c0 = 16" "length p0 = 16"
  shows "fst (RT_AES_Decrypt True (fst (RT_AES_Encrypt True b 16 Key KeyLength c0 16)) 16 Key KeyLength p0 16) = b"
proof -
  have k: "key_length_ok KeyLength" using assms(1) by (simp add: key_length_ok_def)
  define nr where "nr = unat (drop_bit 2 KeyLength) + 6"
  have "nr * 4 + 4 \<le> 4 * (unat (drop_bit 2 KeyLength) + 7)" by (simp add: nr_def)
  note R = inv_rounds_rounds [OF key_expansion_ok [OF k, of Key] this assms(2)]
  show ?thesis
    using R assms(2-4) k by (simp add: RT_AES_Encrypt_def RT_AES_Decrypt_def copy_at_def nr_def)
qed

theorem aes_roundtrip_witness:
  "fst (RT_AES_Decrypt True (fst (RT_AES_Encrypt True (replicate 16 7) 16 (replicate 32 9) 32 (replicate 16 0) 16)) 16
     (replicate 32 9) 32 (replicate 16 1) 16) = replicate 16 7"
  using aes_roundtrip [of 32 "replicate 16 7" "replicate 16 0" "replicate 16 1" "replicate 32 9"] by (simp del: replicate.simps)

text \<open>Every refusal, and a failed allocation, returns without a sign: the output block and its size stay
  what they were, for both directions.\<close>
theorem aes_refusals_silent:
  assumes "n \<noteq> 16 \<or> (KeyLength \<noteq> 16 \<and> KeyLength \<noteq> 24 \<and> KeyLength \<noteq> 32) \<or> m < 16 \<or> \<not> alloc"
  shows "RT_AES_Encrypt alloc b n Key KeyLength c m = (c, m) \<and> RT_AES_Decrypt alloc b n Key KeyLength c m = (c, m)"
  using assms by (auto simp: RT_AES_Encrypt_def RT_AES_Decrypt_def key_length_ok_def)

theorem aes_refusals_silent_witness: "RT_AES_Encrypt False [1] 16 [2] 16 [3] 16 = ([3], 16) \<and> RT_AES_Encrypt True [1] 16 [2] 20 [3] 16 = ([3], 16)"
  using aes_refusals_silent [of 16 16 16 False "[1]" "[2]" "[3]"] aes_refusals_silent [of 16 20 16 True "[1]" "[2]" "[3]"] by simp

section \<open>A known answer\<close>

definition ex_schedule :: "u8 list list" where
  "ex_schedule =
   [[0x2b, 0x7e, 0x15, 0x16], [0x28, 0xae, 0xd2, 0xa6], [0xab, 0xf7, 0x15, 0x88], [0x09, 0xcf, 0x4f, 0x3c],
    [0xa0, 0xfa, 0xfe, 0x17], [0x88, 0x54, 0x2c, 0xb1], [0x23, 0xa3, 0x39, 0x39], [0x2a, 0x6c, 0x76, 0x05],
    [0xf2, 0xc2, 0x95, 0xf2], [0x7a, 0x96, 0xb9, 0x43], [0x59, 0x35, 0x80, 0x7a], [0x73, 0x59, 0xf6, 0x7f],
    [0x3d, 0x80, 0x47, 0x7d], [0x47, 0x16, 0xfe, 0x3e], [0x1e, 0x23, 0x7e, 0x44], [0x6d, 0x7a, 0x88, 0x3b],
    [0xef, 0x44, 0xa5, 0x41], [0xa8, 0x52, 0x5b, 0x7f], [0xb6, 0x71, 0x25, 0x3b], [0xdb, 0x0b, 0xad, 0x00],
    [0xd4, 0xd1, 0xc6, 0xf8], [0x7c, 0x83, 0x9d, 0x87], [0xca, 0xf2, 0xb8, 0xbc], [0x11, 0xf9, 0x15, 0xbc],
    [0x6d, 0x88, 0xa3, 0x7a], [0x11, 0x0b, 0x3e, 0xfd], [0xdb, 0xf9, 0x86, 0x41], [0xca, 0x00, 0x93, 0xfd],
    [0x4e, 0x54, 0xf7, 0x0e], [0x5f, 0x5f, 0xc9, 0xf3], [0x84, 0xa6, 0x4f, 0xb2], [0x4e, 0xa6, 0xdc, 0x4f],
    [0xea, 0xd2, 0x73, 0x21], [0xb5, 0x8d, 0xba, 0xd2], [0x31, 0x2b, 0xf5, 0x60], [0x7f, 0x8d, 0x29, 0x2f],
    [0xac, 0x77, 0x66, 0xf3], [0x19, 0xfa, 0xdc, 0x21], [0x28, 0xd1, 0x29, 0x41], [0x57, 0x5c, 0x00, 0x6e],
    [0xd0, 0x14, 0xf9, 0xa8], [0xc9, 0xee, 0x25, 0x89], [0xe1, 0x3f, 0x0c, 0xc8], [0xb6, 0x63, 0x0c, 0xa6]]"

definition ex_key :: "u8 list" where "ex_key = [0x2b, 0x7e, 0x15, 0x16, 0x28, 0xae, 0xd2, 0xa6, 0xab, 0xf7, 0x15, 0x88, 0x09, 0xcf, 0x4f, 0x3c]"

lemma expand_words_add: "expand_words (m + n) Nk kw = expand_words n Nk (expand_words m Nk kw)"
  by (induction m arbitrary: kw) (simp_all add: Let_def)

lemma ex_words0: "map (\<lambda>i. [ex_key ! (4 * i), ex_key ! (4 * i + 1), ex_key ! (4 * i + 2), ex_key ! (4 * i + 3)]) [0..<4] = take 4 ex_schedule"
  by code_simp
lemma ex_words4: "expand_words 8 4 (take 4 ex_schedule) = take 12 ex_schedule" by code_simp
lemma ex_words12: "expand_words 8 4 (take 12 ex_schedule) = take 20 ex_schedule" by code_simp
lemma ex_words20: "expand_words 8 4 (take 20 ex_schedule) = take 28 ex_schedule" by code_simp
lemma ex_words28: "expand_words 8 4 (take 28 ex_schedule) = take 36 ex_schedule" by code_simp
lemma ex_words36: "expand_words 8 4 (take 36 ex_schedule) = take 44 ex_schedule" by code_simp

lemma ex_schedule: "RT_AES_KeyExpansion ex_key 16 = ex_schedule"
proof -
  have "expand_words (8 + (8 + (8 + (8 + 8)))) 4 (take 4 ex_schedule) = take 44 ex_schedule"
    by (simp only: expand_words_add ex_words4 ex_words12 ex_words20 ex_words28 ex_words36)
  moreover have "take 44 ex_schedule = ex_schedule" by (rule take_all) (simp add: ex_schedule_def)
  moreover have "unat (drop_bit 2 (16 :: u32)) = 4" by simp
  moreover have "(8 + (8 + (8 + (8 + 8))) :: nat) = 4 * (4 + 6 + 1) - 4" by simp
  ultimately show ?thesis by (simp only: RT_AES_KeyExpansion_def Let_def ex_words0)
qed

lemma ex_rounds1: "fold (aes_round ex_schedule) [1..<4]
    [0x19, 0x3d, 0xe3, 0xbe, 0xa0, 0xf4, 0xe2, 0x2b, 0x9a, 0xc6, 0x8d, 0x2a, 0xe9, 0xf8, 0x48, 0x08] =
    [0x48, 0x6c, 0x4e, 0xee, 0x67, 0x1d, 0x9d, 0x0d, 0x4d, 0xe3, 0xb1, 0x38, 0xd6, 0x5f, 0x58, 0xe7]"
  by code_simp

lemma ex_rounds2: "fold (aes_round ex_schedule) [4..<7]
    [0x48, 0x6c, 0x4e, 0xee, 0x67, 0x1d, 0x9d, 0x0d, 0x4d, 0xe3, 0xb1, 0x38, 0xd6, 0x5f, 0x58, 0xe7] =
    [0x26, 0x0e, 0x2e, 0x17, 0x3d, 0x41, 0xb7, 0x7d, 0xe8, 0x64, 0x72, 0xa9, 0xfd, 0xd2, 0x8b, 0x25]"
  by code_simp

lemma ex_rounds3: "fold (aes_round ex_schedule) [7..<10]
    [0x26, 0x0e, 0x2e, 0x17, 0x3d, 0x41, 0xb7, 0x7d, 0xe8, 0x64, 0x72, 0xa9, 0xfd, 0xd2, 0x8b, 0x25] =
    [0xeb, 0x40, 0xf2, 0x1e, 0x59, 0x2e, 0x38, 0x84, 0x8b, 0xa1, 0x13, 0xe7, 0x1b, 0xc3, 0x42, 0xd2]"
  by code_simp

lemma ex_first: "add_round_key ex_schedule 0 [0x32, 0x43, 0xf6, 0xa8, 0x88, 0x5a, 0x30, 0x8d, 0x31, 0x31, 0x98, 0xa2, 0xe0, 0x37, 0x07, 0x34] =
    [0x19, 0x3d, 0xe3, 0xbe, 0xa0, 0xf4, 0xe2, 0x2b, 0x9a, 0xc6, 0x8d, 0x2a, 0xe9, 0xf8, 0x48, 0x08]"
  by code_simp

lemma ex_last: "add_round_key ex_schedule 10 (shift_rows (sub_bytes
    [0xeb, 0x40, 0xf2, 0x1e, 0x59, 0x2e, 0x38, 0x84, 0x8b, 0xa1, 0x13, 0xe7, 0x1b, 0xc3, 0x42, 0xd2])) =
    [0x39, 0x25, 0x84, 0x1d, 0x02, 0xdc, 0x09, 0xfb, 0xdc, 0x11, 0x85, 0x97, 0x19, 0x6a, 0x0b, 0x32]"
  by code_simp

text \<open>The worked example of FIPS 197: the code's encryption of its block under its key.\<close>
theorem aes_known_answer:
  "RT_AES_Encrypt True [0x32, 0x43, 0xf6, 0xa8, 0x88, 0x5a, 0x30, 0x8d, 0x31, 0x31, 0x98, 0xa2, 0xe0, 0x37, 0x07, 0x34] 16
     [0x2b, 0x7e, 0x15, 0x16, 0x28, 0xae, 0xd2, 0xa6, 0xab, 0xf7, 0x15, 0x88, 0x09, 0xcf, 0x4f, 0x3c] 16 (replicate 16 0) 16 =
    ([0x39, 0x25, 0x84, 0x1d, 0x02, 0xdc, 0x09, 0xfb, 0xdc, 0x11, 0x85, 0x97, 0x19, 0x6a, 0x0b, 0x32], 16)"
proof -
  have "[1..<10] = [1..<4] @ [4..<7] @ [7..<10 :: nat]"
    using upt_add_eq_append [of 1 4 6] upt_add_eq_append [of 4 7 3] by simp
  then have "aes_rounds ex_schedule 10 [0x32, 0x43, 0xf6, 0xa8, 0x88, 0x5a, 0x30, 0x8d, 0x31, 0x31, 0x98, 0xa2, 0xe0, 0x37, 0x07, 0x34] =
      [0x39, 0x25, 0x84, 0x1d, 0x02, 0xdc, 0x09, 0xfb, 0xdc, 0x11, 0x85, 0x97, 0x19, 0x6a, 0x0b, 0x32]"
    by (simp only: aes_rounds_def ex_first fold_append o_apply ex_rounds1 ex_rounds2 ex_rounds3 ex_last)
  moreover have "key_length_ok 16" "unat (drop_bit 2 (16 :: u32)) + 6 = 10" by (simp_all add: key_length_ok_def)
  ultimately show ?thesis
    using ex_schedule by (simp add: RT_AES_Encrypt_def ex_key_def copy_at_def)
qed

end
