(* ===== verification/Ccm.thy ===== *)
theory Ccm
  imports Aes
begin

text \<open>
  The CCM mode of \<open>rt3370/common/crypt_aes.c\<close>: \<open>AES_CCM_MAC\<close>, \<open>AES_CCM_Encrypt\<close> and
  \<open>AES_CCM_Decrypt\<close>, against RFC 3610 with the AES of FIPS 197. The lengths are 32-bit words, as in
  the code; \<open>alloc\<close> is the outcome of the allocations of the block cipher during the call and \<open>junk\<close>
  what the local arrays hold that the code does not initialise. The buffer arguments are lists, the
  output buffer is returned updated.
\<close>

section \<open>The authentication code\<close>

abbreviation zero_block :: "u8 list" where "zero_block \<equiv> replicate 16 0"

text \<open>The call the mode makes: a block of the right size, into a buffer of the right size.\<close>

definition aes_block :: "bool \<Rightarrow> u8 list \<Rightarrow> u32 \<Rightarrow> u8 list \<Rightarrow> u8 list \<Rightarrow> u8 list" where
  "aes_block alloc Key KeyLength out blk = fst (RT_AES_Encrypt alloc blk 16 Key KeyLength out 16)"

definition ccm_first_block :: "u32 \<Rightarrow> u8 list \<Rightarrow> u32 \<Rightarrow> u32 \<Rightarrow> u32 \<Rightarrow> u8 list" where
  "ccm_first_block PayloadLength Nonce NonceLength AADLength MACLength =
    (let Block = zero_block;
         Block = Block[0 := (if AADLength > 0 then Block ! 0 OR 0x40 else Block ! 0)];
         Block = Block[0 := Block ! 0 OR ucast (push_bit 3 (drop_bit 1 (MACLength - 2)))];
         Block = Block[0 := Block ! 0 OR ucast ((15 - NonceLength) - 1)];
         Block = copy_at Block 1 (take (unat NonceLength) Nonce);
         Block = (if NonceLength < 12 then Block[12 := ucast (drop_bit 24 PayloadLength AND 0xff)] else Block);
         Block = (if NonceLength < 13 then Block[13 := ucast (drop_bit 16 PayloadLength AND 0xff)] else Block);
         Block = Block[14 := ucast (drop_bit 8 PayloadLength AND 0xff)]
     in Block[15 := ucast (PayloadLength AND 0xff)])"

definition ccm_aad_start :: "u32 \<Rightarrow> nat \<times> u8 list" where
  "ccm_aad_start AADLength =
    (if AADLength > 0 \<and> AADLength < 0xFF00 then
       (2, zero_block[0 := ucast (drop_bit 8 AADLength AND 0xff), 1 := ucast (AADLength AND 0xff)])
     else
       (6, zero_block[2 := ucast (drop_bit 24 AADLength AND 0xff), 3 := ucast (drop_bit 16 AADLength AND 0xff),
              4 := ucast (drop_bit 8 AADLength AND 0xff), 5 := ucast (AADLength AND 0xff)]))"

text \<open>The loop over the additional data; the list is what is left of it. The index is 2 or 6 in the first
  turn and 0 afterwards, so it never reaches the end of the block.\<close>

function ccm_aad_loop :: "(u8 list \<Rightarrow> u8 list) \<Rightarrow> u8 list \<Rightarrow> nat \<Rightarrow> u8 list \<Rightarrow> u8 list \<Rightarrow> u8 list" where
  "ccm_aad_loop enc Block Block_Index Block_MAC rest =
    (if rest = [] \<or> 16 \<le> Block_Index then Block_MAC
     else
       let Copy_Length = min (length rest) 16;
           Copy_Length = (if Copy_Length + Block_Index > 16 then 16 - Block_Index else Copy_Length);
           Block = copy_at Block Block_Index (take Copy_Length rest)
       in ccm_aad_loop enc zero_block 0 (enc (xor_bytes Block Block_MAC)) (drop Copy_Length rest))"
  by pat_completeness auto
termination
  by (relation "measure (\<lambda>(_, _, _, _, rest). length rest)") (auto simp: min_def)

declare ccm_aad_loop.simps [simp del]

function ccm_payload_loop :: "(u8 list \<Rightarrow> u8 list) \<Rightarrow> u8 list \<Rightarrow> u8 list \<Rightarrow> u8 list" where
  "ccm_payload_loop enc Block_MAC rest =
    (if rest = [] then Block_MAC
     else
       let Copy_Length = min (length rest) 16;
           Block = copy_at zero_block 0 (take Copy_Length rest)
       in ccm_payload_loop enc (enc (xor_bytes Block Block_MAC)) (drop Copy_Length rest))"
  by pat_completeness auto
termination
  by (relation "measure (\<lambda>(_, _, rest). length rest)") (auto simp: min_def)

declare ccm_payload_loop.simps [simp del]

text \<open>The callers have checked the lengths: the nonce has 7 to 13 bytes and the code 4 to 16.\<close>

definition AES_CCM_MAC :: "bool \<Rightarrow> u8 list \<Rightarrow> u32 \<Rightarrow> u8 list \<Rightarrow> u32 \<Rightarrow> u8 list \<Rightarrow> u32 \<Rightarrow> u8 list \<Rightarrow> u32 \<Rightarrow> u32 \<Rightarrow> u8 list \<Rightarrow> u8 list" where
  "AES_CCM_MAC alloc Payload PayloadLength Key KeyLength Nonce NonceLength AAD AADLength MACLength MACText =
    (let enc = aes_block alloc Key KeyLength zero_block;
         Block_MAC = enc (ccm_first_block PayloadLength Nonce NonceLength AADLength MACLength);
         (Block_Index, Block) = ccm_aad_start AADLength;
         Block_MAC = ccm_aad_loop enc Block Block_Index Block_MAC (take (unat AADLength) AAD);
         Block_MAC = ccm_payload_loop enc Block_MAC (take (unat PayloadLength) Payload)
     in copy_at MACText 0 (take (unat MACLength) Block_MAC))"

section \<open>Encryption and decryption\<close>

definition ccm_mac_length_ok :: "u32 \<Rightarrow> bool" where
  "ccm_mac_length_ok MACLength \<longleftrightarrow> MACLength = 4 \<or> MACLength = 6 \<or> MACLength = 8 \<or> MACLength = 10 \<or>
     MACLength = 12 \<or> MACLength = 14 \<or> MACLength = 16"

definition ccm_counter :: "u8 list \<Rightarrow> u32 \<Rightarrow> u8 list" where
  "ccm_counter Nonce NonceLength =
    (let Block_CTR = zero_block[0 := 0 OR ucast ((15 - NonceLength) - 1)] in copy_at Block_CTR 1 (take (unat NonceLength) Nonce))"

text \<open>The loop over the payload: the counter is the last byte of its block. The result are the bytes
  written, and the cipher buffer that the next call would start from.\<close>

function ccm_ctr_loop :: "(u8 list \<Rightarrow> u8 list \<Rightarrow> u8 list) \<Rightarrow> u8 list \<Rightarrow> u8 list \<Rightarrow> u8 list \<Rightarrow> u8 list" where
  "ccm_ctr_loop enc Block_CTR Block_CTR_Cipher rest =
    (if rest = [] then []
     else
       let Block_CTR = Block_CTR[15 := Block_CTR ! 15 + 1];
           Block_CTR_Cipher = enc Block_CTR_Cipher Block_CTR;
           Copy_Length = min (length rest) 16
       in xor_bytes (take Copy_Length rest) Block_CTR_Cipher @
          ccm_ctr_loop enc Block_CTR Block_CTR_Cipher (drop Copy_Length rest))"
  by pat_completeness auto
termination
  by (relation "measure (\<lambda>(_, _, _, rest). length rest)") (auto simp: min_def)

declare ccm_ctr_loop.simps [simp del]

definition AES_CCM_Encrypt ::
  "bool \<Rightarrow> u8 list \<Rightarrow> u8 list \<Rightarrow> u32 \<Rightarrow> u8 list \<Rightarrow> u32 \<Rightarrow> u8 list \<Rightarrow> u32 \<Rightarrow> u8 list \<Rightarrow> u32 \<Rightarrow> u32 \<Rightarrow>
    u8 list \<Rightarrow> u32 \<Rightarrow> int \<times> u8 list \<times> u32" where
  "AES_CCM_Encrypt alloc junk PlainText PlainTextLength Key KeyLength Nonce NonceLength AAD AADLength MACLength CipherText CipherTextLength =
    (if KeyLength \<noteq> 16 then (-1, CipherText, CipherTextLength)
     else if NonceLength < 7 \<or> NonceLength > 13 then (-2, CipherText, CipherTextLength)
     else if \<not> ccm_mac_length_ok MACLength then (-3, CipherText, CipherTextLength)
     else if CipherTextLength < PlainTextLength + MACLength then (-4, CipherText, CipherTextLength)
     else
       let Block_CTR = ccm_counter Nonce NonceLength;
           Block_MAC = AES_CCM_MAC alloc PlainText PlainTextLength Key KeyLength Nonce NonceLength AAD AADLength MACLength junk;
           Block_CTR_Cipher = aes_block alloc Key KeyLength junk Block_CTR;
           Block_MAC = xor_bytes (take (unat MACLength) Block_MAC) Block_CTR_Cipher @ drop (unat MACLength) Block_MAC;
           CipherText = copy_at CipherText 0
             (ccm_ctr_loop (aes_block alloc Key KeyLength) Block_CTR Block_CTR_Cipher (take (unat PlainTextLength) PlainText));
           CipherText = copy_at CipherText (unat PlainTextLength) (take (unat MACLength) Block_MAC)
       in (0, CipherText, PlainTextLength + MACLength))"

definition AES_CCM_Decrypt ::
  "bool \<Rightarrow> u8 list \<Rightarrow> u8 list \<Rightarrow> u32 \<Rightarrow> u8 list \<Rightarrow> u32 \<Rightarrow> u8 list \<Rightarrow> u32 \<Rightarrow> u8 list \<Rightarrow> u32 \<Rightarrow> u32 \<Rightarrow>
    u8 list \<Rightarrow> u32 \<Rightarrow> int \<times> u8 list \<times> u32" where
  "AES_CCM_Decrypt alloc junk CipherText CipherTextLength Key KeyLength Nonce NonceLength AAD AADLength MACLength PlainText PlainTextLength =
    (if KeyLength \<noteq> 16 then (-1, PlainText, PlainTextLength)
     else if NonceLength < 7 \<or> NonceLength > 13 then (-2, PlainText, PlainTextLength)
     else if \<not> ccm_mac_length_ok MACLength then (-3, PlainText, PlainTextLength)
     else if PlainTextLength < CipherTextLength - MACLength then (-4, PlainText, PlainTextLength)
     else
       let Block_CTR = ccm_counter Nonce NonceLength;
           Block_CTR_Cipher = aes_block alloc Key KeyLength junk Block_CTR;
           n = CipherTextLength - MACLength;
           Block_MAC_From_Cipher = xor_bytes (take (unat MACLength) (drop (unat n) CipherText)) Block_CTR_Cipher;
           PlainText = copy_at PlainText 0
             (ccm_ctr_loop (aes_block alloc Key KeyLength) Block_CTR Block_CTR_Cipher (take (unat n) CipherText));
           Block_MAC = AES_CCM_MAC alloc PlainText n Key KeyLength Nonce NonceLength AAD AADLength MACLength junk
       in (if Block_MAC_From_Cipher \<noteq> take (unat MACLength) Block_MAC then -5 else 0, PlainText, n))"

section \<open>The reference: RFC 3610\<close>

definition be_nat :: "nat \<Rightarrow> nat \<Rightarrow> u8 list" where
  "be_nat q i = map (\<lambda>k. of_nat (i div 256 ^ (q - 1 - k))) [0..<q]"

definition pad16 :: "u8 list \<Rightarrow> u8 list" where
  "pad16 xs = xs @ replicate ((16 - length xs mod 16) mod 16) 0"

definition rfc_b0 :: "nat \<Rightarrow> u8 list \<Rightarrow> u8 list \<Rightarrow> nat \<Rightarrow> u8 list" where
  "rfc_b0 M nonce a l =
    [of_nat ((if a \<noteq> [] then 64 else 0) + 8 * ((M - 2) div 2) + (15 - length nonce - 1))] @ nonce @ be_nat (15 - length nonce) l"

definition rfc_aad :: "u8 list \<Rightarrow> u8 list" where
  "rfc_aad a =
    (if a = [] then []
     else (if length a < 0xFF00 then be_nat 2 (length a) else [0xff, 0xfe] @ be_nat 4 (length a)) @ a)"

function cbc_mac :: "(u8 list \<Rightarrow> u8 list) \<Rightarrow> u8 list \<Rightarrow> u8 list \<Rightarrow> u8 list" where
  "cbc_mac E x bs = (if bs = [] then x else cbc_mac E (E (xor_bytes (take 16 bs) x)) (drop 16 bs))"
  by pat_completeness auto
termination by (relation "measure (\<lambda>(_, _, bs). length bs)") auto

declare cbc_mac.simps [simp del]

definition rfc_mac :: "(u8 list \<Rightarrow> u8 list) \<Rightarrow> nat \<Rightarrow> u8 list \<Rightarrow> u8 list \<Rightarrow> u8 list \<Rightarrow> u8 list" where
  "rfc_mac E M nonce a m =
    take M (cbc_mac E zero_block (rfc_b0 M nonce a (length m) @ pad16 (rfc_aad a) @ pad16 m))"

definition rfc_a :: "u8 list \<Rightarrow> nat \<Rightarrow> u8 list" where
  "rfc_a nonce i = [of_nat (15 - length nonce - 1)] @ nonce @ be_nat (15 - length nonce) i"

definition rfc_stream :: "(u8 list \<Rightarrow> u8 list) \<Rightarrow> u8 list \<Rightarrow> nat \<Rightarrow> u8 list" where
  "rfc_stream E nonce n = concat (map (\<lambda>i. E (rfc_a nonce i)) [1..<n + 1])"

definition rfc_ccm :: "(u8 list \<Rightarrow> u8 list) \<Rightarrow> nat \<Rightarrow> u8 list \<Rightarrow> u8 list \<Rightarrow> u8 list \<Rightarrow> u8 list" where
  "rfc_ccm E M nonce a m =
    xor_bytes m (rfc_stream E nonce ((length m + 15) div 16)) @ xor_bytes (rfc_mac E M nonce a m) (E (rfc_a nonce 0))"

section \<open>The code follows the reference\<close>

lemma aes_block_fips:
  assumes "length Key = 16" "length blk = 16" "length out = 16"
  shows "aes_block True Key 16 out blk = fips_cipher Key blk"
  using rt_encrypt [of 16 Key blk 16 out] assms by (simp add: aes_block_def key_length_ok_def copy_at_def)

lemma pad16_length: "length (pad16 xs) mod 16 = 0"
proof -
  have "(k + (16 - k mod 16) mod 16) mod 16 = 0" for k :: nat
  proof -
    define q r where "q = k div 16" and "r = k mod 16"
    have "16 * q + r = k" "r < 16" by (simp_all add: q_def r_def)
    then have "k + (16 - r) = 16 * (q + 1)" by (metis add.assoc add.commute le_add_diff_inverse less_imp_le mult.right_neutral distrib_left)
    then have "k + (16 - k mod 16) = 16 * (q + 1)" unfolding r_def .
    then have "(k + (16 - k mod 16)) mod 16 = 0" by (simp only: mod_mult_self1_is_0)
    then show ?thesis by (simp only: mod_add_right_eq)
  qed
  then show ?thesis by (simp add: pad16_def)
qed

lemma pad16_Nil [simp]: "pad16 [] = []" by (simp add: pad16_def)

lemma pad16_short: "xs \<noteq> [] \<Longrightarrow> length xs \<le> 16 \<Longrightarrow> pad16 xs = xs @ replicate (16 - length xs) 0"
  by (cases "length xs = 16") (simp_all add: pad16_def)

lemma pad16_block: "length xs = 16 \<Longrightarrow> pad16 (xs @ ys) = xs @ pad16 ys" by (simp add: pad16_def)

lemma cbc_block: "length b = 16 \<Longrightarrow> cbc_mac E x (b @ bs) = cbc_mac E (E (xor_bytes b x)) bs"
  by (subst cbc_mac.simps) (simp, force)

lemma cbc_Nil [simp]: "cbc_mac E x [] = x" by (simp add: cbc_mac.simps)

lemma cbc_mac_length:
  assumes "\<And>b. length b = 16 \<Longrightarrow> length (E b) = 16"
  shows "length x = 16 \<Longrightarrow> length bs mod 16 = 0 \<Longrightarrow> length (cbc_mac E x bs) = 16"
proof (induction "length bs" arbitrary: x bs rule: less_induct)
  case less
  show ?case
  proof (cases "bs = []")
    case False
    then have l: "16 \<le> length bs" using less.prems(2) by (metis length_0_conv mod_less not_le)
    then have "length (xor_bytes (take 16 bs) x) = 16" using less.prems(1) by simp
    then have "length (E (xor_bytes (take 16 bs) x)) = 16" by (rule assms)
    then have "length (cbc_mac E (E (xor_bytes (take 16 bs) x)) (drop 16 bs)) = 16"
      using less.prems(2) l by (intro less.hyps) (simp_all add: le_mod_geq)
    then show ?thesis using False by (simp add: cbc_mac.simps [of E x bs])
  qed (simp add: less.prems)
qed

lemma cbc_append:
  "length as mod 16 = 0 \<Longrightarrow> cbc_mac E x (as @ bs) = cbc_mac E (cbc_mac E x as) bs"
proof (induction "length as" arbitrary: x as rule: less_induct)
  case less
  show ?case
  proof (cases "as = []")
    case False
    then have l: "16 \<le> length as" using less.prems by (metis length_0_conv mod_less not_le)
    have "cbc_mac E y (drop 16 as @ bs) = cbc_mac E (cbc_mac E y (drop 16 as)) bs" for y
      using less.prems l by (intro less.hyps) (simp_all add: le_mod_geq)
    then show ?thesis using False l by (simp add: cbc_mac.simps [of _ x "as @ bs"] cbc_mac.simps [of _ x as])
  qed simp
qed

lemma cbc_cong:
  assumes "\<And>b. length b = 16 \<Longrightarrow> enc b = E b" "\<And>b. length b = 16 \<Longrightarrow> length (E b) = 16"
  shows "length x = 16 \<Longrightarrow> length bs mod 16 = 0 \<Longrightarrow> cbc_mac enc x bs = cbc_mac E x bs"
proof (induction "length bs" arbitrary: x bs rule: less_induct)
  case less
  show ?case
  proof (cases "bs = []")
    case False
    then have l: "16 \<le> length bs" using less.prems(2) by (metis length_0_conv mod_less not_le)
    then have "length (xor_bytes (take 16 bs) x) = 16" using less.prems(1) by simp
    then have e: "enc (xor_bytes (take 16 bs) x) = E (xor_bytes (take 16 bs) x)" "length (E (xor_bytes (take 16 bs) x)) = 16"
      using assms by auto
    have "cbc_mac enc (E (xor_bytes (take 16 bs) x)) (drop 16 bs) = cbc_mac E (E (xor_bytes (take 16 bs) x)) (drop 16 bs)"
      using less.prems(2) l by (intro less.hyps e(2)) (simp_all add: le_mod_geq)
    then show ?thesis using False e(1) by (simp add: cbc_mac.simps [of _ x bs])
  qed simp
qed

lemma copy_at_zero: "length xs \<le> 16 \<Longrightarrow> copy_at zero_block 0 xs = xs @ replicate (16 - length xs) 0"
  by (simp add: copy_at_def)

lemma payload_loop_cbc: "ccm_payload_loop enc x rest = cbc_mac enc x (pad16 rest)"
proof (induction enc x rest rule: ccm_payload_loop.induct)
  case (1 enc x rest)
  show ?case
  proof (cases "rest = []")
    case False
    show ?thesis
    proof (cases "length rest < 16")
      case True
      then show ?thesis
        using False cbc_block [of "pad16 rest" enc x "[]"]
        by (simp add: ccm_payload_loop.simps [of enc x rest] ccm_payload_loop.simps [of enc _ "[]"] copy_at_zero pad16_short Let_def)
    next
      case f: False
      then have "pad16 rest = take 16 rest @ pad16 (drop 16 rest)" using pad16_block [of "take 16 rest" "drop 16 rest"] by simp
      then show ?thesis
        using False f 1 cbc_block [of "take 16 rest" enc x "pad16 (drop 16 rest)"]
        by (simp add: ccm_payload_loop.simps [of enc x rest] copy_at_zero Let_def min_def)
    qed
  qed (simp add: ccm_payload_loop.simps)
qed

lemma aad_loop_cbc: "ccm_aad_loop enc zero_block 0 x rest = cbc_mac enc x (pad16 rest)"
proof -
  have "ccm_aad_loop enc zero_block 0 x rest = ccm_payload_loop enc x rest"
  proof (induction enc x rest rule: ccm_payload_loop.induct)
    case (1 enc x rest)
    then show ?case
      by (simp add: ccm_payload_loop.simps [of enc x rest] ccm_aad_loop.simps [of enc _ 0 x rest] Let_def)
  qed
  then show ?thesis by (simp add: payload_loop_cbc)
qed

lemma aad_loop_first:
  assumes "length h = 2" "a \<noteq> []"
  shows "ccm_aad_loop enc (h @ replicate 14 0) 2 x a = cbc_mac enc x (pad16 (h @ a))"
proof (cases "length a \<le> 14")
  case True
  have "copy_at (h @ replicate 14 0) 2 a = pad16 (h @ a)"
    using assms True by (simp add: copy_at_def pad16_short)
  moreover have "length (pad16 (h @ a)) = 16" using assms True by (simp add: pad16_short)
  ultimately show ?thesis
    using assms True cbc_block [of "pad16 (h @ a)" enc x "[]"]
    by (simp add: ccm_aad_loop.simps [of enc _ 2] ccm_aad_loop.simps [of enc _ 0 _ "[]"] Let_def min_def)
next
  case False
  have b: "copy_at (h @ replicate 14 0) 2 (take 14 a) = h @ take 14 a" using assms False by (simp add: copy_at_def)
  have "pad16 (h @ a) = (h @ take 14 a) @ pad16 (drop 14 a)"
    using pad16_block [of "h @ take 14 a" "drop 14 a"] assms(1) False by simp
  then show ?thesis
    using assms False b cbc_block [of "h @ take 14 a" enc x "pad16 (drop 14 a)"]
    by (simp add: ccm_aad_loop.simps [of enc _ 2] Let_def min_def aad_loop_cbc)
qed

text \<open>The first block and the start of the additional data.\<close>

lemma upt_nth: "i < n \<Longrightarrow> map f [0..<n] ! i = f i" by simp

lemma be_nat_length [simp]: "length (be_nat q i) = q" by (simp add: be_nat_def)

lemma len_byte:
  assumes "l < 2 ^ 32"
  shows "(ucast (drop_bit (8 * k) (of_nat l :: u32) AND 0xff) :: u8) = of_nat (l div 256 ^ k)"
proof (rule bit_word_eqI)
  fix n
  assume "n < LENGTH(8)"
  then have n: "n < 8" by simp
  have m: "(0xff :: u32) = mask 8" by (simp add: mask_eq_exp_minus_1)
  have h: "\<not> bit l i" if "32 \<le> i" for i
  proof -
    have "l < 2 ^ i" using assms that by (meson order.strict_trans2 power_increasing one_le_numeral)
    then show ?thesis by (simp add: bit_iff_odd)
  qed
  have "l div 256 ^ k = drop_bit (8 * k) l" by (simp add: drop_bit_eq_div power_mult)
  then show "bit (ucast (drop_bit (8 * k) (of_nat l :: u32) AND 0xff) :: u8) n = bit (of_nat (l div 256 ^ k) :: u8) n"
    unfolding m using n h [of "8 * k + n"]
    by (cases "32 \<le> 8 * k + n") (simp_all add: bit_ucast_iff bit_and_iff bit_mask_iff bit_drop_bit_eq bit_of_nat_iff)
qed

lemma len_bytes:
  assumes "l < 2 ^ 32"
  shows "(ucast (drop_bit 24 (of_nat l :: u32) AND 0xff) :: u8) = of_nat (l div 256 ^ 3)"
    "(ucast (drop_bit 16 (of_nat l :: u32) AND 0xff) :: u8) = of_nat (l div 256 ^ 2)"
    "(ucast (drop_bit 8 (of_nat l :: u32) AND 0xff) :: u8) = of_nat (l div 256 ^ 1)"
    "(ucast ((of_nat l :: u32) AND 0xff) :: u8) = of_nat (l div 256 ^ 0)"
  using len_byte [OF assms, of 3] len_byte [OF assms, of 2] len_byte [OF assms, of 1] len_byte [OF assms, of 0] by simp_all

lemma flag_byte:
  assumes "ccm_mac_length_ok M" "7 \<le> N" "N \<le> 13"
  shows "(((if b then (0 :: u8) OR 0x40 else 0) OR ucast (push_bit 3 (drop_bit 1 (M - 2)))) OR ucast ((15 - of_nat N :: u32) - 1)) =
    of_nat ((if b then 64 else 0) + 8 * ((unat M - 2) div 2) + (15 - N - 1))"
proof -
  have "N \<in> set [7, 8, 9, 10, 11, 12, 13]" using assms(2,3) by (simp only: list.set insert_iff empty_iff) arith
  moreover have "M \<in> set [4, 6, 8, 10, 12, 14, 16]" using assms(1) by (auto simp: ccm_mac_length_ok_def)
  ultimately show ?thesis by (cases b; simp; elim disjE; simp)
qed

lemma first_block_rfc:
  assumes "ccm_mac_length_ok M" "7 \<le> length Nonce" "length Nonce \<le> 13" "l < 2 ^ 32" "l < 256 ^ (15 - length Nonce)"
    and "AL \<noteq> 0 \<longleftrightarrow> a \<noteq> []"
  shows "ccm_first_block (of_nat l) Nonce (of_nat (length Nonce)) AL M = rfc_b0 (unat M) Nonce a l"
proof (rule nth_equalityI)
  let ?N = "length Nonce"
  define f :: u8 where "f = ((if a \<noteq> [] then 0 OR 0x40 else 0) OR ucast (push_bit 3 (drop_bit 1 (M - 2)))) OR ucast ((15 - of_nat ?N :: u32) - 1)"
  have f: "f = of_nat ((if a \<noteq> [] then 64 else 0) + 8 * ((unat M - 2) div 2) + (15 - ?N - 1))"
    unfolding f_def by (rule flag_byte [OF assms(1-3)])
  have uN: "unat (of_nat ?N :: u32) = ?N" using assms(3) by (simp add: unat_of_nat)
  have g: "(of_nat ?N :: u32) < 12 \<longleftrightarrow> ?N < 12" "(of_nat ?N :: u32) < 13 \<longleftrightarrow> ?N < 13" by (simp_all add: word_less_nat_alt uN)
  have al: "AL > 0 \<longleftrightarrow> a \<noteq> []" using assms(6) by (simp add: word_gt_0)
  define b0 where "b0 = f # Nonce @ replicate (15 - ?N) (0 :: u8)"
  have c: "copy_at (f # replicate 15 0) 1 Nonce = b0"
    using assms(3) by (simp add: copy_at_def b0_def)
  have z: "zero_block[0 := f] = f # replicate 15 0" by (simp add: numeral_eq_Suc)
  have F: "ccm_first_block (of_nat l) Nonce (of_nat ?N) AL M =
    (let b = (if ?N < 12 then b0[12 := of_nat (l div 256 ^ 3)] else b0);
         b = (if ?N < 13 then b[13 := of_nat (l div 256 ^ 2)] else b)
     in b[14 := of_nat (l div 256 ^ 1), 15 := of_nat (l div 256 ^ 0)])"
  proof -
    have "zero_block[0 := (if AL > 0 then zero_block ! 0 OR 0x40 else zero_block ! 0)] = zero_block[0 := if a \<noteq> [] then 0 OR 0x40 else 0]"
      by (simp add: al)
    moreover have "(zero_block[0 := x]) ! 0 = x" "(zero_block[0 := x])[0 := y] = zero_block[0 := y]" for x y :: u8
      by simp_all
    ultimately show ?thesis
      unfolding ccm_first_block_def Let_def g uN take_all [OF order_refl] len_bytes [OF assms(4)]
      by (simp only: f_def [symmetric] z c)
  qed
  have lb: "length b0 = 16" using assms(3) by (simp add: b0_def)
  show "length (ccm_first_block (of_nat l) Nonce (of_nat ?N) AL M) = length (rfc_b0 (unat M) Nonce a l)"
    using lb assms(3) by (simp add: F Let_def rfc_b0_def)
  fix i
  assume "i < length (ccm_first_block (of_nat l) Nonce (of_nat ?N) AL M)"
  then have i: "i < 16" using lb by (simp add: F Let_def split: if_splits)
  have hi: "l div 256 ^ k = 0" if "4 \<le> k \<or> 15 - ?N \<le> k" for k
  proof (rule div_less)
    from that show "l < 256 ^ k"
    proof
      assume "4 \<le> k"
      then have "(256 :: nat) ^ 4 \<le> 256 ^ k" by (intro power_increasing) simp_all
      then show ?thesis using assms(4) by simp
    next
      assume "15 - ?N \<le> k"
      then have "(256 :: nat) ^ (15 - ?N) \<le> 256 ^ k" by (intro power_increasing) simp_all
      then show ?thesis using assms(5) by linarith
    qed
  qed
  have R: "rfc_b0 (unat M) Nonce a l ! i = (if i = 0 then f else if i \<le> ?N then Nonce ! (i - 1) else of_nat (l div 256 ^ (15 - i)))"
    using i assms(3) by (auto simp: rfc_b0_def f nth_Cons' nth_append be_nat_def simp del: upt_rec_numeral intro!: arg_cong [where f = "\<lambda>k. of_nat (l div 256 ^ k)"])
  have B: "b0 ! i = (if i = 0 then f else if i \<le> ?N then Nonce ! (i - 1) else 0)"
    using i assms(3) by (auto simp: b0_def nth_Cons' nth_append)
  show "ccm_first_block (of_nat l) Nonce (of_nat ?N) AL M ! i = rfc_b0 (unat M) Nonce a l ! i"
  proof (cases "i < 12 \<or> i \<le> ?N")
    case True
    then have "ccm_first_block (of_nat l) Nonce (of_nat ?N) AL M ! i = b0 ! i"
      using assms(3) by (auto simp: F Let_def)
    also have "\<dots> = rfc_b0 (unat M) Nonce a l ! i"
    proof -
      have "l div 256 ^ (15 - i) = 0" if "\<not> i \<le> ?N" using True that by (intro hi) linarith
      then show ?thesis unfolding R B by simp
    qed
    finally show ?thesis .
  next
    case False
    then have "i = 12 \<and> ?N < 12 \<or> i = 13 \<and> ?N < 13 \<or> i = 14 \<or> i = 15" using i by linarith
    then show ?thesis unfolding R F Let_def using False lb by auto
  qed
qed

lemma aad_start_rfc:
  assumes "a \<noteq> []" "length a < 0xFF00"
  shows "ccm_aad_start (of_nat (length a)) = (2, be_nat 2 (length a) @ replicate 14 0)"
proof -
  have l: "length a < 2 ^ 32" using assms(2) by simp
  have u: "unat (of_nat (length a) :: u32) = length a" using l by (simp add: unat_of_nat)
  have g: "(of_nat (length a) :: u32) > 0" "(of_nat (length a) :: u32) < 0xFF00"
    using u assms by (auto simp: word_less_nat_alt)
  have "zero_block[0 := x, 1 := y] = [x, y] @ replicate 14 0" for x y :: u8 by (simp add: numeral_eq_Suc)
  moreover have "be_nat 2 (length a) = [of_nat (length a div 256 ^ 1), of_nat (length a div 256 ^ 0)]"
    by (simp add: be_nat_def upt_rec)
  ultimately show ?thesis
    unfolding ccm_aad_start_def len_bytes [OF l] using g by (simp only: simp_thms if_True)
qed

lemma ccm_mac_rfc:
  assumes "length Key = 16" "ccm_mac_length_ok M" "7 \<le> length Nonce" "length Nonce \<le> 13"
    and "length p < 2 ^ 32" "length p < 256 ^ (15 - length Nonce)" "length a < 0xFF00" "length mt = 16"
  shows "take (unat M) (AES_CCM_MAC True p (of_nat (length p)) Key 16 Nonce (of_nat (length Nonce)) a (of_nat (length a)) M mt) =
    rfc_mac (fips_cipher Key) (unat M) Nonce a p"
proof -
  let ?enc = "aes_block True Key 16 zero_block" and ?E = "fips_cipher Key"
  have E: "?enc b = ?E b" if "length b = 16" for b using aes_block_fips [OF assms(1) that] by simp
  have u: "unat (of_nat (length p) :: u32) = length p" "unat (of_nat (length a) :: u32) = length a"
    using assms(5,7) by (simp_all add: unat_of_nat)
  have M: "unat M \<le> 16" using assms(2) by (auto simp: ccm_mac_length_ok_def)
  have a0: "(of_nat (length a) :: u32) \<noteq> 0 \<longleftrightarrow> a \<noteq> []" using u(2) by auto
  note B0 = first_block_rfc [OF assms(2-6) a0]
  have l0: "length (rfc_b0 (unat M) Nonce a (length p)) = 16" using assms(4) by (simp add: rfc_b0_def)
  have X0: "cbc_mac ?E zero_block (rfc_b0 (unat M) Nonce a (length p) @ bs) = cbc_mac ?E (?E (rfc_b0 (unat M) Nonce a (length p))) bs" for bs
  proof -
    have "xor_bytes b zero_block = b" if "length b = 16" for b
      using that by (auto simp: xor_bytes_def intro!: nth_equalityI)
    then show ?thesis using cbc_block [OF l0] l0 by simp
  qed
  have "(case ccm_aad_start (of_nat (length a)) of (i, b) \<Rightarrow> ccm_aad_loop ?enc b i x a) = cbc_mac ?enc x (pad16 (rfc_aad a))" for x
  proof (cases "a = []")
    case True
    then show ?thesis by (simp add: ccm_aad_loop.simps rfc_aad_def split: prod.split)
  next
    case False
    then show ?thesis using aad_loop_first [of "be_nat 2 (length a)" a ?enc x] assms(7) by (simp add: aad_start_rfc rfc_aad_def)
  qed
  then have A: "AES_CCM_MAC True p (of_nat (length p)) Key 16 Nonce (of_nat (length Nonce)) a (of_nat (length a)) M mt =
      copy_at mt 0 (take (unat M) (cbc_mac ?enc (cbc_mac ?enc (?enc (rfc_b0 (unat M) Nonce a (length p))) (pad16 (rfc_aad a))) (pad16 p)))"
    by (simp add: AES_CCM_MAC_def Let_def B0 u payload_loop_cbc split_beta)
  have c1: "cbc_mac ?enc x (pad16 bs) = cbc_mac ?E x (pad16 bs)" "length (cbc_mac ?E x (pad16 bs)) = 16" if "length x = 16" for x bs
    using cbc_cong [of ?enc ?E x "pad16 bs"] cbc_mac_length [of ?E x "pad16 bs"] E that pad16_length by simp_all
  show ?thesis
    unfolding A rfc_mac_def X0 cbc_append [OF pad16_length] using l0 M assms(8)
    by (simp add: E c1 copy_at_def)
qed

section \<open>The key stream\<close>

definition code_a :: "u8 list \<Rightarrow> u8 \<Rightarrow> u8 list" where
  "code_a Nonce c = (ccm_counter Nonce (of_nat (length Nonce)))[15 := c]"

lemma counter_start:
  assumes "7 \<le> length Nonce" "length Nonce \<le> 13"
  shows "ccm_counter Nonce (of_nat (length Nonce)) = [of_nat (15 - length Nonce - 1)] @ Nonce @ replicate (15 - length Nonce) 0"
proof -
  have uN: "unat (of_nat (length Nonce) :: u32) = length Nonce" using assms(2) by (simp add: unat_of_nat)
  have "length Nonce \<in> set [7, 8, 9, 10, 11, 12, 13]" using assms by (simp only: list.set insert_iff empty_iff) arith
  then have f: "(ucast ((15 - of_nat (length Nonce) :: u32) - 1) :: u8) = of_nat (15 - length Nonce - 1)"
    by (simp; elim disjE; simp)
  have z: "zero_block[0 := x] = x # replicate 15 0" for x :: u8 by (simp add: numeral_eq_Suc)
  show ?thesis
    unfolding ccm_counter_def Let_def z f uN using assms by (simp add: copy_at_def)
qed

lemma code_a_rfc:
  assumes "7 \<le> length Nonce" "length Nonce \<le> 13" "i < 256"
  shows "code_a Nonce (of_nat i) = rfc_a Nonce i"
proof -
  define q where "q = 14 - length Nonce"
  have q: "15 - length Nonce = Suc q" using assms(2) by (simp add: q_def)
  have z: "i div 256 ^ Suc k = 0" for k
  proof (rule div_less)
    have "(256 :: nat) ^ 1 \<le> 256 ^ Suc k" by (intro power_increasing) simp_all
    then show "i < 256 ^ Suc k" using assms(3) by (metis less_le_trans power_one_right)
  qed
  have "map (\<lambda>k. of_nat (i div 256 ^ (Suc q - 1 - k)) :: u8) [0..<q] = replicate q 0"
  proof (rule nth_equalityI)
    fix k
    assume "k < length (map (\<lambda>k. of_nat (i div 256 ^ (Suc q - 1 - k)) :: u8) [0..<q])"
    then have k: "k < q" by simp
    then have "Suc q - 1 - k = Suc (q - k - 1)" by simp
    then have "i div 256 ^ (Suc q - 1 - k) = 0" by (simp only: z)
    then show "map (\<lambda>k. of_nat (i div 256 ^ (Suc q - 1 - k)) :: u8) [0..<q] ! k = replicate q 0 ! k"
      using k by (simp del: upt_Suc)
  qed simp
  then have b: "be_nat (Suc q) i = replicate q 0 @ [of_nat i]" by (simp add: be_nat_def)
  have "replicate (Suc q) (0::u8) = replicate q 0 @ [0]" by (simp add: replicate_append_same)
  then show ?thesis
    unfolding code_a_def counter_start [OF assms(1,2)] rfc_a_def q b
    using assms(2) by (simp add: list_update_append q_def)
qed

text \<open>The stream from the counter value \<open>c\<close> on, for \<open>n\<close> blocks.\<close>

definition code_stream :: "(u8 list \<Rightarrow> u8 list) \<Rightarrow> u8 list \<Rightarrow> u8 \<Rightarrow> nat \<Rightarrow> u8 list" where
  "code_stream E Nonce c n = concat (map (\<lambda>i. E (code_a Nonce (c + of_nat i))) [1..<n + 1])"

lemma code_stream_Suc: "code_stream E Nonce c (Suc n) = E (code_a Nonce (c + 1)) @ code_stream E Nonce (c + 1) n"
proof -
  have "[1..<Suc n + 1] = 1 # map Suc [1..<n + 1]" by (simp add: upt_conv_Cons map_Suc_upt del: upt_Suc)
  then show ?thesis by (simp add: code_stream_def o_def algebra_simps del: upt_Suc)
qed

lemma code_a_length: "length Nonce \<le> 13 \<Longrightarrow> 7 \<le> length Nonce \<Longrightarrow> length (code_a Nonce c) = 16"
  by (simp add: code_a_def counter_start)

lemma code_stream_length:
  assumes "\<And>b. length b = 16 \<Longrightarrow> length (E b) = 16" "length Nonce \<le> 13" "7 \<le> length Nonce"
  shows "length (code_stream E Nonce c n) = 16 * n"
proof (induction n arbitrary: c)
  case (Suc n)
  then show ?case using assms(1) [OF code_a_length [OF assms(2,3)]] by (simp add: code_stream_Suc)
qed (simp add: code_stream_def)

lemma ctr_loop_stream:
  assumes "\<And>o' b. length o' = 16 \<Longrightarrow> length b = 16 \<Longrightarrow> enc o' b = E b" "\<And>b. length b = 16 \<Longrightarrow> length (E b) = 16"
    and "length Nonce \<le> 13" "7 \<le> length Nonce"
  shows "length ks = 16 \<Longrightarrow> ccm_ctr_loop enc (code_a Nonce c) ks m = xor_bytes m (code_stream E Nonce c ((length m + 15) div 16))"
proof (induction "length m" arbitrary: c ks m rule: less_induct)
  case less
  show ?case
  proof (cases "m = []")
    case False
    have up: "(code_a Nonce c)[15 := code_a Nonce c ! 15 + 1] = code_a Nonce (c + 1)"
      using assms(3,4) by (simp add: code_a_def counter_start)
    have e: "enc ks (code_a Nonce (c + 1)) = E (code_a Nonce (c + 1))" "length (E (code_a Nonce (c + 1))) = 16"
      using assms(1) [OF less.prems] assms(2) code_a_length [OF assms(3,4)] by auto
    let ?n = "min (length m) 16"
    have "ccm_ctr_loop enc (code_a Nonce (c + 1)) (E (code_a Nonce (c + 1))) (drop ?n m) =
        xor_bytes (drop ?n m) (code_stream E Nonce (c + 1) ((length (drop ?n m) + 15) div 16))"
      using False by (intro less.hyps e(2)) simp
    then have L: "ccm_ctr_loop enc (code_a Nonce c) ks m = xor_bytes (take ?n m) (E (code_a Nonce (c + 1))) @
        xor_bytes (drop ?n m) (code_stream E Nonce (c + 1) ((length (drop ?n m) + 15) div 16))"
      using False by (subst ccm_ctr_loop.simps) (simp add: Let_def up e(1))
    show ?thesis
    proof (cases "length m \<le> 16")
      case True
      then have "(length m + 15) div 16 = Suc 0" using False by (cases m) (simp_all add: le_div_geq)
      then show ?thesis using True e(2) unfolding L by (simp add: code_stream_Suc xor_bytes_take)
    next
      case f: False
      then have n: "(length m + 15) div 16 = Suc ((length (drop ?n m) + 15) div 16)" by (simp add: le_div_geq)
      have "xor_bytes (take 16 m @ drop 16 m) (E (code_a Nonce (c + 1)) @ code_stream E Nonce (c + 1) ((length (drop 16 m) + 15) div 16)) =
          xor_bytes (take 16 m) (E (code_a Nonce (c + 1))) @ xor_bytes (drop 16 m) (code_stream E Nonce (c + 1) ((length (drop 16 m) + 15) div 16))"
        using f e(2) by (intro xor_bytes_append) simp
      then show ?thesis unfolding L n code_stream_Suc using f by simp
    qed
  qed (simp add: ccm_ctr_loop.simps xor_bytes_def)
qed


section \<open>What the two operations compute\<close>

lemma ccm_mac_length:
  assumes "ccm_mac_length_ok M" "length mt = 16"
  shows "length (take (unat M) (AES_CCM_MAC al p pl Key kl Nonce nl a aln M mt)) = unat M"
proof -
  have "unat M \<le> 16" using assms(1) by (auto simp: ccm_mac_length_ok_def)
  then have "length (take (unat M) (copy_at mt 0 (take (unat M) y))) = unat M" for y
    using assms(2) by (auto simp: copy_at_def min_def)
  then show ?thesis unfolding AES_CCM_MAC_def Let_def split_beta .
qed

lemma nonce_ok:
  assumes "7 \<le> length Nonce" "length Nonce \<le> 13"
  shows "\<not> (of_nat (length Nonce) < (7 :: u32) \<or> of_nat (length Nonce) > (13 :: u32))"
  using assms by (simp add: word_less_nat_alt unat_of_nat)

lemma counter_zero:
  assumes "7 \<le> length Nonce" "length Nonce \<le> 13"
  shows "ccm_counter Nonce (of_nat (length Nonce)) = code_a Nonce 0"
proof -
  have "15 - length Nonce = Suc (14 - length Nonce)" using assms by simp
  then have "replicate (15 - length Nonce) (0 :: u8) = replicate (14 - length Nonce) 0 @ [0]"
    by (simp only: replicate_Suc replicate_append_same)
  then show ?thesis using assms by (simp add: code_a_def counter_start list_update_append)
qed

text \<open>The effect of a call that is not refused, for payloads of any length.\<close>

lemma ccm_encrypt_run:
  assumes "length Key = 16" "7 \<le> length Nonce" "length Nonce \<le> 13" "ccm_mac_length_ok M"
    and "length p + unat M \<le> length ct" "length ct < 2 ^ 32" "length junk = 16"
  shows "AES_CCM_Encrypt True junk p (of_nat (length p)) Key 16 Nonce (of_nat (length Nonce)) a aln M ct (of_nat (length ct)) =
    (0, xor_bytes p (code_stream (fips_cipher Key) Nonce 0 ((length p + 15) div 16)) @
        xor_bytes (take (unat M) (AES_CCM_MAC True p (of_nat (length p)) Key 16 Nonce (of_nat (length Nonce)) a aln M junk))
          (fips_cipher Key (code_a Nonce 0)) @ drop (length p + unat M) ct, of_nat (length p) + M)"
proof -
  let ?E = "fips_cipher Key" and ?n = "length p"
  define mac where "mac = AES_CCM_MAC True p (of_nat ?n) Key 16 Nonce (of_nat (length Nonce)) a aln M junk"
  have lm: "length (take (unat M) mac) = unat M" unfolding mac_def by (rule ccm_mac_length [OF assms(4,7)])
  have M: "unat M \<le> 16" using assms(4) by (auto simp: ccm_mac_length_ok_def)
  have un: "unat (of_nat ?n :: u32) = ?n" using assms(5,6) by (simp add: unat_of_nat)
  have us: "unat (of_nat ?n + M) = ?n + unat M" using assms(5,6) un by (simp add: unat_word_ariths)
  have cap: "\<not> of_nat (length ct) < of_nat ?n + M" using assms(5,6) us by (simp add: word_less_nat_alt unat_of_nat)
  have E: "aes_block True Key 16 out b = ?E b" if "length out = 16" "length b = 16" for out b
    by (rule aes_block_fips [OF assms(1) that(2,1)])
  have e0: "aes_block True Key 16 junk (code_a Nonce 0) = ?E (code_a Nonce 0)"
    using assms(7) code_a_length [OF assms(3,2)] by (rule E)
  have s: "ccm_ctr_loop (aes_block True Key 16) (code_a Nonce 0) (?E (code_a Nonce 0)) p =
      xor_bytes p (code_stream ?E Nonce 0 ((?n + 15) div 16))"
    by (rule ctr_loop_stream [OF E _ assms(3,2)]) simp_all
  define cp where "cp = xor_bytes p (code_stream ?E Nonce 0 ((?n + 15) div 16))"
  have lc: "length cp = ?n"
    unfolding cp_def using code_stream_length [of ?E Nonce 0 "(?n + 15) div 16", OF _ assms(3,2)] by simp
  define tag where "tag = xor_bytes (take (unat M) mac) (?E (code_a Nonce 0))"
  have lt: "length tag = unat M" unfolding tag_def using lm M by simp
  have "AES_CCM_Encrypt True junk p (of_nat ?n) Key 16 Nonce (of_nat (length Nonce)) a aln M ct (of_nat (length ct)) =
    (0, copy_at (copy_at ct 0 cp) ?n (take (unat M) (tag @ drop (unat M) mac)), of_nat ?n + M)"
    unfolding AES_CCM_Encrypt_def Let_def counter_zero [OF assms(2,3)] un take_all [OF order_refl] mac_def [symmetric] e0 s
      cp_def [symmetric] tag_def [symmetric]
    using nonce_ok [OF assms(2,3)] assms(4) cap by simp
  also have "copy_at (copy_at ct 0 cp) ?n (take (unat M) (tag @ drop (unat M) mac)) = cp @ tag @ drop (?n + unat M) ct"
    using lc lt assms(5) by (simp add: copy_at_def add.commute)
  finally show ?thesis unfolding cp_def tag_def mac_def .
qed

lemma ccm_mac_prefix:
  assumes "length p < 2 ^ 32"
  shows "AES_CCM_MAC al (p @ r) (of_nat (length p)) Key kl Nonce nl a aln M mt = AES_CCM_MAC al p (of_nat (length p)) Key kl Nonce nl a aln M mt"
  using assms by (simp add: AES_CCM_MAC_def unat_of_nat)

lemma ccm_decrypt_run:
  fixes x t Key Nonce :: "u8 list"
  defines "p \<equiv> xor_bytes x (code_stream (fips_cipher Key) Nonce 0 ((length x + 15) div 16))"
  assumes "length Key = 16" "7 \<le> length Nonce" "length Nonce \<le> 13" "ccm_mac_length_ok M"
    and "length t = unat M" "length x + unat M < 2 ^ 32" "length x \<le> length pt" "length pt < 2 ^ 32" "length junk = 16"
  shows "AES_CCM_Decrypt True junk (x @ t) (of_nat (length (x @ t))) Key 16 Nonce (of_nat (length Nonce)) a aln M pt (of_nat (length pt)) =
    (if xor_bytes t (fips_cipher Key (code_a Nonce 0)) \<noteq>
        take (unat M) (AES_CCM_MAC True p (of_nat (length p)) Key 16 Nonce (of_nat (length Nonce)) a aln M junk) then -5 else 0,
     p @ drop (length p) pt, of_nat (length p))"
proof -
  let ?E = "fips_cipher Key" and ?n = "length x"
  have un: "unat (of_nat ?n :: u32) = ?n" using assms(7) by (simp add: unat_of_nat)
  have Mw: "of_nat (unat M) = M" by simp
  have n: "(of_nat (length (x @ t)) :: u32) - M = of_nat ?n" using assms(6) by simp
  have cap: "\<not> of_nat (length pt) < (of_nat ?n :: u32)" using assms(7,8,9) by (simp add: word_less_nat_alt unat_of_nat)
  have E: "aes_block True Key 16 out b = ?E b" if "length out = 16" "length b = 16" for out b
    by (rule aes_block_fips [OF assms(2) that(2,1)])
  have e0: "aes_block True Key 16 junk (code_a Nonce 0) = ?E (code_a Nonce 0)"
    using assms(10) code_a_length [OF assms(4,3)] by (rule E)
  have s: "ccm_ctr_loop (aes_block True Key 16) (code_a Nonce 0) (?E (code_a Nonce 0)) x = p"
    unfolding p_def by (rule ctr_loop_stream [OF E _ assms(4,3)]) simp_all
  have lp: "length p = ?n"
    unfolding p_def using code_stream_length [of ?E Nonce 0 "(?n + 15) div 16", OF _ assms(4,3)] by simp
  have c: "copy_at pt 0 p = p @ drop ?n pt" using lp by (simp add: copy_at_def)
  have "length p < 2 ^ 32" using lp assms(7) by simp
  note mp = ccm_mac_prefix [OF this, unfolded lp]
  have tk: "take (unat M) (drop ?n (x @ t)) = t" "take ?n (x @ t) = x" using assms(6) by simp_all
  have g: "(16 :: u32) \<noteq> 16 \<longleftrightarrow> False" by simp
  show ?thesis
    unfolding AES_CCM_Decrypt_def Let_def counter_zero [OF assms(3,4)] n un e0 tk s c mp lp g
    using nonce_ok [OF assms(3,4)] assms(5) cap by simp
qed

text \<open>The streams of the code and of the reference agree as long as the 8-bit counter does not wrap.\<close>

lemma stream_rfc:
  assumes "7 \<le> length Nonce" "length Nonce \<le> 13" "n \<le> 255"
  shows "code_stream E Nonce 0 n = rfc_stream E Nonce n"
proof -
  have "map (\<lambda>i. E (code_a Nonce (0 + of_nat i))) [1..<n + 1] = map (\<lambda>i. E (rfc_a Nonce i)) [1..<n + 1]"
  proof (intro map_cong refl)
    fix i
    assume "i \<in> set [1..<n + 1]"
    then have "i < 256" using assms(3) by (simp del: upt_Suc)
    then show "E (code_a Nonce (0 + of_nat i)) = E (rfc_a Nonce i)" using code_a_rfc [OF assms(1,2)] by simp
  qed
  then show ?thesis by (simp only: code_stream_def rfc_stream_def)
qed

lemma small_payload:
  assumes "length p \<le> 4080" "7 \<le> length Nonce" "length Nonce \<le> 13"
  shows "length (p :: u8 list) < 2 ^ 32" "length p < 256 ^ (15 - length (Nonce :: u8 list))"
proof -
  have "(256 :: nat) ^ 2 \<le> 256 ^ (15 - length Nonce)" using assms(3) by (intro power_increasing) simp_all
  moreover have "length p < 256 ^ 2" using assms(1) by simp
  ultimately show "length p < 256 ^ (15 - length Nonce)" by (rule order_less_le_trans [rotated])
qed (use assms(1) in simp)

text \<open>The code never shows what the local array held.\<close>

lemma aad_loop_length:
  assumes "\<And>b. length b = 16 \<Longrightarrow> length (enc b) = 16"
  shows "length Block = 16 \<Longrightarrow> length x = 16 \<Longrightarrow> length (ccm_aad_loop enc Block i x rest) = 16"
proof (induction "length rest" arbitrary: Block x i rest rule: less_induct)
  case less
  show ?case
  proof (cases "rest = [] \<or> 16 \<le> i")
    case False
    define n where "n = (if min (length rest) 16 + i > 16 then 16 - i else min (length rest) 16)"
    have n: "n \<le> length rest" "n + i \<le> 16" "0 < n" using False by (auto simp: n_def min_def)
    have "length (copy_at Block i (take n rest)) = 16" using less.prems(1) n by (simp add: copy_length)
    then have "length (enc (xor_bytes (copy_at Block i (take n rest)) x)) = 16" using less.prems(2) by (intro assms) simp
    then have "length (ccm_aad_loop enc zero_block 0 (enc (xor_bytes (copy_at Block i (take n rest)) x)) (drop n rest)) = 16"
      using n False by (intro less.hyps) simp_all
    then show ?thesis using False by (subst ccm_aad_loop.simps) (simp add: Let_def n_def)
  qed (use less.prems in \<open>simp add: ccm_aad_loop.simps [of enc Block i]\<close>)
qed

lemma ccm_mac_junk:
  assumes "length Key = 16" "length Nonce \<le> 13" "ccm_mac_length_ok M"
  shows "take (unat M) (AES_CCM_MAC True p pl Key 16 Nonce (of_nat (length Nonce)) a aln M mt) =
    take (unat M) (AES_CCM_MAC True p pl Key 16 Nonce (of_nat (length Nonce)) a aln M mt')"
proof -
  let ?enc = "aes_block True Key 16 zero_block"
  have M: "unat M \<le> 16" using assms(3) by (auto simp: ccm_mac_length_ok_def)
  have E: "length (?enc b) = 16" if "length b = 16" for b using aes_block_fips [OF assms(1) that] by simp
  have b0: "length (ccm_first_block pl Nonce (of_nat (length Nonce)) aln M) = 16"
    using assms(2) by (simp add: ccm_first_block_def Let_def copy_length unat_of_nat)
  have "length (snd (ccm_aad_start aln)) = 16" by (simp add: ccm_aad_start_def)
  then have "length (ccm_aad_loop ?enc (snd (ccm_aad_start aln)) (fst (ccm_aad_start aln))
      (?enc (ccm_first_block pl Nonce (of_nat (length Nonce)) aln M)) (take (unat aln) a)) = 16" (is "length ?y = 16")
    using E [OF b0] by (intro aad_loop_length) (simp_all only: E)
  then have "length (ccm_payload_loop ?enc ?y (take (unat pl) p)) = 16"
    unfolding payload_loop_cbc by (intro cbc_mac_length pad16_length) (simp_all only: E)
  then show ?thesis using M by (simp add: AES_CCM_MAC_def Let_def split_beta copy_at_def)
qed

section \<open>The theorems\<close>

lemma ccm_encrypt_standard:
  assumes "length Key = 16" "7 \<le> length Nonce" "length Nonce \<le> 13" "ccm_mac_length_ok M"
    and "length p \<le> 4080" "length a < 0xFF00" "length p + unat M \<le> length ct" "length ct < 2 ^ 32" "length junk = 16"
  shows "AES_CCM_Encrypt True junk p (of_nat (length p)) Key 16 Nonce (of_nat (length Nonce)) a (of_nat (length a)) M ct (of_nat (length ct)) =
    (0, rfc_ccm (fips_cipher Key) (unat M) Nonce a p @ drop (length p + unat M) ct, of_nat (length p) + M)"
proof -
  have n: "(length p + 15) div 16 \<le> 255" using assms(5) by linarith
  have a0: "code_a Nonce 0 = rfc_a Nonce 0" using code_a_rfc [OF assms(2,3), of 0] by simp
  note m = ccm_mac_rfc [OF assms(1,4,2,3) small_payload [OF assms(5,2,3)] assms(6,9)]
  show ?thesis
    unfolding ccm_encrypt_run [OF assms(1-4,7-9)] m stream_rfc [OF assms(2,3) n] a0 rfc_ccm_def by simp
qed

text \<open>C3: With a 16-byte key, \<open>AES_CCM_Encrypt\<close> computes the CCM of RFC 3610 over the AES of FIPS 197, for
  each nonce of 7 to 13 bytes, each of the seven lengths of the authentication code, up to 4080 bytes of
  payload and additional data of fewer than \<open>0xFF00\<close> bytes; the rest of the output buffer is kept and the
  length of the result is stored.\<close>

theorem ccm_encrypt_rfc:
  assumes "length Key = 16" "7 \<le> length Nonce" "length Nonce \<le> 13" "ccm_mac_length_ok M"
    and "length p \<le> 4080" "length a < 0xFF00" "length p + unat M \<le> length ct" "length ct < 2 ^ 32" "length junk = 16"
  shows "AES_CCM_Encrypt True junk p (of_nat (length p)) Key 16 Nonce (of_nat (length Nonce)) a (of_nat (length a)) M ct (of_nat (length ct)) =
    (0, rfc_ccm (fips_cipher Key) (unat M) Nonce a p @ drop (length p + unat M) ct, of_nat (length p) + M)"
  using assms by (rule ccm_encrypt_standard)

theorem ccm_encrypt_rfc_witness:
  "AES_CCM_Encrypt True (replicate 16 7) [1, 2, 3] 3 (replicate 16 5) 16 (replicate 13 9) 13 [4] 1 8 (replicate 13 0) 13 =
    (0, rfc_ccm (fips_cipher (replicate 16 5)) 8 (replicate 13 9) [4] [1, 2, 3] @ replicate 2 0, 11)"
  using ccm_encrypt_rfc [of "replicate 16 5" "replicate 13 9" 8 "[1, 2, 3]" "[4]" "replicate 13 0" "replicate 16 7"]
  by (simp add: ccm_mac_length_ok_def del: replicate.simps)

text \<open>C10: What \<open>AES_CCM_Encrypt\<close> wrote, \<open>AES_CCM_Decrypt\<close> accepts with the same key, nonce and additional data, and
  it returns the payload and its length, whatever the lengths of payload and additional data (also beyond
  the 256 blocks of the counter) and whatever the local arrays held in the two calls.\<close>

theorem ccm_roundtrip:
  assumes "length Key = 16" "7 \<le> length Nonce" "length Nonce \<le> 13" "ccm_mac_length_ok M"
    and "length p + unat M = length ct" "length ct < 2 ^ 32" "length junk = 16" "length junk' = 16"
    and "length p \<le> length pt" "length pt < 2 ^ 32"
  shows "case AES_CCM_Encrypt True junk p (of_nat (length p)) Key 16 Nonce (of_nat (length Nonce)) a aln M ct (of_nat (length ct)) of
    (r, ct', n) \<Rightarrow> r = 0 \<and>
      AES_CCM_Decrypt True junk' ct' n Key 16 Nonce (of_nat (length Nonce)) a aln M pt (of_nat (length pt)) =
        (0, p @ drop (length p) pt, of_nat (length p))"
proof -
  let ?E = "fips_cipher Key" and ?s = "code_stream (fips_cipher Key) Nonce 0 ((length p + 15) div 16)"
  let ?mac = "\<lambda>j. take (unat M) (AES_CCM_MAC True p (of_nat (length p)) Key 16 Nonce (of_nat (length Nonce)) a aln M j)"
  let ?x = "xor_bytes p ?s" and ?t = "xor_bytes (?mac junk) (?E (code_a Nonce 0))"
  have M: "unat M \<le> 16" using assms(4) by (auto simp: ccm_mac_length_ok_def)
  have ls: "length ?s = 16 * ((length p + 15) div 16)" by (rule code_stream_length [OF _ assms(3,2)]) simp
  then have lx: "length p \<le> length ?s" "length ?x = length p" by simp_all
  have lt: "length ?t = unat M" unfolding xor_bytes_length ccm_mac_length [OF assms(4,7)] using M by simp
  have p: "xor_bytes ?x ?s = p" by (rule xor_bytes_twice [OF lx(1)])
  have j: "?mac junk = ?mac junk'" by (rule ccm_mac_junk [OF assms(1,3,4)])
  have m: "xor_bytes ?t (?E (code_a Nonce 0)) = ?mac junk"
    by (rule xor_bytes_twice) (simp only: ccm_mac_length [OF assms(4,7)] fips_cipher_length M)
  have w: "(of_nat (length p) :: u32) + M = of_nat (length (?x @ ?t))" unfolding length_append lx(2) lt by simp
  have c: "length p + unat M \<le> length ct" "drop (length p + unat M) ct = []" using assms(5) by simp_all
  have l: "length ?x + unat M < 2 ^ 32" "length ?x \<le> length pt" using assms(5,6,9) unfolding lx(2) by simp_all
  note d = ccm_decrypt_run [OF assms(1-4) lt l assms(10,8), of a aln]
  show ?thesis
    unfolding ccm_encrypt_run [OF assms(1-4) c(1) assms(6,7)] c(2) append_Nil2 w split d unfolding lx(2) p m unfolding j by simp
qed

theorem ccm_roundtrip_witness:
  "case AES_CCM_Encrypt True (replicate 16 7) [1, 2, 3] 3 (replicate 16 5) 16 (replicate 13 9) 13 [4] 1 8 (replicate 11 0) 11 of
    (r, ct', n) \<Rightarrow> r = 0 \<and> AES_CCM_Decrypt True (replicate 16 6) ct' n (replicate 16 5) 16 (replicate 13 9) 13 [4] 1 8 [0, 0, 0] 3 = (0, [1, 2, 3], 3)"
  using ccm_roundtrip [of "replicate 16 5" "replicate 13 9" 8 "[1, 2, 3]" "replicate 11 0" "replicate 16 7" "replicate 16 6" "[0, 0, 0]" "[4]" 1]
  by (simp add: ccm_mac_length_ok_def del: replicate.simps)

lemma ccm_decrypt_standard:
  fixes x t Key Nonce :: "u8 list"
  defines "p \<equiv> xor_bytes x (rfc_stream (fips_cipher Key) Nonce ((length x + 15) div 16))"
  assumes "length Key = 16" "7 \<le> length Nonce" "length Nonce \<le> 13" "ccm_mac_length_ok M"
    and "length t = unat M" "length x \<le> 4080" "length a < 0xFF00" "length x \<le> length pt" "length pt < 2 ^ 32" "length junk = 16"
  shows "AES_CCM_Decrypt True junk (x @ t) (of_nat (length (x @ t))) Key 16 Nonce (of_nat (length Nonce)) a (of_nat (length a)) M pt (of_nat (length pt)) =
    (if x @ t = rfc_ccm (fips_cipher Key) (unat M) Nonce a p then 0 else -5, p @ drop (length x) pt, of_nat (length x))"
proof -
  let ?E = "fips_cipher Key" and ?s = "rfc_stream (fips_cipher Key) Nonce ((length x + 15) div 16)"
  have M: "unat M \<le> 16" using assms(5) by (auto simp: ccm_mac_length_ok_def)
  have n: "(length x + 15) div 16 \<le> 255" using assms(7) by linarith
  have l: "length x + unat M < 2 ^ 32" using assms(7) M by simp
  have s: "code_stream ?E Nonce 0 ((length x + 15) div 16) = ?s" by (rule stream_rfc [OF assms(3,4) n])
  have ls: "length ?s = 16 * ((length x + 15) div 16)" unfolding s [symmetric] by (rule code_stream_length [OF _ assms(4,3)]) simp
  then have lx: "length x \<le> length ?s" "length p = length x" unfolding p_def by simp_all
  have x: "xor_bytes p ?s = x" unfolding p_def by (rule xor_bytes_twice [OF lx(1)])
  have a0: "code_a Nonce 0 = rfc_a Nonce 0" using code_a_rfc [OF assms(3,4), of 0] by simp
  have lp: "length p \<le> 4080" using lx(2) assms(7) by simp
  define mac where "mac = rfc_mac ?E (unat M) Nonce a p"
  have m: "take (unat M) (AES_CCM_MAC True p (of_nat (length p)) Key 16 Nonce (of_nat (length Nonce)) a (of_nat (length a)) M junk) = mac"
    unfolding mac_def by (rule ccm_mac_rfc [OF assms(2,5,3,4) small_payload [OF lp assms(3,4)] assms(8,11)])
  have lm: "length mac = unat M" using ccm_mac_length [OF assms(5,11)] m by metis
  have "xor_bytes t (?E (rfc_a Nonce 0)) = mac \<longleftrightarrow> t = xor_bytes mac (?E (rfc_a Nonce 0))"
    using xor_bytes_twice [of t "?E (rfc_a Nonce 0)"] xor_bytes_twice [of mac "?E (rfc_a Nonce 0)"] assms(6) lm M by auto
  then have "xor_bytes t (?E (rfc_a Nonce 0)) = mac \<longleftrightarrow> x @ t = rfc_ccm ?E (unat M) Nonce a p"
    by (simp add: rfc_ccm_def mac_def lx(2) x)
  then show ?thesis
    using ccm_decrypt_run [OF assms(2-6) l assms(9-11), of a "of_nat (length a)"] m
    by (simp add: s p_def [symmetric] a0 lx(2))
qed



text \<open>C38: A ciphertext shorter than its authentication code is refused with -4 and nothing is written: the
  difference of the lengths wraps to a value that no buffer has.\<close>

theorem ccm_short_refused:
  assumes "CipherTextLength < MACLength" "PlainTextLength < 0xFFFFFFF0" "7 \<le> NonceLength" "NonceLength \<le> 13" "ccm_mac_length_ok MACLength"
  shows "AES_CCM_Decrypt alloc junk CipherText CipherTextLength Key 16 Nonce NonceLength AAD AADLength MACLength PlainText PlainTextLength =
    (-4, PlainText, PlainTextLength)"
proof -
  have "MACLength \<le> 16" using assms(5) by (auto simp: ccm_mac_length_ok_def)
  then have "PlainTextLength < CipherTextLength - MACLength"
    using assms(1,2) by (simp add: word_less_nat_alt word_le_nat_alt unat_sub_if')
  then show ?thesis using assms by (simp add: AES_CCM_Decrypt_def not_less)
qed

theorem ccm_short_refused_witness:
  "AES_CCM_Decrypt True [] [1, 2, 3] 3 [] 16 [] 13 [] 0 8 [9] 1 = (-4, [9], 1)"
  by (rule ccm_short_refused) (simp_all add: ccm_mac_length_ok_def)

section \<open>The counter of one byte\<close>

lemma code_stream_nth:
  assumes "\<And>b. length b = 16 \<Longrightarrow> length (E b) = 16" "length Nonce \<le> 13" "7 \<le> length Nonce"
  shows "k < 16 * n \<Longrightarrow> code_stream E Nonce c n ! k = E (code_a Nonce (c + 1 + of_nat (k div 16))) ! (k mod 16)"
proof (induction n arbitrary: c k)
  case (Suc n)
  have l: "length (E (code_a Nonce (c + 1))) = 16" by (rule assms(1) [OF code_a_length [OF assms(2,3)]])
  show ?case
  proof (cases "k < 16")
    case False
    then have "k - 16 < 16 * n" "k div 16 = Suc ((k - 16) div 16)" "(k - 16) mod 16 = k mod 16"
      using Suc.prems by (simp_all add: le_div_geq le_mod_geq)
    then show ?thesis using False Suc.IH [of "k - 16" "c + 1"] l by (simp add: code_stream_Suc nth_append algebra_simps)
  qed (use l in \<open>simp add: code_stream_Suc nth_append\<close>)
qed simp

lemma ccm_cipher_byte:
  assumes "length Key = 16" "7 \<le> length Nonce" "length Nonce \<le> 13" "ccm_mac_length_ok M"
    and "length p + unat M \<le> length ct" "length ct < 2 ^ 32" "length junk = 16" "i < length p"
  shows "fst (snd (AES_CCM_Encrypt True junk p (of_nat (length p)) Key 16 Nonce (of_nat (length Nonce)) a aln M ct (of_nat (length ct)))) ! i =
    p ! i XOR fips_cipher Key (code_a Nonce (1 + of_nat (i div 16))) ! (i mod 16)"
proof -
  have b: "i < 16 * ((length p + 15) div 16)" using assms(8) by linarith
  have "length (code_stream (fips_cipher Key) Nonce 0 ((length p + 15) div 16)) = 16 * ((length p + 15) div 16)"
    by (rule code_stream_length [OF _ assms(3,2)]) simp
  then show ?thesis
    using assms(8) b code_stream_nth [of "fips_cipher Key" Nonce i "(length p + 15) div 16" 0, OF _ assms(3,2)]
    by (simp add: ccm_encrypt_run [OF assms(1-7)] nth_append xor_bytes_nth)
qed



end
