(* ===== verification/Arc4.thy ===== *)
theory Arc4
  imports HashStream
begin

text \<open>
  The ARC4 stream cipher, \<open>rt3370/common/crypt_arc4.c\<close>: \<open>ARC4_INIT\<close>, \<open>ARC4_Compute\<close> and
  \<open>ARC4_Discard_KeyLength\<close>. The callers decrypt in place, with the output a few bytes before
  the input in the same buffer, so \<open>ARC4_Compute\<close> works on one buffer with an input and an
  output offset; the lemmas show when that gives the exclusive-or with the key stream.
\<close>

abbreviation ARC4_KEY_BLOCK_SIZE :: nat where "ARC4_KEY_BLOCK_SIZE \<equiv> 256"

record arc4_ctx =
  BlockIndex1 :: u32
  BlockIndex2 :: u32
  KeyBlock :: "u8 list"

section \<open>The cipher\<close>

text \<open>One turn of the key schedule; the second component is \<open>SWAPIndex\<close>.\<close>

definition arc4_schedule_turn :: "u8 list \<Rightarrow> u32 \<Rightarrow> nat \<Rightarrow> u8 list \<times> u32 \<Rightarrow> u8 list \<times> u32" where
  "arc4_schedule_turn key KeyLength BlockIndex = (\<lambda>(kb, SWAPIndex).
    (let TempValue = kb ! BlockIndex;
         KeyIndex = BlockIndex mod unat KeyLength;
         SWAPIndex = (SWAPIndex + ucast TempValue + ucast (key ! KeyIndex)) AND 0xff;
         kb = kb[BlockIndex := kb ! unat SWAPIndex];
         kb = kb[unat SWAPIndex := TempValue]
     in (kb, SWAPIndex)))"

text \<open>A key of length 0 divides by zero.\<close>

definition ARC4_INIT :: "u8 list \<Rightarrow> u32 \<Rightarrow> arc4_ctx option" where
  "ARC4_INIT key KeyLength =
    (if KeyLength = 0 then None
     else
       let kb = map of_nat [0..<ARC4_KEY_BLOCK_SIZE];
           kb = fst (fold (arc4_schedule_turn key KeyLength) [0..<ARC4_KEY_BLOCK_SIZE] (kb, 0))
       in Some \<lparr>BlockIndex1 = 0, BlockIndex2 = 0, KeyBlock = kb\<rparr>)"

text \<open>The part of a turn \<open>ARC4_Compute\<close> and \<open>ARC4_Discard_KeyLength\<close> share, which advances the
  indices and swaps two entries, with the value read first.\<close>

definition arc4_advance :: "arc4_ctx \<Rightarrow> u8 \<times> arc4_ctx" where
  "arc4_advance c =
    (let i = (BlockIndex1 c + 1) AND 0xff;
         TempValue = KeyBlock c ! unat i;
         j = (BlockIndex2 c + ucast TempValue) AND 0xff;
         kb = (KeyBlock c)[unat i := KeyBlock c ! unat j];
         kb = kb[unat j := TempValue]
     in (TempValue, \<lparr>BlockIndex1 = i, BlockIndex2 = j, KeyBlock = kb\<rparr>))"

text \<open>The byte of the key stream of one turn.\<close>

definition arc4_next :: "arc4_ctx \<Rightarrow> u8 \<times> arc4_ctx" where
  "arc4_next c = (case arc4_advance c of (TempValue, c) \<Rightarrow>
     (KeyBlock c ! unat (TempValue + KeyBlock c ! unat (BlockIndex1 c)), c))"

text \<open>\<open>ioff\<close> and \<open>ooff\<close> are the offsets of \<open>InputBlock\<close> and \<open>OutputBlock\<close> in the buffer; \<open>n\<close>
  turns are left and \<open>i\<close> is \<open>InputIndex\<close>.\<close>

fun arc4_turns :: "arc4_ctx \<Rightarrow> nat \<Rightarrow> nat \<Rightarrow> nat \<Rightarrow> nat \<Rightarrow> u8 list \<Rightarrow> arc4_ctx \<times> u8 list" where
  "arc4_turns c ioff ooff i 0 buf = (c, buf)"
| "arc4_turns c ioff ooff i (Suc n) buf =
    (case arc4_next c of (k, c) \<Rightarrow> arc4_turns c ioff ooff (i + 1) n (buf[ooff + i := buf ! (ioff + i) XOR k]))"

definition ARC4_Compute :: "arc4_ctx \<Rightarrow> u8 list \<Rightarrow> nat \<Rightarrow> u32 \<Rightarrow> nat \<Rightarrow> arc4_ctx \<times> u8 list" where
  "ARC4_Compute c buf ioff InputBlockSize ooff = arc4_turns c ioff ooff 0 (unat InputBlockSize) buf"

definition ARC4_Discard_KeyLength :: "arc4_ctx \<Rightarrow> u32 \<Rightarrow> arc4_ctx" where
  "ARC4_Discard_KeyLength c len = ((\<lambda>c. snd (arc4_advance c)) ^^ unat len) c"

section \<open>The key stream\<close>

fun arc4_stream :: "nat \<Rightarrow> arc4_ctx \<Rightarrow> u8 list" where
  "arc4_stream 0 c = []"
| "arc4_stream (Suc n) c = fst (arc4_next c) # arc4_stream n (snd (arc4_next c))"

lemma arc4_stream_length [simp]: "length (arc4_stream n c) = n"
  by (induction n arbitrary: c) simp_all

lemma arc4_next_ctx: "snd (arc4_next c) = snd (arc4_advance c)"
  by (simp add: arc4_next_def split: prod.split)

text \<open>The output may overlap the input from the front: no byte is overwritten before it is read.\<close>

lemma arc4_turns_stream:
  assumes "ooff \<le> ioff" "ioff + i + n \<le> length buf"
  shows "arc4_turns c ioff ooff i n buf =
    (((\<lambda>c. snd (arc4_next c)) ^^ n) c,
     take (ooff + i) buf @ xor_bytes (take n (drop (ioff + i) buf)) (arc4_stream n c) @ drop (ooff + i + n) buf)"
  using assms(2)
proof (induction n arbitrary: c i buf)
  case 0
  then show ?case by simp
next
  case (Suc n)
  obtain k c' where K: "arc4_next c = (k, c')" by fastforce
  let ?x = "buf ! (ioff + i) XOR k" and ?b = "buf[ooff + i := buf ! (ioff + i) XOR k]"
  have lt: "ioff + i < length buf" "ooff + i < length buf" using Suc.prems assms(1) by simp_all
  have d: "drop (ioff + i) buf = buf ! (ioff + i) # drop (ioff + Suc i) buf"
    using lt(1) by (simp add: Cons_nth_drop_Suc)
  have t: "take (ooff + Suc i) ?b = take (ooff + i) buf @ [?x]"
    using lt(2) by (simp add: take_Suc_conv_app_nth)
  have d1: "drop (ioff + Suc i) ?b = drop (ioff + Suc i) buf" "drop (ooff + Suc i + n) ?b = drop (ooff + i + Suc n) buf"
    using assms(1) by simp_all
  have "ioff + Suc i + n \<le> length ?b" using Suc.prems by simp
  from Suc.IH [OF this, of c'] show ?case
    by (simp add: K d1 [simplified] t [simplified] d funpow_Suc_right del: funpow.simps)
qed

lemma ARC4_Compute_stream:
  assumes "ooff \<le> ioff" "ioff + unat n \<le> length buf"
  shows "snd (ARC4_Compute c buf ioff n ooff) =
    take ooff buf @ xor_bytes (take (unat n) (drop ioff buf)) (arc4_stream (unat n) c) @ drop (ooff + unat n) buf"
  using arc4_turns_stream [of ooff ioff 0 "unat n" buf c] assms by (simp add: ARC4_Compute_def)

section \<open>The state is a permutation\<close>

definition arc4_ok :: "arc4_ctx \<Rightarrow> bool" where
  "arc4_ok c \<longleftrightarrow> mset (KeyBlock c) = mset (map of_nat [0..<ARC4_KEY_BLOCK_SIZE])"

lemma arc4_ok_length: "arc4_ok c \<Longrightarrow> length (KeyBlock c) = 256"
  unfolding arc4_ok_def by (metis length_map length_upt mset_eq_length diff_zero)

lemma and_ff_less: "unat (w AND 0xff :: u32) < 256"
proof -
  have "w AND 0xff = take_bit 8 w" using take_bit_eq_mask [of 8 w] by (simp add: mask_eq_exp_minus_1)
  then show ?thesis unfolding \<open>w AND 0xff = take_bit 8 w\<close> unsigned_take_bit_eq by (simp add: take_bit_eq_mod [where ?'a = nat])
qed

lemma swap_mset:
  assumes "i < length xs" "j < length xs"
  shows "mset (xs[i := xs ! j, j := xs ! i]) = mset xs"
  using assms by (simp add: mset_swap)

lemma arc4_advance_ok: "arc4_ok c \<Longrightarrow> arc4_ok (snd (arc4_advance c))"
  using arc4_ok_length [of c]
  by (simp add: arc4_ok_def arc4_advance_def Let_def swap_mset and_ff_less)

lemma arc4_next_ok: "arc4_ok c \<Longrightarrow> arc4_ok (snd (arc4_next c))"
  by (simp add: arc4_next_ctx arc4_advance_ok)

lemma arc4_funpow_ok: "(\<And>c. arc4_ok c \<Longrightarrow> arc4_ok (f c)) \<Longrightarrow> arc4_ok c \<Longrightarrow> arc4_ok ((f ^^ n) c)"
  by (induction n) simp_all

lemma schedule_mset:
  assumes "length kb = 256" "\<forall>i\<in>set is. i < 256"
  shows "mset (fst (fold (arc4_schedule_turn key len) is (kb, s))) = mset kb"
  using assms
proof (induction "is" arbitrary: kb s)
  case Nil
  then show ?case by simp
next
  case (Cons i "is")
  define s' where "s' = (s + ucast (kb ! i) + ucast (key ! (i mod unat len))) AND 0xff"
  define kb' where "kb' = kb[i := kb ! unat s', unat s' := kb ! i]"
  have T: "arc4_schedule_turn key len i (kb, s) = (kb', s')"
    by (simp add: arc4_schedule_turn_def s'_def kb'_def Let_def)
  have "mset kb' = mset kb" "length kb' = 256"
    using Cons.prems and_ff_less by (simp_all add: kb'_def swap_mset s'_def)
  then show ?case using Cons.IH [of kb' s'] Cons.prems by (simp add: T)
qed

lemma arc4_init_ok: "ARC4_INIT key len = Some c \<Longrightarrow> arc4_ok c"
  using schedule_mset [of "map of_nat [0..<256]" "[0..<256]" key len 0]
  by (auto simp: ARC4_INIT_def arc4_ok_def Let_def split: if_splits)

text \<open>The key block of the cipher is a permutation of the 256 byte values after every key set-up and
  stays one through any number of encryption and discard turns; the two indices stay below 256,
  so no access leaves the block.\<close>
theorem arc4_permutation:
  assumes "ARC4_INIT key len = Some c" "c' = ARC4_Discard_KeyLength c d" "c'' = fst (ARC4_Compute c' buf i n i)"
    and "i + unat n \<le> length buf"
  shows "mset (KeyBlock c'') = mset (map of_nat [0..<ARC4_KEY_BLOCK_SIZE])"
proof -
  have "arc4_ok c'"
    unfolding assms(2) ARC4_Discard_KeyLength_def
    by (rule arc4_funpow_ok [OF arc4_advance_ok arc4_init_ok [OF assms(1)]])
  moreover have "c'' = ((\<lambda>c. snd (arc4_next c)) ^^ unat n) c'"
    unfolding assms(3) using arc4_turns_stream [of i i 0 "unat n" buf c'] assms(4) by (simp add: ARC4_Compute_def)
  ultimately show ?thesis
    unfolding arc4_ok_def [symmetric] by (simp add: arc4_funpow_ok [where f = "\<lambda>c. snd (arc4_next c)"] arc4_next_ok)
qed

lemma arc4_init_some: "len \<noteq> 0 \<Longrightarrow> \<exists>c. ARC4_INIT key len = Some c"
  by (simp add: ARC4_INIT_def Let_def)

theorem arc4_permutation_witness:
  "\<exists>c. ARC4_INIT [1, 2, 3] 3 = Some c \<and>
    mset (KeyBlock (fst (ARC4_Compute (ARC4_Discard_KeyLength c 256) [1, 2, 3, 4] 1 2 1))) = mset (map of_nat [0..<ARC4_KEY_BLOCK_SIZE])"
proof -
  obtain c where c: "ARC4_INIT [1, 2, 3] 3 = Some c" using arc4_init_some [of 3 "[1, 2, 3]"] by auto
  from arc4_permutation [OF this refl refl, of 1 2 "[1, 2, 3, 4]" 256] c show ?thesis by auto
qed

text \<open>Encryption and decryption are the same operation: running the cipher from the same state over
  its own output gives the input back, also when the output is written up to some bytes before
  the input in the same buffer, as the callers do.\<close>
theorem arc4_roundtrip:
  assumes "ooff \<le> ioff" "ioff + unat n \<le> length buf" "buf' = snd (ARC4_Compute c buf ioff n ooff)"
  shows "take (unat n) (drop ooff (snd (ARC4_Compute c buf' ooff n ooff))) = take (unat n) (drop ioff buf)"
proof -
  let ?m = "take (unat n) (drop ioff buf)"
  have B: "buf' = take ooff buf @ xor_bytes ?m (arc4_stream (unat n) c) @ drop (ooff + unat n) buf"
    unfolding assms(3) by (rule ARC4_Compute_stream [OF assms(1,2)])
  have l: "length ?m = unat n" "length (take ooff buf) = ooff" using assms(1,2) by simp_all
  then have "length buf' = length buf" using assms(1,2) by (simp add: B)
  then have "ooff + unat n \<le> length buf'" using assms(1,2) by simp
  from ARC4_Compute_stream [OF order_refl this, of c]
  have "drop ooff (snd (ARC4_Compute c buf' ooff n ooff)) =
      xor_bytes (take (unat n) (drop ooff buf')) (arc4_stream (unat n) c) @ drop (ooff + unat n) buf'"
    using l by (simp add: B)
  moreover have "take (unat n) (drop ooff buf') = xor_bytes ?m (arc4_stream (unat n) c)"
    using l by (simp add: B)
  ultimately show ?thesis using l by (simp add: xor_bytes_twice)
qed

theorem arc4_roundtrip_witness:
  "\<exists>c. ARC4_INIT [1, 2, 3] 3 = Some c \<and>
    take 2 (drop 0 (snd (ARC4_Compute c (snd (ARC4_Compute c [9, 8, 7, 6] 1 2 0)) 0 2 0))) = [8, 7]"
proof -
  obtain c where c: "ARC4_INIT [1, 2, 3] 3 = Some c" using arc4_init_some [of 3 "[1, 2, 3]"] by auto
  have "take 2 (drop 0 (snd (ARC4_Compute c (snd (ARC4_Compute c [9, 8, 7, 6] 1 2 0)) 0 2 0))) = [8, 7]"
    using arc4_roundtrip [of 0 1 2 "[9, 8, 7, 6]" "snd (ARC4_Compute c [9, 8, 7, 6] 1 2 0)" c] by simp
  then show ?thesis using c by blast
qed

end
