(* ===== verification/Wep.thy ===== *)
theory Wep
  imports Arc4
begin

text \<open>
  WEP encapsulation in software, \<open>rt3370/common/cmm_wep.c\<close>: the frame check sequence
  \<open>RTMP_CALC_FCS32\<close> with its table, \<open>RTMPInitWepEngine\<close>, \<open>RTMPConstructWEPIVHdr\<close>,
  \<open>RTMPSoftEncryptWEP\<close> and \<open>RTMPSoftDecryptWEP\<close>. Buffers are byte lists; a result \<open>None\<close> is an
  access outside a buffer. The outcome of each allocation is an argument; \<open>ctx0\<close> is what the
  freshly allocated cipher context holds.
\<close>

section \<open>The frame check sequence\<close>

abbreviation PPPINITFCS32 :: u32 where "PPPINITFCS32 \<equiv> 0xffffffff"

definition FCSTAB_32 :: "u32 list" where
  "FCSTAB_32 =
   [0x00000000, 0x77073096, 0xee0e612c, 0x990951ba, 0x076dc419, 0x706af48f, 0xe963a535, 0x9e6495a3,
    0x0edb8832, 0x79dcb8a4, 0xe0d5e91e, 0x97d2d988, 0x09b64c2b, 0x7eb17cbd, 0xe7b82d07, 0x90bf1d91,
    0x1db71064, 0x6ab020f2, 0xf3b97148, 0x84be41de, 0x1adad47d, 0x6ddde4eb, 0xf4d4b551, 0x83d385c7,
    0x136c9856, 0x646ba8c0, 0xfd62f97a, 0x8a65c9ec, 0x14015c4f, 0x63066cd9, 0xfa0f3d63, 0x8d080df5,
    0x3b6e20c8, 0x4c69105e, 0xd56041e4, 0xa2677172, 0x3c03e4d1, 0x4b04d447, 0xd20d85fd, 0xa50ab56b,
    0x35b5a8fa, 0x42b2986c, 0xdbbbc9d6, 0xacbcf940, 0x32d86ce3, 0x45df5c75, 0xdcd60dcf, 0xabd13d59,
    0x26d930ac, 0x51de003a, 0xc8d75180, 0xbfd06116, 0x21b4f4b5, 0x56b3c423, 0xcfba9599, 0xb8bda50f,
    0x2802b89e, 0x5f058808, 0xc60cd9b2, 0xb10be924, 0x2f6f7c87, 0x58684c11, 0xc1611dab, 0xb6662d3d,
    0x76dc4190, 0x01db7106, 0x98d220bc, 0xefd5102a, 0x71b18589, 0x06b6b51f, 0x9fbfe4a5, 0xe8b8d433,
    0x7807c9a2, 0x0f00f934, 0x9609a88e, 0xe10e9818, 0x7f6a0dbb, 0x086d3d2d, 0x91646c97, 0xe6635c01,
    0x6b6b51f4, 0x1c6c6162, 0x856530d8, 0xf262004e, 0x6c0695ed, 0x1b01a57b, 0x8208f4c1, 0xf50fc457,
    0x65b0d9c6, 0x12b7e950, 0x8bbeb8ea, 0xfcb9887c, 0x62dd1ddf, 0x15da2d49, 0x8cd37cf3, 0xfbd44c65,
    0x4db26158, 0x3ab551ce, 0xa3bc0074, 0xd4bb30e2, 0x4adfa541, 0x3dd895d7, 0xa4d1c46d, 0xd3d6f4fb,
    0x4369e96a, 0x346ed9fc, 0xad678846, 0xda60b8d0, 0x44042d73, 0x33031de5, 0xaa0a4c5f, 0xdd0d7cc9,
    0x5005713c, 0x270241aa, 0xbe0b1010, 0xc90c2086, 0x5768b525, 0x206f85b3, 0xb966d409, 0xce61e49f,
    0x5edef90e, 0x29d9c998, 0xb0d09822, 0xc7d7a8b4, 0x59b33d17, 0x2eb40d81, 0xb7bd5c3b, 0xc0ba6cad,
    0xedb88320, 0x9abfb3b6, 0x03b6e20c, 0x74b1d29a, 0xead54739, 0x9dd277af, 0x04db2615, 0x73dc1683,
    0xe3630b12, 0x94643b84, 0x0d6d6a3e, 0x7a6a5aa8, 0xe40ecf0b, 0x9309ff9d, 0x0a00ae27, 0x7d079eb1,
    0xf00f9344, 0x8708a3d2, 0x1e01f268, 0x6906c2fe, 0xf762575d, 0x806567cb, 0x196c3671, 0x6e6b06e7,
    0xfed41b76, 0x89d32be0, 0x10da7a5a, 0x67dd4acc, 0xf9b9df6f, 0x8ebeeff9, 0x17b7be43, 0x60b08ed5,
    0xd6d6a3e8, 0xa1d1937e, 0x38d8c2c4, 0x4fdff252, 0xd1bb67f1, 0xa6bc5767, 0x3fb506dd, 0x48b2364b,
    0xd80d2bda, 0xaf0a1b4c, 0x36034af6, 0x41047a60, 0xdf60efc3, 0xa867df55, 0x316e8eef, 0x4669be79,
    0xcb61b38c, 0xbc66831a, 0x256fd2a0, 0x5268e236, 0xcc0c7795, 0xbb0b4703, 0x220216b9, 0x5505262f,
    0xc5ba3bbe, 0xb2bd0b28, 0x2bb45a92, 0x5cb36a04, 0xc2d7ffa7, 0xb5d0cf31, 0x2cd99e8b, 0x5bdeae1d,
    0x9b64c2b0, 0xec63f226, 0x756aa39c, 0x026d930a, 0x9c0906a9, 0xeb0e363f, 0x72076785, 0x05005713,
    0x95bf4a82, 0xe2b87a14, 0x7bb12bae, 0x0cb61b38, 0x92d28e9b, 0xe5d5be0d, 0x7cdcefb7, 0x0bdbdf21,
    0x86d3d2d4, 0xf1d4e242, 0x68ddb3f8, 0x1fda836e, 0x81be16cd, 0xf6b9265b, 0x6fb077e1, 0x18b74777,
    0x88085ae6, 0xff0f6a70, 0x66063bca, 0x11010b5c, 0x8f659eff, 0xf862ae69, 0x616bffd3, 0x166ccf45,
    0xa00ae278, 0xd70dd2ee, 0x4e048354, 0x3903b3c2, 0xa7672661, 0xd06016f7, 0x4969474d, 0x3e6e77db,
    0xaed16a4a, 0xd9d65adc, 0x40df0b66, 0x37d83bf0, 0xa9bcae53, 0xdebb9ec5, 0x47b2cf7f, 0x30b5ffe9,
    0xbdbdf21c, 0xcabac28a, 0x53b39330, 0x24b4a3a6, 0xbad03605, 0xcdd70693, 0x54de5729, 0x23d967bf,
    0xb3667a2e, 0xc4614ab8, 0x5d681b02, 0x2a6f2b94, 0xb40bbe37, 0xc30c8ea1, 0x5a05df1b, 0x2d02ef8d]"

fun RTMP_CALC_FCS32 :: "u32 \<Rightarrow> u8 list \<Rightarrow> nat \<Rightarrow> u32" where
  "RTMP_CALC_FCS32 Fcs Cp 0 = Fcs"
| "RTMP_CALC_FCS32 Fcs Cp (Suc Len) =
    RTMP_CALC_FCS32 (drop_bit 8 Fcs XOR FCSTAB_32 ! unat ((Fcs XOR ucast (hd Cp)) AND 0xff)) (tl Cp) Len"

text \<open>The bit-serial CRC-32 of IEEE 802.3, least significant bit first.\<close>

definition crc_bit :: "u32 \<Rightarrow> u32" where
  "crc_bit x = (if bit x 0 then drop_bit 1 x XOR 0xedb88320 else drop_bit 1 x)"

definition crc_ref :: "u32 \<Rightarrow> u8 list \<Rightarrow> u32" where
  "crc_ref = foldl (\<lambda>fcs b. (crc_bit ^^ 8) (fcs XOR ucast b))"

text \<open>The table is linear in its index, so it is enough to check it at the powers of two and
  that each entry is the exclusive-or of the entries of its highest bit and of the rest.\<close>

lemma crc_bit_xor: "crc_bit (x XOR y) = crc_bit x XOR crc_bit y"
proof -
  have p: "drop_bit 1 (x XOR y) = drop_bit 1 x XOR drop_bit 1 y" by (rule drop_bit_xor)
  have q: "bit (x XOR y) 0 \<longleftrightarrow> bit x 0 \<noteq> bit y 0" by (rule bit_xor_iff)
  show ?thesis unfolding crc_bit_def p q
    by (cases "bit x 0"; cases "bit y 0") (simp_all add: ac_simps)
qed

lemma crc_bits_xor: "(crc_bit ^^ n) (x XOR y) = (crc_bit ^^ n) x XOR (crc_bit ^^ n) y"
  by (induction n) (simp_all add: crc_bit_xor)

lemma crc_bits_low_zero: "take_bit n x = 0 \<Longrightarrow> (crc_bit ^^ n) x = drop_bit n x"
proof (induction n arbitrary: x)
  case 0
  then show ?case by simp
next
  case (Suc n)
  have nb: "\<not> bit x m" if "m < Suc n" for m
    using Suc.prems that by (metis bit_0_eq bit_take_bit_iff bot_apply bot_bool_def)
  have "take_bit n (drop_bit 1 x) = 0"
    by (rule bit_eqI) (use nb in \<open>simp add: bit_take_bit_iff bit_drop_bit_eq\<close>)
  then have "(crc_bit ^^ n) (drop_bit 1 x) = drop_bit n (drop_bit 1 x)" by (rule Suc.IH)
  moreover have "crc_bit x = drop_bit 1 x" using nb [of 0] by (simp add: crc_bit_def)
  ultimately show ?case by (simp add: funpow_Suc_right del: funpow.simps)
qed

lemma FCSTAB_length: "length FCSTAB_32 = 256" by (simp add: FCSTAB_32_def)

definition crc_split :: "nat \<Rightarrow> bool" where
  "crc_split k \<longleftrightarrow> map (\<lambda>r. FCSTAB_32 ! k XOR FCSTAB_32 ! r) [0..<k] = take k (drop k FCSTAB_32)"

lemma crc_split1: "crc_split 1" "crc_split 2" "crc_split 4" "crc_split 8" "crc_split 16" by code_simp+
lemma crc_split2: "crc_split 32" "crc_split 64" by code_simp+
lemma crc_split3: "crc_split 128" by code_simp
lemma crc_powers: "(crc_bit ^^ 8) 1 = FCSTAB_32 ! 1" "(crc_bit ^^ 8) 2 = FCSTAB_32 ! 2" "(crc_bit ^^ 8) 4 = FCSTAB_32 ! 4"
   "(crc_bit ^^ 8) 8 = FCSTAB_32 ! 8" "(crc_bit ^^ 8) 16 = FCSTAB_32 ! 16" "(crc_bit ^^ 8) 32 = FCSTAB_32 ! 32"
   "(crc_bit ^^ 8) 64 = FCSTAB_32 ! 64" "(crc_bit ^^ 8) 128 = FCSTAB_32 ! 128"
  by code_simp+

lemma crc_table_double:
  assumes "\<forall>i<k. (crc_bit ^^ 8) (of_nat i) = FCSTAB_32 ! i" "crc_split k" "(crc_bit ^^ 8) (of_nat k) = FCSTAB_32 ! k"
    and "k = 2 ^ m" "k \<le> 128"
  shows "\<forall>i<2 * k. (crc_bit ^^ 8) (of_nat i) = FCSTAB_32 ! i"
proof (intro allI impI)
  fix i assume i: "i < 2 * k"
  show "(crc_bit ^^ 8) (of_nat i) = FCSTAB_32 ! i"
  proof (cases "i < k")
    case True
    then show ?thesis using assms(1) by blast
  next
    case False
    define r where "r = i - k"
    have r: "r < k" "i = k + r" using i False by (auto simp: r_def)
    have d: "(of_nat k :: u32) AND of_nat r = 0"
    proof (rule bit_eqI)
      fix n
      have "\<not> (bit k n \<and> bit r n)"
        using r(1) assms(4) by (metis bit_exp_iff bit_nat_iff bit_take_bit_iff less_irrefl take_bit_nat_eq_self)
      then show "bit ((of_nat k :: u32) AND of_nat r) n = bit (0 :: u32) n"
        by (auto simp: bit_and_iff bit_of_nat_iff)
    qed
    have x: "(of_nat i :: u32) = of_nat k XOR of_nat r"
      using d unfolding r(2) by (simp add: disjunctive_xor_eq_or disjunctive_add_eq_or)
    have "FCSTAB_32 ! i = FCSTAB_32 ! k XOR FCSTAB_32 ! r"
      using arg_cong [OF assms(2) [unfolded crc_split_def], of "\<lambda>xs. xs ! r"] r assms(5)
      by (simp add: FCSTAB_length)
    then show ?thesis using assms(1,3) r(1) by (simp add: x crc_bits_xor del: funpow.simps)
  qed
qed

lemma crc_table: "i < 256 \<Longrightarrow> (crc_bit ^^ 8) (of_nat i) = FCSTAB_32 ! i"
proof -
  assume i: "i < 256"
  have "\<forall>i<1. (crc_bit ^^ 8) (of_nat i) = FCSTAB_32 ! i"
    using crc_bits_low_zero [of 8 0] by (simp add: FCSTAB_32_def del: funpow.simps)
  then have "\<forall>i<2 * 1. (crc_bit ^^ 8) (of_nat i) = FCSTAB_32 ! i"
    by (rule crc_table_double [where m = 0]) (use crc_split1 crc_powers in \<open>simp_all del: funpow.simps\<close>)
  then have "\<forall>i<2 * 2. (crc_bit ^^ 8) (of_nat i) = FCSTAB_32 ! i"
    by (intro crc_table_double [where m = 1]) (use crc_split1 crc_powers in \<open>simp_all del: funpow.simps\<close>)
  then have "\<forall>i<2 * 4. (crc_bit ^^ 8) (of_nat i) = FCSTAB_32 ! i"
    by (intro crc_table_double [where m = 2]) (use crc_split1 crc_powers in \<open>simp_all del: funpow.simps\<close>)
  then have "\<forall>i<2 * 8. (crc_bit ^^ 8) (of_nat i) = FCSTAB_32 ! i"
    by (intro crc_table_double [where m = 3]) (use crc_split1 crc_powers in \<open>simp_all del: funpow.simps\<close>)
  then have "\<forall>i<2 * 16. (crc_bit ^^ 8) (of_nat i) = FCSTAB_32 ! i"
    by (intro crc_table_double [where m = 4]) (use crc_split1 crc_powers in \<open>simp_all del: funpow.simps\<close>)
  then have "\<forall>i<2 * 32. (crc_bit ^^ 8) (of_nat i) = FCSTAB_32 ! i"
    by (intro crc_table_double [where m = 5]) (simp_all add: crc_split2 crc_powers del: funpow.simps)
  then have "\<forall>i<2 * 64. (crc_bit ^^ 8) (of_nat i) = FCSTAB_32 ! i"
    by (intro crc_table_double [where m = 6]) (simp_all add: crc_split2 crc_powers del: funpow.simps)
  then have "\<forall>i<2 * 128. (crc_bit ^^ 8) (of_nat i) = FCSTAB_32 ! i"
    by (intro crc_table_double [where m = 7]) (simp_all add: crc_split3 crc_powers del: funpow.simps)
  then show ?thesis using i by simp
qed

lemma and_ff: "(w AND 0xff :: u32) = take_bit 8 w"
  using take_bit_eq_mask [of 8 w] by (simp add: mask_eq_exp_minus_1)

lemma crc_step: "drop_bit 8 fcs XOR FCSTAB_32 ! unat ((fcs XOR ucast b) AND 0xff) = (crc_bit ^^ 8) (fcs XOR ucast (b :: u8))"
proof -
  define x where "x = fcs XOR ucast b"
  define lo hi where "lo = take_bit 8 x" and "hi = push_bit 8 (drop_bit 8 x)"
  have x: "x = hi XOR lo"
    by (rule bit_eqI) (auto simp: lo_def hi_def bit_xor_iff bit_take_bit_iff bit_push_bit_iff bit_drop_bit_eq)
  have "unat lo < 256" by (simp add: lo_def unsigned_take_bit_eq take_bit_eq_mod [where ?'a = nat])
  from crc_table [OF this] have l: "(crc_bit ^^ 8) lo = FCSTAB_32 ! unat lo" by (simp del: funpow.simps)
  have "take_bit 8 hi = 0" by (rule bit_eqI) (auto simp: hi_def bit_take_bit_iff bit_push_bit_iff)
  then have h: "(crc_bit ^^ 8) hi = drop_bit 8 hi" by (rule crc_bits_low_zero)
  have "drop_bit 8 hi = drop_bit 8 fcs"
  proof (rule bit_eqI)
    fix n assume n: "possible_bit TYPE(32 word) n"
    show "bit (drop_bit 8 hi) n = bit (drop_bit 8 fcs) n"
      using n by (auto simp: hi_def x_def bit_drop_bit_eq bit_push_bit_iff bit_xor_iff bit_ucast_iff
          possible_bit_def dest: bit_imp_le_length)
  qed
  then have "(crc_bit ^^ 8) x = drop_bit 8 fcs XOR FCSTAB_32 ! unat lo"
    unfolding x crc_bits_xor l h by simp
  then show ?thesis unfolding and_ff x_def [symmetric] lo_def [symmetric] by simp
qed

lemma fcs_ref: "n \<le> length bs \<Longrightarrow> RTMP_CALC_FCS32 fcs bs n = crc_ref fcs (take n bs)"
proof (induction n arbitrary: fcs bs)
  case 0
  then show ?case by (simp add: crc_ref_def)
next
  case (Suc n)
  then obtain b cs where "bs = b # cs" by (cases bs) auto
  then show ?case using Suc crc_step [of fcs b] by (simp add: crc_ref_def del: funpow.simps)
qed

text \<open>The table-driven frame check sequence computes the bit-serial CRC-32 of IEEE 802.3 over the
  first Len bytes, for every start value: all 256 entries of the table are right.\<close>
theorem fcs32_is_crc32:
  assumes "Len \<le> length Cp"
  shows "RTMP_CALC_FCS32 Fcs Cp Len = crc_ref Fcs (take Len Cp)"
  using assms by (rule fcs_ref)

theorem fcs32_is_crc32_witness: "RTMP_CALC_FCS32 PPPINITFCS32 [1, 2, 3] 2 = crc_ref PPPINITFCS32 [1, 2]"
  using fcs32_is_crc32 [of 2 "[1, 2, 3]" PPPINITFCS32] by simp

section \<open>Encapsulation\<close>

abbreviation LEN_WEP_IV_HDR :: nat where "LEN_WEP_IV_HDR \<equiv> 4"
abbreviation LEN_ICV :: nat where "LEN_ICV \<equiv> 4"

record cipher_key =
  Key :: "u8 list"
  TxMic :: "u8 list"
  RxMic :: "u8 list"
  KeyLen :: u8

text \<open>The seed has 16 bytes: a key of more than 13 bytes is copied past its end.\<close>

definition RTMPInitWepEngine :: "bool \<Rightarrow> u8 list \<Rightarrow> u8 list \<Rightarrow> u8 \<Rightarrow> arc4_ctx \<Rightarrow> arc4_ctx option" where
  "RTMPInitWepEngine alloc Iv key len ctx =
    (if \<not> alloc then Some ctx
     else if 3 + unat len > 16 then None
     else
       let seed = copy_at (copy_at (replicate 16 0) 0 (take 3 Iv)) 3 (take (unat len) key);
           seed_len = 3 + len
       in ARC4_INIT seed (ucast seed_len))"

definition RTMPConstructWEPIVHdr :: "u8 \<Rightarrow> u8 list \<Rightarrow> u8 list" where
  "RTMPConstructWEPIVHdr key_idx pn = (take 3 pn @ [0])[3 := push_bit 6 key_idx]"

definition RTMPSoftEncryptWEP ::
  "bool \<Rightarrow> bool \<Rightarrow> arc4_ctx \<Rightarrow> u8 list \<Rightarrow> cipher_key \<Rightarrow> u8 list \<Rightarrow> u32 \<Rightarrow> (bool \<times> u8 list) option" where
  "RTMPSoftEncryptWEP alloc seed_alloc ctx0 IvHdr k dat DataByteCnt =
    (if \<not> alloc then Some (False, dat)
     else if KeyLen k = 0 then Some (False, dat)
     else case RTMPInitWepEngine seed_alloc IvHdr (Key k) (KeyLen k) ctx0 of None \<Rightarrow> None
     | Some ctx \<Rightarrow>
       if unat DataByteCnt + LEN_ICV > length dat then None
       else
         let FCSCRC32 = RTMP_CALC_FCS32 PPPINITFCS32 dat (unat DataByteCnt);
             FCSCRC32 = FCSCRC32 XOR 0xffffffff;
             dat = copy_at dat (unat DataByteCnt) (le_bytes FCSCRC32)
         in Some (True, snd (ARC4_Compute ctx dat 0 (DataByteCnt + of_nat LEN_ICV) 0)))"

text \<open>The lengths are 16-bit: a frame shorter than header and check value wraps around.\<close>

definition RTMPSoftDecryptWEP ::
  "bool \<Rightarrow> bool \<Rightarrow> arc4_ctx \<Rightarrow> cipher_key \<Rightarrow> u8 list \<Rightarrow> u16 \<Rightarrow> (bool \<times> u8 list \<times> u16) option" where
  "RTMPSoftDecryptWEP alloc seed_alloc ctx0 k dat DataByteCnt =
    (if \<not> alloc then Some (False, dat, DataByteCnt)
     else if KeyLen k = 0 then Some (False, dat, DataByteCnt)
     else case RTMPInitWepEngine seed_alloc dat (Key k) (KeyLen k) ctx0 of None \<Rightarrow> None
     | Some ctx \<Rightarrow>
       let ciphertext_len = DataByteCnt - of_nat LEN_WEP_IV_HDR in
       if LEN_WEP_IV_HDR + unat ciphertext_len > length dat then None
       else
         let dat = snd (ARC4_Compute ctx dat LEN_WEP_IV_HDR (ucast ciphertext_len) 0);
             plaintext_len = ciphertext_len - of_nat LEN_ICV
         in if unat plaintext_len + LEN_ICV > length dat then None
            else
              let trailfcs = le32 (drop (unat plaintext_len) dat);
                  crc32 = RTMP_CALC_FCS32 PPPINITFCS32 dat (unat plaintext_len) XOR 0xffffffff
              in if crc32 \<noteq> trailfcs then Some (False, dat, DataByteCnt)
                 else Some (True, dat, plaintext_len))"

section \<open>Round trip\<close>

lemma engine_some:
  assumes "0 < unat len" "unat len \<le> 13"
  shows "\<exists>c. RTMPInitWepEngine True Iv key len ctx = Some c"
    and "take 3 Iv = take 3 Iv' \<Longrightarrow> RTMPInitWepEngine True Iv key len ctx = RTMPInitWepEngine True Iv' key len ctx'"
proof -
  have "unat (3 + len) = 3 + unat len" using assms(2) by (simp add: unat_word_ariths)
  then have "unat (ucast (3 + len) :: u32) \<noteq> 0"
    unfolding unsigned_ucast_eq using assms(2) by (simp add: take_bit_eq_mod)
  then have "(ucast (3 + len) :: u32) \<noteq> 0" by (metis unsigned_0)
  then show "\<exists>c. RTMPInitWepEngine True Iv key len ctx = Some c"
    using assms(2) arc4_init_some by (simp add: RTMPInitWepEngine_def Let_def)
  show "take 3 Iv = take 3 Iv' \<Longrightarrow> RTMPInitWepEngine True Iv key len ctx = RTMPInitWepEngine True Iv' key len ctx'"
    by (simp add: RTMPInitWepEngine_def Let_def)
qed

lemma wep_encrypt_bytes:
  assumes "0 < unat (KeyLen k)" "unat (KeyLen k) \<le> 13" "n + 8 < 65536" "n + 4 \<le> length dat"
    and "RTMPInitWepEngine True hdr (Key k) (KeyLen k) c0 = Some c"
  shows "\<exists>e. RTMPSoftEncryptWEP True True c0 hdr k dat (of_nat n) = Some (True, e) \<and>
    take (n + 4) e = xor_bytes (take n dat @ le_bytes (crc_ref PPPINITFCS32 (take n dat) XOR 0xffffffff)) (arc4_stream (n + 4) c)"
proof -
  have u: "unat (of_nat n :: u32) = n" "unat (of_nat n + 4 :: u32) = n + 4"
    using assms(3) by (simp_all add: unat_of_nat unat_word_ariths)
  have kl: "KeyLen k \<noteq> 0" using assms(1) by auto
  define icv where "icv = le_bytes (crc_ref PPPINITFCS32 (take n dat) XOR 0xffffffff)"
  define d where "d = copy_at dat n icv"
  have icv: "length icv = 4" by (simp add: icv_def)
  have d: "length d = length dat" "take (n + 4) d = take n dat @ icv"
    using copy_length [of n icv dat] take_copy [of n icv dat] assms(4) icv by (simp_all add: d_def)
  have E: "RTMPSoftEncryptWEP True True c0 hdr k dat (of_nat n) = Some (True, snd (ARC4_Compute c d 0 (of_nat n + 4) 0))"
    using assms(4,5) kl fcs_ref [of n dat PPPINITFCS32] by (simp add: RTMPSoftEncryptWEP_def u d_def icv_def Let_def)
  have "0 + unat (of_nat n + 4 :: u32) \<le> length d" using d(1) assms(4) u(2) by simp
  from ARC4_Compute_stream [OF order_refl this, of c]
  have "take (n + 4) (snd (ARC4_Compute c d 0 (of_nat n + 4) 0)) = xor_bytes (take n dat @ icv) (arc4_stream (n + 4) c)"
    using d(2) icv assms(4) by (simp add: u(2))
  then show ?thesis using E by (simp add: icv_def)
qed

lemma wep_decrypt_bytes:
  assumes "0 < unat (KeyLen k)" "unat (KeyLen k) \<le> 13" "length p + 8 < 65536" "length icv = 4" "length hdr = 4"
    and "RTMPInitWepEngine True hdr (Key k) (KeyLen k) c1 = Some c"
  defines "frame \<equiv> hdr @ xor_bytes (p @ icv) (arc4_stream (length p + 4) c)"
  shows "\<exists>r. take (length p) r = p \<and> RTMPSoftDecryptWEP True True c1 k frame (of_nat (length p + 8)) =
    (if le32 icv = crc_ref PPPINITFCS32 p XOR 0xffffffff then Some (True, r, of_nat (length p))
     else Some (False, r, of_nat (length p + 8)))"
proof -
  let ?n = "length p"
  have kl: "KeyLen k \<noteq> 0" using assms(1) by auto
  have c16: "(of_nat (?n + 8) :: u16) - of_nat 4 = of_nat (?n + 4)" "(of_nat (?n + 4) :: u16) - of_nat 4 = of_nat ?n"
    by simp_all
  have u16: "unat (of_nat (?n + 4) :: u16) = ?n + 4" "unat (of_nat ?n :: u16) = ?n"
    using assms(3) unat_of_nat [of "?n + 4", where ?'a = 16] unat_of_nat [of ?n, where ?'a = 16] by simp_all
  have u32: "unat (ucast (of_nat (?n + 4) :: u16) :: u32) = ?n + 4"
    unfolding unsigned_ucast_eq using u16(1) assms(3) by (simp add: take_bit_eq_mod)
  have lx: "length (xor_bytes (p @ icv) (arc4_stream (?n + 4) c)) = ?n + 4" using assms(4) by simp
  then have lf: "length frame = ?n + 8" using assms(5) by (simp add: frame_def)
  define r where "r = snd (ARC4_Compute c frame 4 (ucast (of_nat (?n + 4) :: u16)) 0)"
  have "4 + unat (ucast (of_nat (?n + 4) :: u16) :: u32) \<le> length frame" unfolding u32 lf by simp
  from ARC4_Compute_stream [OF _ this, of 0 c]
  have r: "r = (p @ icv) @ drop (?n + 4) frame"
    unfolding r_def u32 using lx assms(4,5) by (simp add: frame_def xor_bytes_twice)
  have crc: "RTMP_CALC_FCS32 PPPINITFCS32 r ?n = crc_ref PPPINITFCS32 p" using fcs_ref [of ?n r] by (simp add: r)
  have tr: "le32 (drop ?n r) = le32 icv" using assms(4) by (simp add: r le32_def nth_append)
  have eng: "RTMPInitWepEngine True frame (Key k) (KeyLen k) c1 = Some c"
    using engine_some(2) [OF assms(1,2), of frame hdr "Key k" c1 c1] assms(5,6) by (simp add: frame_def)
  have lr: "length r = ?n + 8" using lf assms(4) by (simp add: r)
  have "RTMPSoftDecryptWEP True True c1 k frame (of_nat (?n + 8)) =
      (if crc_ref PPPINITFCS32 p XOR 0xffffffff \<noteq> le32 icv then Some (False, r, of_nat (?n + 8)) else Some (True, r, of_nat ?n))"
    unfolding RTMPSoftDecryptWEP_def eng Let_def c16 u16 option.case r_def [symmetric] crc tr lf lr using kl by simp
  then show ?thesis by (intro exI [of _ r]) (auto simp: r)
qed

lemma wep_roundtrip_run:
  assumes "0 < unat (KeyLen k)" "unat (KeyLen k) \<le> 13" "n + 8 < 65536" "n + 4 \<le> length dat" "3 \<le> length pn"
    and "hdr = RTMPConstructWEPIVHdr idx pn"
  shows "\<exists>e r. RTMPSoftEncryptWEP True True c0 hdr k dat (of_nat n) = Some (True, e) \<and>
    RTMPSoftDecryptWEP True True c1 k (hdr @ take (n + 4) e) (of_nat (n + 8)) = Some (True, r, of_nat n) \<and>
    take n r = take n dat"
proof -
  have lh: "length hdr = 4" using assms(5,6) by (simp add: RTMPConstructWEPIVHdr_def)
  obtain c where c: "RTMPInitWepEngine True hdr (Key k) (KeyLen k) c0 = Some c" using engine_some(1) [OF assms(1,2)] by blast
  have c': "RTMPInitWepEngine True hdr (Key k) (KeyLen k) c1 = Some c"
    using engine_some(2) [OF assms(1,2), of hdr hdr "Key k" c1 c0] c by simp
  let ?icv = "le_bytes (crc_ref PPPINITFCS32 (take n dat) XOR 0xffffffff)"
  obtain e where e: "RTMPSoftEncryptWEP True True c0 hdr k dat (of_nat n) = Some (True, e)"
    "take (n + 4) e = xor_bytes (take n dat @ ?icv) (arc4_stream (n + 4) c)"
    using wep_encrypt_bytes [OF assms(1-4) c] by blast
  have lp: "length (take n dat) = n" using assms(4) by simp
  have "le32 ?icv = crc_ref PPPINITFCS32 (take n dat) XOR 0xffffffff" using le32_le_bytes [of _ "[]"] by simp
  then obtain r where "take n r = take n dat"
    "RTMPSoftDecryptWEP True True c1 k (hdr @ take (n + 4) e) (of_nat (n + 8)) = Some (True, r, of_nat n)"
    using wep_decrypt_bytes [OF assms(1,2) _ _ lh c', of "take n dat" ?icv] assms(3) lp e(2) by auto
  then show ?thesis using e(1) by blast
qed

text \<open>C29: WEP round trip: a payload encapsulated by RTMPSoftEncryptWEP and sent behind the header of
  RTMPConstructWEPIVHdr is accepted by RTMPSoftDecryptWEP with the same key, which returns
  the payload and its length; the check value matches and no access leaves the buffers, for
  every WEP key of 1 to 13 bytes and every frame that fits the 16-bit length.\<close>
theorem wep_roundtrip:
  assumes "0 < unat (KeyLen k)" "unat (KeyLen k) \<le> 13" "n + 8 < 65536" "n + 4 \<le> length dat" "3 \<le> length pn"
    and "hdr = RTMPConstructWEPIVHdr idx pn"
  shows "\<exists>e r. RTMPSoftEncryptWEP True True c0 hdr k dat (of_nat n) = Some (True, e) \<and>
    RTMPSoftDecryptWEP True True c1 k (hdr @ take (n + 4) e) (of_nat (n + 8)) = Some (True, r, of_nat n) \<and>
    take n r = take n dat"
  using assms by (rule wep_roundtrip_run)

definition ex_wep_key :: cipher_key where
  "ex_wep_key = \<lparr>Key = [1, 2, 3, 4, 5, 0, 0, 0, 0, 0, 0, 0, 0, 0, 0, 0], TxMic = [], RxMic = [], KeyLen = 5\<rparr>"

definition ex_arc4 :: arc4_ctx where
  "ex_arc4 = \<lparr>BlockIndex1 = 0, BlockIndex2 = 0, KeyBlock = []\<rparr>"

theorem wep_roundtrip_witness:
  "\<exists>e r. RTMPSoftEncryptWEP True True ex_arc4 (RTMPConstructWEPIVHdr 1 [7, 8, 9]) ex_wep_key [0x61, 0x62, 0, 0, 0, 0] 2 = Some (True, e) \<and>
    RTMPSoftDecryptWEP True True ex_arc4 ex_wep_key (RTMPConstructWEPIVHdr 1 [7, 8, 9] @ take 6 e) 10 = Some (True, r, 2) \<and>
    take 2 r = [0x61, 0x62]"
  using wep_roundtrip [of ex_wep_key 2 "[0x61, 0x62, 0, 0, 0, 0]" "[7, 8, 9]" _ 1 ex_arc4 ex_arc4]
  by (simp add: ex_wep_key_def)

text \<open>RTMPSoftDecryptWEP accepts a frame of ciphertext exactly when the decrypted check value is the
  complement of the CRC-32 of the decrypted payload; on a mismatch it reports failure and
  leaves the length unchanged.\<close>
theorem wep_decrypt_accepts:
  assumes "0 < unat (KeyLen k)" "unat (KeyLen k) \<le> 13" "length p + 8 < 65536" "length icv = 4" "length hdr = 4"
    and "RTMPInitWepEngine True hdr (Key k) (KeyLen k) c1 = Some c"
  shows "\<exists>r. take (length p) r = p \<and>
    RTMPSoftDecryptWEP True True c1 k (hdr @ xor_bytes (p @ icv) (arc4_stream (length p + 4) c)) (of_nat (length p + 8)) =
    (if le32 icv = crc_ref PPPINITFCS32 p XOR 0xffffffff then Some (True, r, of_nat (length p))
     else Some (False, r, of_nat (length p + 8)))"
  using assms by (rule wep_decrypt_bytes)

theorem wep_decrypt_accepts_witness:
  "\<exists>c r. RTMPInitWepEngine True [7, 8, 9, 0] (Key ex_wep_key) (KeyLen ex_wep_key) ex_arc4 = Some c \<and>
    RTMPSoftDecryptWEP True True ex_arc4 ex_wep_key ([7, 8, 9, 0] @ xor_bytes ([1] @ [0, 0, 0, 0]) (arc4_stream 5 c)) 9 = Some (False, r, 9)"
proof -
  have k: "0 < unat (KeyLen ex_wep_key)" "unat (KeyLen ex_wep_key) \<le> 13" by (simp_all add: ex_wep_key_def)
  obtain c where c: "RTMPInitWepEngine True [7, 8, 9, 0] (Key ex_wep_key) (KeyLen ex_wep_key) ex_arc4 = Some c"
    using engine_some(1) [OF k] by blast
  have "crc_ref PPPINITFCS32 [1] XOR 0xffffffff \<noteq> le32 [0, 0, 0, 0]" by code_simp
  then show ?thesis using wep_decrypt_accepts [OF k _ _ _ c, of "[1]" "[0, 0, 0, 0]"] c by auto
qed

text \<open>RTMPSoftDecryptWEP does not check the length of the frame: with fewer than 8 bytes (header and
  check value) its 16-bit lengths wrap around and it reads far outside the buffer.\<close>
theorem wep_short_frame_overrun:
  assumes "0 < unat (KeyLen k)" "unat (KeyLen k) \<le> 13" "unat cnt < 8" "length dat < 65528"
  shows "RTMPSoftDecryptWEP True True c0 k dat cnt = None"
proof -
  obtain c where c: "RTMPInitWepEngine True dat (Key k) (KeyLen k) c0 = Some c" using engine_some(1) [OF assms(1,2)] by blast
  have kl: "KeyLen k \<noteq> 0" using assms(1) by auto
  have cc: "cnt - of_nat 4 - of_nat 4 = cnt - 8" by simp
  have "cnt - 8 = cnt + 65528" by simp
  moreover have "unat (cnt + 65528) = unat cnt + 65528" using assms(3) unat_word_ariths(1) [of cnt 65528] by simp
  ultimately have u: "unat (cnt - 8) = unat cnt + 65528" by metis
  have l: "length (snd (ARC4_Compute c dat 4 (ucast (cnt - 4)) 0)) = length dat"
    if "4 + unat (cnt - 4) \<le> length dat"
  proof -
    have "unat (ucast (cnt - 4) :: u32) = unat (cnt - 4)" by (rule unat_ucast_16_32)
    then have a: "4 + unat (ucast (cnt - 4) :: u32) \<le> length dat" using that by simp
    show ?thesis using ARC4_Compute_stream [OF _ a, of 0 c] a by simp
  qed
  show ?thesis
    unfolding RTMPSoftDecryptWEP_def c Let_def cc using kl u l assms(4) by auto
qed

theorem wep_short_frame_overrun_witness:
  "RTMPSoftDecryptWEP True True ex_arc4 ex_wep_key [1, 2, 3, 4, 5, 6, 7] 7 = None"
  by (rule wep_short_frame_overrun) (simp_all add: ex_wep_key_def)

end
