(* ===== verification/Ccmp.thy ===== *)
theory Ccmp
  imports Ccm Wep
begin

text \<open>
  CCMP in software, \<open>rt3370/common/cmm_aes.c\<close>. The file has two implementations: the pair
  \<open>RTMPSoftEncryptCCMP\<close>, \<open>RTMPSoftDecryptCCMP\<close> on top of the CCM of \<open>crypt_aes.c\<close>, here, and the older
  \<open>RTMPSoftDecryptAES\<close>, in the theory \<open>CcmpOld\<close>. Headers and buffers are byte lists. A buffer that the code decrypts or encrypts in place is passed
  once for both of the arguments of the mode; \<open>ccmp_in_place\<close> below is why that is the same.
\<close>

section \<open>The parts of a frame\<close>

abbreviation SUBTYPE_QDATA :: u8 where "SUBTYPE_QDATA \<equiv> 8"
abbreviation SUBTYPE_QDATA_CFACK :: u8 where "SUBTYPE_QDATA_CFACK \<equiv> 9"
abbreviation SUBTYPE_QDATA_CFPOLL :: u8 where "SUBTYPE_QDATA_CFPOLL \<equiv> 10"
abbreviation SUBTYPE_QDATA_CFACK_CFPOLL :: u8 where "SUBTYPE_QDATA_CFACK_CFPOLL \<equiv> 11"
abbreviation BTYPE_DATA :: u8 where "BTYPE_DATA \<equiv> 2"
abbreviation LEN_CCMP_HDR :: nat where "LEN_CCMP_HDR \<equiv> 8"
abbreviation LEN_CCMP_MIC :: nat where "LEN_CCMP_MIC \<equiv> 8"

definition hdr_is_data :: "u8 list \<Rightarrow> bool" where
  "hdr_is_data pHdr \<longleftrightarrow> drop_bit 2 (pHdr ! 0) AND 0x03 = BTYPE_DATA"

definition hdr_a4 :: "u8 list \<Rightarrow> bool" where
  "hdr_a4 pHdr \<longleftrightarrow> (let from_ds = drop_bit 1 (pHdr ! 1 AND 0x2); to_ds = pHdr ! 1 AND 0x1 in from_ds AND to_ds \<noteq> 0)"

definition hdr_qc :: "u8 list \<Rightarrow> bool" where
  "hdr_qc pHdr \<longleftrightarrow>
    (let frame_subtype = drop_bit 4 (pHdr ! 0) AND 0x0f in
     frame_subtype = SUBTYPE_QDATA \<or> frame_subtype = SUBTYPE_QDATA_CFACK \<or>
     frame_subtype = SUBTYPE_QDATA_CFPOLL \<or> frame_subtype = SUBTYPE_QDATA_CFACK_CFPOLL)"

text \<open>The additional data: the header with the fields muted that may change in a retransmission. The result
  is the buffer and the length.\<close>

definition RTMPConstructCCMPAAD :: "u8 list \<Rightarrow> bool \<Rightarrow> bool \<Rightarrow> bool \<Rightarrow> u8 list \<Rightarrow> u8 list \<times> nat" where
  "RTMPConstructCCMPAAD pHdr isDataFrame a4_exists qc_exists aad_hdr =
    (let aad_hdr = aad_hdr[0 := (if isDataFrame then pHdr ! 0 AND 0x8f else pHdr ! 0)];
         aad_hdr = aad_hdr[1 := pHdr ! 1 AND 0xc7];
         aad_hdr = aad_hdr[1 := aad_hdr ! 1 OR 0x40];
         aad_hdr = copy_at aad_hdr 2 (take 18 (drop 4 pHdr));
         aad_hdr = aad_hdr[20 := pHdr ! 22 AND 0x0f, 21 := 0x00];
         len = 22;
         (aad_hdr, len) = (if a4_exists then (copy_at aad_hdr len (take 6 (drop 24 pHdr)), len + 6) else (aad_hdr, len))
     in if qc_exists \<and> a4_exists then (aad_hdr[len := pHdr ! 30 AND 0x0f, len + 1 := 0x00], len + 2)
        else if qc_exists \<and> \<not> a4_exists then (aad_hdr[len := pHdr ! 24 AND 0x0f, len + 1 := 0x00], len + 2)
        else (aad_hdr, len))"

definition RTMPConstructCCMPNonce :: "u8 list \<Rightarrow> bool \<Rightarrow> bool \<Rightarrow> u8 list \<Rightarrow> u8 list \<Rightarrow> u8 list \<times> nat" where
  "RTMPConstructCCMPNonce pHdr a4_exists qc_exists pn nonce_hdr =
    (let nonce_hdr = (if qc_exists \<and> a4_exists then nonce_hdr[0 := pHdr ! 30 AND 0x0f] else nonce_hdr);
         nonce_hdr = (if qc_exists \<and> \<not> a4_exists then nonce_hdr[0 := pHdr ! 24 AND 0x0f] else nonce_hdr);
         nonce_hdr = copy_at nonce_hdr 1 (take 6 (drop 10 pHdr));
         nonce_hdr = fold (\<lambda>i nonce_hdr. nonce_hdr[7 + i := pn ! (5 - i)]) [0..<6] nonce_hdr
     in (nonce_hdr, 13))"

definition RTMPConstructCCMPHdr :: "u8 \<Rightarrow> u8 list \<Rightarrow> u8 list" where
  "RTMPConstructCCMPHdr key_idx pn =
    (replicate 8 0)[0 := pn ! 0, 1 := pn ! 1, 3 := push_bit 6 key_idx OR 0x20, 4 := pn ! 2, 5 := pn ! 3, 6 := pn ! 4, 7 := pn ! 5]"

section \<open>Encryption and decryption over CCM\<close>

definition RTMPSoftEncryptCCMP ::
  "bool \<Rightarrow> u8 list \<Rightarrow> u8 list \<Rightarrow> u8 list \<Rightarrow> u8 list \<Rightarrow> u8 list \<Rightarrow> u32 \<Rightarrow> bool \<times> u8 list" where
  "RTMPSoftEncryptCCMP alloc junk pHdr pIV pKey pData DataLen =
    (let out_len = DataLen + 8;
         a4_exists = hdr_a4 pHdr;
         qc_exists = hdr_qc pHdr;
         (aad_hdr, aad_len) = RTMPConstructCCMPAAD pHdr (hdr_is_data pHdr) a4_exists qc_exists (replicate 30 0);
         (nonce_hdr, nonce_hdr_len) = RTMPConstructCCMPNonce pHdr a4_exists qc_exists pIV (replicate 13 0);
         (r, pData, out_len) = AES_CCM_Encrypt alloc junk pData DataLen pKey 16 nonce_hdr (of_nat nonce_hdr_len) aad_hdr (of_nat aad_len) 8 pData out_len
     in (r = 0, pData))"

definition RTMPSoftDecryptCCMP ::
  "bool \<Rightarrow> u8 list \<Rightarrow> u8 list \<Rightarrow> cipher_key \<Rightarrow> u8 list \<Rightarrow> u16 \<Rightarrow> bool \<times> u8 list \<times> u16" where
  "RTMPSoftDecryptCCMP alloc junk pHdr pKey pData DataLen =
    (let out_len = ucast DataLen :: u32 in
     if KeyLen pKey = 0 then (False, pData, DataLen)
     else
       let a4_exists = hdr_a4 pHdr;
           qc_exists = hdr_qc pHdr;
           pn = [pData ! 0, pData ! 1, pData ! 4, pData ! 5, pData ! 6, pData ! 7];
           cipherData = drop LEN_CCMP_HDR pData;
           cipherData_len = ucast DataLen - 8 :: u32;
           (aad_hdr, aad_len) = RTMPConstructCCMPAAD pHdr (hdr_is_data pHdr) a4_exists qc_exists (replicate 30 0);
           (nonce_hdr, nonce_hdr_len) = RTMPConstructCCMPNonce pHdr a4_exists qc_exists pn (replicate 13 0);
           (r, pData, out_len) = AES_CCM_Decrypt alloc junk cipherData cipherData_len (Key pKey) 16 nonce_hdr (of_nat nonce_hdr_len)
             aad_hdr (of_nat aad_len) 8 pData out_len
       in if r \<noteq> 0 then (False, pData, DataLen) else (True, pData, ucast out_len))"

section \<open>Additional data and nonce as IEEE 802.11 has them\<close>

definition header_length :: "u8 list \<Rightarrow> nat" where
  "header_length h = 24 + (if hdr_a4 h then 6 else 0) + (if hdr_qc h then 2 else 0)"

definition qc_byte :: "u8 list \<Rightarrow> u8" where "qc_byte h = h ! (if hdr_a4 h then 30 else 24) AND 0x0f"

definition ccmp_aad :: "u8 list \<Rightarrow> u8 list" where
  "ccmp_aad h =
    [if hdr_is_data h then h ! 0 AND 0x8f else h ! 0, (h ! 1 AND 0xc7) OR 0x40] @ take 18 (drop 4 h) @ [h ! 22 AND 0x0f, 0] @
    (if hdr_a4 h then take 6 (drop 24 h) else []) @ (if hdr_qc h then [qc_byte h, 0] else [])"

definition ccmp_nonce :: "u8 list \<Rightarrow> u8 list \<Rightarrow> u8 list" where
  "ccmp_nonce h pn = [if hdr_qc h then qc_byte h else 0] @ take 6 (drop 10 h) @ [pn ! 5, pn ! 4, pn ! 3, pn ! 2, pn ! 1, pn ! 0]"

lemma aad_length:
  assumes "header_length h \<le> length h"
  shows "length (ccmp_aad h) = header_length h - 2"
  using assms by (auto simp: ccmp_aad_def header_length_def split: if_splits)

lemma nonce_length: "16 \<le> length h \<Longrightarrow> length (ccmp_nonce h pn) = 13" by (simp add: ccmp_nonce_def)

lemma construct_aad:
  assumes "header_length h \<le> length h"
  shows "RTMPConstructCCMPAAD h (hdr_is_data h) (hdr_a4 h) (hdr_qc h) (replicate 30 0) =
    (ccmp_aad h @ replicate (30 - length (ccmp_aad h)) 0, length (ccmp_aad h))"
proof -
  define x where "x = take 18 (drop 4 h)"
  define f0 where "f0 = (if hdr_is_data h then h ! 0 AND 0x8f else h ! 0)"
  define f1 where "f1 = (h ! 1 AND 0xc7) OR 0x40"
  define s where "s = h ! 22 AND 0x0f"
  have lx: "length x = 18" using assms by (simp add: x_def header_length_def split: if_splits)
  have r: "replicate 30 (0::u8) = [0, 0] @ replicate 28 0" by (simp add: numeral_eq_Suc)
  have r': "replicate n (0::u8) = 0 # replicate (n - 1) 0" if "0 < n" for n using that by (cases n) simp_all
  let ?b = "[f0, f1] @ x @ [s, 0] @ replicate 8 0"
  have b: "(copy_at ((replicate 30 0)[0 := f0, 1 := h ! 1 AND 0xc7, 1 := f1]) 2 x)[20 := s, 21 := 0] = ?b"
  proof -
    have "copy_at ((replicate 30 0)[0 := f0, 1 := h ! 1 AND 0xc7, 1 := f1]) 2 x = [f0, f1] @ x @ replicate 10 0"
      unfolding r using lx by (simp add: copy_at_def)
    moreover have "replicate 10 (0::u8) = [0, 0] @ replicate 8 0" by (simp add: numeral_eq_Suc)
    ultimately show ?thesis using lx by (simp add: list_update_append)
  qed
  have f1': "((replicate 30 0)[0 := f0, 1 := h ! 1 AND 0xc7]) ! 1 OR 0x40 = f1" by (simp add: f1_def numeral_eq_Suc)
  have B: "RTMPConstructCCMPAAD h (hdr_is_data h) (hdr_a4 h) (hdr_qc h) (replicate 30 0) =
    (let (a, len) = (if hdr_a4 h then (copy_at ?b 22 (take 6 (drop 24 h)), 28) else (?b, 22))
     in if hdr_qc h then (a[len := qc_byte h, len + 1 := 0], len + 2) else (a, len))"
    unfolding RTMPConstructCCMPAAD_def Let_def f0_def [symmetric] x_def [symmetric] s_def [symmetric] f1' b
    by (simp add: qc_byte_def)
  define y where "y = take 6 (drop 24 h)"
  show ?thesis
  proof (cases "hdr_a4 h")
    case True
    then have ly: "length y = 6" using assms by (simp add: y_def header_length_def split: if_splits)
    have "copy_at ?b 22 y = [f0, f1] @ x @ [s, 0] @ y @ [0, 0]"
      using lx ly by (simp add: copy_at_def numeral_2_eq_2)
    then show ?thesis
      unfolding B ccmp_aad_def using True lx ly
      by (simp add: f0_def [symmetric] f1_def [symmetric] f1_def [unfolded One_nat_def, symmetric] x_def [symmetric] s_def [symmetric] y_def [symmetric] list_update_append numeral_2_eq_2)
  next
    case False
    have "replicate 8 (0::u8) = [0, 0] @ replicate 6 0" by (simp add: numeral_eq_Suc)
    then show ?thesis
      unfolding B ccmp_aad_def using False lx
      by (simp add: f0_def [symmetric] f1_def [symmetric] f1_def [unfolded One_nat_def, symmetric] x_def [symmetric] s_def [symmetric] list_update_append)
  qed
qed

lemma construct_nonce:
  assumes "16 \<le> length h"
  shows "RTMPConstructCCMPNonce h (hdr_a4 h) (hdr_qc h) pn (replicate 13 0) = (ccmp_nonce h pn, 13)"
proof -
  define y where "y = take 6 (drop 10 h)"
  have ly: "length y = 6" using assms by (simp add: y_def)
  have r: "replicate 13 (0::u8) = 0 # replicate 12 0" by (simp add: numeral_eq_Suc)
  define q where "q = (if hdr_qc h then qc_byte h else 0)"
  have "(let n = (if hdr_qc h \<and> hdr_a4 h then (replicate 13 0)[0 := h ! 30 AND 0x0f] else replicate 13 0)
      in if hdr_qc h \<and> \<not> hdr_a4 h then n[0 := h ! 24 AND 0x0f] else n) = q # replicate 12 0"
    unfolding r by (simp add: q_def qc_byte_def)
  moreover have "copy_at (q # replicate 12 0) 1 y = q # y @ replicate 6 0" using ly by (simp add: copy_at_def)
  moreover have "fold (\<lambda>i n. n[7 + i := pn ! (5 - i)]) [0..<6] (q # y @ replicate 6 0) =
      q # y @ [pn ! 5, pn ! 4, pn ! 3, pn ! 2, pn ! 1, pn ! 0]"
    using ly by (simp add: upt_rec list_update_append numeral_eq_Suc)
  ultimately show ?thesis
    unfolding RTMPConstructCCMPNonce_def Let_def y_def [symmetric] ccmp_nonce_def by (simp add: q_def)
qed


section \<open>The calls of CCM\<close>

lemma mac_prefix:
  assumes "take (unat pl) p = take (unat pl) p'" "take (unat aln) a = take (unat aln) a'"
  shows "AES_CCM_MAC al p pl K kl N nl a aln M mt = AES_CCM_MAC al p' pl K kl N nl a' aln M mt"
  unfolding AES_CCM_MAC_def assms ..

text \<open>Only the bytes the lengths name are read, and the size given for the output is only compared.\<close>

lemma encrypt_prefix:
  assumes "take (unat pl) p = take (unat pl) p'" "take (unat aln) a = take (unat aln) a'" "pl + 8 \<le> ctl" "pl + 8 \<le> ctl'" "7 \<le> nl" "nl \<le> 13"
  shows "AES_CCM_Encrypt al j p pl K 16 N nl a aln 8 ct ctl = AES_CCM_Encrypt al j p' pl K 16 N nl a' aln 8 ct ctl'"
  unfolding AES_CCM_Encrypt_def mac_prefix [OF assms(1,2)] assms(1) using assms(3-6)
  by (simp add: leD ccm_mac_length_ok_def Let_def)

lemma decrypt_prefix:
  assumes "length c = unat ctl" "8 \<le> ctl" "take (unat aln) a = take (unat aln) a'" "ctl - 8 \<le> ptl" "ctl - 8 \<le> ptl'" "7 \<le> nl" "nl \<le> 13"
  shows "AES_CCM_Decrypt al j (c @ r) ctl K 16 N nl a aln 8 pt ptl = AES_CCM_Decrypt al j c ctl K 16 N nl a' aln 8 pt ptl'"
proof -
  have u: "unat (ctl - 8) = length c - 8" "8 \<le> length c" using assms(1,2) by (simp_all add: unat_sub word_le_nat_alt)
  have t: "take (unat (ctl - 8)) (c @ r) = take (unat (ctl - 8)) c" "take (unat (8 :: u32)) (drop (unat (ctl - 8)) (c @ r)) = take (unat (8 :: u32)) (drop (unat (ctl - 8)) c)"
    using u by simp_all
  show ?thesis
    unfolding AES_CCM_Decrypt_def Let_def t mac_prefix [OF refl assms(3)] using assms(4-7)
    by (simp add: leD ccm_mac_length_ok_def)
qed

lemma frame_facts:
  assumes "header_length h \<le> length h"
  shows "16 \<le> length h" "length (ccmp_aad h) \<le> 30" "length (ccmp_aad h) < 0xFF00"
    "7 \<le> length (ccmp_nonce h pn)" "length (ccmp_nonce h pn) \<le> 13" "(of_nat (length (ccmp_nonce h pn)) :: u32) = 13"
proof -
  show h: "16 \<le> length h" using assms by (simp add: header_length_def split: if_splits)
  have "header_length h \<le> 32" by (simp add: header_length_def)
  then show "length (ccmp_aad h) \<le> 30" "length (ccmp_aad h) < 0xFF00" using aad_length [OF assms] by simp_all
  show "7 \<le> length (ccmp_nonce h pn)" "length (ccmp_nonce h pn) \<le> 13" "(of_nat (length (ccmp_nonce h pn)) :: u32) = 13"
    using nonce_length [OF h] by simp_all
qed

lemma aad_prefix:
  assumes "header_length h \<le> length h"
  shows "take (unat (of_nat (length (ccmp_aad h)) :: u32)) (ccmp_aad h @ z) = take (unat (of_nat (length (ccmp_aad h)) :: u32)) (ccmp_aad h)"
  using frame_facts(2) [OF assms] by (simp add: unat_of_nat)

text \<open>The frame that goes out: the CCM of RFC 3610 with the additional data and the nonce of IEEE 802.11.\<close>

definition ccmp_seal :: "u8 list \<Rightarrow> u8 list \<Rightarrow> u8 list \<Rightarrow> u8 list \<Rightarrow> u8 list" where
  "ccmp_seal key h pn p = rfc_ccm (fips_cipher key) 8 (ccmp_nonce h pn) (ccmp_aad h) p"

lemma encrypt_unfold:
  assumes "header_length h \<le> length h"
  shows "RTMPSoftEncryptCCMP al j h pn key pData n =
    (case AES_CCM_Encrypt al j pData n key 16 (ccmp_nonce h pn) 13 (ccmp_aad h @ replicate (30 - length (ccmp_aad h)) 0) (of_nat (length (ccmp_aad h)))
       8 pData (n + 8) of (r, d, ol) \<Rightarrow> (r = 0, d))"
  unfolding RTMPSoftEncryptCCMP_def Let_def construct_aad [OF assms] construct_nonce [OF frame_facts(1) [OF assms]] by simp

lemma decrypt_unfold:
  assumes "header_length h \<le> length h"
  shows "RTMPSoftDecryptCCMP al j h k pData n =
    (if KeyLen k = 0 then (False, pData, n)
     else case AES_CCM_Decrypt al j (drop 8 pData) (ucast n - 8) (Key k) 16
         (ccmp_nonce h [pData ! 0, pData ! 1, pData ! 4, pData ! 5, pData ! 6, pData ! 7]) 13
         (ccmp_aad h @ replicate (30 - length (ccmp_aad h)) 0) (of_nat (length (ccmp_aad h))) 8 pData (ucast n) of
       (r, d, ol) \<Rightarrow> if r \<noteq> 0 then (False, d, n) else (True, d, ucast ol))"
  unfolding RTMPSoftDecryptCCMP_def Let_def construct_aad [OF assms] construct_nonce [OF frame_facts(1) [OF assms]] by simp

lemma mac8: "ccm_mac_length_ok 8" "unat (8 :: u32) = 8" by (simp_all add: ccm_mac_length_ok_def)

lemma ccmp_encrypt_standard:
  assumes "header_length h \<le> length h" "length key = 16" "length p \<le> 4080" "8 \<le> length rest" "length (p @ rest) < 2 ^ 32" "length junk = 16"
  shows "RTMPSoftEncryptCCMP True junk h pn key (p @ rest) (of_nat (length p)) = (True, ccmp_seal key h pn p @ drop 8 rest)"
proof -
  note f = frame_facts [OF assms(1)]
  have un: "unat (of_nat (length p) :: u32) = length p" using assms(3) by (simp add: unat_of_nat)
  have s: "unat (of_nat (length p) + 8 :: u32) = length p + 8" using assms(3) un by (simp add: unat_word_ariths)
  have c: "of_nat (length p) + 8 \<le> (of_nat (length (p @ rest)) :: u32)"
    using s assms(4,5) by (simp add: word_le_nat_alt unat_of_nat del: length_append) simp
  have le: "length p + unat (8 :: u32) \<le> length (p @ rest)" using assms(4) by simp
  have t: "take (unat (of_nat (length p) :: u32)) (p @ rest) = take (unat (of_nat (length p) :: u32)) p" by (simp add: un)
  have "AES_CCM_Encrypt True junk (p @ rest) (of_nat (length p)) key 16 (ccmp_nonce h pn) 13 (ccmp_aad h @ replicate (30 - length (ccmp_aad h)) 0)
      (of_nat (length (ccmp_aad h))) 8 (p @ rest) (of_nat (length p) + 8) =
    AES_CCM_Encrypt True junk p (of_nat (length p)) key 16 (ccmp_nonce h pn) 13 (ccmp_aad h) (of_nat (length (ccmp_aad h))) 8 (p @ rest)
      (of_nat (length (p @ rest)))"
    by (rule encrypt_prefix [OF t aad_prefix [OF assms(1)] order_refl c]) simp_all
  also have "\<dots> = (0, rfc_ccm (fips_cipher key) (unat (8 :: u32)) (ccmp_nonce h pn) (ccmp_aad h) p @ drop (length p + unat (8 :: u32)) (p @ rest), of_nat (length p) + 8)"
    using ccm_encrypt_standard [OF assms(2) f(4,5) mac8(1) assms(3) f(3) le assms(5,6), of pn] unfolding f(6) .
  finally show ?thesis unfolding encrypt_unfold [OF assms(1)] by (simp add: ccmp_seal_def)
qed

text \<open>\<open>RTMPSoftEncryptCCMP\<close> turns the payload at the start of its buffer, in place, into the CCM cipher text and code
  of RFC 3610 for the additional data and the nonce that IEEE 802.11 derives from the header and the packet number,
  for every kind of header (with or without fourth address and QoS field).\<close>

theorem ccmp_encrypt_rfc:
  assumes "header_length h \<le> length h" "length key = 16" "length p \<le> 4080" "8 \<le> length rest" "length (p @ rest) < 2 ^ 32" "length junk = 16"
  shows "RTMPSoftEncryptCCMP True junk h pn key (p @ rest) (of_nat (length p)) = (True, ccmp_seal key h pn p @ drop 8 rest)"
  using assms by (rule ccmp_encrypt_standard)

text \<open>A QoS data frame to an access point.\<close>

abbreviation ex_hdr :: "u8 list" where "ex_hdr \<equiv> [0x88, 0x41] @ replicate 24 3"

lemma ex_hdr_length: "header_length ex_hdr = 26"
  by (simp add: header_length_def hdr_a4_def hdr_qc_def Let_def)

theorem ccmp_encrypt_rfc_witness:
  "RTMPSoftEncryptCCMP True (replicate 16 7) ex_hdr [1, 0, 0, 0, 0, 0] (replicate 16 5) ([9, 8] @ replicate 8 0) 2 =
    (True, ccmp_seal (replicate 16 5) ex_hdr [1, 0, 0, 0, 0, 0] [9, 8])"
proof -
  have "header_length ex_hdr \<le> length ex_hdr" unfolding ex_hdr_length by simp
  from ccmp_encrypt_rfc [OF this, of "replicate 16 5" "[9, 8]" "replicate 8 0" "replicate 16 7"] show ?thesis
    by (simp del: replicate.simps)
qed

definition ccmp_pn :: "u8 list \<Rightarrow> u8 list" where
  "ccmp_pn iv = [iv ! 0, iv ! 1, iv ! 4, iv ! 5, iv ! 6, iv ! 7]"

definition ccmp_open :: "u8 list \<Rightarrow> u8 list \<Rightarrow> u8 list \<Rightarrow> u8 list \<Rightarrow> u8 list" where
  "ccmp_open key h pn x = xor_bytes x (rfc_stream (fips_cipher key) (ccmp_nonce h pn) ((length x + 15) div 16))"

lemma fips_stream_length [simp]: "length (rfc_stream (fips_cipher key) N n) = 16 * n"
  by (simp add: rfc_stream_def length_concat o_def sum_list_triv)

lemma open_length [simp]: "length (ccmp_open key h pn x) = length x" by (simp add: ccmp_open_def)

lemma open_seal: "ccmp_seal key h pn p = x @ t \<Longrightarrow> length x = length p \<Longrightarrow> ccmp_open key h pn x = p"
proof -
  assume s: "ccmp_seal key h pn p = x @ t" and l: "length x = length p"
  let ?s = "rfc_stream (fips_cipher key) (ccmp_nonce h pn) ((length p + 15) div 16)"
  have "length p \<le> length ?s" by simp
  moreover from this have "x = xor_bytes p ?s" using s l by (simp add: ccmp_seal_def rfc_ccm_def append_eq_append_conv)
  ultimately show ?thesis by (simp only: ccmp_open_def l) (simp add: xor_bytes_twice)
qed

lemma wide: "n < 65536 \<Longrightarrow> (ucast (of_nat n :: u16) :: u32) = of_nat n"
  by (simp add: word_unat_eq_iff unat_of_nat)

lemma narrow: "(ucast (of_nat n :: u32) :: u16) = of_nat n"
  by (rule bit_word_eqI) (simp add: bit_ucast_iff bit_of_nat_iff)

lemma ccmp_decrypt_standard:
  assumes "header_length h \<le> length h" "KeyLen k \<noteq> 0" "length (Key k) = 16" "length iv = 8" "length x \<le> 4080" "length t = 8"
    and "length (iv @ x @ t @ r) < 2 ^ 32" "length junk = 16"
  shows "RTMPSoftDecryptCCMP True junk h k (iv @ x @ t @ r) (of_nat (length x + 16)) =
    (let p = ccmp_open (Key k) h (ccmp_pn iv) x; d = p @ drop (length x) (iv @ x @ t @ r)
     in if x @ t = ccmp_seal (Key k) h (ccmp_pn iv) p then (True, d, of_nat (length x)) else (False, d, of_nat (length x + 16)))"
proof -
  note f = frame_facts [OF assms(1)]
  let ?b = "iv @ x @ t @ r" and ?a = "ccmp_aad h" and ?N = "ccmp_nonce h (ccmp_pn iv)"
  have pn: "[?b ! 0, ?b ! 1, ?b ! 4, ?b ! 5, ?b ! 6, ?b ! 7] = ccmp_pn iv" using assms(4) by (simp add: ccmp_pn_def nth_append)
  have u: "(ucast (of_nat (length x + 16) :: u16) :: u32) = of_nat (length x + 16)"
    using assms(5) by (intro wide) simp
  have c: "(of_nat (length x + 16) - 8 :: u32) = of_nat (length (x @ t))" using assms(6) by simp
  have uc: "unat (of_nat (length (x @ t)) :: u32) = length (x @ t)"
    unfolding unat_of_nat using assms(5,6) by simp
  have n: "(of_nat (length (x @ t)) - 8 :: u32) = of_nat (length x)" using assms(6) by simp
  have un: "unat (of_nat (length x) :: u32) = length x" using assms(5) by (simp add: unat_of_nat)
  have d: "drop 8 ?b = (x @ t) @ r" using assms(4) by simp
  have le: "8 \<le> (of_nat (length (x @ t)) :: u32)" using uc assms(6) by (simp add: word_le_nat_alt del: length_append) simp
  have l1: "of_nat (length (x @ t)) - 8 \<le> (of_nat (length x + 16) :: u32)"
    unfolding n using assms(5) by (simp add: word_le_nat_alt unat_of_nat del: of_nat_add)
  have l2: "of_nat (length (x @ t)) - 8 \<le> (of_nat (length ?b) :: u32)"
    unfolding n using assms(7) un by (simp add: word_le_nat_alt unat_of_nat del: length_append) simp
  have ml: "length t = unat (8 :: u32)" "length x \<le> length ?b" using assms(6) by simp_all
  have "AES_CCM_Decrypt True junk ((x @ t) @ r) (of_nat (length (x @ t))) (Key k) 16 ?N 13 (?a @ replicate (30 - length ?a) 0) (of_nat (length ?a))
      8 ?b (of_nat (length x + 16)) =
    AES_CCM_Decrypt True junk (x @ t) (of_nat (length (x @ t))) (Key k) 16 ?N 13 ?a (of_nat (length ?a)) 8 ?b (of_nat (length ?b))"
    by (rule decrypt_prefix [OF uc [symmetric] le aad_prefix [OF assms(1)] l1 l2]) simp_all
  also have "\<dots> = (if x @ t = ccmp_seal (Key k) h (ccmp_pn iv) (ccmp_open (Key k) h (ccmp_pn iv) x) then 0 else -5,
      ccmp_open (Key k) h (ccmp_pn iv) x @ drop (length x) ?b, of_nat (length x))"
    using ccm_decrypt_standard [OF assms(3) f(4,5) mac8(1) ml(1) assms(5) f(3) ml(2) assms(7,8), of "ccmp_pn iv"]
    unfolding f(6) mac8(2) ccmp_seal_def ccmp_open_def .
  finally show ?thesis
    unfolding decrypt_unfold [OF assms(1)] pn d u c using assms(2) by (simp add: Let_def narrow)
qed


definition ex_ccmp_key :: cipher_key where
  "ex_ccmp_key = \<lparr>Key = replicate 16 5, TxMic = [], RxMic = [], KeyLen = 16\<rparr>"


lemma pn_header: "length pn = 6 \<Longrightarrow> ccmp_nonce h (ccmp_pn (RTMPConstructCCMPHdr key_idx pn)) = ccmp_nonce h pn"
  by (simp add: ccmp_nonce_def ccmp_pn_def RTMPConstructCCMPHdr_def)

lemma hdr_length [simp]: "length (RTMPConstructCCMPHdr key_idx pn) = 8" by (simp add: RTMPConstructCCMPHdr_def)

lemma seal_length:
  assumes "header_length h \<le> length h"
  shows "length (ccmp_seal key h pn p) = length p + 8"
proof -
  note f = frame_facts [OF assms]
  let ?b = "rfc_b0 8 (ccmp_nonce h pn) (ccmp_aad h) (length p) @ pad16 (rfc_aad (ccmp_aad h)) @ pad16 p"
  have "length (rfc_b0 8 (ccmp_nonce h pn) (ccmp_aad h) (length p)) = 16" using f(5) [of pn] by (simp add: rfc_b0_def)
  then have "length ?b mod 16 = 0" using pad16_length [of p] pad16_length [of "rfc_aad (ccmp_aad h)"] by (simp add: mod_add_eq [symmetric])
  then have "length (cbc_mac (fips_cipher key) zero_block ?b) = 16" by (intro cbc_mac_length) simp_all
  then show ?thesis by (simp add: ccmp_seal_def rfc_ccm_def rfc_mac_def del: replicate.simps)
qed

lemma ccmp_seal_accepted:
  assumes "header_length h \<le> length h" "KeyLen k \<noteq> 0" "length (Key k) = 16" "length pn = 6" "length p \<le> 4080" "length r < 2 ^ 31" "length junk = 16"
    and "f = RTMPConstructCCMPHdr key_idx pn @ ccmp_seal (Key k) h pn p @ r"
  shows "RTMPSoftDecryptCCMP True junk h k f (of_nat (length p + 16)) = (True, p @ drop (length p) f, of_nat (length p))"
proof -
  let ?c = "ccmp_seal (Key k) h pn p" and ?iv = "RTMPConstructCCMPHdr key_idx pn"
  have l: "length ?c = length p + 8" by (rule seal_length [OF assms(1)])
  define x t where "x = take (length p) ?c" and "t = drop (length p) ?c"
  have xt: "?c = x @ t" "length x = length p" "length t = 8" using l by (simp_all add: x_def t_def)
  have pn: "ccmp_nonce h (ccmp_pn ?iv) = ccmp_nonce h pn" by (rule pn_header [OF assms(4)])
  have o: "ccmp_open (Key k) h (ccmp_pn ?iv) x = p"
    using open_seal [OF xt(1,2)] by (simp only: ccmp_open_def pn)
  have s: "ccmp_seal (Key k) h (ccmp_pn ?iv) p = x @ t" using xt(1) by (simp only: ccmp_seal_def pn)
  have b: "length (?iv @ x @ t @ r) < 2 ^ 32" using xt(2,3) assms(5,6) by simp
  have f: "f = ?iv @ x @ t @ r" using assms(8) xt(1) by simp
  show ?thesis
    unfolding f using ccmp_decrypt_standard [OF assms(1-3) hdr_length _ xt(3) b assms(7)] assms(5)
    unfolding o s xt(2) Let_def by simp
qed

text \<open>A frame from \<open>RTMPSoftEncryptCCMP\<close>, sent behind the header of \<open>RTMPConstructCCMPHdr\<close>, is accepted by
  \<open>RTMPSoftDecryptCCMP\<close> with the same key and MAC header, and the payload comes back.\<close>

theorem ccmp_roundtrip:
  assumes "header_length h \<le> length h" "KeyLen k \<noteq> 0" "length (Key k) = 16" "length pn = 6" "length p \<le> 4080" "8 \<le> length rest"
    and "length (p @ rest) < 2 ^ 31" "length junk = 16" "length junk' = 16"
  shows "case RTMPSoftEncryptCCMP True junk h pn (Key k) (p @ rest) (of_nat (length p)) of
    (ok, c) \<Rightarrow> ok \<and> RTMPSoftDecryptCCMP True junk' h k (RTMPConstructCCMPHdr key_idx pn @ c) (of_nat (length p + 16)) =
      (True, p @ drop (length p) (RTMPConstructCCMPHdr key_idx pn @ c), of_nat (length p))"
proof -
  have "RTMPSoftEncryptCCMP True junk h pn (Key k) (p @ rest) (of_nat (length p)) = (True, ccmp_seal (Key k) h pn p @ drop 8 rest)"
    using ccmp_encrypt_standard [OF assms(1,3,5,6) _ assms(8)] assms(7) by simp
  moreover have "length (drop 8 rest) < 2 ^ 31" using assms(7) by simp
  ultimately show ?thesis using ccmp_seal_accepted [OF assms(1-5) _ assms(9) refl] by simp
qed

theorem ccmp_roundtrip_witness:
  "case RTMPSoftEncryptCCMP True (replicate 16 7) ex_hdr [1, 0, 0, 0, 0, 0] (Key ex_ccmp_key) ([9, 8] @ replicate 8 0) 2 of
    (ok, c) \<Rightarrow> ok \<and> RTMPSoftDecryptCCMP True (replicate 16 6) ex_hdr ex_ccmp_key (RTMPConstructCCMPHdr 1 [1, 0, 0, 0, 0, 0] @ c) 18 =
      (True, [9, 8] @ drop 2 (RTMPConstructCCMPHdr 1 [1, 0, 0, 0, 0, 0] @ c), 2)"
proof -
  have h: "header_length ex_hdr \<le> length ex_hdr" unfolding ex_hdr_length by simp
  have k: "KeyLen ex_ccmp_key \<noteq> 0" "length (Key ex_ccmp_key) = 16" by (simp_all add: ex_ccmp_key_def)
  have l: "length [1 :: u8, 0, 0, 0, 0, 0] = 6" "length [9 :: u8, 8] \<le> 4080" "8 \<le> length (replicate 8 (0 :: u8))"
    "length ([9 :: u8, 8] @ replicate 8 0) < 2 ^ 31" "length (replicate 16 (7::u8)) = 16" "length (replicate 16 (6::u8)) = 16"
    by (simp_all del: replicate.simps)
  show ?thesis using ccmp_roundtrip [OF h k l, of 1] by (simp add: numeral_2_eq_2 del: replicate.simps)
qed

text \<open>A frame too short for the CCMP header and the code is refused with nothing written, whatever the byte count says: the
  two subtractions wrap in 32 bits to a length that the buffer does not have.\<close>

theorem ccmp_short_refused:
  assumes "header_length h \<le> length h" "DataLen < 16"
  shows "RTMPSoftDecryptCCMP alloc junk h k pData DataLen = (False, pData, DataLen)"
proof -
  have u: "unat (ucast DataLen :: u32) = unat DataLen" "unat DataLen < 16"
  proof -
    show l: "unat DataLen < 16" using assms(2) by (simp add: word_less_nat_alt)
    then have "ucast (of_nat (unat DataLen) :: u16) = (of_nat (unat DataLen) :: u32)" by (intro wide) simp
    then show "unat (ucast DataLen :: u32) = unat DataLen" using l by (simp add: unat_of_nat del: of_nat_unat)
  qed
  have "(ucast DataLen :: u32) < ucast DataLen - 8 - 8"
  proof -
    have "(ucast DataLen - 8 - 8 :: u32) = ucast DataLen - 16" by simp
    moreover have "unat (ucast DataLen - 16 :: u32) = unat DataLen + 2 ^ 32 - 16"
      using u by (simp add: unat_sub_if' word_le_nat_alt)
    ultimately show ?thesis using u by (simp add: word_less_nat_alt)
  qed
  then show ?thesis unfolding decrypt_unfold [OF assms(1)] by (simp add: AES_CCM_Decrypt_def mac8)
qed

theorem ccmp_short_refused_witness: "RTMPSoftDecryptCCMP True [] ex_hdr ex_ccmp_key [1, 2, 3] 3 = (False, [1, 2, 3], 3)"
proof -
  have h: "header_length ex_hdr \<le> length ex_hdr" unfolding ex_hdr_length by simp
  show ?thesis by (rule ccmp_short_refused [OF h]) simp
qed

section \<open>Decryption in place\<close>

text \<open>The loop over the payload as \<open>AES_CCM_Decrypt\<close> runs it when its output is the buffer of its input, a few bytes
  before: one memory, read at \<open>src\<close> and written at \<open>dst\<close>, a byte at a time.\<close>

function ctr_mem_loop :: "(u8 list \<Rightarrow> u8 list \<Rightarrow> u8 list) \<Rightarrow> u8 list \<Rightarrow> u8 list \<Rightarrow> u8 list \<Rightarrow> nat \<Rightarrow> nat \<Rightarrow> nat \<Rightarrow> u8 list" where
  "ctr_mem_loop enc Block_CTR Block_CTR_Cipher mem src dst n =
    (if n = 0 then mem
     else
       let Block_CTR = Block_CTR[15 := Block_CTR ! 15 + 1];
           Block_CTR_Cipher = enc Block_CTR_Cipher Block_CTR;
           Copy_Length = min n 16;
           mem = fold (\<lambda>i mem. mem[dst + i := mem ! (src + i) XOR Block_CTR_Cipher ! i]) [0..<Copy_Length] mem
       in ctr_mem_loop enc Block_CTR Block_CTR_Cipher mem (src + Copy_Length) (dst + Copy_Length) (n - Copy_Length))"
  by pat_completeness auto
termination by (relation "measure (\<lambda>(_, _, _, _, _, _, n). n)") (auto simp: min_def)

declare ctr_mem_loop.simps [simp del]

lemma xor_in_place:
  assumes "dst \<le> src" "src + c \<le> length mem" "c \<le> length ks"
  shows "fold (\<lambda>i mem. mem[dst + i := mem ! (src + i) XOR ks ! i]) [0..<c] mem = copy_at mem dst (xor_bytes (take c (drop src mem)) ks)"
  using assms(2,3)
proof (induction c)
  case (Suc c)
  let ?x = "xor_bytes (take c (drop src mem)) ks"
  have l: "length ?x = c" using Suc.prems by simp
  have x: "xor_bytes (take (Suc c) (drop src mem)) ks = ?x @ [mem ! (src + c) XOR ks ! c]"
    using Suc.prems by (intro nth_equalityI) (auto simp: xor_bytes_nth nth_append less_Suc_eq)
  have "copy_at mem dst ?x ! (src + c) = mem ! (src + c)"
    using Suc.prems assms(1) l by (auto simp: copy_at_def nth_append add.commute)
  moreover have "(copy_at mem dst ?x)[dst + c := v] = copy_at mem dst (?x @ [v])" for v
  proof -
    have "drop (dst + c) mem = mem ! (dst + c) # drop (Suc (dst + c)) mem"
      using Suc.prems assms(1) by (intro Cons_nth_drop_Suc [symmetric]) simp
    then show ?thesis using Suc.prems assms(1) l by (simp add: copy_at_def list_update_append)
  qed
  ultimately show ?case using Suc by (simp add: x)
qed (simp add: copy_at_def)

lemma ctr_in_place:
  assumes "\<And>o' b. length o' = 16 \<Longrightarrow> length b = 16 \<Longrightarrow> length (enc o' b) = 16"
  shows "dst \<le> src \<Longrightarrow> src + n \<le> length mem \<Longrightarrow> length c = 16 \<Longrightarrow> length ks = 16 \<Longrightarrow>
    ctr_mem_loop enc c ks mem src dst n = copy_at mem dst (ccm_ctr_loop enc c ks (take n (drop src mem)))"
proof (induction n arbitrary: c ks mem src dst rule: less_induct)
  case (less n)
  show ?case
  proof (cases "n = 0")
    case True
    then show ?thesis by (simp add: ctr_mem_loop.simps ccm_ctr_loop.simps copy_at_def)
  next
    case False
    define c' where "c' = c[15 := c ! 15 + 1]"
    define k where "k = enc ks c'"
    have lc: "length c' = 16" "length k = 16" using less.prems assms by (simp_all add: c'_def k_def)
    define m where "m = min n 16"
    have m: "0 < m" "m \<le> n" "m \<le> length k" using False lc by (auto simp: m_def)
    define X where "X = xor_bytes (take m (drop src mem)) k"
    have lX: "length X = m" using less.prems m by (simp add: X_def)
    have u: "fold (\<lambda>i mem. mem[dst + i := mem ! (src + i) XOR k ! i]) [0..<m] mem = copy_at mem dst X"
      unfolding X_def using less.prems m by (intro xor_in_place) simp_all
    have lm: "length (copy_at mem dst X) = length mem" using less.prems m lX by (intro copy_length) simp
    have d: "drop (src + m) (copy_at mem dst X) = drop (src + m) mem"
      using less.prems m lX by (intro nth_equalityI) (auto simp: copy_at_def nth_append)
    let ?r = "ccm_ctr_loop enc c' k (take (n - m) (drop (src + m) mem))"
    have "ctr_mem_loop enc c ks mem src dst n = ctr_mem_loop enc c' k (copy_at mem dst X) (src + m) (dst + m) (n - m)"
      using False by (subst ctr_mem_loop.simps) (simp add: Let_def c'_def [symmetric] k_def [symmetric] m_def [symmetric] u)
    also have "\<dots> = copy_at (copy_at mem dst X) (dst + m) ?r"
      using less.IH [of "n - m" "dst + m" "src + m" "copy_at mem dst X" c' k] less.prems m False lc by (simp add: lm d)
    also have "\<dots> = copy_at mem dst (X @ ?r)"
      using less.prems m lX by (simp add: copy_at_def ac_simps)
    also have "X @ ?r = ccm_ctr_loop enc c ks (take n (drop src mem))"
    proof -
      have "min (length (take n (drop src mem))) 16 = m" using less.prems by (simp add: m_def)
      moreover have "take n (drop src mem) \<noteq> []" using False less.prems by simp
      moreover have "drop m (take n (drop src mem)) = take (n - m) (drop (src + m) mem)" by (simp add: drop_take add.commute)
      moreover have "take m (take n (drop src mem)) = take m (drop src mem)" using m by simp
      ultimately show ?thesis
        by (subst (2) ccm_ctr_loop.simps) (simp only: Let_def if_False c'_def [symmetric] k_def [symmetric] X_def)
    qed
    finally show ?thesis .
  qed
qed

text \<open>\<open>AES_CCM_Decrypt\<close> may be given one buffer: the loop over the payload, reading eight bytes into the buffer and
  writing from its start, as \<open>RTMPSoftDecryptCCMP\<close> calls it, gives what it gives on two separate buffers, and so
  does the loop that writes where it reads, as \<open>RTMPSoftEncryptCCMP\<close> calls it.\<close>

theorem ccmp_in_place:
  assumes "length key = 16" "off + n \<le> length pData" "length ks = 16" "length c = 16"
  shows "ctr_mem_loop (aes_block True key 16) c ks pData off 0 n =
    copy_at pData 0 (ccm_ctr_loop (aes_block True key 16) c ks (take n (drop off pData)))"
proof (rule ctr_in_place)
  show "length (aes_block True key 16 o' b) = 16" if "length o' = 16" "length b = 16" for o' b
    using aes_block_fips [OF assms(1) that(2,1)] by simp
qed (use assms in simp_all)

theorem ccmp_in_place_witness:
  "ctr_mem_loop (aes_block True (replicate 16 5) 16) (replicate 16 1) (replicate 16 2) (replicate 40 3) 8 0 30 =
    copy_at (replicate 40 3) 0 (ccm_ctr_loop (aes_block True (replicate 16 5) 16) (replicate 16 1) (replicate 16 2) (replicate 30 3))"
  using ccmp_in_place [of "replicate 16 5" 8 30 "replicate 40 3" "replicate 16 2" "replicate 16 1"] by (simp del: replicate.simps)

end
