(* ===== verification/Tkip.thy ===== *)
theory Tkip
  imports Wep
begin

text \<open>
  TKIP in software, \<open>rt3370/common/cmm_tkip.c\<close>: the Michael message integrity code
  (\<open>RTMPTkipSetMICKey\<close>, \<open>RTMPTkipAppendByte\<close>, \<open>RTMPTkipAppend\<close>, \<open>RTMPTkipGetMIC\<close>,
  \<open>RTMPInitMICEngine\<close>, \<open>RTMPTkipCompareMICValue\<close>, \<open>RTMPCalculateMICValue\<close>), the per-packet
  key mixing \<open>RTMPTkipMixKey\<close>, the decryption \<open>RTMPSoftDecryptTKIP\<close> and the wrapping of the
  group key. The two MIC contexts of the adapter (\<open>PrivateInfo.Tx\<close>, \<open>PrivateInfo.Rx\<close>) are
  passed and returned explicitly.
\<close>

section \<open>Michael\<close>

record tkip_key_info =
  nBytesInM :: u32
  K0 :: u32
  K1 :: u32
  L :: u32
  R :: u32
  M :: u32
  MIC :: "u8 list"

definition ROL32 :: "u32 \<Rightarrow> nat \<Rightarrow> u32" where
  "ROL32 A n = (push_bit n A OR (drop_bit (32 - n) A AND (push_bit n 1 - 1)))"

definition ROR32 :: "u32 \<Rightarrow> nat \<Rightarrow> u32" where
  "ROR32 A n = ROL32 A (32 - n)"

definition RTMPTkipGetUInt32 :: "u8 list \<Rightarrow> u32" where
  "RTMPTkipGetUInt32 p = fold (\<lambda>i res. res OR push_bit (8 * i) (ucast (p ! i))) [0..<4] 0"

fun tkip_put :: "nat \<Rightarrow> u32 \<Rightarrow> u8 list" where
  "tkip_put 0 val = []"
| "tkip_put (Suc n) val = ucast (val AND 0xff) # tkip_put n (drop_bit 8 val)"

definition RTMPTkipPutUInt32 :: "u32 \<Rightarrow> u8 list" where
  "RTMPTkipPutUInt32 val = tkip_put 4 val"

definition RTMPTkipSetMICKey :: "tkip_key_info \<Rightarrow> u8 list \<Rightarrow> tkip_key_info" where
  "RTMPTkipSetMICKey t key =
    t\<lparr>K0 := RTMPTkipGetUInt32 key, K1 := RTMPTkipGetUInt32 (drop 4 key),
      L := RTMPTkipGetUInt32 key, R := RTMPTkipGetUInt32 (drop 4 key), nBytesInM := 0, M := 0\<rparr>"

definition RTMPTkipAppendByte :: "tkip_key_info \<Rightarrow> u8 \<Rightarrow> tkip_key_info" where
  "RTMPTkipAppendByte t uChar =
    (let m = M t OR push_bit (8 * unat (nBytesInM t)) (ucast uChar);
         n = nBytesInM t + 1
     in if n \<ge> 4 then
          let l = L t XOR m;
              r = R t XOR ROL32 l 17;
              l = l + r;
              r = r XOR (drop_bit 8 (l AND 0xff00ff00) OR push_bit 8 (l AND 0x00ff00ff));
              l = l + r;
              r = r XOR ROL32 l 3;
              l = l + r;
              r = r XOR ROR32 l 2;
              l = l + r
          in t\<lparr>L := l, R := r, M := 0, nBytesInM := 0\<rparr>
        else t\<lparr>M := m, nBytesInM := n\<rparr>)"

definition RTMPTkipAppend :: "tkip_key_info \<Rightarrow> u8 list \<Rightarrow> tkip_key_info" where
  "RTMPTkipAppend = foldl RTMPTkipAppendByte"

lemma unat_plus_one:
  fixes w :: u32
  assumes "w + 1 \<noteq> 0"
  shows "unat (w + 1) = unat w + 1"
proof (cases "unat w + 1 = 2 ^ 32")
  case True
  then have "unat (w + 1) = 0" using unat_word_ariths(1) [of w 1] by simp
  then show ?thesis using assms by (simp add: unat_eq_0)
next
  case False
  then have "unat w + 1 < 2 ^ 32" using unsigned_less [of w, where ?'a = nat] by simp
  then show ?thesis using unat_word_ariths(1) [of w 1] by simp
qed

text \<open>The loop that appends zeros until the word buffer is empty.\<close>

lemma append_byte_count:
  "nBytesInM (RTMPTkipAppendByte t b) = (if nBytesInM t + 1 \<ge> 4 then 0 else nBytesInM t + 1)"
  by (simp add: RTMPTkipAppendByte_def Let_def)

function tkip_flush :: "tkip_key_info \<Rightarrow> tkip_key_info" where
  "tkip_flush t = (if nBytesInM t \<noteq> 0 then tkip_flush (RTMPTkipAppendByte t 0) else t)"
  by pat_completeness auto
termination
proof (relation "measure (\<lambda>t. if nBytesInM t = 0 then 0 else if nBytesInM t < 4 then 5 - unat (nBytesInM t) else 1)")
  fix t :: tkip_key_info
  assume nz: "nBytesInM t \<noteq> 0"
  show "(RTMPTkipAppendByte t 0, t) \<in> measure (\<lambda>t. if nBytesInM t = 0 then 0 else if nBytesInM t < 4 then 5 - unat (nBytesInM t) else 1)"
  proof (cases "nBytesInM t + 1 \<ge> 4 \<or> nBytesInM t + 1 = 0")
    case True
    then show ?thesis using nz by (auto simp: append_byte_count not_le word_less_nat_alt word_le_nat_alt)
  next
    case False
    then have lt: "unat (nBytesInM t + 1) < 4" "nBytesInM t + 1 \<noteq> 0" by (auto simp: not_le word_less_nat_alt)
    have "unat (nBytesInM t + 1) = unat (nBytesInM t) + 1"
      using lt(2) by (rule unat_plus_one)
    then show ?thesis using nz False lt by (auto simp: append_byte_count not_le word_less_nat_alt word_le_nat_alt)
  qed
qed simp

declare tkip_flush.simps [simp del]

definition RTMPTkipGetMIC :: "tkip_key_info \<Rightarrow> tkip_key_info" where
  "RTMPTkipGetMIC t =
    (let t = RTMPTkipAppendByte t 0x5a;
         t = RTMPTkipAppendByte t 0;
         t = RTMPTkipAppendByte t 0;
         t = RTMPTkipAppendByte t 0;
         t = RTMPTkipAppendByte t 0;
         t = tkip_flush t
     in t\<lparr>MIC := RTMPTkipPutUInt32 (L t) @ RTMPTkipPutUInt32 (R t)\<rparr>)"

text \<open>The priority is stored in a \<open>ULONG\<close> whose four bytes are appended.\<close>

abbreviation MAC_ADDR_LEN :: nat where "MAC_ADDR_LEN \<equiv> 6"

definition RTMPInitMICEngine :: "tkip_key_info \<Rightarrow> u8 list \<Rightarrow> u8 list \<Rightarrow> u8 \<Rightarrow> u8 list \<Rightarrow> tkip_key_info" where
  "RTMPInitMICEngine tx DA SA UserPriority MICKey =
    (let tx = RTMPTkipSetMICKey tx MICKey;
         tx = RTMPTkipAppend tx (take MAC_ADDR_LEN DA);
         tx = RTMPTkipAppend tx (take MAC_ADDR_LEN SA)
     in RTMPTkipAppend tx (le_bytes (ucast UserPriority)))"

definition RTMPTkipCompareMICValue ::
  "tkip_key_info \<Rightarrow> u8 list \<Rightarrow> u8 list \<Rightarrow> u8 list \<Rightarrow> u8 list \<Rightarrow> u8 \<Rightarrow> nat \<Rightarrow> bool \<times> tkip_key_info" where
  "RTMPTkipCompareMICValue rx Src DA SA MICKey UserPriority Len =
    (let rx = RTMPTkipSetMICKey rx MICKey;
         rx = RTMPTkipAppend rx (take MAC_ADDR_LEN DA);
         rx = RTMPTkipAppend rx (take MAC_ADDR_LEN SA);
         rx = RTMPTkipAppend rx (le_bytes (ucast UserPriority));
         rx = RTMPTkipAppend rx (take Len Src);
         OldMic = take 8 (drop Len Src);
         rx = RTMPTkipGetMIC rx
     in (MIC rx = OldMic, rx))"

text \<open>\<open>Src\<close> is the packet from its destination address on; \<open>Encap\<close> the LLC header, if any. A
  packet shorter than its Ethernet header makes the length wrap: \<open>None\<close>.\<close>

definition RTMPCalculateMICValue ::
  "tkip_key_info \<Rightarrow> u8 list \<Rightarrow> u8 \<Rightarrow> u8 list option \<Rightarrow> cipher_key \<Rightarrow> tkip_key_info option" where
  "RTMPCalculateMICValue tx Src UserPriority Encap key =
    (let vlan_offset = (if Src ! 12 = 0x81 \<and> Src ! 13 = 0 then 4 else 0 :: nat) in
     if length Src < 14 + vlan_offset then None
     else
       let tx = RTMPInitMICEngine tx Src (drop 6 Src) UserPriority (TxMic key);
           tx = (case Encap of None \<Rightarrow> tx
                 | Some e \<Rightarrow> RTMPTkipAppend (RTMPTkipAppend tx (take 6 e)) (take 2 (drop (12 + vlan_offset) Src)));
           tx = RTMPTkipAppend tx (drop (14 + vlan_offset) Src)
       in Some (RTMPTkipGetMIC tx))"

section \<open>Key mixing\<close>

definition Tkip_Sbox_Lower :: "u32 list" where
  "Tkip_Sbox_Lower =
   [0xA5, 0x84, 0x99, 0x8D, 0x0D, 0xBD, 0xB1, 0x54, 0x50, 0x03, 0xA9, 0x7D, 0x19, 0x62, 0xE6, 0x9A,
    0x45, 0x9D, 0x40, 0x87, 0x15, 0xEB, 0xC9, 0x0B, 0xEC, 0x67, 0xFD, 0xEA, 0xBF, 0xF7, 0x96, 0x5B,
    0xC2, 0x1C, 0xAE, 0x6A, 0x5A, 0x41, 0x02, 0x4F, 0x5C, 0xF4, 0x34, 0x08, 0x93, 0x73, 0x53, 0x3F,
    0x0C, 0x52, 0x65, 0x5E, 0x28, 0xA1, 0x0F, 0xB5, 0x09, 0x36, 0x9B, 0x3D, 0x26, 0x69, 0xCD, 0x9F,
    0x1B, 0x9E, 0x74, 0x2E, 0x2D, 0xB2, 0xEE, 0xFB, 0xF6, 0x4D, 0x61, 0xCE, 0x7B, 0x3E, 0x71, 0x97,
    0xF5, 0x68, 0x00, 0x2C, 0x60, 0x1F, 0xC8, 0xED, 0xBE, 0x46, 0xD9, 0x4B, 0xDE, 0xD4, 0xE8, 0x4A,
    0x6B, 0x2A, 0xE5, 0x16, 0xC5, 0xD7, 0x55, 0x94, 0xCF, 0x10, 0x06, 0x81, 0xF0, 0x44, 0xBA, 0xE3,
    0xF3, 0xFE, 0xC0, 0x8A, 0xAD, 0xBC, 0x48, 0x04, 0xDF, 0xC1, 0x75, 0x63, 0x30, 0x1A, 0x0E, 0x6D,
    0x4C, 0x14, 0x35, 0x2F, 0xE1, 0xA2, 0xCC, 0x39, 0x57, 0xF2, 0x82, 0x47, 0xAC, 0xE7, 0x2B, 0x95,
    0xA0, 0x98, 0xD1, 0x7F, 0x66, 0x7E, 0xAB, 0x83, 0xCA, 0x29, 0xD3, 0x3C, 0x79, 0xE2, 0x1D, 0x76,
    0x3B, 0x56, 0x4E, 0x1E, 0xDB, 0x0A, 0x6C, 0xE4, 0x5D, 0x6E, 0xEF, 0xA6, 0xA8, 0xA4, 0x37, 0x8B,
    0x32, 0x43, 0x59, 0xB7, 0x8C, 0x64, 0xD2, 0xE0, 0xB4, 0xFA, 0x07, 0x25, 0xAF, 0x8E, 0xE9, 0x18,
    0xD5, 0x88, 0x6F, 0x72, 0x24, 0xF1, 0xC7, 0x51, 0x23, 0x7C, 0x9C, 0x21, 0xDD, 0xDC, 0x86, 0x85,
    0x90, 0x42, 0xC4, 0xAA, 0xD8, 0x05, 0x01, 0x12, 0xA3, 0x5F, 0xF9, 0xD0, 0x91, 0x58, 0x27, 0xB9,
    0x38, 0x13, 0xB3, 0x33, 0xBB, 0x70, 0x89, 0xA7, 0xB6, 0x22, 0x92, 0x20, 0x49, 0xFF, 0x78, 0x7A,
    0x8F, 0xF8, 0x80, 0x17, 0xDA, 0x31, 0xC6, 0xB8, 0xC3, 0xB0, 0x77, 0x11, 0xCB, 0xFC, 0xD6, 0x3A]"

definition Tkip_Sbox_Upper :: "u32 list" where
  "Tkip_Sbox_Upper =
   [0xC6, 0xF8, 0xEE, 0xF6, 0xFF, 0xD6, 0xDE, 0x91, 0x60, 0x02, 0xCE, 0x56, 0xE7, 0xB5, 0x4D, 0xEC,
    0x8F, 0x1F, 0x89, 0xFA, 0xEF, 0xB2, 0x8E, 0xFB, 0x41, 0xB3, 0x5F, 0x45, 0x23, 0x53, 0xE4, 0x9B,
    0x75, 0xE1, 0x3D, 0x4C, 0x6C, 0x7E, 0xF5, 0x83, 0x68, 0x51, 0xD1, 0xF9, 0xE2, 0xAB, 0x62, 0x2A,
    0x08, 0x95, 0x46, 0x9D, 0x30, 0x37, 0x0A, 0x2F, 0x0E, 0x24, 0x1B, 0xDF, 0xCD, 0x4E, 0x7F, 0xEA,
    0x12, 0x1D, 0x58, 0x34, 0x36, 0xDC, 0xB4, 0x5B, 0xA4, 0x76, 0xB7, 0x7D, 0x52, 0xDD, 0x5E, 0x13,
    0xA6, 0xB9, 0x00, 0xC1, 0x40, 0xE3, 0x79, 0xB6, 0xD4, 0x8D, 0x67, 0x72, 0x94, 0x98, 0xB0, 0x85,
    0xBB, 0xC5, 0x4F, 0xED, 0x86, 0x9A, 0x66, 0x11, 0x8A, 0xE9, 0x04, 0xFE, 0xA0, 0x78, 0x25, 0x4B,
    0xA2, 0x5D, 0x80, 0x05, 0x3F, 0x21, 0x70, 0xF1, 0x63, 0x77, 0xAF, 0x42, 0x20, 0xE5, 0xFD, 0xBF,
    0x81, 0x18, 0x26, 0xC3, 0xBE, 0x35, 0x88, 0x2E, 0x93, 0x55, 0xFC, 0x7A, 0xC8, 0xBA, 0x32, 0xE6,
    0xC0, 0x19, 0x9E, 0xA3, 0x44, 0x54, 0x3B, 0x0B, 0x8C, 0xC7, 0x6B, 0x28, 0xA7, 0xBC, 0x16, 0xAD,
    0xDB, 0x64, 0x74, 0x14, 0x92, 0x0C, 0x48, 0xB8, 0x9F, 0xBD, 0x43, 0xC4, 0x39, 0x31, 0xD3, 0xF2,
    0xD5, 0x8B, 0x6E, 0xDA, 0x01, 0xB1, 0x9C, 0x49, 0xD8, 0xAC, 0xF3, 0xCF, 0xCA, 0xF4, 0x47, 0x10,
    0x6F, 0xF0, 0x4A, 0x5C, 0x38, 0x57, 0x73, 0x97, 0xCB, 0xA1, 0xE8, 0x3E, 0x96, 0x61, 0x0D, 0x0F,
    0xE0, 0x7C, 0x71, 0xCC, 0x90, 0x06, 0xF7, 0x1C, 0xC2, 0x6A, 0xAE, 0x69, 0x17, 0x99, 0x3A, 0x27,
    0xD9, 0xEB, 0x2B, 0x22, 0xD2, 0xA9, 0x07, 0x33, 0x2D, 0x3C, 0x15, 0xC9, 0x87, 0xAA, 0x50, 0xA5,
    0x03, 0x59, 0x09, 0x1A, 0x65, 0xD7, 0x84, 0xD0, 0x82, 0x29, 0x5A, 0x1E, 0x7B, 0xA8, 0x6D, 0x2C]"

definition tkip_sbox :: "u32 \<Rightarrow> u32" where
  "tkip_sbox index =
    (let index_low = unat (index mod 256);
         index_high = unat (drop_bit 8 index mod 256);
         left = Tkip_Sbox_Lower ! index_low + Tkip_Sbox_Upper ! index_low * 256;
         right = Tkip_Sbox_Upper ! index_high + Tkip_Sbox_Lower ! index_high * 256
     in left XOR right)"

definition rotr1 :: "u32 \<Rightarrow> u32" where
  "rotr1 a = ((if a AND 1 = 1 then drop_bit 1 a OR 0x8000 else drop_bit 1 a AND 0x7fff) mod 65536)"

definition key16 :: "u8 list \<Rightarrow> nat \<Rightarrow> u32" where
  "key16 key i = 256 * ucast (key ! (i + 1)) + ucast (key ! i)"

type_synonym tkip_p1k = "u32 \<times> u32 \<times> u32 \<times> u32 \<times> u32"

definition tkip_phase1_turn :: "u8 list \<Rightarrow> nat \<Rightarrow> tkip_p1k \<Rightarrow> tkip_p1k" where
  "tkip_phase1_turn key i = (\<lambda>(p0, p1, p2, p3, p4).
    let j = 2 * (i mod 2);
        p0 = (p0 + tkip_sbox ((p4 XOR key16 key j) mod 65536)) mod 65536;
        p1 = (p1 + tkip_sbox ((p0 XOR key16 key (4 + j)) mod 65536)) mod 65536;
        p2 = (p2 + tkip_sbox ((p1 XOR key16 key (8 + j)) mod 65536)) mod 65536;
        p3 = (p3 + tkip_sbox ((p2 XOR key16 key (12 + j)) mod 65536)) mod 65536;
        p4 = (p4 + tkip_sbox ((p3 XOR key16 key j) mod 65536)) mod 65536;
        p4 = (p4 + of_nat i) mod 65536
    in (p0, p1, p2, p3, p4))"

definition tkip_phase1 :: "u8 list \<Rightarrow> u8 list \<Rightarrow> u32 \<Rightarrow> tkip_p1k" where
  "tkip_phase1 key ta pnh =
    fold (tkip_phase1_turn key) [0..<8]
      (pnh mod 65536, drop_bit 16 pnh mod 65536, key16 ta 0, key16 ta 2, key16 ta 4)"

type_synonym tkip_ppk = "u32 \<times> u32 \<times> u32 \<times> u32 \<times> u32 \<times> u32"

definition tkip_phase2_sbox :: "u8 list \<Rightarrow> tkip_ppk \<Rightarrow> tkip_ppk" where
  "tkip_phase2_sbox key = (\<lambda>(ppk0, ppk1, ppk2, ppk3, ppk4, ppk5).
    let ppk0 = ppk0 + tkip_sbox ((ppk5 XOR key16 key 0) mod 65536);
        ppk1 = ppk1 + tkip_sbox ((ppk0 XOR key16 key 2) mod 65536);
        ppk2 = ppk2 + tkip_sbox ((ppk1 XOR key16 key 4) mod 65536);
        ppk3 = ppk3 + tkip_sbox ((ppk2 XOR key16 key 6) mod 65536);
        ppk4 = ppk4 + tkip_sbox ((ppk3 XOR key16 key 8) mod 65536);
        ppk5 = ppk5 + tkip_sbox ((ppk4 XOR key16 key 10) mod 65536)
    in (ppk0, ppk1, ppk2, ppk3, ppk4, ppk5))"

definition tkip_phase2_rotate :: "u8 list \<Rightarrow> tkip_ppk \<Rightarrow> tkip_ppk" where
  "tkip_phase2_rotate key = (\<lambda>(ppk0, ppk1, ppk2, ppk3, ppk4, ppk5).
    let ppk0 = ppk0 + rotr1 (ppk5 XOR key16 key 12);
        ppk1 = ppk1 + rotr1 (ppk0 XOR key16 key 14);
        ppk2 = ppk2 + rotr1 ppk1;
        ppk3 = ppk3 + rotr1 ppk2;
        ppk4 = ppk4 + rotr1 ppk3;
        ppk5 = ppk5 + rotr1 ppk4
    in (ppk0, ppk1, ppk2, ppk3, ppk4, ppk5))"

definition tkip_seed :: "u8 list \<Rightarrow> u32 \<Rightarrow> tkip_ppk \<Rightarrow> u8 list" where
  "tkip_seed key tsc2 = (\<lambda>(ppk0, ppk1, ppk2, ppk3, ppk4, ppk5).
    map ucast
      [drop_bit 8 tsc2 mod 256, (drop_bit 8 tsc2 mod 256 OR 0x20) AND 0x7f, tsc2 mod 256,
       drop_bit 1 (ppk5 XOR key16 key 0) mod 256,
       ppk0 mod 256, drop_bit 8 ppk0 mod 256, ppk1 mod 256, drop_bit 8 ppk1 mod 256,
       ppk2 mod 256, drop_bit 8 ppk2 mod 256, ppk3 mod 256, drop_bit 8 ppk3 mod 256,
       ppk4 mod 256, drop_bit 8 ppk4 mod 256, ppk5 mod 256, drop_bit 8 ppk5 mod 256])"

definition tkip_phase2 :: "u8 list \<Rightarrow> u32 \<Rightarrow> tkip_p1k \<Rightarrow> u8 list" where
  "tkip_phase2 key pnl = (\<lambda>(p0, p1, p2, p3, p4).
    let tsc2 = pnl mod 65536
    in tkip_seed key tsc2 (tkip_phase2_rotate key (tkip_phase2_sbox key (p0, p1, p2, p3, p4, (p4 + tsc2) mod 65536))))"

text \<open>The result is the array \<open>rc4key\<close>.\<close>

definition RTMPTkipMixKey :: "u8 list \<Rightarrow> u8 list \<Rightarrow> u32 \<Rightarrow> u32 \<Rightarrow> u8 list" where
  "RTMPTkipMixKey key ta pnl pnh = tkip_phase2 key pnl (tkip_phase1 key ta pnh)"

section \<open>Decryption\<close>

abbreviation LEN_TKIP_IV_HDR :: nat where "LEN_TKIP_IV_HDR \<equiv> 8"
abbreviation LEN_TKIP_MIC :: nat where "LEN_TKIP_MIC \<equiv> 8"

text \<open>The addresses of an 802.11 header: offsets 4, 10, 16, and 24 for the fourth.\<close>

definition addr_at :: "u8 list \<Rightarrow> nat \<Rightarrow> u8 list" where
  "addr_at h i = take MAC_ADDR_LEN (drop i h)"

definition tkip_addrs :: "u8 list \<Rightarrow> u8 list \<times> u8 list \<times> u8 list" where
  "tkip_addrs Hdr =
    (let from_ds = drop_bit 1 (Hdr ! 1 AND 2); to_ds = Hdr ! 1 AND 1 in
     if to_ds = 0 \<and> from_ds = 1 then (addr_at Hdr 4, addr_at Hdr 10, addr_at Hdr 16)
     else if to_ds = 0 \<and> from_ds = 0 then (addr_at Hdr 4, addr_at Hdr 10, addr_at Hdr 10)
     else if to_ds = 1 \<and> from_ds = 0 then (addr_at Hdr 16, addr_at Hdr 10, addr_at Hdr 10)
     else (addr_at Hdr 16, addr_at Hdr 10, addr_at Hdr 24))"

text \<open>The addresses come as (DA, TA, SA). The result is the returned flag, the data buffer, the
  byte count and the transmit MIC context, which the decryption uses as scratch space;
  \<open>None\<close> is an access outside the buffer.\<close>

definition RTMPSoftDecryptTKIP ::
  "tkip_key_info \<Rightarrow> u8 list \<Rightarrow> u8 \<Rightarrow> cipher_key \<Rightarrow> u8 list \<Rightarrow> u16 \<Rightarrow> (bool \<times> u8 list \<times> u16 \<times> tkip_key_info) option" where
  "RTMPSoftDecryptTKIP tx Hdr UserPriority k dat DataByteCnt =
    (if KeyLen k = 0 then Some (False, dat, DataByteCnt, tx)
     else
       let (DA, TA, SA) = tkip_addrs Hdr;
           pnl = push_bit 8 (ucast (dat ! 0)) OR ucast (dat ! 2);
           pnh = le32 (drop 4 dat);
           RC4Key = RTMPTkipMixKey (Key k) TA pnl pnh;
           ciphertext_len = ucast DataByteCnt - of_nat LEN_TKIP_IV_HDR :: u32
       in case ARC4_INIT RC4Key 16 of None \<Rightarrow> None
       | Some ctx \<Rightarrow>
         if LEN_TKIP_IV_HDR + unat ciphertext_len > length dat then None
         else
           let dat = snd (ARC4_Compute ctx dat LEN_TKIP_IV_HDR ciphertext_len 0);
               plaintext_len = ciphertext_len - of_nat LEN_ICV
           in if unat plaintext_len + LEN_ICV > length dat then None
              else
                let trailfcs = le32 (drop (unat plaintext_len) dat);
                    crc32 = RTMP_CALC_FCS32 PPPINITFCS32 dat (unat plaintext_len) XOR 0xffffffff
                in if crc32 \<noteq> trailfcs then Some (False, dat, DataByteCnt, tx)
                   else
                     let plaintext_len = plaintext_len - of_nat LEN_TKIP_MIC in
                     if unat plaintext_len + LEN_TKIP_MIC > length dat then None
                     else
                       let TrailMIC = take LEN_TKIP_MIC (drop (unat plaintext_len) dat);
                           tx = RTMPInitMICEngine tx DA SA UserPriority (RxMic k);
                           tx = RTMPTkipAppend tx (take (unat plaintext_len) dat);
                           tx = RTMPTkipGetMIC tx
                       in if MIC tx \<noteq> TrailMIC then Some (False, dat, DataByteCnt, tx)
                          else Some (True, dat, ucast plaintext_len, tx))"

section \<open>Wrapping of the group key\<close>

abbreviation LEN_KEY_DESC_IV :: nat where "LEN_KEY_DESC_IV \<equiv> 16"
abbreviation LEN_PTK_KEK :: nat where "LEN_PTK_KEK \<equiv> 16"

text \<open>The output buffer is another one than the input: what it held is \<open>out\<close>, kept when the
  cipher context cannot be allocated.\<close>

definition TKIP_GTK_KEY_WRAP :: "bool \<Rightarrow> u8 list \<Rightarrow> u8 list \<Rightarrow> u8 list \<Rightarrow> u32 \<Rightarrow> u8 list \<Rightarrow> u8 list option" where
  "TKIP_GTK_KEY_WRAP alloc key iv input_text input_len out =
    (if \<not> alloc then Some out
     else
       let ekey = take LEN_KEY_DESC_IV iv @ take LEN_PTK_KEK key in
       case ARC4_INIT ekey (of_nat (LEN_KEY_DESC_IV + LEN_PTK_KEK)) of None \<Rightarrow> None
       | Some ctx \<Rightarrow>
         let ctx = ARC4_Discard_KeyLength ctx 256 in
         Some (copy_at out 0 (take (unat input_len) (snd (ARC4_Compute ctx input_text 0 input_len 0)))))"

definition TKIP_GTK_KEY_UNWRAP :: "bool \<Rightarrow> u8 list \<Rightarrow> u8 list \<Rightarrow> u8 list \<Rightarrow> u32 \<Rightarrow> u8 list \<Rightarrow> u8 list option" where
  "TKIP_GTK_KEY_UNWRAP = TKIP_GTK_KEY_WRAP"

section \<open>Michael as specified\<close>

text \<open>The block function of IEEE 802.11i, with rotations; a message is padded with 0x5a and four to
  seven zeros to a multiple of four bytes and folded word by word.\<close>

definition michael_xswap :: "u32 \<Rightarrow> u32" where
  "michael_xswap w = (let b = le_bytes w in le32 [b ! 1, b ! 0, b ! 3, b ! 2])"

definition michael_block :: "u32 \<times> u32 \<Rightarrow> u32 \<Rightarrow> u32 \<times> u32" where
  "michael_block s m = (case s of (l, r) \<Rightarrow>
     let l = l XOR m;
         r = r XOR word_rotl 17 l; l = l + r;
         r = r XOR michael_xswap l; l = l + r;
         r = r XOR word_rotl 3 l; l = l + r;
         r = r XOR word_rotr 2 l; l = l + r
     in (l, r))"

fun le_words :: "u8 list \<Rightarrow> u32 list" where
  "le_words (a # b # c # d # bs) = le32 [a, b, c, d] # le_words bs"
| "le_words _ = []"

definition michael_pad :: "u8 list \<Rightarrow> u8 list" where
  "michael_pad msg = msg @ 0x5a # replicate (4 + (3 - length msg mod 4)) 0"

definition michael_ref :: "u8 list \<Rightarrow> u8 list \<Rightarrow> u8 list" where
  "michael_ref key msg =
    (case foldl michael_block (le32 key, le32 (drop 4 key)) (le_words (michael_pad msg)) of
       (l, r) \<Rightarrow> le_bytes l @ le_bytes r)"

lemma ROL32_rotl: "ROL32 w 17 = word_rotl 17 w" "ROL32 w 3 = word_rotl 3 w" "ROR32 w 2 = word_rotr 2 w"
proof -
  have m: "(push_bit k 1 - 1 :: u32) = mask k" for k by (simp add: mask_eq_exp_minus_1)
  have g: "ROL32 w k = word_rotl k w" if "0 < k" "k < 32" for k
  proof (rule bit_word_eqI)
    fix n assume n: "n < LENGTH(32)"
    show "bit (ROL32 w k) n = bit (word_rotl k w) n"
    proof (cases "n < k")
      case True
      have "(n + (32 - k)) mod 32 = 32 + n - k" using True that by simp
      then show ?thesis using True n that unfolding ROL32_def m
        by (simp add: bit_or_iff bit_and_iff bit_push_bit_iff bit_drop_bit_eq bit_mask_iff bit_word_rotl_iff add.commute [of n])
    next
      case False
      have e: "n + (32 - k) = (n - k) + 32" using False that by simp
      have "(n + (32 - k)) mod 32 = n - k" unfolding e using n by simp
      then show ?thesis using False n that unfolding ROL32_def m
        by (simp add: bit_or_iff bit_and_iff bit_push_bit_iff bit_drop_bit_eq bit_mask_iff bit_word_rotl_iff)
    qed
  qed
  show "ROL32 w 17 = word_rotl 17 w" "ROL32 w 3 = word_rotl 3 w" by (simp_all add: g)
  have "word_rotl 30 w = word_rotr 2 w"
  proof (rule bit_word_eqI)
    fix n assume "n < LENGTH(32)"
    then show "bit (word_rotl 30 w) n = bit (word_rotr 2 w) n" by (simp add: bit_word_rotl_iff bit_word_rotr_iff)
  qed
  then show "ROR32 w 2 = word_rotr 2 w" by (simp add: ROR32_def g)
qed

lemma bit_halves:
  "bit (0x00ff00ff :: u32) k \<longleftrightarrow> k < 8 \<or> 16 \<le> k \<and> k < 24"
  "bit (0xff00ff00 :: u32) k \<longleftrightarrow> 8 \<le> k \<and> k < 16 \<or> 24 \<le> k \<and> k < 32"
proof -
  define c where "c = (0x00ff00ff :: u32)"
  have "c = mask 8 OR push_bit 16 (mask 8)" by (simp add: c_def mask_eq_exp_minus_1)
  then have b: "bit c k \<longleftrightarrow> k < 8 \<or> 16 \<le> k \<and> k < 24" for k
    by (simp only: bit_or_iff bit_push_bit_iff bit_mask_iff) auto
  have "(0xff00ff00 :: u32) = push_bit 8 c" by (simp add: c_def)
  then show "bit (0xff00ff00 :: u32) k \<longleftrightarrow> 8 \<le> k \<and> k < 16 \<or> 24 \<le> k \<and> k < 32"
    by (simp only: bit_push_bit_iff b) auto
  show "bit (0x00ff00ff :: u32) k \<longleftrightarrow> k < 8 \<or> 16 \<le> k \<and> k < 24" using b by (simp only: c_def)
qed

lemma swap_halves: "drop_bit 8 (w AND 0xff00ff00) OR push_bit 8 (w AND 0x00ff00ff) = michael_xswap w"
proof (rule bit_word_eqI)
  fix n assume n: "n < LENGTH(32)"
  have x: "michael_xswap w = ucast (ucast (drop_bit 8 w) :: u8) OR push_bit 8 (ucast (ucast w :: u8)) OR
      push_bit 16 (ucast (ucast (drop_bit 24 w) :: u8)) OR push_bit 24 (ucast (ucast (drop_bit 16 w) :: u8))"
    by (simp add: michael_xswap_def le_bytes_def le32_def Let_def upt_rec)
  define c d where "c = (0x00ff00ff :: u32)" and "d = (0xff00ff00 :: u32)"
  note bits = bit_halves [folded c_def d_def]
  consider "n < 8" | "8 \<le> n" "n < 16" | "16 \<le> n" "n < 24" | "24 \<le> n" by linarith
  then show "bit (drop_bit 8 (w AND 0xff00ff00) OR push_bit 8 (w AND 0x00ff00ff)) n = bit (michael_xswap w) n"
    using n unfolding x c_def [symmetric] d_def [symmetric]
    by cases (auto simp: bits bit_or_iff bit_and_iff bit_push_bit_iff bit_drop_bit_eq bit_ucast_iff add.commute)
qed

lemma case_Let: "case_prod f (Let x g) = Let x (\<lambda>y. case_prod f (g y))" by (simp add: Let_def)

lemma not_full: "\<not> (4 :: u32) \<le> 1" "\<not> (4 :: u32) \<le> 2" "\<not> (4 :: u32) \<le> 3" by (simp_all add: word_le_nat_alt)

lemma append_byte_fill:
  "nBytesInM t = 0 \<Longrightarrow> RTMPTkipAppendByte t b = t\<lparr>M := M t OR ucast b, nBytesInM := 1\<rparr>"
  "nBytesInM t = 1 \<Longrightarrow> RTMPTkipAppendByte t b = t\<lparr>M := M t OR push_bit 8 (ucast b), nBytesInM := 2\<rparr>"
  "nBytesInM t = 2 \<Longrightarrow> RTMPTkipAppendByte t b = t\<lparr>M := M t OR push_bit 16 (ucast b), nBytesInM := 3\<rparr>"
  by (simp_all add: RTMPTkipAppendByte_def Let_def not_full)

lemma append_byte_block:
  assumes "nBytesInM t = 3"
  shows "RTMPTkipAppendByte t b =
    (case michael_block (L t, R t) (M t OR push_bit 24 (ucast b)) of (l, r) \<Rightarrow> t\<lparr>L := l, R := r, M := 0, nBytesInM := 0\<rparr>)"
  unfolding RTMPTkipAppendByte_def michael_block_def prod.case case_Let ROL32_rotl swap_halves
  using assms by (simp only: Let_def [of "M t OR _"] Let_def [of "nBytesInM t + 1"]) simp

lemma append_block:
  "nBytesInM t = 0 \<Longrightarrow> M t = 0 \<Longrightarrow>
    foldl RTMPTkipAppendByte t [a, b, c, d] =
      (case michael_block (L t, R t) (le32 [a, b, c, d]) of (l, r) \<Rightarrow> t\<lparr>L := l, R := r, M := 0, nBytesInM := 0\<rparr>)"
  by (simp add: append_byte_fill append_byte_block le32_def or.assoc split: prod.split)

text \<open>Whole messages, from an empty word buffer.\<close>

lemma le_words_append: "length xs mod 4 = 0 \<Longrightarrow> le_words (xs @ ys) = le_words xs @ le_words ys"
  by (induction xs rule: le_words.induct) auto

lemma append_words:
  assumes "nBytesInM t = 0" "M t = 0" "length bs mod 4 = 0"
  shows "RTMPTkipAppend t bs =
    (case foldl michael_block (L t, R t) (le_words bs) of (l, r) \<Rightarrow> t\<lparr>L := l, R := r, M := 0, nBytesInM := 0\<rparr>)"
  using assms
proof (induction bs arbitrary: t rule: le_words.induct)
  case (1 a b c d bs)
  obtain l r where lr: "michael_block (L t, R t) (le32 [a, b, c, d]) = (l, r)" by fastforce
  have "RTMPTkipAppend t (a # b # c # d # bs) = RTMPTkipAppend (foldl RTMPTkipAppendByte t [a, b, c, d]) bs"
    by (simp add: RTMPTkipAppend_def)
  also have "foldl RTMPTkipAppendByte t [a, b, c, d] = t\<lparr>L := l, R := r, M := 0, nBytesInM := 0\<rparr>"
    using 1 lr by (simp add: append_block del: foldl.simps)
  finally show ?case using 1 lr by (simp split: prod.split)
next
  case "2_1"
  then show ?case by (simp add: RTMPTkipAppend_def)
qed auto

lemma append_count:
  "unat (nBytesInM t) < 4 \<Longrightarrow> unat (nBytesInM (RTMPTkipAppend t bs)) = (unat (nBytesInM t) + length bs) mod 4"
proof (induction bs arbitrary: t)
  case Nil
  then show ?case by (simp add: RTMPTkipAppend_def)
next
  case (Cons b bs)
  have u: "unat (nBytesInM t + 1) = unat (nBytesInM t) + 1"
    using Cons.prems unat_word_ariths(1) [of "nBytesInM t" 1] by simp
  have s: "unat (nBytesInM (RTMPTkipAppendByte t b)) = (unat (nBytesInM t) + 1) mod 4"
  proof (cases "unat (nBytesInM t) = 3")
    case True
    then show ?thesis using u by (simp add: append_byte_count word_le_nat_alt)
  next
    case False
    then show ?thesis using Cons.prems u by (auto simp: append_byte_count word_le_nat_alt)
  qed
  then have "unat (nBytesInM (RTMPTkipAppend (RTMPTkipAppendByte t b) bs)) =
      ((unat (nBytesInM t) + 1) mod 4 + length bs) mod 4"
    using Cons.IH by simp
  then show ?case by (simp add: RTMPTkipAppend_def mod_add_left_eq)
qed

lemma flush_append:
  "unat (nBytesInM t) < 4 \<Longrightarrow> tkip_flush t = RTMPTkipAppend t (replicate ((4 - unat (nBytesInM t)) mod 4) 0)"
proof (induction t rule: tkip_flush.induct)
  case (1 t)
  show ?case
  proof (cases "nBytesInM t = 0")
    case True
    then show ?thesis by (simp add: tkip_flush.simps [of t] RTMPTkipAppend_def)
  next
    case False
    let ?n = "unat (nBytesInM t)"
    have n: "0 < ?n" using False by (simp add: unat_gt_0)
    have c: "unat (nBytesInM (RTMPTkipAppendByte t 0)) = (?n + 1) mod 4"
      using append_count [of t "[0]"] 1(2) by (simp add: RTMPTkipAppend_def)
    have "(4 - ?n) mod 4 = Suc ((4 - (?n + 1) mod 4) mod 4)"
    proof -
      consider "?n = 1" | "?n = 2" | "?n = 3" using n 1(2) by linarith
      then show ?thesis by cases simp_all
    qed
    then have "RTMPTkipAppend t (replicate ((4 - ?n) mod 4) 0) =
        RTMPTkipAppend (RTMPTkipAppendByte t 0) (replicate ((4 - (?n + 1) mod 4) mod 4) 0)"
      by (simp add: RTMPTkipAppend_def)
    then show ?thesis using 1(1) False c by (simp add: tkip_flush.simps [of t])
  qed
qed

lemma put_bytes: "RTMPTkipPutUInt32 w = le_bytes w"
proof -
  have m: "(0xff :: u32) = mask 8" by (simp add: mask_eq_exp_minus_1)
  have c: "ucast (v AND 0xff :: u32) = (ucast v :: u8)" for v
    unfolding m by (rule bit_word_eqI) (simp add: bit_ucast_iff bit_and_iff bit_mask_iff)
  show ?thesis by (simp add: RTMPTkipPutUInt32_def numeral_eq_Suc le_bytes_def upt_rec c [simplified numeral_eq_Suc])
qed

lemma get_word: "RTMPTkipGetUInt32 bs = le32 bs"
  by (simp add: RTMPTkipGetUInt32_def le32_def upt_rec or.assoc numeral_2_eq_2 numeral_3_eq_3)

lemma append_append: "RTMPTkipAppend (RTMPTkipAppend t xs) ys = RTMPTkipAppend t (xs @ ys)"
  by (simp add: RTMPTkipAppend_def)

lemma pad_bytes: "(0x5a :: u8) # replicate (4 + x) 0 = [0x5a, 0, 0, 0, 0] @ replicate x 0"
  by (simp add: replicate_add numeral_eq_Suc)

lemma pad_arith: "(4 - (m + 5) mod 4) mod 4 = 3 - m mod (4 :: nat)" "(m + 5 + (3 - m mod 4)) mod 4 = (0 :: nat)"
proof -
  define r where "r = m mod 4"
  have e: "(m + k) mod 4 = (r + k) mod 4" for k by (simp add: r_def mod_add_left_eq)
  have "r < 4" by (simp add: r_def)
  then consider "r = 0" | "r = 1" | "r = 2" | "r = 3" by linarith
  then show "(4 - (m + 5) mod 4) mod 4 = 3 - m mod (4 :: nat)" "(m + 5 + (3 - m mod 4)) mod 4 = (0 :: nat)"
    unfolding e [of 5] add.assoc e r_def [symmetric] by (cases; simp)+
qed

text \<open>The integrity code of a message appended after the key is set.\<close>

lemma michael_correct:
  "MIC (RTMPTkipGetMIC (RTMPTkipAppend (RTMPTkipSetMICKey t key) msg)) = michael_ref key msg"
proof -
  let ?t = "RTMPTkipSetMICKey t key"
  have t: "nBytesInM ?t = 0" "M ?t = 0" "L ?t = le32 key" "R ?t = le32 (drop 4 key)"
    by (simp_all add: RTMPTkipSetMICKey_def get_word)
  let ?m = "msg @ [0x5a, 0, 0, 0, 0]"
  have n: "unat (nBytesInM (RTMPTkipAppend ?t ?m)) = (length msg + 5) mod 4"
    using append_count [of ?t ?m] by (simp add: t add.commute)
  have z: "(4 - (length msg + 5) mod 4) mod 4 = 3 - length msg mod 4" by (rule pad_arith)
  have p: "?m @ replicate (3 - length msg mod 4) 0 = michael_pad msg"
    using pad_bytes [of "3 - length msg mod 4"] by (simp add: michael_pad_def)
  have "length (michael_pad msg) = length msg + 5 + (3 - length msg mod 4)" by (simp add: michael_pad_def)
  then have len: "length (michael_pad msg) mod 4 = 0" by (metis pad_arith(2))
  have "tkip_flush (RTMPTkipAppend ?t ?m) = RTMPTkipAppend ?t (michael_pad msg)"
    using flush_append [of "RTMPTkipAppend ?t ?m"] unfolding n z append_append p by simp
  moreover have "RTMPTkipGetMIC (RTMPTkipAppend ?t msg) =
      (let u = tkip_flush (RTMPTkipAppend ?t ?m) in u\<lparr>MIC := RTMPTkipPutUInt32 (L u) @ RTMPTkipPutUInt32 (R u)\<rparr>)"
    by (simp add: RTMPTkipGetMIC_def RTMPTkipAppend_def Let_def)
  ultimately show ?thesis using append_words [OF t(1,2) len] t
    by (simp add: Let_def put_bytes michael_ref_def split: prod.split)
qed

text \<open>The input of the integrity code: destination, source, priority and three zeros, payload.\<close>

definition mic_input :: "u8 list \<Rightarrow> u8 list \<Rightarrow> u8 \<Rightarrow> u8 list \<Rightarrow> u8 list" where
  "mic_input DA SA UserPriority payload = take 6 DA @ take 6 SA @ [UserPriority, 0, 0, 0] @ payload"

lemma le_bytes_priority: "le_bytes (ucast (w :: u8)) = [w, 0, 0, 0]"
proof -
  have "ucast (drop_bit k (ucast w :: u32)) = (0 :: u8)" if "8 \<le> k" for k
  proof (rule bit_word_eqI)
    fix n
    show "bit (ucast (drop_bit k (ucast w :: u32)) :: u8) n = bit (0 :: u8) n"
      using that bit_imp_le_length [of w "k + n"] by (auto simp: bit_ucast_iff bit_drop_bit_eq add.commute)
  qed
  moreover have "ucast (ucast w :: u32) = w" by (rule bit_word_eqI) (simp add: bit_ucast_iff)
  ultimately show ?thesis by (simp add: le_bytes_def upt_rec)
qed

lemma engine_append:
  "RTMPTkipAppend (RTMPInitMICEngine t DA SA UserPriority key) payload =
    RTMPTkipAppend (RTMPTkipSetMICKey t key) (mic_input DA SA UserPriority payload)"
  by (simp add: RTMPInitMICEngine_def mic_input_def append_append le_bytes_priority)

text \<open>RTMPTkipCompareMICValue accepts a received MSDU exactly when the eight bytes after its
  payload are the Michael code, as specified, of destination, source, priority and payload
  under the MIC key; what the context held before does not matter.\<close>
theorem CompareMIC_michael:
  "fst (RTMPTkipCompareMICValue rx Src DA SA MICKey UserPriority Len) \<longleftrightarrow>
    take 8 (drop Len Src) = michael_ref MICKey (mic_input DA SA UserPriority (take Len Src))"
proof -
  have "fst (RTMPTkipCompareMICValue rx Src DA SA MICKey UserPriority Len) \<longleftrightarrow>
      MIC (RTMPTkipGetMIC (RTMPTkipAppend (RTMPInitMICEngine rx DA SA UserPriority MICKey) (take Len Src))) = take 8 (drop Len Src)"
    by (simp add: RTMPTkipCompareMICValue_def RTMPInitMICEngine_def Let_def)
  then show ?thesis unfolding engine_append michael_correct by auto
qed

text \<open>The MIC computed for a transmitted packet (its Ethernet header removed, the LLC header put
  in when there is one, a VLAN tag skipped) is the one the receiver checks: it is the Michael
  code of the addresses, the priority and the payload that is sent.\<close>
theorem CalculateMIC_michael:
  assumes "vlan = (if Src ! 12 = 0x81 \<and> Src ! 13 = 0 then 4 else 0)" "14 + vlan \<le> length Src"
    and "payload = (case Encap of None \<Rightarrow> [] | Some e \<Rightarrow> take 6 e @ take 2 (drop (12 + vlan) Src)) @ drop (14 + vlan) Src"
  shows "map_option MIC (RTMPCalculateMICValue tx Src UserPriority Encap key) =
    Some (michael_ref (TxMic key) (mic_input Src (drop 6 Src) UserPriority payload))"
proof -
  have "RTMPCalculateMICValue tx Src UserPriority Encap key =
      Some (RTMPTkipGetMIC (RTMPTkipAppend (RTMPInitMICEngine tx Src (drop 6 Src) UserPriority (TxMic key)) payload))"
    using assms(2) unfolding RTMPCalculateMICValue_def assms(1) [symmetric] assms(3)
    by (simp add: append_append Let_def split: option.split)
  then show ?thesis unfolding engine_append by (simp add: michael_correct)
qed

definition ex_mic :: tkip_key_info where
  "ex_mic = \<lparr>nBytesInM = 3, K0 = 0, K1 = 0, L = 1, R = 2, M = 3, MIC = replicate 8 0\<rparr>"

theorem CalculateMIC_michael_witness:
  "map_option MIC (RTMPCalculateMICValue ex_mic (replicate 14 1 @ [7, 8]) 5 None (ex_wep_key\<lparr>TxMic := [1, 2, 3, 4, 5, 6, 7, 8]\<rparr>)) =
    Some (michael_ref [1, 2, 3, 4, 5, 6, 7, 8] (mic_input (replicate 6 1) (replicate 6 1) 5 [7, 8]))"
  using CalculateMIC_michael [of 0 "replicate 14 1 @ [7, 8]" "[7, 8]" None ex_mic 5 "ex_wep_key\<lparr>TxMic := [1, 2, 3, 4, 5, 6, 7, 8]\<rparr>"]
  by (simp add: mic_input_def numeral_eq_Suc)

section \<open>What the decryption accepts\<close>

lemma tkip_decrypt_bytes:
  assumes "KeyLen k \<noteq> 0" "length p + 20 < 65536" "length mic = 8" "length icv = 4" "length iv = 8"
    and "tkip_addrs Hdr = (DA, TA, SA)"
    and "ARC4_INIT (RTMPTkipMixKey (Key k) TA (push_bit 8 (ucast (iv ! 0)) OR ucast (iv ! 2)) (le32 (drop 4 iv))) 16 = Some c"
  defines "frame \<equiv> iv @ xor_bytes (p @ mic @ icv) (arc4_stream (length p + 12) c)"
  shows "\<exists>r tx'. take (length p) r = p \<and> RTMPSoftDecryptTKIP tx Hdr up k frame (of_nat (length p + 20)) =
    (if le32 icv = crc_ref PPPINITFCS32 (p @ mic) XOR 0xffffffff \<and> mic = michael_ref (RxMic k) (mic_input DA SA up p)
     then Some (True, r, of_nat (length p), tx') else Some (False, r, of_nat (length p + 20), tx'))"
proof -
  let ?n = "length p"
  have u16: "unat (of_nat (?n + 20) :: u16) = ?n + 20"
    using assms(2) unat_of_nat [of "?n + 20", where ?'a = 16] by simp
  have "(ucast (of_nat (?n + 20) :: u16) :: u32) = of_nat (?n + 20)"
    using assms(2) u16 unat_of_nat [of "?n + 20", where ?'a = 32] by (simp add: word_unat_eq_iff)
  then have c1: "(ucast (of_nat (?n + 20) :: u16) :: u32) - of_nat 8 = of_nat (?n + 12)" by simp
  have c2: "(of_nat (?n + 12) :: u32) - of_nat 4 = of_nat (?n + 8)" "(of_nat (?n + 8) :: u32) - of_nat 8 = of_nat ?n"
    by simp_all
  have u: "unat (of_nat (?n + 12) :: u32) = ?n + 12" "unat (of_nat (?n + 8) :: u32) = ?n + 8" "unat (of_nat ?n :: u32) = ?n"
    using assms(2) unat_of_nat [of "?n + 12", where ?'a = 32] unat_of_nat [of "?n + 8", where ?'a = 32]
      unat_of_nat [of ?n, where ?'a = 32] by simp_all
  have uc: "(ucast (of_nat ?n :: u32) :: u16) = of_nat ?n" 
    using assms(2) unat_of_nat [of ?n, where ?'a = 16] by (simp add: word_unat_eq_iff u unsigned_ucast_eq take_bit_eq_mod)
  have lx: "length (xor_bytes (p @ mic @ icv) (arc4_stream (?n + 12) c)) = ?n + 12" using assms(3,4) by simp
  then have lf: "length frame = ?n + 20" using assms(5) by (simp add: frame_def)
  define r where "r = snd (ARC4_Compute c frame 8 (of_nat (?n + 12)) 0)"
  have "8 + unat (of_nat (?n + 12) :: u32) \<le> length frame" unfolding u lf by simp
  from ARC4_Compute_stream [OF _ this, of 0 c]
  have r: "r = (p @ mic @ icv) @ drop (?n + 12) frame"
    unfolding r_def u using lx assms(3-5) by (simp add: frame_def xor_bytes_twice)
  have lr: "length r = ?n + 20" using lf assms(3,4) by (simp add: r)
  have crc: "RTMP_CALC_FCS32 PPPINITFCS32 r (?n + 8) = crc_ref PPPINITFCS32 (p @ mic)"
    using fcs_ref [of "?n + 8" r] assms(3) by (simp add: r)
  have tr: "le32 (drop (?n + 8) r) = le32 icv" using assms(3,4) by (simp add: r le32_def nth_append)
  have tm: "take 8 (drop ?n r) = mic" "take ?n r = p" using assms(3) by (simp_all add: r)
  have iv: "frame ! 0 = iv ! 0" "frame ! 2 = iv ! 2" "le32 (drop 4 frame) = le32 (drop 4 iv)"
    using assms(5) by (simp_all add: frame_def nth_append le32_def)
  let ?tx = "RTMPTkipGetMIC (RTMPTkipAppend (RTMPTkipSetMICKey tx (RxMic k)) (mic_input DA SA up p))"
  have "RTMPSoftDecryptTKIP tx Hdr up k frame (of_nat (?n + 20)) =
     (if crc_ref PPPINITFCS32 (p @ mic) XOR 0xffffffff \<noteq> le32 icv then Some (False, r, of_nat (?n + 20), tx)
      else if michael_ref (RxMic k) (mic_input DA SA up p) \<noteq> mic then Some (False, r, of_nat (?n + 20), ?tx)
      else Some (True, r, of_nat ?n, ?tx))"
    unfolding RTMPSoftDecryptTKIP_def assms(6) prod.case iv Let_def assms(7) option.case c1 r_def [symmetric] c2 u lf lr
      crc tr tm engine_append michael_correct uc
    using assms(1) by simp
  then show ?thesis
    by (intro exI [of _ r] exI [of _ "if crc_ref PPPINITFCS32 (p @ mic) XOR 0xffffffff \<noteq> le32 icv then tx else ?tx"]) (auto simp: tm)
qed

text \<open>C28: What RTMPSoftDecryptTKIP accepts: for a frame whose body is the RC4 image of a payload, a
  MIC and a check value under the per-packet key of the mixing function, it returns the
  payload exactly when the check value is the CRC-32 of payload and MIC and the MIC is the
  Michael code of the addresses the header names, the priority and the payload; otherwise it
  reports failure and leaves the length alone.\<close>
theorem tkip_decrypt_accepts:
  assumes "KeyLen k \<noteq> 0" "length p + 20 < 65536" "length mic = 8" "length icv = 4" "length iv = 8"
    and "tkip_addrs Hdr = (DA, TA, SA)"
    and "ARC4_INIT (RTMPTkipMixKey (Key k) TA (push_bit 8 (ucast (iv ! 0)) OR ucast (iv ! 2)) (le32 (drop 4 iv))) 16 = Some c"
  shows "\<exists>r tx'. take (length p) r = p \<and>
    RTMPSoftDecryptTKIP tx Hdr up k (iv @ xor_bytes (p @ mic @ icv) (arc4_stream (length p + 12) c)) (of_nat (length p + 20)) =
    (if le32 icv = crc_ref PPPINITFCS32 (p @ mic) XOR 0xffffffff \<and> mic = michael_ref (RxMic k) (mic_input DA SA up p)
     then Some (True, r, of_nat (length p), tx') else Some (False, r, of_nat (length p + 20), tx'))"
  using assms by (rule tkip_decrypt_bytes)

text \<open>The header of the witness comes from the distribution system.\<close>

definition ex_tkip_hdr :: "u8 list" where
  "ex_tkip_hdr = [8, 2, 0, 0] @ replicate 6 1 @ replicate 6 2 @ replicate 6 3 @ [0, 0]"

theorem tkip_decrypt_accepts_witness:
  "\<exists>c r tx'. RTMPSoftDecryptTKIP ex_mic ex_tkip_hdr 0 ex_wep_key
      (replicate 8 0 @ xor_bytes ([9] @ replicate 8 0 @ [0, 0, 0, 0]) (arc4_stream 13 c)) 21 = Some (False, r, 21, tx')"
proof -
  have k: "KeyLen ex_wep_key \<noteq> 0" by (simp add: ex_wep_key_def)
  have a: "tkip_addrs ex_tkip_hdr = (replicate 6 1, replicate 6 2, replicate 6 3)" by code_simp
  obtain c where c: "ARC4_INIT (RTMPTkipMixKey (Key ex_wep_key) (replicate 6 2)
      (push_bit 8 (ucast (replicate 8 (0 :: u8) ! 0)) OR ucast (replicate 8 (0 :: u8) ! 2)) (le32 (drop 4 (replicate 8 0)))) 16 = Some c"
    using arc4_init_some [of 16] by force
  have "RTMP_CALC_FCS32 PPPINITFCS32 ([9] @ replicate 8 0) 9 XOR 0xffffffff \<noteq> le32 [0, 0, 0, 0]" by code_simp
  then have "le32 [0, 0, 0, 0] \<noteq> crc_ref PPPINITFCS32 ([9] @ replicate 8 0) XOR 0xffffffff"
    using fcs_ref [of 9 "[9] @ replicate 8 0" PPPINITFCS32] by (simp del: RTMP_CALC_FCS32.simps)
  then have n: "\<not> (le32 [0, 0, 0, 0] = crc_ref PPPINITFCS32 ([9] @ replicate 8 0) XOR 0xffffffff \<and> B)" for B by blast
  have l: "length [9 :: u8] + 12 = 13" "(of_nat (length [9 :: u8] + 20) :: u16) = 21" by simp_all
  have "length [9 :: u8] + 20 < 65536" "length (replicate 8 (0 :: u8)) = 8" "length [0 :: u8, 0, 0, 0] = 4" by simp_all
  from tkip_decrypt_accepts [OF k this(1) this(2) this(3) this(2) a c, of ex_mic 0] show ?thesis
    unfolding l if_not_P [OF n] by blast
qed

section \<open>The wrapped group key\<close>

lemma gtk_wrap_some: "\<exists>w. TKIP_GTK_KEY_WRAP True key iv gtk n out = Some w"
proof -
  obtain c where "ARC4_INIT (take LEN_KEY_DESC_IV iv @ take LEN_PTK_KEK key) (of_nat (LEN_KEY_DESC_IV + LEN_PTK_KEK)) = Some c"
    using arc4_init_some [of "of_nat (LEN_KEY_DESC_IV + LEN_PTK_KEK)"] by fastforce
  then show ?thesis unfolding TKIP_GTK_KEY_WRAP_def Let_def by simp
qed

text \<open>Unwrapping a wrapped group key with the same key-encryption key and IV gives the key back.\<close>
theorem gtk_roundtrip:
  assumes "unat n \<le> length gtk" "unat n \<le> length o1" "unat n \<le> length o2"
    and "TKIP_GTK_KEY_WRAP True key iv gtk n o1 = Some w"
  shows "\<exists>r. TKIP_GTK_KEY_UNWRAP True key iv w n o2 = Some r \<and> take (unat n) r = take (unat n) gtk"
proof -
  obtain c where c: "ARC4_INIT (take LEN_KEY_DESC_IV iv @ take LEN_PTK_KEK key) (of_nat (LEN_KEY_DESC_IV + LEN_PTK_KEK)) = Some c"
    using arc4_init_some [of "of_nat (LEN_KEY_DESC_IV + LEN_PTK_KEK)"] by fastforce
  define d where "d = ARC4_Discard_KeyLength c 256"
  have W: "TKIP_GTK_KEY_WRAP True key iv x n out = Some (copy_at out 0 (xor_bytes (take (unat n) x) (arc4_stream (unat n) d)))"
    if "unat n \<le> length x" for x out
    using that ARC4_Compute_stream [of 0 0 n x d] by (simp add: TKIP_GTK_KEY_WRAP_def c [simplified] d_def Let_def)
  have w: "w = copy_at o1 0 (xor_bytes (take (unat n) gtk) (arc4_stream (unat n) d))" using W assms(1,4) by simp
  then have tw: "take (unat n) w = xor_bytes (take (unat n) gtk) (arc4_stream (unat n) d)" and lw: "unat n \<le> length w"
    using assms(1,2) by (simp_all add: copy_at_def)
  have "take (unat n) (copy_at o2 0 (xor_bytes (take (unat n) w) (arc4_stream (unat n) d))) = take (unat n) gtk"
    using assms(1,3) unfolding tw by (simp add: xor_bytes_twice copy_at_def)
  then show ?thesis using W [OF lw] by (simp add: TKIP_GTK_KEY_UNWRAP_def)
qed

theorem gtk_roundtrip_witness:
  "\<exists>w r. TKIP_GTK_KEY_WRAP True (replicate 16 1) (replicate 16 2) [4, 5] 2 [0, 0] = Some w \<and>
    TKIP_GTK_KEY_UNWRAP True (replicate 16 1) (replicate 16 2) w 2 [0, 0] = Some r \<and> take 2 r = [4, 5]"
proof -
  obtain w where w: "TKIP_GTK_KEY_WRAP True (replicate 16 1) (replicate 16 2) [4, 5] 2 [0, 0] = Some w"
    using gtk_wrap_some by blast
  show ?thesis using w gtk_roundtrip [OF _ _ _ w, of "[0, 0]"] by auto
qed
section \<open>Known answers\<close>

abbreviation test_tk :: "u8 list" where "test_tk \<equiv> [0, 1, 2, 3, 4, 5, 6, 7, 8, 9, 10, 11, 12, 13, 14, 15]"

text \<open>The substitutions and the eight turns of phase 1 for the test vector.\<close>

lemma sbox_value:
  assumes "unat (i mod 256) = a" "unat (drop_bit 8 i mod 256) = b"
    and "Tkip_Sbox_Lower ! a = x" "Tkip_Sbox_Upper ! a = y" "Tkip_Sbox_Upper ! b = z" "Tkip_Sbox_Lower ! b = w"
    and "x + y * 256 XOR (z + w * 256) = v"
  shows "tkip_sbox i = v"
  using assms by (simp add: tkip_sbox_def)

lemma sboxes_0:
  "tkip_sbox 0x0721 = 0xb58d"
  "tkip_sbox 0x08cd = 0x31bc"
  "tkip_sbox 0x09ba = 0xf005"
  "tkip_sbox 0x0a64 = 0x2f0b"
  "tkip_sbox 0x0dc1 = 0x923d"
  "tkip_sbox 0x0e4d = 0x3b73"
  "tkip_sbox 0x1bb9 = 0x46bf"
  "tkip_sbox 0x21d2 = 0x6d25"
  "tkip_sbox 0x23fa = 0x303b"
  "tkip_sbox 0x2569 = 0xa86e"
  "tkip_sbox 0x289e = 0x4a75"
  "tkip_sbox 0x3426 = 0xdd32"
  by - (rule sbox_value, simp, simp, (simp add: Tkip_Sbox_Lower_def), (simp add: Tkip_Sbox_Upper_def),
      (simp add: Tkip_Sbox_Upper_def), (simp add: Tkip_Sbox_Lower_def), simp)+

lemma sboxes_1:
  "tkip_sbox 0x3590 = 0x6197"
  "tkip_sbox 0x3ad4 = 0x0bc3"
  "tkip_sbox 0x3d64 = 0xef8b"
  "tkip_sbox 0x4296 = 0x4ff3"
  "tkip_sbox 0x4ae5 = 0xc8c7"
  "tkip_sbox 0x4b26 = 0x3b7f"
  "tkip_sbox 0x63ad = 0x2749"
  "tkip_sbox 0x6755 = 0x770e"
  "tkip_sbox 0x678a = 0x6893"
  "tkip_sbox 0x6ddc = 0x53e9"
  "tkip_sbox 0x720a = 0x0e29"
  "tkip_sbox 0x73e2 = 0xa1b6"
  by - (rule sbox_value, simp, simp, (simp add: Tkip_Sbox_Lower_def), (simp add: Tkip_Sbox_Upper_def),
      (simp add: Tkip_Sbox_Upper_def), (simp add: Tkip_Sbox_Lower_def), simp)+

lemma sboxes_2:
  "tkip_sbox 0x79fa = 0x9b00"
  "tkip_sbox 0x8595 = 0xf64b"
  "tkip_sbox 0x8d35 = 0xd01b"
  "tkip_sbox 0x9565 = 0xe483"
  "tkip_sbox 0x9b10 = 0xb36d"
  "tkip_sbox 0xa23b = 0x9149"
  "tkip_sbox 0xa7d0 = 0x0428"
  "tkip_sbox 0xb3e8 = 0x9a6c"
  "tkip_sbox 0xb5d5 = 0x62b4"
  "tkip_sbox 0xb627 = 0x51d3"
  "tkip_sbox 0xb6d2 = 0xa358"
  "tkip_sbox 0xbab5 = 0xb697"
  by - (rule sbox_value, simp, simp, (simp add: Tkip_Sbox_Lower_def), (simp add: Tkip_Sbox_Upper_def),
      (simp add: Tkip_Sbox_Upper_def), (simp add: Tkip_Sbox_Lower_def), simp)+

lemma sboxes_3:
  "tkip_sbox 0xbb3d = 0x6ba6"
  "tkip_sbox 0xbf94 = 0x5c76"
  "tkip_sbox 0xd092 = 0x0e31"
  "tkip_sbox 0xd54c = 0x577d"
  "tkip_sbox 0xd6b8 = 0xd943"
  "tkip_sbox 0xda91 = 0xe036"
  "tkip_sbox 0xdb3c = 0x1d4f"
  "tkip_sbox 0xe458 = 0x6f6c"
  "tkip_sbox 0xea97 = 0x9996"
  "tkip_sbox 0xfca3 = 0xdf65"
  by - (rule sbox_value, simp, simp, (simp add: Tkip_Sbox_Lower_def), (simp add: Tkip_Sbox_Upper_def),
      (simp add: Tkip_Sbox_Upper_def), (simp add: Tkip_Sbox_Lower_def), simp)+

lemmas sboxes = sboxes_0 sboxes_1 sboxes_2 sboxes_3

lemma key_words:
  "key16 test_tk 0 = 0x0100"
  "key16 test_tk 2 = 0x0302"
  "key16 test_tk 4 = 0x0504"
  "key16 test_tk 6 = 0x0706"
  "key16 test_tk 8 = 0x0908"
  "key16 test_tk 10 = 0x0b0a"
  "key16 test_tk 12 = 0x0d0c"
  "key16 test_tk 14 = 0x0f0e"
  by (simp_all add: key16_def)

lemma phase1_turns:
  "tkip_phase1_turn test_tk 0 (0x0000, 0x0000, 0x2210, 0x4433, 0x6655) = (0x770e, 0x0e29, 0xd79d, 0x2469, 0x0ec3)"
  "tkip_phase1_turn test_tk 1 (0x770e, 0x0e29, 0xd79d, 0x2469, 0x0ec3) = (0x094b, 0x499c, 0x2790, 0x6ede, 0x62ad)"
  "tkip_phase1_turn test_tk 2 (0x094b, 0x499c, 0x2790, 0x6ede, 0x62ad) = (0x3094, 0xab33, 0xb8d9, 0xd192, 0x70e0)"
  "tkip_phase1_turn test_tk 3 (0x3094, 0xab33, 0xb8d9, 0xd192, 0x70e0) = (0xd24a, 0x02b0, 0xa8de, 0xd5ba, 0x4a26)"
  "tkip_phase1_turn test_tk 4 (0xd24a, 0x02b0, 0xa8de, 0xd5ba, 0x4a26) = (0x0dc9, 0x346c, 0x9869, 0xba3d, 0xb5d0)"
  "tkip_phase1_turn test_tk 5 (0x0dc9, 0x346c, 0x9869, 0xba3d, 0xb5d0) = (0xb121, 0x863f, 0x6884, 0x22d0, 0x22fa)"
  "tkip_phase1_turn test_tk 6 (0xb121, 0x863f, 0x6884, 0x22d0, 0x22fa) = (0xe15c, 0xf5ab, 0x47e9, 0xeb97, 0xbc96)"
  "tkip_phase1_turn test_tk 7 (0xe15c, 0xf5ab, 0x47e9, 0xeb97, 0xbc96) = (0x3dd2, 0x016e, 0x76f4, 0x8697, 0xb2e8)"
  by (simp_all add: tkip_phase1_turn_def sboxes key_words del: One_nat_def)

lemma michael_blocks:
  "michael_block (0, 0) 0x5a = (0xc000134d, 0xeaa1301e)"
  "michael_block (0xc000134d, 0xeaa1301e) 0 = (0x1c5c9282, 0xb830d1a1)"
  by (simp_all add: michael_block_def swap_halves [symmetric] ROL32_rotl [symmetric] ROL32_def ROR32_def)

lemma phase1_test: "tkip_phase1 test_tk [0x10, 0x22, 0x33, 0x44, 0x55, 0x66] 0 = (0x3dd2, 0x016e, 0x76f4, 0x8697, 0xb2e8)"
proof -
  let ?ta = "[0x10, 0x22, 0x33, 0x44, 0x55, 0x66] :: u8 list"
  have s: "key16 ?ta 0 = 0x2210" "key16 ?ta 2 = 0x4433" "key16 ?ta 4 = 0x6655" by (simp_all add: key16_def)
  have u: "[0..<8] = [0, 1, 2, 3, 4, 5, 6, 7]" by (simp add: upt_rec)
  show ?thesis unfolding tkip_phase1_def s u by (simp add: phase1_turns del: One_nat_def)
qed

lemma rotr1_values:
  "rotr1 0x16b59 = 0xb5ac"
  "rotr1 0x182e4 = 0x4172"
  "rotr1 0x602f = 0xb017"
  "rotr1 0x16dca = 0x36e5"
  "rotr1 0x17413 = 0xba09"
  "rotr1 0x24a23 = 0xa511"
  by (simp_all add: rotr1_def drop_bit_eq_div)

lemma phase2_test:
  "tkip_phase2_sbox test_tk (0x3dd2, 0x016e, 0x76f4, 0x8697, 0xb2e8, 0xb2e8) = (0xd83e, 0x1ebd, 0xbdb3, 0x13d2e, 0x1901a, 0x16655)"
  "tkip_phase2_rotate test_tk (0xd83e, 0x1ebd, 0xbdb3, 0x13d2e, 0x1901a, 0x16655) = (0x18dea, 0x602f, 0x16dca, 0x17413, 0x24a23, 0x20b66)"
  by (simp_all add: tkip_phase2_sbox_def tkip_phase2_rotate_def sboxes key_words rotr1_values del: One_nat_def)

lemma michael_test: "michael_ref (replicate 8 0) [] = [0x82, 0x92, 0x5c, 0x1c, 0xa1, 0xd1, 0x30, 0xb8]"
proof -
  have "michael_pad [] = [0x5a, 0, 0, 0, 0, 0, 0, 0]" using pad_bytes [of 3] by (simp add: michael_pad_def numeral_3_eq_3)
  then have w: "le_words (michael_pad []) = [0x5a, 0]" by (simp add: le32_def)
  have k: "le32 (replicate 8 0) = 0" "le32 (drop 4 (replicate 8 0)) = 0" by (simp_all add: le32_def)
  show ?thesis unfolding michael_ref_def w k by (simp add: michael_blocks le_bytes_def upt_rec)
qed

lemma seed_test: "RTMPTkipMixKey test_tk [0x10, 0x22, 0x33, 0x44, 0x55, 0x66] 0 0 =
    [0x00, 0x20, 0x00, 0x33, 0xea, 0x8d, 0x2f, 0x60, 0xca, 0x6d, 0x13, 0x74, 0x23, 0x4a, 0x66, 0x0b]"
  unfolding RTMPTkipMixKey_def phase1_test
  by (simp add: tkip_phase2_def phase2_test tkip_seed_def key_words drop_bit_eq_div)

text \<open>Known answers: the Michael code of the empty message under the zero key, and the per-packet
  RC4 seed of the TKIP key mixing test vector (key 00 01 .. 0F, transmitter 10-22-33-44-55-66,
  sequence counter 0), as IEEE 802.11i gives them.\<close>
theorem tkip_known_answers:
  "michael_ref (replicate 8 0) [] = [0x82, 0x92, 0x5c, 0x1c, 0xa1, 0xd1, 0x30, 0xb8] \<and>
   RTMPTkipMixKey test_tk [0x10, 0x22, 0x33, 0x44, 0x55, 0x66] 0 0 =
    [0x00, 0x20, 0x00, 0x33, 0xea, 0x8d, 0x2f, 0x60, 0xca, 0x6d, 0x13, 0x74, 0x23, 0x4a, 0x66, 0x0b]"
  by (intro conjI michael_test seed_test)

end
