(* ===== verification/SoftCrypt.thy ===== *)
theory SoftCrypt
  imports Ccmp Tkip
begin

text \<open>
  Encryption and decryption of frames in software by cipher suite, \<open>RTMPSoftConstructIVHdr\<close>,
  \<open>RTMPSoftEncryptionAction\<close> and \<open>RTMPSoftDecryptionAction\<close> of \<open>rt3370/common/cmm_wpa.c\<close>: they
  dispatch to the WEP, TKIP and CCMP of the other theories.
\<close>

abbreviation CIPHER_WEP64 :: u8 where "CIPHER_WEP64 \<equiv> 1"
abbreviation CIPHER_WEP128 :: u8 where "CIPHER_WEP128 \<equiv> 2"
abbreviation CIPHER_TKIP :: u8 where "CIPHER_TKIP \<equiv> 3"
abbreviation CIPHER_AES :: u8 where "CIPHER_AES \<equiv> 4"

text \<open>A key with its transmit counter and its suite.\<close>

record soft_key = cipher_key +
  TxTsc :: "u8 list"
  CipherAlg :: u8

text \<open>What the ciphers find around them: the outcome of the allocations, what fresh memory and local arrays hold, and the
  Michael context of the adapter, which the TKIP decryption changes.\<close>

record crypt_env =
  wep_alloc :: bool
  seed_alloc :: bool
  arc4_ctx0 :: arc4_ctx
  aes_alloc :: bool
  aes_junk :: "u8 list"
  tkip_tx :: tkip_key_info

text \<open>The header that goes between MAC header and payload, and its length.\<close>

definition RTMPSoftConstructIVHdr :: "u8 \<Rightarrow> u8 \<Rightarrow> u8 list \<Rightarrow> u8 list \<Rightarrow> u8 list \<times> nat" where
  "RTMPSoftConstructIVHdr Alg key_id pTxIv pHdrIv =
    (if Alg = CIPHER_WEP64 \<or> Alg = CIPHER_WEP128 then (copy_at pHdrIv 0 (RTMPConstructWEPIVHdr key_id pTxIv), LEN_WEP_IV_HDR)
     else if Alg = CIPHER_TKIP then (pHdrIv, 0)
     else if Alg = CIPHER_AES then (copy_at pHdrIv 0 (RTMPConstructCCMPHdr key_id pTxIv), LEN_CCMP_HDR)
     else (pHdrIv, 0))"

text \<open>The flags of the two encryptions are not looked at. The result is the buffer and the number of bytes that the
  payload has grown by; \<open>None\<close> is an access outside the buffer.\<close>

definition RTMPSoftEncryptionAction ::
  "crypt_env \<Rightarrow> u8 \<Rightarrow> u8 list \<Rightarrow> u8 list \<Rightarrow> u32 \<Rightarrow> soft_key \<Rightarrow> (u8 list \<times> nat) option" where
  "RTMPSoftEncryptionAction env Alg pHdr pSrcBufData SrcBufLen pKey =
    (if Alg = CIPHER_WEP64 \<or> Alg = CIPHER_WEP128 then
       case RTMPSoftEncryptWEP (wep_alloc env) (seed_alloc env) (arc4_ctx0 env) (TxTsc pKey) (cipher_key.truncate pKey) pSrcBufData SrcBufLen of
         None \<Rightarrow> None
       | Some (_, pSrcBufData) \<Rightarrow> Some (pSrcBufData, LEN_ICV)
     else if Alg = CIPHER_TKIP then Some (pSrcBufData, 0)
     else if Alg = CIPHER_AES then
       Some (snd (RTMPSoftEncryptCCMP (aes_alloc env) (aes_junk env) pHdr (TxTsc pKey) (Key pKey) pSrcBufData SrcBufLen), LEN_CCMP_MIC)
     else Some (pSrcBufData, 0))"

text \<open>True is \<open>NDIS_STATUS_SUCCESS\<close>.\<close>

definition RTMPSoftDecryptionAction ::
  "crypt_env \<Rightarrow> u8 list \<Rightarrow> u8 \<Rightarrow> soft_key \<Rightarrow> u8 list \<Rightarrow> u16 \<Rightarrow> (bool \<times> u8 list \<times> u16 \<times> crypt_env) option" where
  "RTMPSoftDecryptionAction env pHdr UserPriority pKey pData DataByteCnt =
    (if CipherAlg pKey = CIPHER_WEP64 \<or> CipherAlg pKey = CIPHER_WEP128 then
       case RTMPSoftDecryptWEP (wep_alloc env) (seed_alloc env) (arc4_ctx0 env) (cipher_key.truncate pKey) pData DataByteCnt of
         None \<Rightarrow> None
       | Some (ok, pData, DataByteCnt) \<Rightarrow> Some (ok, pData, DataByteCnt, env)
     else if CipherAlg pKey = CIPHER_TKIP then
       case RTMPSoftDecryptTKIP (tkip_tx env) pHdr UserPriority (cipher_key.truncate pKey) pData DataByteCnt of
         None \<Rightarrow> None
       | Some (ok, pData, DataByteCnt, tx) \<Rightarrow> Some (ok, pData, DataByteCnt, env\<lparr>tkip_tx := tx\<rparr>)
     else if CipherAlg pKey = CIPHER_AES then
       case RTMPSoftDecryptCCMP (aes_alloc env) (aes_junk env) pHdr (cipher_key.truncate pKey) pData DataByteCnt of
         (ok, pData, DataByteCnt) \<Rightarrow> Some (ok, pData, DataByteCnt, env)
     else Some (False, pData, DataByteCnt, env))"

section \<open>Sender and receiver\<close>

lemma wep_seed_header: "RTMPInitWepEngine b (RTMPConstructWEPIVHdr i pn) key len ctx = RTMPInitWepEngine b pn key len ctx" if "3 \<le> length pn"
proof -
  have "take 3 (RTMPConstructWEPIVHdr i pn) = take 3 pn" using that by (simp add: RTMPConstructWEPIVHdr_def)
  then show ?thesis by (simp add: RTMPInitWepEngine_def)
qed

text \<open>C6: A payload that goes through the header construction and the encryption of its suite, and on the other side through
  the decryption for the same key, comes back whole with its length, for the two kinds of WEP key and for
  AES; each side may find other memory around it.\<close>

theorem soft_crypt_roundtrip:
  assumes "Alg = CIPHER_WEP64 \<or> Alg = CIPHER_WEP128 \<or> Alg = CIPHER_AES" "CipherAlg k = Alg"
    and "Alg \<noteq> CIPHER_AES \<Longrightarrow> 0 < unat (KeyLen k) \<and> unat (KeyLen k) \<le> 13"
    and "Alg = CIPHER_AES \<Longrightarrow> KeyLen k \<noteq> 0 \<and> length (Key k) = 16 \<and> header_length h \<le> length h"
    and "length (TxTsc k) = 6" "n \<le> 4080" "n + 8 \<le> length dat" "length dat < 2 ^ 31" "8 \<le> length hb"
    and "wep_alloc tx" "seed_alloc tx" "aes_alloc tx" "length (aes_junk tx) = 16"
    and "wep_alloc rx" "seed_alloc rx" "aes_alloc rx" "length (aes_junk rx) = 16"
  shows "\<exists>hb' hl e ext d. RTMPSoftConstructIVHdr Alg i (TxTsc k) hb = (hb', hl) \<and>
    RTMPSoftEncryptionAction tx Alg h dat (of_nat n) k = Some (e, ext) \<and>
    RTMPSoftDecryptionAction rx h up k (take hl hb' @ take (n + ext) e) (of_nat (n + hl + ext)) = Some (True, d, of_nat n, rx) \<and>
    take n d = take n dat"
proof (cases "Alg = CIPHER_AES")
  case True
  note k = assms(4) [OF True]
  let ?k = "cipher_key.truncate k" and ?iv = "RTMPConstructCCMPHdr i (TxTsc k)"
  have kt: "KeyLen ?k = KeyLen k" "Key ?k = Key k" by (simp_all add: cipher_key.truncate_def)
  define p rest where "p = take n dat" and "rest = drop n dat"
  have d: "dat = p @ rest" "length p = n" "8 \<le> length rest" using assms(7) by (simp_all add: p_def rest_def)
  have E: "RTMPSoftEncryptCCMP True (aes_junk tx) h (TxTsc k) (Key k) dat (of_nat n) = (True, ccmp_seal (Key k) h (TxTsc k) p @ drop 8 rest)"
    using ccmp_encrypt_standard [of h "Key k" p rest "aes_junk tx" "TxTsc k"] k d assms(6,8,13) by simp
  have l: "length (ccmp_seal (Key k) h (TxTsc k) p) = n + 8" using seal_length [of h "Key k" "TxTsc k" p] k d(2) by simp
  have D: "RTMPSoftDecryptCCMP True (aes_junk rx) h ?k (?iv @ ccmp_seal (Key k) h (TxTsc k) p) (of_nat (n + 16)) =
      (True, p @ drop n (?iv @ ccmp_seal (Key k) h (TxTsc k) p), of_nat n)"
    using ccmp_seal_accepted [of h ?k "TxTsc k" p "[]" "aes_junk rx" _ i, OF _ _ _ _ _ _ _ refl] k d(2) assms(5,6,17) by (simp add: kt)
  have I: "take 8 (copy_at hb 0 ?iv) = ?iv" using assms(9) by (simp add: copy_at_def)
  let ?c = "ccmp_seal (Key k) h (TxTsc k) p @ drop 8 rest"
  show ?thesis
  proof (intro exI conjI)
    show "RTMPSoftConstructIVHdr Alg i (TxTsc k) hb = (copy_at hb 0 ?iv, 8)" using True by (simp add: RTMPSoftConstructIVHdr_def)
    show "RTMPSoftEncryptionAction tx Alg h dat (of_nat n) k = Some (?c, 8)" using True assms(12) E by (simp add: RTMPSoftEncryptionAction_def)
    have f: "take 8 (copy_at hb 0 ?iv) @ take (n + 8) ?c = ?iv @ ccmp_seal (Key k) h (TxTsc k) p" using I l by simp
    have w: "n + 8 + 8 = n + 16" by simp
    show "RTMPSoftDecryptionAction rx h up k (take 8 (copy_at hb 0 ?iv) @ take (n + 8) ?c) (of_nat (n + 8 + 8)) =
        Some (True, p @ drop n (?iv @ ccmp_seal (Key k) h (TxTsc k) p), of_nat n, rx)"
      unfolding f w RTMPSoftDecryptionAction_def using True assms(2,16) D by (simp del: of_nat_add)
    show "take n (p @ drop n (?iv @ ccmp_seal (Key k) h (TxTsc k) p)) = take n dat" using d by simp
  qed
next
  case False
  note k = assms(3) [OF False]
  let ?k = "cipher_key.truncate k" and ?iv = "RTMPConstructWEPIVHdr i (TxTsc k)"
  have kt: "KeyLen ?k = KeyLen k" "Key ?k = Key k" by (simp_all add: cipher_key.truncate_def)
  obtain e r where er: "RTMPSoftEncryptWEP True True (arc4_ctx0 tx) ?iv ?k dat (of_nat n) = Some (True, e)"
    "RTMPSoftDecryptWEP True True (arc4_ctx0 rx) ?k (?iv @ take (n + 4) e) (of_nat (n + 8)) = Some (True, r, of_nat n)" "take n r = take n dat"
    using wep_roundtrip_run [of ?k n dat "TxTsc k" ?iv i "arc4_ctx0 tx" "arc4_ctx0 rx"] k assms(5,6,7) by (auto simp: kt)
  have "RTMPSoftEncryptWEP True True (arc4_ctx0 tx) (TxTsc k) ?k dat (of_nat n) = Some (True, e)"
  proof -
    have "3 \<le> length (TxTsc k)" using assms(5) by simp
    then show ?thesis using er(1) unfolding RTMPSoftEncryptWEP_def by (simp only: wep_seed_header)
  qed
  moreover have "take 4 (copy_at hb 0 ?iv) = ?iv" using assms(5,9) by (simp add: copy_at_def RTMPConstructWEPIVHdr_def)
  ultimately show ?thesis
    unfolding RTMPSoftConstructIVHdr_def RTMPSoftEncryptionAction_def RTMPSoftDecryptionAction_def
    using False assms(1,2,10,11,14,15) er(2,3) by (auto simp: add.assoc)
qed

text \<open>An AES key, and a key of 40 bits.\<close>

definition ex_soft_key :: "u8 \<Rightarrow> u8 \<Rightarrow> soft_key" where
  "ex_soft_key alg len = \<lparr>Key = replicate 16 5, TxMic = [], RxMic = [], KeyLen = len, TxTsc = [1, 0, 0, 0, 0, 0], CipherAlg = alg\<rparr>"

definition ex_env :: "crypt_env" where
  "ex_env = \<lparr>wep_alloc = True, seed_alloc = True, arc4_ctx0 = ex_arc4, aes_alloc = True, aes_junk = replicate 16 7, tkip_tx = ex_mic\<rparr>"

theorem soft_crypt_roundtrip_witness:
  "\<exists>hb' hl e ext d. RTMPSoftConstructIVHdr CIPHER_AES 1 [1, 0, 0, 0, 0, 0] (replicate 8 0) = (hb', hl) \<and>
    RTMPSoftEncryptionAction ex_env CIPHER_AES ex_hdr ([9, 8] @ replicate 8 0) 2 (ex_soft_key CIPHER_AES 16) = Some (e, ext) \<and>
    RTMPSoftDecryptionAction ex_env ex_hdr 0 (ex_soft_key CIPHER_AES 16) (take hl hb' @ take (2 + ext) e) (of_nat (2 + hl + ext)) = Some (True, d, 2, ex_env) \<and>
    take 2 d = [9, 8]"
proof -
  have h: "header_length ex_hdr \<le> length ex_hdr" unfolding ex_hdr_length by simp
  have k: "TxTsc (ex_soft_key a n) = [1, 0, 0, 0, 0, 0]" "CipherAlg (ex_soft_key a n) = a" "KeyLen (ex_soft_key a n) = n" "length (Key (ex_soft_key a n)) = 16" for a n
    by (simp_all add: ex_soft_key_def)
  have e: "wep_alloc ex_env" "seed_alloc ex_env" "aes_alloc ex_env" "length (aes_junk ex_env) = 16" by (simp_all add: ex_env_def)
  have w: "of_nat 2 = (2 :: u32)" "of_nat 2 = (2 :: u16)" "take 2 ([9, 8] @ replicate 8 (0 :: u8)) = [9, 8]" by (simp_all del: replicate.simps)
  show ?thesis
    using soft_crypt_roundtrip [of CIPHER_AES "ex_soft_key CIPHER_AES 16" ex_hdr 2 "[9, 8] @ replicate 8 0" "replicate 8 0" ex_env ex_env 1 0] h e
    unfolding k w by (simp del: replicate.simps)
qed

text \<open>The encryption fails open: when the cipher context of WEP cannot be allocated, or the key has no length, the payload is
  left as it was, and the caller is told that it has grown by the check value; it sends the payload in the clear. A TKIP
  payload is never encrypted.\<close>

theorem soft_encrypt_fails_open:
  assumes "\<not> wep_alloc env \<or> KeyLen k = 0"
  shows "RTMPSoftEncryptionAction env CIPHER_WEP64 h dat n k = Some (dat, 4) \<and>
    RTMPSoftEncryptionAction env CIPHER_WEP128 h dat n k = Some (dat, 4) \<and>
    RTMPSoftEncryptionAction env CIPHER_TKIP h dat n k = Some (dat, 0)"
  using assms by (auto simp: RTMPSoftEncryptionAction_def RTMPSoftEncryptWEP_def cipher_key.truncate_def)

theorem soft_encrypt_fails_open_witness: "RTMPSoftEncryptionAction ex_env CIPHER_WEP64 [] [1, 2] 2 (ex_soft_key 1 0) = Some ([1, 2], 4)"
  using soft_encrypt_fails_open [of ex_env "ex_soft_key 1 0"] by (simp add: ex_soft_key_def)

end
