(* ===== verification/Hiir.thy ===== *)
theory Hiir
  imports QueueSpec
begin

text \<open>
  The infrared receiver, \<open>hisi-irda/hiir.c\<close>: its device structure with the ring of received
  keys, the register configuration \<open>hiir_config\<close>, the interrupt handler, the repeat timer, and
  the file operations (open, ioctl, read, poll, write, release) with module init and exit.
  Register writes are logged in order; register values a handler reads are its arguments.
\<close>

section \<open>State\<close>

record irkey_info =
  irkey_datah :: u32
  irkey_datal :: u32
  irkey_state_code :: u32

record hiir_dev_param =
  leads_min :: u16
  leads_max :: u16
  leade_min :: u16
  leade_max :: u16
  cnt0_b_min :: u16
  cnt0_b_max :: u16
  cnt1_b_min :: u16
  cnt1_b_max :: u16
  sleade_min :: u16
  sleade_max :: u16
  code_len :: u16
  codetype :: u16
  frequence :: u16

datatype ir_reg = IOCONFIG | IR_ENABLE | IR_CONFIG | CNT_LEADS | CNT_LEADE | CNT_SLEADE | CNT0_B | CNT1_B
  | IR_INTM | IR_INTC | IR_START

text \<open>\<open>hiir_dev\<close>, the debug flag, \<open>hiir_s_available\<close>, the expiry of the pending repeat timer,
  the register writes and the number of wake-ups of \<open>irkey_wait\<close>.\<close>

record hiir_dev =
  dev_parm :: hiir_dev_param
  head :: u32
  tail :: u32
  buf :: "irkey_info list"
  buf_len :: u32
  enable_repkey :: u32
  repkey_checkflag :: u32
  repkey_delaytime :: u32
  enable_keyup :: u32
  g_dbg_flag :: u32
  hiir_s_available :: int
  repkey_timeout_timer :: "u32 option"
  reg_writes :: "(ir_reg \<times> u32) list"
  wakes :: nat

abbreviation HIIR_KEY_DOWN :: u32 where "HIIR_KEY_DOWN \<equiv> 0"
abbreviation HIIR_KEY_UP :: u32 where "HIIR_KEY_UP \<equiv> 1"
abbreviation HI_IR_MAX_BUF :: u32 where "HI_IR_MAX_BUF \<equiv> 100"
abbreviation EAGAIN :: int where "EAGAIN \<equiv> 11"
abbreviation EFAULT :: int where "EFAULT \<equiv> 14"
abbreviation EBUSY :: int where "EBUSY \<equiv> 16"
abbreviation ENOTTY :: int where "ENOTTY \<equiv> 25"
abbreviation ERESTARTSYS :: int where "ERESTARTSYS \<equiv> 512"

definition hiir_write_reg :: "ir_reg \<Rightarrow> u32 \<Rightarrow> hiir_dev \<Rightarrow> hiir_dev" where
  "hiir_write_reg r v d = d\<lparr>reg_writes := reg_writes d @ [(r, v)]\<rparr>"

definition hiir_del_timer :: "hiir_dev \<Rightarrow> hiir_dev" where
  "hiir_del_timer d = d\<lparr>repkey_timeout_timer := None\<rparr>"

definition hiir_wake :: "hiir_dev \<Rightarrow> hiir_dev" where
  "hiir_wake d = d\<lparr>wakes := wakes d + 1\<rparr>"

section \<open>The ring\<close>

definition INC_BUF :: "u32 \<Rightarrow> u32 \<Rightarrow> u32" where
  "INC_BUF x len = (x + 1) mod len"

definition BUF_TAIL :: "hiir_dev \<Rightarrow> irkey_info" where
  "BUF_TAIL d = buf d ! unat (tail d)"

definition BUF_LAST :: "hiir_dev \<Rightarrow> irkey_info" where
  "BUF_LAST d = buf d ! unat (if head d = 0 then buf_len d - 1 else head d - 1)"

text \<open>The store through \<open>BUF_HEAD\<close> and the advance of the head, as the handler does them.\<close>

definition hiir_put :: "hiir_dev \<Rightarrow> irkey_info \<Rightarrow> hiir_dev" where
  "hiir_put d k = d\<lparr>buf := (buf d)[unat (head d) := k], head := INC_BUF (head d) (buf_len d)\<rparr>"

text \<open>One turn of the loop of \<open>hiir_read\<close>.\<close>

definition hiir_take :: "hiir_dev \<Rightarrow> irkey_info option \<times> hiir_dev" where
  "hiir_take d =
    (if head d = tail d then (None, d)
     else (Some (BUF_TAIL d), d\<lparr>tail := INC_BUF (tail d) (buf_len d)\<rparr>))"

section \<open>Configuration of the hardware\<close>

text \<open>The loop that polls \<open>IR_BUSY\<close> has no effect on the state.\<close>

definition hiir_config :: "hiir_dev \<Rightarrow> hiir_dev" where
  "hiir_config d =
    (let p = dev_parm d;
         d = hiir_write_reg IOCONFIG 0 d;
         d = hiir_write_reg IR_ENABLE 0x01 d;
         value = push_bit 14 (ucast (codetype p));
         value = value OR push_bit 8 (ucast (code_len p) - 1);
         value = value OR (ucast (frequence p) - 1);
         d = hiir_write_reg IR_CONFIG value d;
         d = hiir_write_reg CNT_LEADS (push_bit 16 (ucast (leads_min p)) OR ucast (leads_max p)) d;
         d = hiir_write_reg CNT_LEADE (push_bit 16 (ucast (leade_min p)) OR ucast (leade_max p)) d;
         d = hiir_write_reg CNT_SLEADE (push_bit 16 (ucast (sleade_min p)) OR ucast (sleade_max p)) d;
         d = hiir_write_reg CNT0_B (push_bit 16 (ucast (cnt0_b_min p)) OR ucast (cnt0_b_max p)) d;
         d = hiir_write_reg CNT1_B (push_bit 16 (ucast (cnt1_b_min p)) OR ucast (cnt1_b_max p)) d;
         d = hiir_write_reg IR_INTM 0x00 d
     in hiir_write_reg IR_START 0x00 d)"

section \<open>Interrupts and the timer\<close>

definition repkey_timeout_handler :: "hiir_dev \<Rightarrow> hiir_dev" where
  "repkey_timeout_handler d = (hiir_del_timer d)\<lparr>repkey_checkflag := 0\<rparr>"

abbreviation INTMS_RCV :: u32 where "INTMS_RCV \<equiv> push_bit 16 1"
abbreviation INTMS_FRAMERR :: u32 where "INTMS_FRAMERR \<equiv> push_bit 17 1"
abbreviation INTMS_OVERFLOW :: u32 where "INTMS_OVERFLOW \<equiv> push_bit 18 1"
abbreviation INTMS_RELEASE :: u32 where "INTMS_RELEASE \<equiv> push_bit 19 1"

text \<open>\<open>INTS\<close>, \<open>DATAH\<close> and \<open>DATAL\<close> are the values of the registers.\<close>

definition hiir_interrupt :: "u32 \<Rightarrow> u32 \<Rightarrow> u32 \<Rightarrow> u32 \<Rightarrow> u32 \<Rightarrow> hiir_dev \<Rightarrow> hiir_dev" where
  "hiir_interrupt HZ jiffies INTS DATAH DATAL d =
    (if INTS AND INTMS_FRAMERR \<noteq> 0 then hiir_write_reg IR_INTC (push_bit 1 1) d
     else if INTS AND INTMS_OVERFLOW \<noteq> 0 then hiir_write_reg IR_INTC (push_bit 2 1) d
     else if INTS AND INTMS_RELEASE \<noteq> 0 then
       let d = hiir_write_reg IR_INTC (push_bit 3 1) d;
           d = hiir_del_timer d;
           d = d\<lparr>repkey_checkflag := 0\<rparr>
       in if enable_keyup d \<noteq> 0 \<and> HIIR_KEY_UP \<noteq> irkey_state_code (BUF_LAST d)
          then hiir_wake (hiir_put d ((BUF_LAST d)\<lparr>irkey_state_code := HIIR_KEY_UP\<rparr>))
          else d
     else if INTS AND INTMS_RCV \<noteq> 0 then
       let d = hiir_write_reg IR_INTC (push_bit 0 1) d;
           key = \<lparr>irkey_datah = DATAH, irkey_datal = DATAL, irkey_state_code = HIIR_KEY_DOWN\<rparr>
       in if enable_repkey d \<noteq> 0 then
            if repkey_checkflag d \<noteq> 0 \<and> irkey_datah (BUF_LAST d) = DATAH \<and> irkey_datal (BUF_LAST d) = DATAL then d
            else
              let d = hiir_del_timer d;
                  d = d\<lparr>repkey_timeout_timer := Some (jiffies + repkey_delaytime d * HZ div 1000)\<rparr>;
                  d = d\<lparr>repkey_checkflag := 1\<rparr>
              in hiir_wake (hiir_put d key)
          else if \<not> (irkey_datah (BUF_LAST d) = DATAH \<and> irkey_datal (BUF_LAST d) = DATAL \<and>
                     irkey_state_code (BUF_LAST d) = HIIR_KEY_DOWN)
          then hiir_wake (hiir_put d key)
          else d
     else d)"

section \<open>File operations\<close>

datatype hiir_cmd = IR_IOC_SET_BUF | IR_IOC_SET_ENABLE_KEYUP | IR_IOC_SET_ENABLE_REPKEY | IR_IOC_SET_REPKEY_TIMEOUTVAL
  | IR_IOC_SET_FORMAT | IR_IOC_SET_CODELEN | IR_IOC_SET_FREQ | IR_IOC_SET_LEADS | IR_IOC_SET_LEADE
  | IR_IOC_SET_SLEADE | IR_IOC_SET_CNT0_B | IR_IOC_SET_CNT1_B | IR_IOC_GET_CONFIG | IR_IOC_ENDBG | IR_IOC_DISDBG
  | OTHER_IOC u32

definition hiir_decode :: "u32 \<Rightarrow> hiir_cmd" where
  "hiir_decode cmd =
    (if cmd = 0x01 then IR_IOC_SET_BUF
     else if cmd = 0x02 then IR_IOC_SET_ENABLE_KEYUP
     else if cmd = 0x03 then IR_IOC_SET_ENABLE_REPKEY
     else if cmd = 0x04 then IR_IOC_SET_REPKEY_TIMEOUTVAL
     else if cmd = 0x10 then IR_IOC_SET_FORMAT
     else if cmd = 0x11 then IR_IOC_SET_CODELEN
     else if cmd = 0x12 then IR_IOC_SET_FREQ
     else if cmd = 0x13 then IR_IOC_SET_LEADS
     else if cmd = 0x14 then IR_IOC_SET_LEADE
     else if cmd = 0x15 then IR_IOC_SET_SLEADE
     else if cmd = 0x16 then IR_IOC_SET_CNT0_B
     else if cmd = 0x17 then IR_IOC_SET_CNT1_B
     else if cmd = 0x20 then IR_IOC_GET_CONFIG
     else if cmd = 0x31 then IR_IOC_ENDBG
     else if cmd = 0x32 then IR_IOC_DISDBG
     else OTHER_IOC cmd)"

text \<open>A request for a pair reads two words through the argument; \<open>user\<close> is what \<open>get_user\<close>
  gives, \<open>None\<close> when one of them faults.\<close>

definition hiir_pair ::
  "(u32 \<times> u32) option \<Rightarrow> (u16 \<Rightarrow> u16 \<Rightarrow> hiir_dev_param \<Rightarrow> hiir_dev_param) \<Rightarrow> hiir_dev \<Rightarrow> int + hiir_dev" where
  "hiir_pair user upd d =
    (case user of None \<Rightarrow> Inl (- EFAULT)
     | Some (min_val, max_val) \<Rightarrow> Inr (d\<lparr>dev_parm := upd (ucast min_val) (ucast max_val) (dev_parm d)\<rparr>))"

definition hiir_set :: "hiir_cmd \<Rightarrow> u32 \<Rightarrow> (u32 \<times> u32) option \<Rightarrow> hiir_dev \<Rightarrow> int + hiir_dev" where
  "hiir_set cmd arg user d =
    (case cmd of
       IR_IOC_SET_BUF \<Rightarrow>
         Inr (if 0 < arg \<and> arg \<le> HI_IR_MAX_BUF then d\<lparr>buf_len := arg + 1, head := 0, tail := 0\<rparr> else d)
     | IR_IOC_SET_ENABLE_KEYUP \<Rightarrow> Inr (d\<lparr>enable_keyup := arg\<rparr>)
     | IR_IOC_SET_ENABLE_REPKEY \<Rightarrow> Inr (d\<lparr>enable_repkey := arg\<rparr>)
     | IR_IOC_SET_REPKEY_TIMEOUTVAL \<Rightarrow> Inr (if arg > 0 then d\<lparr>repkey_delaytime := arg\<rparr> else d)
     | IR_IOC_SET_FORMAT \<Rightarrow>
         if arg > 3 then Inl (- EFAULT) else Inr (d\<lparr>dev_parm := (dev_parm d)\<lparr>codetype := ucast arg\<rparr>\<rparr>)
     | IR_IOC_SET_CODELEN \<Rightarrow> Inr (d\<lparr>dev_parm := (dev_parm d)\<lparr>code_len := ucast arg\<rparr>\<rparr>)
     | IR_IOC_SET_FREQ \<Rightarrow>
         if arg \<le> 0 \<or> arg > 128 then Inl (- EFAULT) else Inr (d\<lparr>dev_parm := (dev_parm d)\<lparr>frequence := ucast arg\<rparr>\<rparr>)
     | IR_IOC_SET_LEADS \<Rightarrow> hiir_pair user (\<lambda>a b p. p\<lparr>leads_min := a, leads_max := b\<rparr>) d
     | IR_IOC_SET_LEADE \<Rightarrow> hiir_pair user (\<lambda>a b p. p\<lparr>leade_min := a, leade_max := b\<rparr>) d
     | IR_IOC_SET_SLEADE \<Rightarrow> hiir_pair user (\<lambda>a b p. p\<lparr>sleade_min := a, sleade_max := b\<rparr>) d
     | IR_IOC_SET_CNT0_B \<Rightarrow> hiir_pair user (\<lambda>a b p. p\<lparr>cnt0_b_min := a, cnt0_b_max := b\<rparr>) d
     | IR_IOC_SET_CNT1_B \<Rightarrow> hiir_pair user (\<lambda>a b p. p\<lparr>cnt1_b_min := a, cnt1_b_max := b\<rparr>) d
     | IR_IOC_GET_CONFIG \<Rightarrow> Inr d
     | IR_IOC_ENDBG \<Rightarrow> Inr (d\<lparr>g_dbg_flag := 1\<rparr>)
     | IR_IOC_DISDBG \<Rightarrow> Inr (d\<lparr>g_dbg_flag := 0\<rparr>)
     | OTHER_IOC _ \<Rightarrow> Inl (- ENOTTY))"

text \<open>The second component is what the configuration request copies to the user.\<close>

definition hiir_ioctl :: "u32 \<Rightarrow> u32 \<Rightarrow> (u32 \<times> u32) option \<Rightarrow> hiir_dev \<Rightarrow> int \<times> hiir_dev_param option \<times> hiir_dev" where
  "hiir_ioctl cmd arg user d =
    (case hiir_set (hiir_decode cmd) arg user d of
       Inl e \<Rightarrow> (e, None, d)
     | Inr d' \<Rightarrow> (0, if hiir_decode cmd = IR_IOC_GET_CONFIG then Some (dev_parm d') else None, hiir_config d'))"

text \<open>A read that finds no key ends with an error or waits; when it is woken it starts again. The
  loop copies while another record of 12 bytes fits; \<open>n\<close> of them still do.\<close>

datatype hiir_read_result = ReadError int | ReadKeys "irkey_info list" nat | ReadWait

fun hiir_read_loop :: "nat \<Rightarrow> hiir_dev \<Rightarrow> irkey_info list \<times> hiir_dev" where
  "hiir_read_loop 0 d = ([], d)"
| "hiir_read_loop (Suc n) d =
    (case hiir_take d of
       (None, d) \<Rightarrow> ([], d)
     | (Some k, d) \<Rightarrow> case hiir_read_loop n d of (ks, d) \<Rightarrow> (k # ks, d))"

definition hiir_read :: "bool \<Rightarrow> bool \<Rightarrow> u32 \<Rightarrow> hiir_dev \<Rightarrow> hiir_read_result \<times> hiir_dev" where
  "hiir_read nonblock signal cnt d =
    (if head d = tail d then
       if nonblock then (ReadError (- EAGAIN), d)
       else if signal then (ReadError (- ERESTARTSYS), d)
       else (ReadWait, d)
     else case hiir_read_loop (unat cnt div 12) d of (ks, d) \<Rightarrow> (ReadKeys ks (12 * length ks), d))"

definition hiir_select :: "hiir_dev \<Rightarrow> u32" where
  "hiir_select d = (if head d \<noteq> tail d then 1 else 0)"

definition static_dev_param0 :: hiir_dev_param where
  "static_dev_param0 =
    \<lparr>leads_min = 828, leads_max = 972, leade_min = 414, leade_max = 486, cnt0_b_min = 45, cnt0_b_max = 67,
     cnt1_b_min = 135, cnt1_b_max = 203, sleade_min = 180, sleade_max = 270, code_len = 32, codetype = 0, frequence = 24\<rparr>"

definition hiir_open :: "hiir_dev \<Rightarrow> int \<times> hiir_dev" where
  "hiir_open d =
    (let d = d\<lparr>hiir_s_available := hiir_s_available d - 1\<rparr> in
     if hiir_s_available d \<noteq> 0 then (- EBUSY, d\<lparr>hiir_s_available := hiir_s_available d + 1\<rparr>)
     else
       let d = hiir_del_timer d;
           d = d\<lparr>g_dbg_flag := 0, dev_parm := static_dev_param0, head := 0, tail := 0, buf_len := 8,
             enable_repkey := 1, repkey_checkflag := 0, repkey_delaytime := 200, enable_keyup := 1\<rparr>
       in (0, hiir_config d))"

definition hiir_release :: "hiir_dev \<Rightarrow> int \<times> hiir_dev" where
  "hiir_release d =
    (let d = hiir_del_timer d;
         d = hiir_write_reg IR_ENABLE 0x00 d
     in (0, d\<lparr>hiir_s_available := hiir_s_available d + 1\<rparr>))"

definition hiir_write :: "u32 \<Rightarrow> hiir_dev \<Rightarrow> int \<times> hiir_dev" where
  "hiir_write cnt d = (0, d)"

text \<open>Module initialisation with the results of the registrations; the flags are what stays
  registered: the device and the interrupt.\<close>

definition hiir_init :: "int \<Rightarrow> int \<Rightarrow> hiir_dev \<Rightarrow> int \<times> (bool \<times> bool) \<times> hiir_dev" where
  "hiir_init misc_res irq_res d =
    (let d = hiir_write_reg IR_ENABLE 0x00 d in
     if misc_res \<noteq> 0 then (- EFAULT, (False, False), d)
     else if irq_res \<noteq> 0 then (irq_res, (False, False), d)
     else (0, (True, True), d))"

section \<open>The ring as a queue\<close>

text \<open>The array is full size, the length in use is set, and both indices are inside it.\<close>

definition hiir_ok :: "hiir_dev \<Rightarrow> bool" where
  "hiir_ok d \<longleftrightarrow> length (buf d) = 101 \<and> 2 \<le> unat (buf_len d) \<and> unat (buf_len d) \<le> 101 \<and>
    unat (head d) < unat (buf_len d) \<and> unat (tail d) < unat (buf_len d)"

definition hiir_rep :: "hiir_dev \<Rightarrow> irkey_info list \<Rightarrow> bool" where
  "hiir_rep d ks \<longleftrightarrow> hiir_ok d \<and> length ks < unat (buf_len d) \<and>
    unat (head d) = (unat (tail d) + length ks) mod unat (buf_len d) \<and>
    (\<forall>i<length ks. buf d ! ((unat (tail d) + i) mod unat (buf_len d)) = ks ! i)"

definition hiir_room :: "hiir_dev \<Rightarrow> irkey_info \<Rightarrow> bool" where
  "hiir_room d k \<longleftrightarrow> (unat (head d) + 1) mod unat (buf_len d) \<noteq> unat (tail d)"

lemma unat_INC_BUF: "unat x < unat len \<Longrightarrow> unat len \<le> 101 \<Longrightarrow> unat (INC_BUF x len) = (unat x + 1) mod unat len"
  using unat_word_ariths(1) [of x 1] by (simp add: INC_BUF_def unat_mod_distrib)

lemma hiir_rep_ok: "hiir_rep d ks \<Longrightarrow> hiir_ok d" by (simp add: hiir_rep_def)

lemma hiir_rep_head:
  assumes "hiir_rep d ks"
  shows "head d = tail d \<longleftrightarrow> ks = []"
proof
  assume "head d = tail d"
  then have "(unat (tail d) + length ks) mod unat (buf_len d) = (unat (tail d) + 0) mod unat (buf_len d)"
    using assms by (simp add: hiir_rep_def hiir_ok_def)
  then have "length ks = 0" using assms mod_shift_inj by (metis hiir_rep_def gr_implies_not0 not_gr_zero)
  then show "ks = []" by simp
next
  assume "ks = []"
  then show "head d = tail d" using assms by (simp add: hiir_rep_def hiir_ok_def word_unat_eq_iff)
qed

lemma hiir_put_rep:
  assumes "hiir_rep d ks" "length ks + 1 < unat (buf_len d)"
  shows "hiir_rep (hiir_put d k) (ks @ [k])"
proof -
  let ?n = "unat (buf_len d)" and ?t = "unat (tail d)"
  have ok: "hiir_ok d" and h: "unat (head d) = (?t + length ks) mod ?n" using assms(1) by (auto simp: hiir_rep_def)
  have inc: "unat (INC_BUF (head d) (buf_len d)) = (unat (head d) + 1) mod ?n"
    using ok by (intro unat_INC_BUF) (auto simp: hiir_ok_def)
  have "hiir_ok (hiir_put d k)" using ok by (simp add: hiir_ok_def hiir_put_def inc)
  moreover have "(unat (head d) + 1) mod ?n = (?t + length (ks @ [k])) mod ?n"
    unfolding h by (simp add: mod_Suc_eq)
  moreover have "(buf d)[unat (head d) := k] ! ((?t + i) mod ?n) = (ks @ [k]) ! i" if "i < length (ks @ [k])" for i
  proof (cases "i = length ks")
    case True
    have "unat (head d) < length (buf d)" using ok by (auto simp: hiir_ok_def)
    then show ?thesis using True h by simp
  next
    case False
    then have "i < length ks" using that by simp
    moreover have "(?t + i) mod ?n \<noteq> unat (head d)"
      using mod_shift_inj [of ?t i ?n "length ks"] \<open>i < length ks\<close> assms(2) h by auto
    ultimately show ?thesis using assms(1) by (simp add: hiir_rep_def nth_append)
  qed
  ultimately show ?thesis using assms(2) by (simp add: hiir_rep_def hiir_put_def inc)
qed

lemma hiir_room_length: "hiir_rep d ks \<Longrightarrow> hiir_room d k \<longleftrightarrow> length ks + 1 < unat (buf_len d)"
proof -
  assume r: "hiir_rep d ks"
  let ?n = "unat (buf_len d)" and ?t = "unat (tail d)"
  have "(unat (head d) + 1) mod ?n = (?t + (length ks + 1)) mod ?n"
    using r by (simp add: hiir_rep_def mod_Suc_eq)
  moreover have "?t = (?t + 0) mod ?n" "0 < ?n" using r by (auto simp: hiir_rep_def hiir_ok_def)
  moreover have "length ks < ?n" using r by (simp add: hiir_rep_def)
  ultimately show ?thesis
    using mod_shift_inj [of ?t "length ks + 1" ?n 0]
    by (metis Suc_eq_plus1 Suc_lessI add.right_neutral hiir_room_def mod_add_self2 nat.distinct(1))
qed

lemma hiir_take_Nil: "hiir_rep d [] \<Longrightarrow> hiir_take d = (None, d)"
  using hiir_rep_head [of d "[]"] by (simp add: hiir_take_def)

lemma hiir_take_Cons:
  assumes "hiir_rep d (k # ks)"
  shows "hiir_take d = (Some k, d\<lparr>tail := INC_BUF (tail d) (buf_len d)\<rparr>)"
    and "hiir_rep (d\<lparr>tail := INC_BUF (tail d) (buf_len d)\<rparr>) ks"
proof -
  let ?n = "unat (buf_len d)" and ?t = "unat (tail d)"
  have ok: "hiir_ok d" using assms by (rule hiir_rep_ok)
  then have t: "?t < ?n" by (simp add: hiir_ok_def)
  have at: "buf d ! ((?t + i) mod ?n) = (k # ks) ! i" if "i < length (k # ks)" for i
    using assms that by (simp add: hiir_rep_def)
  have "BUF_TAIL d = k" using at [of 0] t by (simp add: BUF_TAIL_def)
  then show "hiir_take d = (Some k, d\<lparr>tail := INC_BUF (tail d) (buf_len d)\<rparr>)"
    using hiir_rep_head [OF assms] by (simp add: hiir_take_def)
  have inc: "unat (INC_BUF (tail d) (buf_len d)) = (?t + 1) mod ?n"
    using ok by (intro unat_INC_BUF) (auto simp: hiir_ok_def)
  define m where "m = (?t + 1) mod ?n"
  have shift: "(m + i) mod ?n = (?t + Suc i) mod ?n" for i by (simp add: m_def mod_add_left_eq)
  have "unat (head d) = (m + length ks) mod ?n" using assms by (simp add: hiir_rep_def shift)
  moreover have "buf d ! ((m + i) mod ?n) = ks ! i" if "i < length ks" for i using at [of "Suc i"] that by (simp add: shift)
  ultimately show "hiir_rep (d\<lparr>tail := INC_BUF (tail d) (buf_len d)\<rparr>) ks"
    using ok assms by (simp add: hiir_rep_def hiir_ok_def inc m_def [symmetric]) (simp add: m_def)
qed

interpretation irq: fifo_queue hiir_put hiir_take hiir_rep hiir_room
proof
  show "hiir_rep d ks \<Longrightarrow> hiir_room d k \<Longrightarrow> hiir_rep (hiir_put d k) (ks @ [k])" for d ks k
    using hiir_put_rep hiir_room_length by blast
  show "hiir_rep d [] \<Longrightarrow> fst (hiir_take d) = None \<and> hiir_rep (snd (hiir_take d)) []" for d
    by (simp add: hiir_take_Nil)
  show "hiir_rep d (k # ks) \<Longrightarrow> fst (hiir_take d) = Some k \<and> hiir_rep (snd (hiir_take d)) ks" for d k ks
    by (simp add: hiir_take_Cons)
qed

lemma hiir_put_ok: "hiir_ok d \<Longrightarrow> hiir_ok (hiir_put d k)"
  using unat_INC_BUF [of "head d" "buf_len d"] by (simp add: hiir_ok_def hiir_put_def)

lemma hiir_put_last:
  assumes "hiir_ok d"
  shows "BUF_LAST (hiir_put d k) = k"
proof -
  let ?n = "unat (buf_len d)" and ?h = "unat (head d)"
  have n: "?h < ?n" "?n \<le> 101" "length (buf d) = 101" "2 \<le> ?n" using assms by (simp_all add: hiir_ok_def)
  have inc: "unat (INC_BUF (head d) (buf_len d)) = (?h + 1) mod ?n" using n by (intro unat_INC_BUF) auto
  have m1: "unat (w - 1) = unat w - 1" if "0 < unat w" for w :: u32
    using that unat_minus_one [of w] by (auto simp: unat_gt_0)
  have "unat (if INC_BUF (head d) (buf_len d) = 0 then buf_len d - 1 else INC_BUF (head d) (buf_len d) - 1) = ?h"
  proof (cases "?h + 1 = ?n")
    case True
    then have "INC_BUF (head d) (buf_len d) = 0" using inc by (simp add: word_unat_eq_iff)
    then show ?thesis using m1 [of "buf_len d"] True n by simp
  next
    case False
    then have "unat (INC_BUF (head d) (buf_len d)) = ?h + 1" using inc n by simp
    then show ?thesis using m1 [of "INC_BUF (head d) (buf_len d)"] by auto
  qed
  then show ?thesis using n by (simp add: BUF_LAST_def hiir_put_def split: if_splits)
qed

text \<open>The parts of the state the ring is made of.\<close>

definition same_ring :: "hiir_dev \<Rightarrow> hiir_dev \<Rightarrow> bool" where
  "same_ring d d' \<longleftrightarrow> buf d = buf d' \<and> head d = head d' \<and> tail d = tail d' \<and> buf_len d = buf_len d' \<and>
    hiir_s_available d = hiir_s_available d'"

lemma same_ring_refl [simp]: "same_ring d d" by (simp add: same_ring_def)

lemma same_ring_rep: "same_ring d d' \<Longrightarrow> hiir_rep d ks \<longleftrightarrow> hiir_rep d' ks"
  by (simp add: same_ring_def hiir_rep_def hiir_ok_def)

lemma same_ring_ok: "same_ring d d' \<Longrightarrow> hiir_ok d \<longleftrightarrow> hiir_ok d'"
  by (simp add: same_ring_def hiir_ok_def)

lemma same_ring_last: "same_ring d d' \<Longrightarrow> BUF_LAST d = BUF_LAST d'"
  by (simp add: same_ring_def BUF_LAST_def)

lemma hiir_config_sel [simp]:
  "buf (hiir_config d) = buf d" "head (hiir_config d) = head d" "tail (hiir_config d) = tail d"
  "buf_len (hiir_config d) = buf_len d" "hiir_s_available (hiir_config d) = hiir_s_available d"
  "enable_repkey (hiir_config d) = enable_repkey d" "repkey_checkflag (hiir_config d) = repkey_checkflag d"
  by (simp_all add: hiir_config_def hiir_write_reg_def Let_def)

lemma hiir_config_ring [simp]: "same_ring (hiir_config d) d'  \<longleftrightarrow> same_ring d d'"
  by (simp add: same_ring_def)

lemma hiir_wake_ring [simp]: "same_ring (hiir_wake d) d' \<longleftrightarrow> same_ring d d'"
  by (simp add: hiir_wake_def same_ring_def)

text \<open>What an interrupt appends to the ring.\<close>

definition hiir_new_keys :: "u32 \<Rightarrow> u32 \<Rightarrow> u32 \<Rightarrow> hiir_dev \<Rightarrow> irkey_info list" where
  "hiir_new_keys INTS DATAH DATAL d =
    (let l = BUF_LAST d; key = \<lparr>irkey_datah = DATAH, irkey_datal = DATAL, irkey_state_code = HIIR_KEY_DOWN\<rparr>;
         same = (irkey_datah l = DATAH \<and> irkey_datal l = DATAL) in
     if INTS AND INTMS_FRAMERR \<noteq> 0 \<or> INTS AND INTMS_OVERFLOW \<noteq> 0 then []
     else if INTS AND INTMS_RELEASE \<noteq> 0 then
       (if enable_keyup d \<noteq> 0 \<and> irkey_state_code l \<noteq> HIIR_KEY_UP then [l\<lparr>irkey_state_code := HIIR_KEY_UP\<rparr>] else [])
     else if INTS AND INTMS_RCV \<noteq> 0 then
       (if enable_repkey d \<noteq> 0 then (if repkey_checkflag d \<noteq> 0 \<and> same then [] else [key])
        else if same \<and> irkey_state_code l = HIIR_KEY_DOWN then [] else [key])
     else [])"

lemma hiir_put_same: "same_ring d d' \<Longrightarrow> same_ring (hiir_put d k) (hiir_put d' k)"
  by (simp add: same_ring_def hiir_put_def)

lemma hiir_interrupt_ring:
  "same_ring (hiir_interrupt HZ j INTS dh dl d) (foldl hiir_put d (hiir_new_keys INTS dh dl d))"
proof -
  have l: "BUF_LAST (hiir_write_reg r v d) = BUF_LAST d" "BUF_LAST (hiir_del_timer d) = BUF_LAST d"
      "BUF_LAST (d\<lparr>repkey_checkflag := c\<rparr>) = BUF_LAST d" for r v c and d :: hiir_dev
    by (simp_all add: BUF_LAST_def hiir_write_reg_def hiir_del_timer_def)
  show ?thesis
    unfolding hiir_interrupt_def hiir_new_keys_def Let_def l
    by (simp add: hiir_put_same same_ring_def [of "hiir_write_reg _ _ _"] same_ring_def [of d] hiir_write_reg_def hiir_del_timer_def)
      (auto simp: same_ring_def hiir_put_def hiir_wake_def)
qed

lemma new_keys_cases: "hiir_new_keys INTS dh dl d = [] \<or> (\<exists>k. hiir_new_keys INTS dh dl d = [k])"
  by (simp add: hiir_new_keys_def Let_def)

lemma hiir_interrupt_ok: "hiir_ok d \<Longrightarrow> hiir_ok (hiir_interrupt HZ j INTS dh dl d)"
  using same_ring_ok [OF hiir_interrupt_ring, of HZ j INTS dh dl d] new_keys_cases [of INTS dh dl d] hiir_put_ok by auto

lemma hiir_interrupt_queue:
  assumes "hiir_rep d ks" "length ks + 1 < unat (buf_len d)"
  shows "hiir_rep (hiir_interrupt HZ j INTS dh dl d) (ks @ hiir_new_keys INTS dh dl d)"
  using same_ring_rep [OF hiir_interrupt_ring, of HZ j INTS dh dl d] new_keys_cases [of INTS dh dl d] hiir_put_rep [OF assms]
    assms(1) by auto

section \<open>Reading\<close>

lemma hiir_read_loop_rep:
  "hiir_rep d ks \<Longrightarrow> fst (hiir_read_loop n d) = take n ks \<and> hiir_rep (snd (hiir_read_loop n d)) (drop n ks)"
proof (induction n arbitrary: d ks)
  case (Suc n)
  show ?case
  proof (cases ks)
    case Nil
    then show ?thesis using Suc.prems by (simp add: hiir_take_Nil)
  next
    case (Cons k ks')
    then show ?thesis
      using Suc.IH [OF hiir_take_Cons(2)] Suc.prems hiir_take_Cons(1) by (fastforce split: prod.split)
  qed
qed simp

text \<open>C32: Reading takes the oldest unread keys, in the order they came, as many whole records as the
  buffer has room for, reports their bytes, and leaves the others for the next read.\<close>
theorem hiir_read_oldest:
  assumes "hiir_rep d ks" "ks \<noteq> []"
  shows "\<exists>d'. hiir_read nonblock signal cnt d = (ReadKeys (take (unat cnt div 12) ks) (12 * min (length ks) (unat cnt div 12)), d') \<and>
    hiir_rep d' (drop (unat cnt div 12) ks)"
proof -
  have "head d \<noteq> tail d" using hiir_rep_head [OF assms(1)] assms(2) by simp
  then show ?thesis using hiir_read_loop_rep [OF assms(1), of "unat cnt div 12"]
    by (cases "hiir_read_loop (unat cnt div 12) d") (simp add: hiir_read_def)
qed

lemma hiir_read_ok:
  assumes "hiir_ok d"
  shows "hiir_ok (snd (hiir_read nonblock signal cnt d))"
    and "hiir_s_available (snd (hiir_read nonblock signal cnt d)) = hiir_s_available d"
proof -
  have take: "hiir_ok (snd (hiir_take d)) \<and> hiir_s_available (snd (hiir_take d)) = hiir_s_available d" if "hiir_ok d" for d
    using that unat_INC_BUF [of "tail d" "buf_len d"] by (simp add: hiir_take_def hiir_ok_def)
  have loop: "hiir_ok (snd (hiir_read_loop n d)) \<and> hiir_s_available (snd (hiir_read_loop n d)) = hiir_s_available d"
    if "hiir_ok d" for n d
    using that
  proof (induction n arbitrary: d)
    case (Suc n)
    obtain r d1 where t: "hiir_take d = (r, d1)" by fastforce
    then have "hiir_ok d1" "hiir_s_available d1 = hiir_s_available d" using take [OF Suc.prems] by auto
    then show ?case using Suc.IH [of d1] t by (auto split: prod.split option.split)
  qed simp
  show "hiir_ok (snd (hiir_read nonblock signal cnt d))"
    and "hiir_s_available (snd (hiir_read nonblock signal cnt d)) = hiir_s_available d"
    using assms loop [of d "unat cnt div 12"] by (auto simp: hiir_read_def split: prod.split)
qed

section \<open>Reachable states\<close>

datatype hiir_event = Open | Ioctl u32 u32 "(u32 \<times> u32) option" | Read bool bool u32 | Poll | Write u32 | Release
  | Irq u32 u32 u32 u32 u32 | Timeout

fun hiir_exec :: "hiir_event \<Rightarrow> hiir_dev \<Rightarrow> hiir_dev" where
  "hiir_exec Open d = snd (hiir_open d)"
| "hiir_exec (Ioctl cmd arg user) d = snd (snd (hiir_ioctl cmd arg user d))"
| "hiir_exec (Read nonblock signal cnt) d = snd (hiir_read nonblock signal cnt d)"
| "hiir_exec Poll d = d"
| "hiir_exec (Write cnt) d = snd (hiir_write cnt d)"
| "hiir_exec Release d = snd (hiir_release d)"
| "hiir_exec (Irq HZ jiffies INTS DATAH DATAL) d = hiir_interrupt HZ jiffies INTS DATAH DATAL d"
| "hiir_exec Timeout d = repkey_timeout_handler d"

text \<open>Any process may try to open the device; the other operations need an open file, and the
  receiver interrupts only while it is enabled, between open and release.\<close>

inductive hiir_reach :: "hiir_dev \<Rightarrow> bool" where
  boot: "hiir_s_available d = 1 \<Longrightarrow> length (buf d) = 101 \<Longrightarrow> hiir_reach d"
| step: "hiir_reach d \<Longrightarrow> e = Open \<or> hiir_s_available d = 0 \<Longrightarrow> hiir_reach (hiir_exec e d)"

definition hiir_inv :: "hiir_dev \<Rightarrow> bool" where
  "hiir_inv d \<longleftrightarrow> length (buf d) = 101 \<and> (hiir_s_available d = 1 \<or> hiir_s_available d = 0 \<and> hiir_ok d)"

lemma hiir_set_inv:
  assumes "hiir_set c arg user d = Inr d'" "hiir_inv d"
  shows "hiir_inv d'"
proof (cases "c = IR_IOC_SET_BUF \<and> 0 < arg \<and> arg \<le> HI_IR_MAX_BUF")
  case True
  then have "unat arg \<le> 100" "0 < unat arg" by (simp_all add: word_le_nat_alt word_less_nat_alt)
  moreover from this have "unat (arg + 1) = unat arg + 1" by (simp add: unat_word_ariths)
  ultimately show ?thesis using assms True by (auto simp: hiir_set_def hiir_inv_def hiir_ok_def)
next
  case False
  have p: "hiir_inv d'" if "hiir_pair user f d = Inr d'" for f
    using that assms(2) by (auto simp: hiir_pair_def hiir_inv_def hiir_ok_def split: option.splits prod.splits)
  show ?thesis using assms False p
    by (cases c) (auto simp: hiir_set_def hiir_inv_def hiir_ok_def split: if_splits)
qed

lemma inv_ring: "same_ring d d' \<Longrightarrow> hiir_inv d \<longleftrightarrow> hiir_inv d'"
  using same_ring_ok [of d d'] by (simp add: hiir_inv_def same_ring_def)

lemma hiir_exec_inv:
  assumes "hiir_inv d" "e = Open \<or> hiir_s_available d = 0"
  shows "hiir_inv (hiir_exec e d)"
proof (cases e)
  case Open
  have c: "hiir_inv (hiir_config d)  \<longleftrightarrow> hiir_inv d" for d by (rule inv_ring) simp
  show ?thesis using assms(1) Open by (auto simp: hiir_open_def Let_def c hiir_inv_def hiir_ok_def hiir_del_timer_def)
next
  case (Ioctl cmd arg user)
  have c: "hiir_inv (hiir_config d)  \<longleftrightarrow> hiir_inv d" for d by (rule inv_ring) simp
  show ?thesis using assms(1) Ioctl hiir_set_inv [of "hiir_decode cmd" arg user d]
    by (simp add: hiir_ioctl_def c split: sum.split)
next
  case (Read nonblock signal cnt)
  then show ?thesis using assms hiir_read_ok [of d nonblock signal cnt] by (auto simp: hiir_inv_def hiir_ok_def)
next
  case (Irq HZ jiffies INTS DATAH DATAL)
  then show ?thesis using assms hiir_interrupt_ok hiir_interrupt_ring [of HZ jiffies INTS DATAH DATAL d]
    new_keys_cases [of INTS DATAH DATAL d] by (auto simp: hiir_inv_def same_ring_def hiir_put_def)
next
  case Timeout
  then show ?thesis using assms(1) by (auto simp: repkey_timeout_handler_def hiir_del_timer_def hiir_inv_def hiir_ok_def)
qed (use assms in \<open>auto simp: hiir_inv_def hiir_release_def hiir_write_reg_def hiir_del_timer_def hiir_write_def Let_def\<close>)

lemma reach_inv: "hiir_reach d \<Longrightarrow> hiir_inv d"
proof (induction rule: hiir_reach.induct)
  case (boot d)
  then show ?case by (simp add: hiir_inv_def)
next
  case (step d e)
  then show ?case using hiir_exec_inv by blast
qed

text \<open>The device of the witnesses: never opened, and opened.\<close>

definition ex_key :: "u32 \<Rightarrow> irkey_info" where
  "ex_key n = \<lparr>irkey_datah = 0, irkey_datal = n, irkey_state_code = HIIR_KEY_DOWN\<rparr>"

definition ex_hiir :: hiir_dev where
  "ex_hiir = \<lparr>dev_parm = static_dev_param0, head = 0, tail = 0, buf = replicate 101 (ex_key 0), buf_len = 0, enable_repkey = 0,
     repkey_checkflag = 0, repkey_delaytime = 0, enable_keyup = 0, g_dbg_flag = 0, hiir_s_available = 1,
     repkey_timeout_timer = None, reg_writes = [], wakes = 0\<rparr>"

definition ex_hiir_open :: hiir_dev where "ex_hiir_open = snd (hiir_open ex_hiir)"

lemma ex_hiir_open_ring:
  "hiir_rep ex_hiir_open []" "unat (buf_len ex_hiir_open) = 8" "hiir_s_available ex_hiir_open = 0"
  "enable_repkey ex_hiir_open = 1" "repkey_checkflag ex_hiir_open = 0" "buf ex_hiir_open = replicate 101 (ex_key 0)"
  "head ex_hiir_open = 0" "buf_len ex_hiir_open = 8"
  by (simp_all add: ex_hiir_open_def ex_hiir_def hiir_open_def hiir_del_timer_def
      hiir_rep_def hiir_ok_def Let_def)

text \<open>C16: In every state the driver reaches from a loaded module, by any sequence of opens, requests,
  reads, interrupts, timer expiries and releases, the device is free or opened exactly once,
  and while it is opened both ring indices are below the length in use and that is at most
  the size of the array: no handler indexes outside the key buffer or divides by zero.\<close>
theorem hiir_ring_safe:
  assumes "hiir_reach d"
  shows "length (buf d) = 101 \<and> hiir_s_available d \<in> {0, 1} \<and>
    (if hiir_s_available d = 0
     then 2 \<le> unat (buf_len d) \<and> unat (buf_len d) \<le> 101 \<and> unat (head d) < unat (buf_len d) \<and> unat (tail d) < unat (buf_len d)
     else True)"
  using reach_inv [OF assms] by (auto simp: hiir_inv_def hiir_ok_def)

theorem hiir_ring_safe_witness: "unat (head (hiir_interrupt 100 0 INTMS_RCV 5 6 ex_hiir_open)) < 101"
proof -
  have "hiir_reach ex_hiir" by (rule boot) (simp_all add: ex_hiir_def)
  from step [OF this, of Open] have "hiir_reach ex_hiir_open" by (simp add: ex_hiir_open_def)
  from step [OF this, of "Irq 100 0 INTMS_RCV 5 6"] have r: "hiir_reach (hiir_interrupt 100 0 INTMS_RCV 5 6 ex_hiir_open)"
    by (simp add: ex_hiir_open_ring)
  have "hiir_s_available (hiir_interrupt 100 0 INTMS_RCV 5 6 ex_hiir_open) = 0"
    using hiir_interrupt_ring [of 100 0 INTMS_RCV 5 6 ex_hiir_open] new_keys_cases [of INTMS_RCV 5 6 ex_hiir_open]
    by (auto simp: same_ring_def hiir_put_def ex_hiir_open_ring)
  then show ?thesis using hiir_ring_safe [OF r] by simp
qed

theorem hiir_read_oldest_witness:
  "\<exists>d'. hiir_read True False 30 (hiir_put (hiir_put (hiir_put ex_hiir_open (ex_key 1)) (ex_key 2)) (ex_key 3)) =
     (ReadKeys [ex_key 1, ex_key 2] 24, d') \<and> hiir_rep d' [ex_key 3]"
proof -
  have 1: "hiir_rep (hiir_put ex_hiir_open (ex_key 1)) [ex_key 1]"
    using hiir_put_rep [OF ex_hiir_open_ring(1), of "ex_key 1"] ex_hiir_open_ring by simp
  have 2: "hiir_rep (hiir_put (hiir_put ex_hiir_open (ex_key 1)) (ex_key 2)) [ex_key 1, ex_key 2]"
    using hiir_put_rep [OF 1, of "ex_key 2"] ex_hiir_open_ring by (simp add: hiir_put_def)
  have 3: "hiir_rep (hiir_put (hiir_put (hiir_put ex_hiir_open (ex_key 1)) (ex_key 2)) (ex_key 3)) [ex_key 1, ex_key 2, ex_key 3]"
    using hiir_put_rep [OF 2, of "ex_key 3"] ex_hiir_open_ring by (simp add: hiir_put_def)
  have c: "unat (30 :: u32) div 12 = 2" by simp
  show ?thesis using hiir_read_oldest [OF 3, of True False 30] unfolding c by simp
qed

text \<open>C17: First in, first out: over any sequence of received keys and single reads in which no key
  comes while the ring is full, what was read followed by what is still unread is what was
  unread at the start followed by what came, in order.\<close>
theorem hiir_keys_fifo:
  assumes "hiir_rep d ks" "q_legal hiir_room hiir_put hiir_take d ops"
  shows "\<exists>left. hiir_rep (snd (q_run hiir_put hiir_take d ops)) left \<and>
    ks @ q_inputs ops = fst (q_run hiir_put hiir_take d ops) @ left"
  using assms by (rule irq.fifo_history)

theorem hiir_keys_fifo_witness:
  "\<exists>left. hiir_rep (snd (q_run hiir_put hiir_take ex_hiir_open [Enq (ex_key 4), Deq])) left \<and>
    [ex_key 4] = fst (q_run hiir_put hiir_take ex_hiir_open [Enq (ex_key 4), Deq]) @ left"
proof -
  have "hiir_room ex_hiir_open (ex_key 4)"
    using hiir_room_length [OF ex_hiir_open_ring(1)] ex_hiir_open_ring(2) by simp
  then have "q_legal hiir_room hiir_put hiir_take ex_hiir_open [Enq (ex_key 4), Deq]" by simp
  from hiir_keys_fifo [OF ex_hiir_open_ring(1) this] show ?thesis by simp
qed

text \<open>There is no overflow check: a key received while the ring is full (one less than its length
  unread) makes the head meet the tail, so that the ring is empty: every unread key and the
  new one are lost.\<close>
theorem hiir_overflow_loses_keys:
  assumes "hiir_rep d ks" "length ks + 1 = unat (buf_len d)" "enable_repkey d = 0 \<or> repkey_checkflag d = 0"
    and "BUF_LAST d \<noteq> \<lparr>irkey_datah = DATAH, irkey_datal = DATAL, irkey_state_code = HIIR_KEY_DOWN\<rparr>"
  shows "hiir_rep (hiir_interrupt HZ jiffies INTMS_RCV DATAH DATAL d) []"
proof -
  let ?n = "unat (buf_len d)" and ?t = "unat (tail d)"
  let ?k = "\<lparr>irkey_datah = DATAH, irkey_datal = DATAL, irkey_state_code = HIIR_KEY_DOWN\<rparr>"
  have ok: "hiir_ok d" using assms(1) by (rule hiir_rep_ok)
  have "hiir_new_keys INTMS_RCV DATAH DATAL d = [?k]"
    using assms(3,4) by (cases "BUF_LAST d") (auto simp: hiir_new_keys_def Let_def)
  moreover have "(unat (head d) + 1) mod ?n = ?t"
  proof -
    have "(unat (head d) + 1) mod ?n = (?t + (length ks + 1)) mod ?n" using assms(1) by (simp add: hiir_rep_def mod_Suc_eq)
    also have "\<dots> = ?t" unfolding assms(2) using ok by (simp add: hiir_ok_def)
    finally show ?thesis .
  qed
  then have "hiir_rep (hiir_put d ?k) []"
    using hiir_put_ok [OF ok, of ?k] ok unat_INC_BUF [of "head d" "buf_len d"]
    by (simp add: hiir_rep_def hiir_ok_def hiir_put_def)
  ultimately show ?thesis
    using same_ring_rep [OF hiir_interrupt_ring, of HZ jiffies INTMS_RCV DATAH DATAL d] by simp
qed

text \<open>The witness: seven keys fill the ring of eight.\<close>

fun fill_ring :: "nat \<Rightarrow> hiir_dev \<Rightarrow> hiir_dev" where
  "fill_ring 0 d = d"
| "fill_ring (Suc n) d = hiir_put (fill_ring n d) (ex_key (of_nat n))"

lemma fill_ring_rep:
  "n < unat (buf_len d) \<Longrightarrow> hiir_rep d [] \<Longrightarrow>
    hiir_rep (fill_ring n d) (map (\<lambda>i. ex_key (of_nat i)) [0..<n]) \<and> buf_len (fill_ring n d) = buf_len d \<and>
    repkey_checkflag (fill_ring n d) = repkey_checkflag d"
proof (induction n)
  case (Suc n)
  then have f: "hiir_rep (fill_ring n d) (map (\<lambda>i. ex_key (of_nat i)) [0..<n])" "buf_len (fill_ring n d) = buf_len d"
    by simp_all
  have "hiir_rep (hiir_put (fill_ring n d) (ex_key (of_nat n))) (map (\<lambda>i. ex_key (of_nat i)) [0..<n] @ [ex_key (of_nat n)])"
    using Suc.prems(1) f(2) by (intro hiir_put_rep [OF f(1)]) auto
  moreover have "buf_len (hiir_put (fill_ring n d) k) = buf_len (fill_ring n d)"
    "repkey_checkflag (hiir_put (fill_ring n d) k) = repkey_checkflag (fill_ring n d)" for k
    by (simp_all add: hiir_put_def)
  ultimately show ?case using Suc by simp
qed simp

theorem hiir_overflow_loses_keys_witness:
  "hiir_rep (fill_ring 7 ex_hiir_open) (map (\<lambda>i. ex_key (of_nat i)) [0..<7]) \<and>
   hiir_rep (hiir_interrupt 100 0 INTMS_RCV 0 99 (fill_ring 7 ex_hiir_open)) []"
proof -
  have r: "hiir_rep (fill_ring 7 ex_hiir_open) (map (\<lambda>i. ex_key (of_nat i)) [0..<7])"
      "buf_len (fill_ring 7 ex_hiir_open) = 8" "repkey_checkflag (fill_ring 7 ex_hiir_open) = 0"
      "hiir_rep (fill_ring 6 ex_hiir_open) (map (\<lambda>i. ex_key (of_nat i)) [0..<6])"
    using fill_ring_rep [of 7 ex_hiir_open] fill_ring_rep [of 6 ex_hiir_open] ex_hiir_open_ring by simp_all
  have "fill_ring 7 ex_hiir_open = hiir_put (fill_ring 6 ex_hiir_open) (ex_key 6)"
    using fill_ring.simps(2) [of 6 ex_hiir_open] by simp
  then have l: "BUF_LAST (fill_ring 7 ex_hiir_open) = ex_key 6"
    using hiir_put_last [OF hiir_rep_ok [OF r(4)]] by simp
  have "hiir_rep (hiir_interrupt 100 0 INTMS_RCV 0 99 (fill_ring 7 ex_hiir_open)) []"
    by (rule hiir_overflow_loses_keys [OF r(1)]) (simp_all add: r l ex_key_def)
  then show ?thesis using r(1) by blast
qed

text \<open>With key-up and repeat handling switched off, a second press of the same key is swallowed:
  when the last stored record is a press of a key that was read since, its release and the
  next press of the same key put nothing in the ring.\<close>
theorem hiir_second_press_lost:
  assumes "hiir_rep d []" "enable_repkey d = 0" "enable_keyup d = 0"
    and "BUF_LAST d = \<lparr>irkey_datah = DATAH, irkey_datal = DATAL, irkey_state_code = HIIR_KEY_DOWN\<rparr>"
  shows "hiir_rep (hiir_interrupt HZ t2 INTMS_RCV DATAH DATAL (hiir_interrupt HZ t1 INTMS_RELEASE h l d)) []"
proof -
  let ?r = "hiir_interrupt HZ t1 INTMS_RELEASE h l d"
  have n: "hiir_new_keys INTMS_RELEASE h l d = []" using assms(3) by (simp add: hiir_new_keys_def Let_def)
  then have s: "same_ring ?r d" using hiir_interrupt_ring [of HZ t1 INTMS_RELEASE h l d] by simp
  have "enable_repkey ?r = 0" using assms(2,3) by (simp add: hiir_interrupt_def hiir_write_reg_def hiir_del_timer_def Let_def)
  then have "hiir_new_keys INTMS_RCV DATAH DATAL ?r = []"
    using same_ring_last [OF s] assms(4) by (simp add: hiir_new_keys_def Let_def)
  then have "same_ring (hiir_interrupt HZ t2 INTMS_RCV DATAH DATAL ?r) ?r"
    using hiir_interrupt_ring [of HZ t2 INTMS_RCV DATAH DATAL ?r] by simp
  then show ?thesis using same_ring_rep s assms(1) by blast
qed

theorem hiir_second_press_lost_witness:
  "hiir_rep (hiir_interrupt 100 9 INTMS_RCV 0 0 (hiir_interrupt 100 5 INTMS_RELEASE 0 0 (ex_hiir_open\<lparr>enable_repkey := 0, enable_keyup := 0\<rparr>))) []"
  by (rule hiir_second_press_lost)
    (use ex_hiir_open_ring in \<open>simp_all add: hiir_rep_def hiir_ok_def BUF_LAST_def ex_key_def\<close>)

end
