(* ===== verification/Watchdog.thy ===== *)
theory Watchdog
  imports Prelude
begin

text \<open>
  The watchdog, \<open>wtdg/hi_wdt.c\<close>: module parameters and variables, the register helpers
  \<open>hidog_set_timeout\<close>, \<open>hidog_feed\<close>, \<open>hidog_start\<close>, \<open>hidog_stop\<close>, the heartbeat, the file
  operations, the reboot notifier, one turn of the feeding thread, and module init and exit.
  Register writes are logged in order. The spin lock makes each helper atomic and is not
  represented; the outcome of every kernel call is an argument.
\<close>

section \<open>State\<close>

datatype wdt_reg = HIWDT_LOAD | HIWDT_VALUE | HIWDT_CTRL | HIWDT_INTCLR | HIWDT_LOCK | SCTL

datatype hidog_mode = HIDOG_EXIT | HIDOG_SELFCLR | HIDOG_EXTCLR

text \<open>\<open>wdt_refs\<close> is the module's reference count; \<open>task_hidog_deamon\<close> tells whether the feeding
  thread was recorded; the last four fields say what module init holds.\<close>

record hidog =
  default_margin :: int
  nowayout :: int
  nodeamon :: int
  cur_margin :: int
  hidog_state :: hidog_mode
  driver_open :: bool
  orphan_timer :: bool
  options :: u32
  task_hidog_deamon :: bool
  deamon_wakes :: nat
  wdt_log :: "(wdt_reg \<times> u32) list"
  sctl :: u32
  wdt_refs :: int
  wdt_mapped :: bool
  ctl_mapped :: bool
  notifier_registered :: bool
  misc_registered :: bool

abbreviation wd_rate :: u32 where "wd_rate \<equiv> 3000000"
abbreviation HIDOG_TIMER_MARGIN :: int where "HIDOG_TIMER_MARGIN \<equiv> 60"
abbreviation HIWDT_UNLOCK_VAL :: u32 where "HIWDT_UNLOCK_VAL \<equiv> 0x1ACCE551"
abbreviation WDIOS_DISABLECARD :: u32 where "WDIOS_DISABLECARD \<equiv> 1"
abbreviation WDIOS_ENABLECARD :: u32 where "WDIOS_ENABLECARD \<equiv> 2"
abbreviation WDIOS_UNKNOWN :: int where "WDIOS_UNKNOWN \<equiv> - 1"
abbreviation wd_EFAULT :: int where "wd_EFAULT \<equiv> 14"
abbreviation wd_EBUSY :: int where "wd_EBUSY \<equiv> 16"
abbreviation wd_EINVAL :: int where "wd_EINVAL \<equiv> 22"
abbreviation ENOIOCTLCMD :: int where "ENOIOCTLCMD \<equiv> 515"

definition hiwdt_writel :: "u32 \<Rightarrow> wdt_reg \<Rightarrow> hidog \<Rightarrow> hidog" where
  "hiwdt_writel v r w = w\<lparr>wdt_log := wdt_log w @ [(r, v)]\<rparr>"

section \<open>Register helpers\<close>

definition hidog_set_timeout :: "u32 \<Rightarrow> hidog \<Rightarrow> hidog" where
  "hidog_set_timeout nr w =
    (let cnt = 0xffffffff div wd_rate;
         cnt = (if nr = 0 \<or> nr > cnt then 0xffffffff else nr * wd_rate);
         w = hiwdt_writel HIWDT_UNLOCK_VAL HIWDT_LOCK w;
         w = hiwdt_writel cnt HIWDT_LOAD w;
         w = hiwdt_writel cnt HIWDT_VALUE w
     in hiwdt_writel 0 HIWDT_LOCK w)"

definition hidog_feed :: "hidog \<Rightarrow> hidog" where
  "hidog_feed w =
    (let w = hiwdt_writel HIWDT_UNLOCK_VAL HIWDT_LOCK w;
         w = hiwdt_writel 0x00 HIWDT_INTCLR w
     in hiwdt_writel 0 HIWDT_LOCK w)"

text \<open>The heartbeat is compared with the largest one as an unsigned number.\<close>

definition hidog_set_heartbeat :: "int \<Rightarrow> hidog \<Rightarrow> int \<times> hidog" where
  "hidog_set_heartbeat t w =
    (let cnt = 0xffffffff div wd_rate;
         (t, ret) = (if t = 0 then (cur_margin w, 1)
                     else if (of_int t :: u32) > cnt then (uint cnt, - 1)
                     else (t, 0));
         w = w\<lparr>cur_margin := t\<rparr>;
         w = hidog_set_timeout (of_int t) w;
         w = hidog_feed w
     in (ret, if task_hidog_deamon w then w\<lparr>deamon_wakes := deamon_wakes w + 1\<rparr> else w))"

definition hidog_keepalive :: "hidog \<Rightarrow> hidog" where
  "hidog_keepalive w = hidog_feed w"

definition hidog_start :: "hidog \<Rightarrow> hidog" where
  "hidog_start w =
    (let w = hiwdt_writel HIWDT_UNLOCK_VAL HIWDT_LOCK w;
         w = hiwdt_writel 0x00 HIWDT_CTRL w;
         w = hiwdt_writel 0x00 HIWDT_INTCLR w;
         w = hiwdt_writel 0x03 HIWDT_CTRL w;
         w = hiwdt_writel 0 HIWDT_LOCK w;
         t = sctl w AND NOT 0x00800000;
         w = (hiwdt_writel t SCTL w)\<lparr>sctl := t\<rparr>
     in w\<lparr>options := WDIOS_ENABLECARD\<rparr>)"

definition hidog_stop :: "hidog \<Rightarrow> hidog" where
  "hidog_stop w =
    (let w = hiwdt_writel HIWDT_UNLOCK_VAL HIWDT_LOCK w;
         w = hiwdt_writel 0x00 HIWDT_CTRL w;
         w = hiwdt_writel 0x00 HIWDT_INTCLR w;
         w = hiwdt_writel 0 HIWDT_LOCK w;
         w = hidog_set_timeout 0 w
     in w\<lparr>options := WDIOS_DISABLECARD\<rparr>)"

section \<open>File operations\<close>

text \<open>\<open>seek\<close> is the result of \<open>nonseekable_open\<close>.\<close>

definition hidog_open :: "int \<Rightarrow> hidog \<Rightarrow> int \<times> hidog" where
  "hidog_open seek w =
    (if driver_open w then (- wd_EBUSY, w)
     else
       let w = w\<lparr>driver_open := True\<rparr>;
           w = (if orphan_timer w then w\<lparr>orphan_timer := False\<rparr> else w\<lparr>wdt_refs := wdt_refs w + 1\<rparr>);
           w = hidog_keepalive w
       in (seek, if seek = 0 then w\<lparr>hidog_state := HIDOG_EXTCLR\<rparr> else w))"

definition hidog_release :: "hidog \<Rightarrow> int \<times> hidog" where
  "hidog_release w =
    (let w = (if nowayout w = 0 then
                let w = w\<lparr>hidog_state := HIDOG_SELFCLR\<rparr>;
                    w = snd (hidog_set_heartbeat (cur_margin w) w)
                in w\<lparr>wdt_refs := wdt_refs w - 1\<rparr>
              else hidog_keepalive (w\<lparr>orphan_timer := True\<rparr>))
     in (0, w\<lparr>driver_open := False\<rparr>))"

text \<open>The characters come one by one; \<open>None\<close> is a fault of \<open>get_user\<close>.\<close>

fun hidog_scan :: "char option list \<Rightarrow> hidog \<Rightarrow> bool \<times> hidog" where
  "hidog_scan [] w = (True, w)"
| "hidog_scan (None # cs) w = (False, w)"
| "hidog_scan (Some c # cs) w = hidog_scan cs (if c = CHR ''V'' then w\<lparr>nowayout := 1\<rparr> else w)"

definition hidog_write :: "char option list \<Rightarrow> hidog \<Rightarrow> int \<times> hidog" where
  "hidog_write data w =
    (if data \<noteq> [] then
       case hidog_scan data (w\<lparr>nowayout := 0\<rparr>) of
         (False, w) \<Rightarrow> (- wd_EFAULT, w)
       | (True, w) \<Rightarrow> (int (length data), hidog_keepalive w)
     else (0, w))"

datatype wdioc = WDIOC_GETSUPPORT | WDIOC_GETSTATUS | WDIOC_GETBOOTSTATUS | WDIOC_KEEPALIVE | WDIOC_SETTIMEOUT
  | WDIOC_GETTIMEOUT | WDIOC_SETOPTIONS | WDIOC_OTHER

text \<open>\<open>copy_ok\<close> is whether the copies to the user succeed, \<open>user\<close> what \<open>get_user\<close> reads; the
  second component is the number put.\<close>

definition hidog_ioctl :: "wdioc \<Rightarrow> bool \<Rightarrow> int option \<Rightarrow> hidog \<Rightarrow> int \<times> int option \<times> hidog" where
  "hidog_ioctl cmd copy_ok user w =
    (case cmd of
       WDIOC_GETSUPPORT \<Rightarrow> (if copy_ok then 0 else - wd_EFAULT, None, w)
     | WDIOC_GETSTATUS \<Rightarrow> if copy_ok then (0, Some (uint (options w)), w) else (- wd_EFAULT, None, w)
     | WDIOC_GETBOOTSTATUS \<Rightarrow> if copy_ok then (0, Some (uint (options w)), w) else (- wd_EFAULT, None, w)
     | WDIOC_KEEPALIVE \<Rightarrow> (0, None, hidog_keepalive w)
     | WDIOC_SETTIMEOUT \<Rightarrow>
         (case user of None \<Rightarrow> (- wd_EFAULT, None, w)
          | Some new_margin \<Rightarrow>
            (case hidog_set_heartbeat new_margin w of (ret, w) \<Rightarrow>
               if ret \<noteq> 0 then (- wd_EINVAL, None, w) else (0, None, hidog_keepalive w)))
     | WDIOC_GETTIMEOUT \<Rightarrow> if copy_ok then (0, Some (cur_margin w), w) else (- wd_EFAULT, None, w)
     | WDIOC_SETOPTIONS \<Rightarrow>
         if nowayout w \<noteq> 0 then (- WDIOS_UNKNOWN, None, w)
         else
           (case user of None \<Rightarrow> (- wd_EFAULT, None, w)
            | Some new_options \<Rightarrow>
              if (of_int new_options :: u32) AND WDIOS_ENABLECARD \<noteq> 0 then
                let w = hidog_start w in (0, None, snd (hidog_set_heartbeat (cur_margin w) w))
              else if (of_int new_options :: u32) AND WDIOS_DISABLECARD \<noteq> 0 then (0, None, hidog_stop w)
              else (- WDIOS_UNKNOWN, None, w))
     | WDIOC_OTHER \<Rightarrow> (- ENOIOCTLCMD, None, w))"

section \<open>Notifier, feeding thread, module\<close>

datatype sys_code = SYS_DOWN | SYS_HALT | SYS_OTHER

definition hidog_notifier_sys :: "sys_code \<Rightarrow> hidog \<Rightarrow> hidog" where
  "hidog_notifier_sys code w = (if code = SYS_DOWN \<or> code = SYS_HALT then hidog_stop w else w)"

text \<open>One turn of the thread: \<open>None\<close> when it ends, otherwise the milliseconds it then sleeps.\<close>

definition hidog_deamon :: "hidog \<Rightarrow> int option \<times> hidog" where
  "hidog_deamon w =
    (if hidog_state w = HIDOG_EXIT then (None, w)
     else
       let w = (case hidog_state w of
                  HIDOG_SELFCLR \<Rightarrow> if options w AND WDIOS_ENABLECARD \<noteq> 0 then hidog_feed w else w
                | _ \<Rightarrow> w)
       in (Some (default_margin w * 1000 div 2), w))"

text \<open>The test of \<open>kthread_create\<close>'s result, \<open>IS_ERR (p_dog) < 0\<close>, is never true, as \<open>IS_ERR\<close> is 0 or 1: an
  error pointer is recorded as the thread and woken.\<close>

definition hidog_init :: "bool \<Rightarrow> hidog \<Rightarrow> int \<times> hidog" where
  "hidog_init kthread_is_err w =
    (let w = hidog_start w;
         w = w\<lparr>hidog_state := HIDOG_SELFCLR\<rparr>
     in if nodeamon w = 0 then
          if (if kthread_is_err then 1 else 0 :: int) < 0 then (- 1, w)
          else (0, w\<lparr>deamon_wakes := deamon_wakes w + 1, task_hidog_deamon := True\<rparr>)
        else (0, w))"

definition watchdog_init :: "bool \<Rightarrow> bool \<Rightarrow> int \<Rightarrow> int \<Rightarrow> bool \<Rightarrow> hidog \<Rightarrow> int \<times> hidog" where
  "watchdog_init remap1 remap2 notifier_ret misc_ret kthread_is_err w =
    (if \<not> remap1 then (- 1, w)
     else
       let w = w\<lparr>wdt_mapped := True\<rparr> in
       if \<not> remap2 then (- 1, w\<lparr>wdt_mapped := False\<rparr>)
       else
         let w = w\<lparr>ctl_mapped := True\<rparr>;
             w = w\<lparr>cur_margin := default_margin w\<rparr>;
             (ret, w) = hidog_set_heartbeat (default_margin w) w;
             w = (if ret \<noteq> 0 then
                    let w = w\<lparr>default_margin := HIDOG_TIMER_MARGIN\<rparr> in snd (hidog_set_heartbeat HIDOG_TIMER_MARGIN w)
                  else w)
         in if notifier_ret \<noteq> 0 then (notifier_ret, w)
            else
              let w = w\<lparr>notifier_registered := True\<rparr> in
              if misc_ret \<noteq> 0 then (misc_ret, w\<lparr>notifier_registered := False\<rparr>)
              else
                let w = w\<lparr>misc_registered := True\<rparr>;
                    (ret, w) = hidog_init kthread_is_err w
                in if ret \<noteq> 0 then (ret, w\<lparr>misc_registered := False, notifier_registered := False\<rparr>)
                   else (ret, w))"

definition hidog_exit :: "hidog \<Rightarrow> hidog" where
  "hidog_exit w =
    (let w = hidog_set_timeout 0 w;
         w = hidog_stop w;
         w = w\<lparr>hidog_state := HIDOG_EXIT\<rparr>
     in if nodeamon w = 0 then
          if \<not> task_hidog_deamon w then w
          else w\<lparr>deamon_wakes := deamon_wakes w + 1, task_hidog_deamon := False\<rparr>
        else w\<lparr>task_hidog_deamon := False\<rparr>)"

definition watchdog_exit :: "hidog \<Rightarrow> hidog" where
  "watchdog_exit w =
    (let w = w\<lparr>misc_registered := False\<rparr>;
         w = w\<lparr>notifier_registered := False\<rparr>;
         w = hidog_exit w
     in w\<lparr>ctl_mapped := False, wdt_mapped := False\<rparr>)"

section \<open>Register discipline\<close>

text \<open>Whether every write to a register of the watchdog comes while it is unlocked, from the given
  state of the lock, and the lock is closed at the end.\<close>

fun disciplined :: "bool \<Rightarrow> (wdt_reg \<times> u32) list \<Rightarrow> bool" where
  "disciplined u [] \<longleftrightarrow> \<not> u"
| "disciplined u ((r, v) # ws) \<longleftrightarrow>
    (if r = HIWDT_LOCK then disciplined (v = HIWDT_UNLOCK_VAL) ws else (u \<or> r = SCTL) \<and> disciplined u ws)"

text \<open>The value last written to a register, if any.\<close>

fun reg_value :: "wdt_reg \<Rightarrow> (wdt_reg \<times> u32) list \<Rightarrow> u32 option" where
  "reg_value r [] = None"
| "reg_value r ((r', v) # ws) = (case reg_value r ws of Some x \<Rightarrow> Some x | None \<Rightarrow> if r = r' then Some v else None)"

lemma disciplined_append: "disciplined u ws \<Longrightarrow> disciplined False vs \<Longrightarrow> disciplined u (ws @ vs)"
  by (induction u ws rule: disciplined.induct) (auto split: if_splits)

lemma reg_value_append:
  "reg_value r (ws @ vs) = (case reg_value r vs of Some x \<Rightarrow> Some x | None \<Rightarrow> reg_value r ws)"
  by (induction ws) (auto split: option.splits)

definition wd_count :: "u32 \<Rightarrow> u32" where
  "wd_count nr = (if nr = 0 \<or> nr > 1431 then 0xffffffff else nr * wd_rate)"

lemma max_margin: "(0xffffffff :: u32) div wd_rate = 1431" by simp

lemma hidog_set_timeout_eq:
  "hidog_set_timeout nr w = w\<lparr>wdt_log := wdt_log w @
     [(HIWDT_LOCK, HIWDT_UNLOCK_VAL), (HIWDT_LOAD, wd_count nr), (HIWDT_VALUE, wd_count nr), (HIWDT_LOCK, 0)]\<rparr>"
  unfolding hidog_set_timeout_def max_margin Let_def by (simp add: wd_count_def hiwdt_writel_def)

lemma hidog_feed_eq:
  "hidog_feed w = w\<lparr>wdt_log := wdt_log w @ [(HIWDT_LOCK, HIWDT_UNLOCK_VAL), (HIWDT_INTCLR, 0), (HIWDT_LOCK, 0)]\<rparr>"
  by (simp add: hidog_feed_def hiwdt_writel_def Let_def)

lemma hidog_start_eq:
  "hidog_start w = w\<lparr>wdt_log := wdt_log w @ [(HIWDT_LOCK, HIWDT_UNLOCK_VAL), (HIWDT_CTRL, 0), (HIWDT_INTCLR, 0),
     (HIWDT_CTRL, 3), (HIWDT_LOCK, 0), (SCTL, sctl w AND NOT 0x00800000)],
     sctl := sctl w AND NOT 0x00800000, options := WDIOS_ENABLECARD\<rparr>"
  by (simp add: hidog_start_def hiwdt_writel_def Let_def)

lemma hidog_stop_eq:
  "hidog_stop w = w\<lparr>wdt_log := wdt_log w @ [(HIWDT_LOCK, HIWDT_UNLOCK_VAL), (HIWDT_CTRL, 0), (HIWDT_INTCLR, 0), (HIWDT_LOCK, 0),
     (HIWDT_LOCK, HIWDT_UNLOCK_VAL), (HIWDT_LOAD, 0xffffffff), (HIWDT_VALUE, 0xffffffff), (HIWDT_LOCK, 0)],
     options := WDIOS_DISABLECARD\<rparr>"
  unfolding hidog_stop_def hidog_set_timeout_eq Let_def by (simp add: hiwdt_writel_def wd_count_def)

text \<open>The margin a request for \<open>t\<close> seconds gives.\<close>

definition wd_margin :: "int \<Rightarrow> int \<Rightarrow> int" where
  "wd_margin t cur = (if t = 0 then cur else if 1 \<le> t \<and> t \<le> 1431 then t else 1431)"

lemma margin_range: "- (2 ^ 31) \<le> t \<Longrightarrow> t < 2 ^ 31 \<Longrightarrow> (of_int t :: u32) > 1431 \<longleftrightarrow> t < 0 \<or> 1431 < t"
proof -
  assume t: "- (2 ^ 31) \<le> t" "t < 2 ^ 31"
  have "uint (of_int t :: u32) = t mod 2 ^ 32" by (simp add: uint_word_of_int)
  moreover have "t mod 2 ^ 32 = (if t < 0 then t + 2 ^ 32 else t)"
  proof (cases "t < 0")
    case True
    then have "(t + 2 ^ 32) mod 2 ^ 32 = t + 2 ^ 32" using t by (intro mod_pos_pos_trivial) auto
    then show ?thesis using True by simp
  qed (use t in simp)
  ultimately show ?thesis using t by (simp add: word_less_def)
qed

lemma hidog_set_heartbeat_eq:
  assumes "- (2 ^ 31) \<le> t" "t < 2 ^ 31"
  shows "hidog_set_heartbeat t w =
    (if t = 0 then 1 else if 1 \<le> t \<and> t \<le> 1431 then 0 else - 1,
     let w = hidog_feed (hidog_set_timeout (of_int (wd_margin t (cur_margin w))) (w\<lparr>cur_margin := wd_margin t (cur_margin w)\<rparr>)) in
     if task_hidog_deamon w then w\<lparr>deamon_wakes := deamon_wakes w + 1\<rparr> else w)"
  unfolding hidog_set_heartbeat_def max_margin using margin_range [OF assms]
  by (auto simp: wd_margin_def Let_def)

section \<open>Invariant\<close>

definition hidog_core :: "hidog \<Rightarrow> bool" where
  "hidog_core w \<longleftrightarrow> disciplined False (wdt_log w) \<and> 1 \<le> cur_margin w \<and> cur_margin w \<le> 1431 \<and>
    1 \<le> default_margin w \<and> default_margin w \<le> 1431 \<and>
    (options w = WDIOS_ENABLECARD \<and> reg_value HIWDT_CTRL (wdt_log w) = Some 3 \<or>
     options w = WDIOS_DISABLECARD \<and> reg_value HIWDT_CTRL (wdt_log w) = Some 0) \<and>
    \<not> (driver_open w \<and> orphan_timer w) \<and> wdt_refs w = (if driver_open w \<or> orphan_timer w then 1 else 0) \<and>
    hidog_state w \<noteq> HIDOG_EXIT"

definition hidog_inv :: "hidog \<Rightarrow> bool" where
  "hidog_inv w \<longleftrightarrow> hidog_core w \<and>
    (options w = WDIOS_ENABLECARD \<longrightarrow> reg_value HIWDT_LOAD (wdt_log w) = Some (of_int (cur_margin w) * wd_rate))"

lemma wd_count_margin: "1 \<le> m \<Longrightarrow> m \<le> 1431 \<Longrightarrow> wd_count (of_int m) = of_int m * wd_rate"
  using margin_range [of m] by (auto simp: wd_count_def word_of_int_eq_0_iff dest: zdvd_imp_le)

lemma feed_inv: "hidog_inv w \<Longrightarrow> hidog_inv (hidog_feed w)"
  by (simp add: hidog_feed_eq hidog_inv_def hidog_core_def disciplined_append reg_value_append)

lemma heartbeat_inv:
  assumes "hidog_core w" "- (2 ^ 31) \<le> t" "t < 2 ^ 31"
  shows "hidog_inv (snd (hidog_set_heartbeat t w))"
proof -
  let ?m = "wd_margin t (cur_margin w)"
  have m: "1 \<le> ?m" "?m \<le> 1431" using assms(1) by (auto simp: wd_margin_def hidog_core_def)
  then have c: "wd_count (of_int ?m) = of_int ?m * wd_rate" by (rule wd_count_margin)
  have d: "disciplined False (wdt_log w)" using assms(1) by (auto simp: hidog_core_def)
  then have "disciplined False (wdt_log w @ [(HIWDT_LOCK, HIWDT_UNLOCK_VAL), (HIWDT_LOAD, c), (HIWDT_VALUE, c), (HIWDT_LOCK, 0),
      (HIWDT_LOCK, HIWDT_UNLOCK_VAL), (HIWDT_INTCLR, 0), (HIWDT_LOCK, 0)])" for c
    by (rule disciplined_append) simp
  then show ?thesis
    using assms(1) m c unfolding hidog_set_heartbeat_eq [OF assms(2,3)] hidog_set_timeout_eq hidog_feed_eq
    by (auto simp: hidog_inv_def hidog_core_def reg_value_append Let_def split: option.splits)
qed

lemma inv_margin: "hidog_core w \<Longrightarrow> - (2 ^ 31) \<le> cur_margin w \<and> cur_margin w < 2 ^ 31"
  by (auto simp: hidog_core_def)

lemma stop_inv: "hidog_inv w \<Longrightarrow> hidog_inv (hidog_stop w)"
  by (auto simp: hidog_stop_eq hidog_inv_def hidog_core_def disciplined_append reg_value_append)

lemma start_core: "hidog_core w \<Longrightarrow> hidog_core (hidog_start w)"
  by (auto simp: hidog_start_eq hidog_core_def disciplined_append reg_value_append)

lemma scan_fields: "\<exists>n. snd (hidog_scan cs w) = w\<lparr>nowayout := n\<rparr>"
proof (induction cs w rule: hidog_scan.induct)
  case (1 w)
  then show ?case by (intro exI [of _ "nowayout w"]) simp
next
  case (2 cs w)
  then show ?case by (intro exI [of _ "nowayout w"]) simp
next
  case (3 c cs w)
  then show ?case by (cases "c = CHR ''V''") auto
qed

lemma nowayout_inv [simp]: "hidog_inv (w\<lparr>nowayout := n\<rparr>) \<longleftrightarrow> hidog_inv w" by (simp add: hidog_inv_def hidog_core_def)

lemma write_inv: "hidog_inv w \<Longrightarrow> hidog_inv (snd (hidog_write data w))"
proof -
  assume i: "hidog_inv w"
  obtain n where "snd (hidog_scan data (w\<lparr>nowayout := 0\<rparr>)) = w\<lparr>nowayout := n\<rparr>"
    using scan_fields [of data "w\<lparr>nowayout := 0\<rparr>"] by auto
  then show ?thesis using i feed_inv
    by (cases "hidog_scan data (w\<lparr>nowayout := 0\<rparr>)") (auto simp: hidog_write_def hidog_keepalive_def split: bool.split)
qed

lemma ioctl_inv:
  assumes "hidog_inv w" "\<forall>t. user = Some t \<longrightarrow> - (2 ^ 31) \<le> t \<and> t < 2 ^ 31"
  shows "hidog_inv (snd (snd (hidog_ioctl cmd copy_ok user w)))"
proof -
  have core: "hidog_core w" using assms(1) by (simp add: hidog_inv_def)
  have m: "cur_margin (hidog_start w) = cur_margin w" by (simp add: hidog_start_eq)
  show ?thesis
  proof (cases cmd)
    case WDIOC_SETTIMEOUT
    then show ?thesis using assms feed_inv heartbeat_inv [OF core]
      by (auto simp: hidog_ioctl_def hidog_keepalive_def split: option.split prod.split)
         (metis snd_conv)+
  next
    case WDIOC_SETOPTIONS
    then show ?thesis using assms(1) stop_inv heartbeat_inv [OF start_core [OF core], of "cur_margin w"] inv_margin [OF core]
      by (simp add: hidog_ioctl_def m Let_def split: option.split)
  qed (use assms(1) feed_inv in \<open>auto simp: hidog_ioctl_def hidog_keepalive_def\<close>)
qed

lemma open_inv: "hidog_inv w \<Longrightarrow> hidog_inv (snd (hidog_open seek w))"
  by (auto simp: hidog_open_def hidog_keepalive_def hidog_feed_eq hidog_inv_def hidog_core_def disciplined_append reg_value_append
      Let_def)

lemma release_inv:
  assumes "hidog_inv w" "driver_open w"
  shows "hidog_inv (snd (hidog_release w))"
proof (cases "nowayout w = 0")
  case True
  let ?w = "w\<lparr>hidog_state := HIDOG_SELFCLR\<rparr>"
  have core: "hidog_core ?w" using assms(1) by (simp add: hidog_inv_def hidog_core_def)
  then have h: "hidog_inv (snd (hidog_set_heartbeat (cur_margin ?w) ?w))"
    using inv_margin [OF core] by (intro heartbeat_inv) auto
  have f: "driver_open (snd (hidog_set_heartbeat (cur_margin ?w) ?w))" 
    using assms(2) inv_margin [OF core]
    by (simp add: hidog_set_heartbeat_eq hidog_set_timeout_eq hidog_feed_eq Let_def)
  show ?thesis using True h f by (auto simp: hidog_release_def Let_def hidog_inv_def hidog_core_def)
next
  case False
  then show ?thesis using assms
    by (auto simp: hidog_release_def hidog_keepalive_def hidog_feed_eq hidog_inv_def hidog_core_def disciplined_append reg_value_append
        Let_def)
qed

lemma deamon_inv: "hidog_inv w \<Longrightarrow> hidog_inv (snd (hidog_deamon w))"
  using feed_inv [of w] by (simp add: hidog_deamon_def Let_def split: hidog_mode.split)

section \<open>Reachable states\<close>

text \<open>The module as loaded, before its init runs: nothing written, no user, margin within an \<open>int\<close>.\<close>

definition hidog_fresh :: "hidog \<Rightarrow> bool" where
  "hidog_fresh w \<longleftrightarrow> wdt_log w = [] \<and> \<not> driver_open w \<and> \<not> orphan_timer w \<and> wdt_refs w = 0 \<and>
    - (2 ^ 31) \<le> default_margin w \<and> default_margin w < 2 ^ 31"

datatype hidog_event = Open int | Release | Write "char option list" | Ioctl wdioc bool "int option" | Notify sys_code | Deamon

fun hidog_exec :: "hidog_event \<Rightarrow> hidog \<Rightarrow> hidog" where
  "hidog_exec (Open seek) w = snd (hidog_open seek w)"
| "hidog_exec Release w = snd (hidog_release w)"
| "hidog_exec (Write data) w = snd (hidog_write data w)"
| "hidog_exec (Ioctl cmd copy_ok user) w = snd (snd (hidog_ioctl cmd copy_ok user w))"
| "hidog_exec (Notify code) w = hidog_notifier_sys code w"
| "hidog_exec Deamon w = snd (hidog_deamon w)"

text \<open>File operations other than open need an open file; a number read from the user is an \<open>int\<close>.\<close>

fun hidog_enabled :: "hidog_event \<Rightarrow> hidog \<Rightarrow> bool" where
  "hidog_enabled Release w \<longleftrightarrow> driver_open w"
| "hidog_enabled (Write data) w \<longleftrightarrow> driver_open w"
| "hidog_enabled (Ioctl cmd copy_ok user) w \<longleftrightarrow> driver_open w \<and> (case user of None \<Rightarrow> True | Some t \<Rightarrow> - (2 ^ 31) \<le> t \<and> t < 2 ^ 31)"
| "hidog_enabled _ w \<longleftrightarrow> True"

inductive hidog_reach :: "hidog \<Rightarrow> bool" where
  load: "hidog_fresh w \<Longrightarrow> watchdog_init True True 0 0 False w = (0, w') \<Longrightarrow> hidog_reach w'"
| step: "hidog_reach w \<Longrightarrow> hidog_enabled e w \<Longrightarrow> hidog_reach (hidog_exec e w)"

lemma exec_inv: "hidog_inv w \<Longrightarrow> hidog_enabled e w \<Longrightarrow> hidog_inv (hidog_exec e w)"
  by (cases e) (auto simp: open_inv release_inv write_inv deamon_inv stop_inv hidog_notifier_sys_def intro!: ioctl_inv split: option.splits)

lemma heartbeat_effect:
  assumes "disciplined False (wdt_log w)" "- (2 ^ 31) \<le> t" "t < 2 ^ 31"
  defines "w' \<equiv> snd (hidog_set_heartbeat t w)"
  shows "disciplined False (wdt_log w')" "cur_margin w' = wd_margin t (cur_margin w)"
    "reg_value HIWDT_LOAD (wdt_log w') = Some (wd_count (of_int (wd_margin t (cur_margin w))))"
    "default_margin w' = default_margin w" "driver_open w' = driver_open w" "orphan_timer w' = orphan_timer w"
    "wdt_refs w' = wdt_refs w"
  using assms(1) unfolding w'_def hidog_set_heartbeat_eq [OF assms(2,3)] hidog_set_timeout_eq hidog_feed_eq
  by (auto simp: Let_def disciplined_append reg_value_append)

lemma init_started:
  assumes "disciplined False (wdt_log w)" "1 \<le> cur_margin w" "cur_margin w \<le> 1431" "cur_margin w = default_margin w"
    and "reg_value HIWDT_LOAD (wdt_log w) = Some (of_int (cur_margin w) * wd_rate)"
    and "\<not> driver_open w" "\<not> orphan_timer w" "wdt_refs w = 0"
  shows "hidog_inv (snd (hidog_init k w))"
  using assms by (auto simp: hidog_init_def hidog_start_eq hidog_inv_def hidog_core_def disciplined_append reg_value_append Let_def)

lemma init_flags: "hidog_inv (w\<lparr>notifier_registered := a, misc_registered := b\<rparr>) \<longleftrightarrow> hidog_inv w"
  by (simp add: hidog_inv_def hidog_core_def)

text \<open>The state when the heartbeat of the module parameter is set.\<close>

lemma init_margin:
  assumes "hidog_fresh w"
  defines "w1 \<equiv> w\<lparr>wdt_mapped := True, ctl_mapped := True, cur_margin := default_margin w\<rparr>"
  defines "w2 \<equiv> (if fst (hidog_set_heartbeat (default_margin w) w1) \<noteq> 0
     then snd (hidog_set_heartbeat 60 ((snd (hidog_set_heartbeat (default_margin w) w1))\<lparr>default_margin := 60\<rparr>))
     else snd (hidog_set_heartbeat (default_margin w) w1))"
  shows "disciplined False (wdt_log w2)" "1 \<le> cur_margin w2" "cur_margin w2 \<le> 1431" "cur_margin w2 = default_margin w2"
    "reg_value HIWDT_LOAD (wdt_log w2) = Some (of_int (cur_margin w2) * wd_rate)"
    "\<not> driver_open w2" "\<not> orphan_timer w2" "wdt_refs w2 = 0"
proof -
  let ?t = "default_margin w"
  have t: "- (2 ^ 31) \<le> ?t" "?t < 2 ^ 31" and d: "disciplined False (wdt_log w1)"
    using assms(1) by (simp_all add: hidog_fresh_def w1_def)
  note h1 = heartbeat_effect [OF d t]
  have f: "fst (hidog_set_heartbeat ?t w1) = 0 \<longleftrightarrow> 1 \<le> ?t \<and> ?t \<le> 1431" by (simp add: hidog_set_heartbeat_eq [OF t])
  let ?w = "(snd (hidog_set_heartbeat ?t w1))\<lparr>default_margin := 60\<rparr>"
  have "disciplined False (wdt_log ?w)" using h1 by simp
  note h2 = heartbeat_effect [OF this, of 60]
  show "disciplined False (wdt_log w2)" using h1 h2 by (simp add: w2_def)
  have m: "cur_margin w2 = (if 1 \<le> ?t \<and> ?t \<le> 1431 then ?t else 60)" "default_margin w2 = (if 1 \<le> ?t \<and> ?t \<le> 1431 then ?t else 60)"
    using h1 h2 f by (simp_all add: w2_def w1_def wd_margin_def)
  then show r: "1 \<le> cur_margin w2" "cur_margin w2 \<le> 1431" "cur_margin w2 = default_margin w2" by auto
  have "reg_value HIWDT_LOAD (wdt_log w2) = Some (wd_count (of_int (cur_margin w2)))"
    using h1 h2 f by (simp add: w2_def w1_def)
  then show "reg_value HIWDT_LOAD (wdt_log w2) = Some (of_int (cur_margin w2) * wd_rate)"
    using wd_count_margin [OF r(1,2)] by simp
  show "\<not> driver_open w2" "\<not> orphan_timer w2" "wdt_refs w2 = 0"
    using h1 h2 assms(1) by (simp_all add: w2_def w1_def hidog_fresh_def)
qed

lemma load_inv:
  assumes "hidog_fresh w" "watchdog_init True True 0 0 k w = (r, w')"
  shows "hidog_inv w'"
proof -
  note m = init_margin [OF assms(1)]
  let ?w1 = "w\<lparr>wdt_mapped := True, ctl_mapped := True, cur_margin := default_margin w\<rparr>"
  let ?w2 = "if fst (hidog_set_heartbeat (default_margin w) ?w1) \<noteq> 0
     then snd (hidog_set_heartbeat 60 ((snd (hidog_set_heartbeat (default_margin w) ?w1))\<lparr>default_margin := 60\<rparr>))
     else snd (hidog_set_heartbeat (default_margin w) ?w1)"
  have i: "hidog_inv (snd (hidog_init k (?w2\<lparr>notifier_registered := True, misc_registered := True\<rparr>)))"
    using m by (intro init_started) simp_all
  have z: "hidog_init k u = (c, v) \<Longrightarrow> c = 0" for u c v by (auto simp: hidog_init_def Let_def split: if_splits)
  have "w' = snd (hidog_init k (?w2\<lparr>notifier_registered := True, misc_registered := True\<rparr>))"
    using assms(2) by (auto simp: watchdog_init_def Let_def split: prod.splits if_splits dest: z)
  then show ?thesis using i by simp
qed

lemma hidog_reach_inv: "hidog_reach w \<Longrightarrow> hidog_inv w"
proof (induction rule: hidog_reach.induct)
  case (load w w')
  then show ?case using load_inv by blast
next
  case (step w e)
  then show ?case using exec_inv by blast
qed

text \<open>C19: In every state reached after loading, whatever the module parameter and by any sequence of
  file operations, requests, reboot notifications and turns of the feeding thread: each write
  to a watchdog register happened between an unlock and a lock and the registers end locked;
  the heartbeat is between 1 and 1431 seconds and, while the watchdog is enabled, the counter
  register holds exactly that many seconds of its clock, without wrap-around; and the module
  is pinned exactly while the device is open or was closed without permission to stop.\<close>
theorem hidog_reach_safe:
  assumes "hidog_reach w"
  shows "disciplined False (wdt_log w) \<and> 1 \<le> cur_margin w \<and> cur_margin w \<le> 1431 \<and>
    (options w = WDIOS_ENABLECARD \<and> map_option uint (reg_value HIWDT_LOAD (wdt_log w)) = Some (cur_margin w * 3000000) \<or>
     options w = WDIOS_DISABLECARD \<and> reg_value HIWDT_CTRL (wdt_log w) = Some 0) \<and>
    wdt_refs w = (if driver_open w \<or> orphan_timer w then 1 else 0)"
proof -
  have i: "hidog_inv w" using hidog_reach_inv [OF assms] .
  then have m: "1 \<le> cur_margin w" "cur_margin w \<le> 1431" by (auto simp: hidog_inv_def hidog_core_def)
  have "uint (of_int (cur_margin w * 3000000) :: u32) = cur_margin w * 3000000"
    by (subst uint_word_of_int, rule mod_pos_pos_trivial) (use m in auto)
  then have "uint (of_int (cur_margin w) * wd_rate) = cur_margin w * 3000000" by simp
  then show ?thesis using i by (auto simp: hidog_inv_def hidog_core_def)
qed

definition ex_hidog :: hidog where
  "ex_hidog = \<lparr>default_margin = 60, nowayout = 0, nodeamon = 0, cur_margin = 60, hidog_state = HIDOG_EXIT, driver_open = False,
     orphan_timer = False, options = WDIOS_ENABLECARD, task_hidog_deamon = False, deamon_wakes = 0, wdt_log = [], sctl = 0,
     wdt_refs = 0, wdt_mapped = False, ctl_mapped = False, notifier_registered = False, misc_registered = False\<rparr>"

definition ex_hidog_loaded :: hidog where "ex_hidog_loaded = snd (watchdog_init True True 0 0 False ex_hidog)"

lemma ex_hidog_load: "watchdog_init True True 0 0 False ex_hidog = (0, ex_hidog_loaded)"
proof -
  have "fst (watchdog_init True True 0 0 False ex_hidog) = 0"
    by (simp add: watchdog_init_def hidog_init_def Let_def split: prod.split)
  then show ?thesis by (simp add: ex_hidog_loaded_def prod_eq_iff)
qed

lemma ex_hidog_reach: "hidog_reach ex_hidog_loaded"
  by (rule load [OF _ ex_hidog_load]) (simp add: hidog_fresh_def ex_hidog_def)

theorem hidog_reach_safe_witness: "disciplined False (wdt_log (snd (hidog_open 0 ex_hidog_loaded)))"
  using hidog_reach_safe [OF step [OF ex_hidog_reach, of "Open 0"]] by simp

text \<open>C35: Setting the heartbeat: 0 keeps the current one and reports 1, a value of 1 to 1431 seconds is
  taken, any other, negative ones included, is replaced by 1431 and reported as -1; the counter
  is loaded with the resulting number of seconds times the clock rate and the dog is fed.\<close>
theorem hidog_heartbeat_correct:
  assumes "- (2 ^ 31) \<le> t" "t < 2 ^ 31" "1 \<le> cur_margin w" "cur_margin w \<le> 1431"
    and "hidog_set_heartbeat t w = (ret, w')"
  shows "cur_margin w' = (if t = 0 then cur_margin w else if 1 \<le> t \<and> t \<le> 1431 then t else 1431) \<and>
    ret = (if t = 0 then 1 else if 1 \<le> t \<and> t \<le> 1431 then 0 else - 1) \<and>
    (\<exists>c. wdt_log w' = wdt_log w @ [(HIWDT_LOCK, HIWDT_UNLOCK_VAL), (HIWDT_LOAD, c), (HIWDT_VALUE, c), (HIWDT_LOCK, 0),
        (HIWDT_LOCK, HIWDT_UNLOCK_VAL), (HIWDT_INTCLR, 0), (HIWDT_LOCK, 0)] \<and> c = of_int (cur_margin w' * 3000000))"
proof -
  have m: "1 \<le> wd_margin t (cur_margin w)" "wd_margin t (cur_margin w) \<le> 1431" using assms(3,4) by (auto simp: wd_margin_def)
  note c = wd_count_margin [OF m]
  have w': "w' = snd (hidog_set_heartbeat t w)" "ret = fst (hidog_set_heartbeat t w)" using assms(5) by simp_all
  show ?thesis unfolding w' hidog_set_heartbeat_eq [OF assms(1,2)] hidog_set_timeout_eq hidog_feed_eq
    using c by (auto simp: Let_def wd_margin_def)
qed

theorem hidog_heartbeat_correct_witness: "cur_margin (snd (hidog_set_heartbeat (- 5) ex_hidog)) = 1431"
  using hidog_heartbeat_correct [of "- 5" ex_hidog "fst (hidog_set_heartbeat (- 5) ex_hidog)" "snd (hidog_set_heartbeat (- 5) ex_hidog)"]
  by (simp add: ex_hidog_def)

lemma scan_magic: "hidog_scan (map Some cs) w = (True, if CHR ''V'' \<in> set cs then w\<lparr>nowayout := 1\<rparr> else w)"
  by (induction cs arbitrary: w) auto

text \<open>The magic character works the wrong way round: a write that contains a V forbids stopping
  (nowayout becomes 1) and a write without one permits it, so that an ordinary feeding write
  followed by a close hands the watchdog over to the self-feeding thread, and a close announced
  with V leaves it running unfed.\<close>
theorem hidog_magic_reversed:
  assumes "cs \<noteq> []" "hidog_write (map Some cs) w = (r, w1)"
  shows "r = int (length cs) \<and>
    (if CHR ''V'' \<in> set cs
     then nowayout w1 = 1 \<and> orphan_timer (snd (hidog_release w1)) \<and> hidog_state (snd (hidog_release w1)) = hidog_state w
     else nowayout w1 = 0 \<and> hidog_state (snd (hidog_release w1)) = HIDOG_SELFCLR)"
proof -
  have "hidog_state (snd (hidog_set_heartbeat t u)) = hidog_state u" for t u
    by (simp add: hidog_set_heartbeat_def hidog_set_timeout_eq hidog_feed_eq Let_def split: prod.split)
  then show ?thesis using assms
    by (cases "CHR ''V'' \<in> set cs")
      (auto simp: hidog_write_def scan_magic hidog_release_def hidog_keepalive_def hidog_feed_eq Let_def)
qed

theorem hidog_magic_reversed_witness: "nowayout (snd (hidog_write [Some CHR ''V''] ex_hidog)) = 1"
  using hidog_magic_reversed [of "''V''" ex_hidog "fst (hidog_write [Some CHR ''V''] ex_hidog)" "snd (hidog_write [Some CHR ''V''] ex_hidog)"]
  by simp

text \<open>Self-feeding can be too slow: the thread sleeps for half the default margin whatever the
  current heartbeat is. After opening, setting a heartbeat of 10 seconds and closing, the thread
  is in charge of an enabled watchdog whose counter runs out twice (interrupt and reset) before
  the thread wakes again.\<close>
theorem hidog_self_feed_too_slow:
  "\<exists>w ms c. hidog_reach w \<and> \<not> driver_open w \<and> hidog_state w = HIDOG_SELFCLR \<and> options w = WDIOS_ENABLECARD \<and>
    fst (hidog_deamon w) = Some ms \<and> reg_value HIWDT_LOAD (wdt_log w) = Some c \<and> 2 * uint c < ms * 3000"
proof -
  define w1 where "w1 = hidog_exec (Open 0) ex_hidog_loaded"
  define w2 where "w2 = hidog_exec (Ioctl WDIOC_SETTIMEOUT True (Some 10)) w1"
  define w3 where "w3 = hidog_exec Release w2"
  have l: "default_margin ex_hidog_loaded = 60" "nowayout ex_hidog_loaded = 0" "options ex_hidog_loaded = WDIOS_ENABLECARD"
      "driver_open ex_hidog_loaded = False"
    by (simp_all add: ex_hidog_loaded_def ex_hidog_def watchdog_init_def hidog_init_def hidog_start_eq hidog_set_heartbeat_eq
        hidog_set_timeout_eq hidog_feed_eq wd_margin_def Let_def)
  have 1: "driver_open w1" "default_margin w1 = 60" "nowayout w1 = 0" "options w1 = WDIOS_ENABLECARD"
    using l by (simp_all add: w1_def hidog_open_def hidog_keepalive_def hidog_feed_eq Let_def)
  have 2: "driver_open w2" "default_margin w2 = 60" "nowayout w2 = 0" "options w2 = WDIOS_ENABLECARD" "cur_margin w2 = 10"
    using 1 by (simp_all add: w2_def hidog_ioctl_def hidog_set_heartbeat_eq hidog_set_timeout_eq hidog_keepalive_def hidog_feed_eq
        wd_margin_def Let_def)
  have 3: "\<not> driver_open w3" "default_margin w3 = 60" "options w3 = WDIOS_ENABLECARD" "cur_margin w3 = 10" "hidog_state w3 = HIDOG_SELFCLR"
    using 2 by (simp_all add: w3_def hidog_release_def hidog_set_heartbeat_eq hidog_set_timeout_eq hidog_feed_eq wd_margin_def Let_def)
  have "hidog_reach w1" using step [OF ex_hidog_reach, of "Open 0"] by (simp add: w1_def)
  then have "hidog_reach w2" using step [of w1 "Ioctl WDIOC_SETTIMEOUT True (Some 10)"] 1 by (simp add: w2_def)
  then have r: "hidog_reach w3" using step [of w2 Release] 2 by (simp add: w3_def)
  have "reg_value HIWDT_LOAD (wdt_log w3) = Some (of_int (cur_margin w3) * wd_rate)"
    using hidog_reach_inv [OF r] 3 by (simp add: hidog_inv_def)
  moreover have "fst (hidog_deamon w3) = Some 30000" using 3 by (simp add: hidog_deamon_def hidog_feed_eq Let_def)
  ultimately show ?thesis using r 3 by (intro exI [of _ w3]) auto
qed

end
