(* ===== verification/CipherHal.thy ===== *)
theory CipherHal
  imports Prelude
begin

text \<open>
  The register layer of the cipher engine, \<open>cipher/src/hal_cipher.c\<close> with the layout of
  \<open>cipher_reg.h\<close>. The register file maps an offset from the base address to a word; a write
  updates it, a read returns it. Out-parameters are results; the callers pass no null pointer.
\<close>

section \<open>Registers\<close>

type_synonym ci_regs = "u32 \<Rightarrow> u32"

abbreviation HI_SUCCESS :: u32 where "HI_SUCCESS \<equiv> 0"
abbreviation HI_FAILURE :: u32 where "HI_FAILURE \<equiv> 0xffffffff"
abbreviation HI_ERR_CIPHER_INVALID_HANDLE :: u32 where "HI_ERR_CIPHER_INVALID_HANDLE \<equiv> 0x804D0002"
abbreviation HI_ERR_CIPHER_INVALID_PARA :: u32 where "HI_ERR_CIPHER_INVALID_PARA \<equiv> 0x804D0004"
abbreviation CI_PKGx1_CHAN :: u32 where "CI_PKGx1_CHAN \<equiv> 0"

definition REG_CI_CHANn :: "u32 \<Rightarrow> u32 \<Rightarrow> u32" where
  "REG_CI_CHANn off n = 0x1000 + n * 128 + off"

abbreviation IBUF_NUM :: u32 where "IBUF_NUM \<equiv> 0x0"
abbreviation IBUF_CNT :: u32 where "IBUF_CNT \<equiv> 0x4"
abbreviation IEMPTY_CNT :: u32 where "IEMPTY_CNT \<equiv> 0x8"
abbreviation INT_ICNTCFG :: u32 where "INT_ICNTCFG \<equiv> 0xC"
abbreviation CIPHER_CTRL :: u32 where "CIPHER_CTRL \<equiv> 0x10"
abbreviation SRC_LST_SADDR :: u32 where "SRC_LST_SADDR \<equiv> 0x14"
abbreviation IAGE_CNT :: u32 where "IAGE_CNT \<equiv> 0x1C"
abbreviation OBUF_NUM :: u32 where "OBUF_NUM \<equiv> 0x3C"
abbreviation OBUF_CNT :: u32 where "OBUF_CNT \<equiv> 0x40"
abbreviation OFULL_CNT :: u32 where "OFULL_CNT \<equiv> 0x44"
abbreviation INT_OCNTCFG :: u32 where "INT_OCNTCFG \<equiv> 0x48"
abbreviation DEST_LST_SADDR :: u32 where "DEST_LST_SADDR \<equiv> 0x4C"
abbreviation OAGE_CNT :: u32 where "OAGE_CNT \<equiv> 0x54"
abbreviation REG_CI_CHAN0_CIPHER_DOUT :: u32 where "REG_CI_CHAN0_CIPHER_DOUT \<equiv> 0x0000"
abbreviation REG_CI_CHAN0_CIPHER_CTRL :: u32 where "REG_CI_CHAN0_CIPHER_CTRL \<equiv> 0x1000"
abbreviation REG_CI_CHAN0_CIPHER_IVIN :: u32 where "REG_CI_CHAN0_CIPHER_IVIN \<equiv> 0x1004"
abbreviation REG_CI_CHAN0_CIPHER_DIN :: u32 where "REG_CI_CHAN0_CIPHER_DIN \<equiv> 0x1014"
abbreviation REG_CI_INT_STATUS :: u32 where "REG_CI_INT_STATUS \<equiv> 0x1400"
abbreviation REG_CI_INT_EN :: u32 where "REG_CI_INT_EN \<equiv> 0x1404"
abbreviation REG_CI_INT_RAW :: u32 where "REG_CI_INT_RAW \<equiv> 0x1408"
abbreviation REG_CI_CHAN0_CFG :: u32 where "REG_CI_CHAN0_CFG \<equiv> 0x1410"

definition REG_CI_CHAN_CIPHER_IVOUT :: "u32 \<Rightarrow> u32" where "REG_CI_CHAN_CIPHER_IVOUT n = 0x0010 + n * 32"
definition REG_CI_CIPHER_KEY :: "u32 \<Rightarrow> u32" where "REG_CI_CIPHER_KEY n = 0x0090 + n * 32"

section \<open>Buffer counters\<close>

text \<open>What the six setters share: channel 0 is refused and the value saturates at 16 bits; and the
  six getters.\<close>

definition hal_put :: "u32 \<Rightarrow> u32 \<Rightarrow> u32 \<Rightarrow> ci_regs \<Rightarrow> u32 \<times> ci_regs" where
  "hal_put off chnId num r =
    (if chnId = CI_PKGx1_CHAN then (HI_ERR_CIPHER_INVALID_PARA, r)
     else
       let num = (if num > 0xffff then 0xffff else num)
       in (HI_SUCCESS, r(REG_CI_CHANn off chnId := num)))"

definition hal_get :: "u32 \<Rightarrow> u32 \<Rightarrow> ci_regs \<Rightarrow> u32 + u32" where
  "hal_get off chnId r =
    (if chnId = CI_PKGx1_CHAN then Inl HI_ERR_CIPHER_INVALID_PARA else Inr (r (REG_CI_CHANn off chnId)))"

definition HAL_Cipher_SetInBufNum :: "u32 \<Rightarrow> u32 \<Rightarrow> ci_regs \<Rightarrow> u32 \<times> ci_regs" where
  "HAL_Cipher_SetInBufNum = hal_put IBUF_NUM"
definition HAL_Cipher_GetInBufNum :: "u32 \<Rightarrow> ci_regs \<Rightarrow> u32 + u32" where
  "HAL_Cipher_GetInBufNum = hal_get IBUF_NUM"
definition HAL_Cipher_SetInBufCnt :: "u32 \<Rightarrow> u32 \<Rightarrow> ci_regs \<Rightarrow> u32 \<times> ci_regs" where
  "HAL_Cipher_SetInBufCnt = hal_put IBUF_CNT"
definition HAL_Cipher_GetInBufCnt :: "u32 \<Rightarrow> ci_regs \<Rightarrow> u32 + u32" where
  "HAL_Cipher_GetInBufCnt = hal_get IBUF_CNT"
definition HAL_Cipher_SetInBufEmpty :: "u32 \<Rightarrow> u32 \<Rightarrow> ci_regs \<Rightarrow> u32 \<times> ci_regs" where
  "HAL_Cipher_SetInBufEmpty = hal_put IEMPTY_CNT"
definition HAL_Cipher_GetInBufEmpty :: "u32 \<Rightarrow> ci_regs \<Rightarrow> u32 + u32" where
  "HAL_Cipher_GetInBufEmpty = hal_get IEMPTY_CNT"
definition HAL_Cipher_SetOutBufNum :: "u32 \<Rightarrow> u32 \<Rightarrow> ci_regs \<Rightarrow> u32 \<times> ci_regs" where
  "HAL_Cipher_SetOutBufNum = hal_put OBUF_NUM"
definition HAL_Cipher_GetOutBufNum :: "u32 \<Rightarrow> ci_regs \<Rightarrow> u32 + u32" where
  "HAL_Cipher_GetOutBufNum = hal_get OBUF_NUM"
definition HAL_Cipher_SetOutBufCnt :: "u32 \<Rightarrow> u32 \<Rightarrow> ci_regs \<Rightarrow> u32 \<times> ci_regs" where
  "HAL_Cipher_SetOutBufCnt = hal_put OBUF_CNT"
definition HAL_Cipher_GetOutBufCnt :: "u32 \<Rightarrow> ci_regs \<Rightarrow> u32 + u32" where
  "HAL_Cipher_GetOutBufCnt = hal_get OBUF_CNT"
definition HAL_Cipher_SetOutBufFull :: "u32 \<Rightarrow> u32 \<Rightarrow> ci_regs \<Rightarrow> u32 \<times> ci_regs" where
  "HAL_Cipher_SetOutBufFull = hal_put OFULL_CNT"
definition HAL_Cipher_GetOutBufFull :: "u32 \<Rightarrow> ci_regs \<Rightarrow> u32 + u32" where
  "HAL_Cipher_GetOutBufFull = hal_get OFULL_CNT"

text \<open>The buffer and interrupt types are passed as numbers: 1 for input, 2 for output.\<close>

definition HAL_Cipher_SetBufAddr :: "u32 \<Rightarrow> u32 \<Rightarrow> u32 \<Rightarrow> ci_regs \<Rightarrow> u32 \<times> ci_regs" where
  "HAL_Cipher_SetBufAddr chnId bufType addr r =
    (if chnId = CI_PKGx1_CHAN then (HI_ERR_CIPHER_INVALID_PARA, r)
     else if bufType = 1 then (HI_SUCCESS, r(REG_CI_CHANn SRC_LST_SADDR chnId := addr))
     else if bufType = 2 then (HI_SUCCESS, r(REG_CI_CHANn DEST_LST_SADDR chnId := addr))
     else (HI_ERR_CIPHER_INVALID_PARA, r))"

definition HAL_Cipher_SetAGEThreshold :: "u32 \<Rightarrow> u32 \<Rightarrow> u32 \<Rightarrow> ci_regs \<Rightarrow> u32 \<times> ci_regs" where
  "HAL_Cipher_SetAGEThreshold chnId intType v r =
    (if chnId = CI_PKGx1_CHAN then (HI_ERR_CIPHER_INVALID_PARA, r)
     else if intType = 1 then hal_put IAGE_CNT chnId v r
     else if intType = 2 then hal_put OAGE_CNT chnId v r
     else (HI_ERR_CIPHER_INVALID_PARA, r))"

definition HAL_Cipher_SetIntThreshold :: "u32 \<Rightarrow> u32 \<Rightarrow> u32 \<Rightarrow> ci_regs \<Rightarrow> u32 \<times> ci_regs" where
  "HAL_Cipher_SetIntThreshold chnId intType v r =
    (if chnId = CI_PKGx1_CHAN then (HI_ERR_CIPHER_INVALID_PARA, r)
     else if intType = 1 then hal_put INT_ICNTCFG chnId v r
     else if intType = 2 then hal_put INT_OCNTCFG chnId v r
     else (HI_ERR_CIPHER_INVALID_PARA, r))"

section \<open>The single-package channel\<close>

text \<open>\<open>cfg i\<close> is what the \<open>i\<close>th poll of the configuration register reads; \<open>n\<close> polls are left.\<close>

fun wait_idle :: "(nat \<Rightarrow> u32) \<Rightarrow> nat \<Rightarrow> nat \<Rightarrow> u32" where
  "wait_idle cfg i 0 = HI_FAILURE"
| "wait_idle cfg i (Suc n) = (if drop_bit 1 (cfg i) AND 0x01 = 0 then HI_SUCCESS else wait_idle cfg (i + 1) n)"

definition HAL_Cipher_WaitIdle :: "(nat \<Rightarrow> u32) \<Rightarrow> u32" where
  "HAL_Cipher_WaitIdle cfg = wait_idle cfg 0 1000"

definition HAL_Cipher_IsIdle :: "ci_regs \<Rightarrow> bool" where
  "HAL_Cipher_IsIdle r \<longleftrightarrow> drop_bit 1 (r REG_CI_CHAN0_CFG) AND 0x01 = 0"

fun put_words :: "u32 \<Rightarrow> u32 list \<Rightarrow> ci_regs \<Rightarrow> ci_regs" where
  "put_words addr [] r = r"
| "put_words addr (w # ws) r = put_words (addr + 4) ws (r(addr := w))"

fun get_words :: "u32 \<Rightarrow> nat \<Rightarrow> ci_regs \<Rightarrow> u32 list" where
  "get_words addr 0 r = []"
| "get_words addr (Suc n) r = r addr # get_words (addr + 4) n r"

definition HAL_Cipher_SetDataSinglePkg :: "u32 list \<Rightarrow> ci_regs \<Rightarrow> ci_regs" where
  "HAL_Cipher_SetDataSinglePkg dat r = put_words REG_CI_CHAN0_CIPHER_DIN (take 4 dat) r"

definition HAL_Cipher_ReadDataSinglePkg :: "ci_regs \<Rightarrow> u32 list" where
  "HAL_Cipher_ReadDataSinglePkg r = get_words REG_CI_CHAN0_CIPHER_DOUT 4 r"

definition HAL_Cipher_StartSinglePkg :: "ci_regs \<Rightarrow> ci_regs" where
  "HAL_Cipher_StartSinglePkg r = r(REG_CI_CHAN0_CFG := r REG_CI_CHAN0_CFG OR 0x1)"

section \<open>Control word, keys and vectors\<close>

record cipher_ctrl =
  u32Key :: "u32 list"
  u32IV :: "u32 list"
  bKeyByCA :: u32
  enAlg :: u32
  enBitWidth :: u32
  enWorkMode :: u32
  enKeyLen :: u32

text \<open>The test of the channel is the wrong way round: channels 1 to 7 read back the input vector of
  channel 0, and channel 0 the output vector.\<close>

definition HAL_Cipher_GetOutIV :: "u32 \<Rightarrow> cipher_ctrl \<Rightarrow> ci_regs \<Rightarrow> cipher_ctrl" where
  "HAL_Cipher_GetOutIV chnId c r =
    (let regAddr = (if chnId \<noteq> CI_PKGx1_CHAN then REG_CI_CHAN0_CIPHER_IVIN else REG_CI_CHAN_CIPHER_IVOUT chnId)
     in c\<lparr>u32IV := get_words regAddr 4 r\<rparr>)"

definition HAL_Cipher_SetInIV :: "u32 \<Rightarrow> cipher_ctrl \<Rightarrow> ci_regs \<Rightarrow> u32 \<times> ci_regs" where
  "HAL_Cipher_SetInIV chnId c r =
    (if chnId \<noteq> CI_PKGx1_CHAN then (HI_ERR_CIPHER_INVALID_PARA, r)
     else (HI_SUCCESS, put_words REG_CI_CHAN0_CIPHER_IVIN (take 4 (u32IV c)) r))"

definition HAL_Cipher_SetKey :: "u32 \<Rightarrow> cipher_ctrl \<Rightarrow> ci_regs \<Rightarrow> ci_regs" where
  "HAL_Cipher_SetKey chnId c r =
    (if bKeyByCA c = 0 then put_words (REG_CI_CIPHER_KEY chnId) (take 8 (u32Key c)) r else r)"

text \<open>The pattern by which a field of the control word is cleared and set.\<close>

definition set_field :: "nat \<Rightarrow> u32 \<Rightarrow> u32 \<Rightarrow> u32 \<Rightarrow> u32" where
  "set_field off m v reg = (reg AND NOT (push_bit off m)) OR push_bit off (v AND m)"

definition ctrl_word :: "u32 \<Rightarrow> u32 \<Rightarrow> cipher_ctrl \<Rightarrow> u32 \<Rightarrow> u32" where
  "ctrl_word chnId bDecrypt c regValue =
    (let regValue = (if bDecrypt = 0 then regValue AND NOT (push_bit 0 1) else regValue OR 1);
         regValue = set_field 1 0x07 (enWorkMode c) regValue;
         regValue = set_field 4 0x03 (enAlg c) regValue;
         regValue = set_field 6 0x03 (enBitWidth c) regValue;
         regValue = set_field 9 0x03 (enKeyLen c) regValue;
         regValue = set_field 13 0x01 (bKeyByCA c) regValue
     in set_field 14 0x07 chnId regValue)"

text \<open>The control word is read before the vector is written and stored after it.\<close>

definition HAL_Cipher_Config :: "u32 \<Rightarrow> u32 \<Rightarrow> bool \<Rightarrow> cipher_ctrl \<Rightarrow> ci_regs \<Rightarrow> u32 \<times> ci_regs" where
  "HAL_Cipher_Config chnId bDecrypt bIVChange c r =
    (let regAddr = (if chnId = CI_PKGx1_CHAN then REG_CI_CHAN0_CIPHER_CTRL else REG_CI_CHANn CIPHER_CTRL chnId);
         regValue = r regAddr;
         r = (if bIVChange then snd (HAL_Cipher_SetInIV chnId c r) else r)
     in (HI_SUCCESS, r(regAddr := ctrl_word chnId bDecrypt c regValue)))"

section \<open>Interrupts\<close>

definition HAL_Cipher_EnableInt :: "u32 \<Rightarrow> u32 \<Rightarrow> ci_regs \<Rightarrow> u32 \<times> ci_regs" where
  "HAL_Cipher_EnableInt chnId intType r =
    (let v = r REG_CI_INT_EN OR push_bit 31 1;
         v = (if chnId = CI_PKGx1_CHAN then v OR push_bit 8 1
              else
                let v = (if 2 AND intType = 2 then v OR push_bit (unat (8 + chnId)) 1 else v)
                in if 1 AND intType = 1 then v OR push_bit (unat (0 + chnId)) 1 else v)
     in (HI_SUCCESS, r(REG_CI_INT_EN := v)))"

definition HAL_Cipher_DisableInt :: "u32 \<Rightarrow> u32 \<Rightarrow> ci_regs \<Rightarrow> u32 \<times> ci_regs" where
  "HAL_Cipher_DisableInt chnId intType r =
    (let v = r REG_CI_INT_EN;
         v = (if chnId = CI_PKGx1_CHAN then v AND NOT (push_bit 8 1)
              else
                let v = (if 2 AND intType = 2 then v AND NOT (push_bit (unat (8 + chnId)) 1) else v)
                in if 1 AND intType = 1 then v AND NOT (push_bit (unat (0 + chnId)) 1) else v);
         v = (if v AND 0x7fffffff = 0 then v AND NOT (push_bit 31 1) else v)
     in (HI_SUCCESS, r(REG_CI_INT_EN := v)))"

definition HAL_Cipher_DisableAllInt :: "ci_regs \<Rightarrow> ci_regs" where
  "HAL_Cipher_DisableAllInt r = r(REG_CI_INT_EN := 0)"

definition HAL_Cipher_GetIntState :: "ci_regs \<Rightarrow> u32" where "HAL_Cipher_GetIntState r = r REG_CI_INT_STATUS"
definition HAL_Cipher_GetIntEnState :: "ci_regs \<Rightarrow> u32" where "HAL_Cipher_GetIntEnState r = r REG_CI_INT_EN"
definition HAL_Cipher_GetRawIntState :: "ci_regs \<Rightarrow> u32" where "HAL_Cipher_GetRawIntState r = r REG_CI_INT_RAW"

definition HAL_Cipher_ClrIntState :: "u32 \<Rightarrow> ci_regs \<Rightarrow> ci_regs" where
  "HAL_Cipher_ClrIntState intStatus r = r(REG_CI_INT_RAW := intStatus)"

text \<open>The values written to the clock register: reset with the clock on, then the reset withdrawn.\<close>

definition HAL_Cipher_Init :: "u32 \<Rightarrow> u32 list" where
  "HAL_Cipher_Init crg =
    (let crg = crg OR push_bit 0 1;
         crg = crg OR push_bit 1 1;
         w1 = crg;
         crg = crg AND NOT (push_bit 0 1);
         crg = crg OR push_bit 1 1
     in [w1, crg])"

section \<open>The fields of the control word\<close>

lemma bit_set_field:
  "bit (set_field off (mask k) v reg) n \<longleftrightarrow>
    (if off \<le> n \<and> n < off + k then n < 32 \<and> bit v (n - off) else bit reg n)"
  by (auto simp: set_field_def bit_or_iff bit_and_iff bit_not_iff bit_push_bit_iff bit_mask_iff possible_bit_def
      dest: bit_imp_le_length)

lemma field_masks:
  "set_field off 0x07 = set_field off (mask 3)" "set_field off 0x03 = set_field off (mask 2)"
  "set_field off 0x01 = set_field off (mask 1)"
  by (simp_all add: mask_eq_exp_minus_1)

lemma bit_ctrl_word:
  "bit (ctrl_word chnId d c v) n \<longleftrightarrow> n < 32 \<and>
    (if n = 0 then d \<noteq> 0 else if n < 4 then bit (enWorkMode c) (n - 1) else if n < 6 then bit (enAlg c) (n - 4)
     else if n < 8 then bit (enBitWidth c) (n - 6) else if n = 8 then bit v n else if n < 11 then bit (enKeyLen c) (n - 9)
     else if n < 13 then bit v n else if n = 13 then bit (bKeyByCA c) 0 else if n < 17 then bit chnId (n - 14) else bit v n)"
proof -
  define v0 where "v0 = (if d = 0 then v AND NOT (push_bit 0 1) else v OR 1)"
  have v0: "bit v0 n \<longleftrightarrow> (if n = 0 then d \<noteq> 0 else bit v n)" for n
    by (auto simp: v0_def bit_or_iff bit_and_iff bit_not_iff bit_1_iff possible_bit_def dest: bit_imp_le_length)
  show ?thesis
    unfolding ctrl_word_def Let_def v0_def [symmetric] field_masks bit_set_field v0
    by (auto dest: bit_imp_le_length split: if_splits)
qed

lemma field_eq:
  fixes w v :: u32
  assumes "\<And>i. i < k \<Longrightarrow> bit w (off + i) = bit v i" "off + k \<le> 32"
  shows "take_bit k (drop_bit off w) = take_bit k v"
  by (rule bit_word_eqI) (use assms in \<open>auto simp: bit_take_bit_iff bit_drop_bit_eq\<close>)

text \<open>The bits of the control word that belong to no field.\<close>

definition keep_mask :: u32 where "keep_mask = push_bit 8 (mask 1) OR push_bit 11 (mask 2) OR push_bit 17 (mask 15)"

lemma keep_mask_num: "keep_mask = 0xfffe1900" by (simp add: keep_mask_def mask_eq_exp_minus_1)

lemma bit_keep_mask: "bit keep_mask n \<longleftrightarrow> n = 8 \<or> n = 11 \<or> n = 12 \<or> 17 \<le> n \<and> n < 32"
  unfolding keep_mask_def by (simp only: bit_or_iff bit_push_bit_iff bit_mask_iff) auto

lemma ctrl_word_keep: "ctrl_word chnId d c v AND keep_mask = v AND keep_mask"
proof (rule bit_word_eqI)
  fix n
  show "bit (ctrl_word chnId d c v AND keep_mask) n = bit (v AND keep_mask) n"
    by (cases "bit keep_mask n") (auto simp: bit_and_iff bit_ctrl_word bit_keep_mask)
qed

lemma ctrl_word_parts:
  "take_bit 3 (drop_bit 1 (ctrl_word chnId d c v)) = take_bit 3 (enWorkMode c)"
  "take_bit 2 (drop_bit 4 (ctrl_word chnId d c v)) = take_bit 2 (enAlg c)"
  "take_bit 2 (drop_bit 6 (ctrl_word chnId d c v)) = take_bit 2 (enBitWidth c)"
  "take_bit 2 (drop_bit 9 (ctrl_word chnId d c v)) = take_bit 2 (enKeyLen c)"
  "take_bit 1 (drop_bit 13 (ctrl_word chnId d c v)) = take_bit 1 (bKeyByCA c)"
  "take_bit 3 (drop_bit 14 (ctrl_word chnId d c v)) = take_bit 3 chnId"
  by (rule field_eq; simp add: bit_ctrl_word)+

text \<open>The control word HAL_Cipher_Config writes decodes to what was asked for: direction, work mode,
  algorithm, bit width, key length, key source and key number each sit in their own field, for
  every old value of the register, and every other bit keeps its old value.\<close>
theorem ctrl_word_fields:
  "bit (ctrl_word chnId d c v) 0 = (d \<noteq> 0) \<and>
   take_bit 3 (drop_bit 1 (ctrl_word chnId d c v)) = take_bit 3 (enWorkMode c) \<and>
   take_bit 2 (drop_bit 4 (ctrl_word chnId d c v)) = take_bit 2 (enAlg c) \<and>
   take_bit 2 (drop_bit 6 (ctrl_word chnId d c v)) = take_bit 2 (enBitWidth c) \<and>
   take_bit 2 (drop_bit 9 (ctrl_word chnId d c v)) = take_bit 2 (enKeyLen c) \<and>
   take_bit 1 (drop_bit 13 (ctrl_word chnId d c v)) = take_bit 1 (bKeyByCA c) \<and>
   take_bit 3 (drop_bit 14 (ctrl_word chnId d c v)) = take_bit 3 chnId \<and>
   ctrl_word chnId d c v AND 0xfffe1900 = v AND 0xfffe1900"
  using ctrl_word_parts ctrl_word_keep [of chnId d c v] unfolding keep_mask_num by (simp add: bit_ctrl_word)

section \<open>The interrupt enable word\<close>

text \<open>The master switch, bit 31, is on exactly when some channel interrupt is.\<close>

definition int_en_ok :: "u32 \<Rightarrow> bool" where
  "int_en_ok v \<longleftrightarrow> (bit v 31 \<longleftrightarrow> take_bit 31 v \<noteq> 0)"

lemma low_bits: "v AND 0x7fffffff = take_bit 31 (v :: u32)"
  by (simp add: take_bit_eq_mask mask_eq_exp_minus_1)

lemma take_bit_nonzero: "take_bit 31 (v :: u32) \<noteq> 0 \<longleftrightarrow> (\<exists>n<31. bit v n)"
proof
  assume n: "take_bit 31 v \<noteq> 0"
  show "\<exists>n<31. bit v n"
  proof (rule ccontr)
    assume "\<not> (\<exists>n<31. bit v n)"
    then have "take_bit 31 v = 0" by (intro bit_word_eqI) (auto simp: bit_take_bit_iff)
    with n show False by simp
  qed
next
  assume "\<exists>n<31. bit v n"
  then obtain n where "bit (take_bit 31 v) n" by (auto simp: bit_take_bit_iff)
  then show "take_bit 31 v \<noteq> 0" by auto
qed

lemma int_en_iff: "int_en_ok v \<longleftrightarrow> (bit v 31 \<longleftrightarrow> (\<exists>n<31. bit v n))"
  by (simp add: int_en_ok_def take_bit_nonzero)

definition int_bit :: "nat \<Rightarrow> u32" where "int_bit n = push_bit n 1"

lemma bit_int_bit: "bit (int_bit k) n \<longleftrightarrow> k = n \<and> n < 32"
  by (auto simp: int_bit_def bit_exp_iff possible_bit_def)

lemma unat_8_plus: "unat (chnId :: u32) < 8 \<Longrightarrow> unat (8 + chnId) = 8 + unat chnId" by (simp add: unat_word_ariths)

lemma enable_int_ok:
  assumes "unat chnId < 8" "chnId = 0 \<or> 2 AND t = 2 \<or> 1 AND t = 1"
  shows "int_en_ok (snd (HAL_Cipher_EnableInt chnId t r) REG_CI_INT_EN)"
proof -
  let ?v = "snd (HAL_Cipher_EnableInt chnId t r) REG_CI_INT_EN"
  have e: "bit ?v n \<longleftrightarrow> n < 32 \<and> (bit (r REG_CI_INT_EN) n \<or> n = 31 \<or>
      (if chnId = 0 then n = 8 else 2 AND t = 2 \<and> n = 8 + unat chnId \<or> 1 AND t = 1 \<and> n = unat chnId))" for n
    unfolding HAL_Cipher_EnableInt_def Let_def int_bit_def [symmetric] add_0 unat_8_plus [OF assms(1)]
    by (auto simp: bit_or_iff bit_int_bit dest: bit_imp_le_length)
  have "\<exists>n<31. bit ?v n"
  proof (cases "chnId = 0")
    case True
    have "bit ?v 8" using e [of 8] True by simp
    then show ?thesis by (intro exI [of _ 8]) simp
  next
    case False
    then show ?thesis using assms
      by (cases "2 AND t = 2") (auto simp: e intro: exI [of _ "8 + unat chnId"] exI [of _ "unat chnId"])
  qed
  then show ?thesis by (simp add: int_en_iff e)
qed

lemma disable_int_ok:
  assumes "unat chnId < 8" "int_en_ok (r REG_CI_INT_EN)"
  shows "int_en_ok (snd (HAL_Cipher_DisableInt chnId t r) REG_CI_INT_EN)"
proof -
  define v where "v = (let v = r REG_CI_INT_EN in if chnId = CI_PKGx1_CHAN then v AND NOT (int_bit 8)
     else let v = (if 2 AND t = 2 then v AND NOT (int_bit (unat (8 + chnId))) else v)
       in if 1 AND t = 1 then v AND NOT (int_bit (unat (0 + chnId))) else v)"
  have b: "bit v n \<longleftrightarrow> bit (r REG_CI_INT_EN) n \<and>
      \<not> (if chnId = 0 then n = 8 else 2 AND t = 2 \<and> n = 8 + unat chnId \<or> 1 AND t = 1 \<and> n = unat chnId)" for n
    unfolding v_def Let_def add_0 unat_8_plus [OF assms(1)]
    by (auto simp: bit_and_iff bit_not_iff bit_int_bit possible_bit_def dest: bit_imp_le_length)
  have "snd (HAL_Cipher_DisableInt chnId t r) REG_CI_INT_EN = (if v AND 0x7fffffff = 0 then v AND NOT (int_bit 31) else v)"
    by (simp only: HAL_Cipher_DisableInt_def v_def int_bit_def Let_def snd_conv fun_upd_same)
  moreover have "int_en_ok (if v AND 0x7fffffff = 0 then v AND NOT (int_bit 31) else v)"
  proof (cases "take_bit 31 v = 0")
    case True
    then have "\<not> bit v n" if "n < 31" for n using that take_bit_nonzero by blast
    then show ?thesis using True
      by (auto simp: low_bits int_en_iff bit_and_iff bit_not_iff bit_int_bit possible_bit_def)
  next
    case False
    then obtain n where "n < 31" "bit v n" using take_bit_nonzero by blast
    moreover from this have "bit v 31" using assms b by (auto simp: int_en_iff)
    ultimately show ?thesis using False by (auto simp: low_bits int_en_iff)
  qed
  ultimately show ?thesis by simp
qed

end
