(* ===== verification/CipherDrv.thy ===== *)
theory CipherDrv
  imports CipherHal QueueSpec
begin

text \<open>
  The channel driver of the cipher engine, \<open>cipher/src/drv_cipher.c\<close>: eight hardware channels, of
  which 1 to 7 have rings of 128 input and output descriptors, and eight software channels. The
  engine fills the counters of the register file between two operations, so a theorem about an
  operation holds for every register file. The callbacks made are a list of function and argument.
\<close>

section \<open>State\<close>

abbreviation CI_MAX_LIST_NUM :: u32 where "CI_MAX_LIST_NUM \<equiv> 128"
abbreviation CIPHER_INVALID_CHN :: u32 where "CIPHER_INVALID_CHN \<equiv> 0xffffffff"
abbreviation CIPHER_DEFAULT_INT_NUM :: u32 where "CIPHER_DEFAULT_INT_NUM \<equiv> 1"
abbreviation IN_BUF :: u32 where "IN_BUF \<equiv> 1"
abbreviation OUT_BUF :: u32 where "OUT_BUF \<equiv> 2"

record ci_entry =
  u32DataAddr :: u32
  u32Flags :: u32
  U32DataLen :: u32
  u32IVStartAddr :: u32

record pkgn_mng =
  u32TotalPkg :: u32
  u32CurrentPtr :: u32
  u32BusyCnt :: u32

text \<open>A vector slot is its physical address and the four words stored there.\<close>

record cipher_chan =
  chan_id :: u32
  pstInBuf :: "ci_entry list"
  pstOutBuf :: "ci_entry list"
  astCipherIVValue :: "(u32 \<times> u32 list) list"
  au32WitchSoftChn :: "u32 list"
  au32CallBackArg :: "u32 list"
  unInData :: pkgn_mng
  unOutData :: pkgn_mng

record cipher_softchan =
  bOpen :: bool
  u32HardWareChn :: u32
  stCtrl :: cipher_ctrl
  bIVChange :: bool
  bKeyChange :: bool
  u32PirvateData :: u32
  pfnCallBack :: "nat option"

record cipher_drv =
  g_stCipherChans :: "cipher_chan list"
  g_stCipherSoftChans :: "cipher_softchan list"
  ci_reg_file :: ci_regs
  ci_calls :: "(nat \<times> u32) list"

record cipher_info =
  u32src :: u32
  u32dest :: u32
  u32length :: u32
  bDecrypt :: u32
  u32DataPkg :: "u32 list"

definition chan_of :: "cipher_drv \<Rightarrow> u32 \<Rightarrow> cipher_chan" where "chan_of d i = g_stCipherChans d ! unat i"
definition soft_of :: "cipher_drv \<Rightarrow> u32 \<Rightarrow> cipher_softchan" where "soft_of d i = g_stCipherSoftChans d ! unat i"

definition put_chan :: "u32 \<Rightarrow> cipher_chan \<Rightarrow> cipher_drv \<Rightarrow> cipher_drv" where
  "put_chan i c d = d\<lparr>g_stCipherChans := (g_stCipherChans d)[unat i := c]\<rparr>"
definition put_soft :: "u32 \<Rightarrow> cipher_softchan \<Rightarrow> cipher_drv \<Rightarrow> cipher_drv" where
  "put_soft i s d = d\<lparr>g_stCipherSoftChans := (g_stCipherSoftChans d)[unat i := s]\<rparr>"

text \<open>A register operation whose status the driver ignores, and one whose status it returns.\<close>

definition hal :: "(ci_regs \<Rightarrow> u32 \<times> ci_regs) \<Rightarrow> cipher_drv \<Rightarrow> cipher_drv" where
  "hal f d = d\<lparr>ci_reg_file := snd (f (ci_reg_file d))\<rparr>"
definition hal_reg :: "(ci_regs \<Rightarrow> ci_regs) \<Rightarrow> cipher_drv \<Rightarrow> cipher_drv" where
  "hal_reg f d = d\<lparr>ci_reg_file := f (ci_reg_file d)\<rparr>"

section \<open>Opening, closing, configuring\<close>

definition DRV_CipherInitHardWareChn :: "u32 \<Rightarrow> cipher_drv \<Rightarrow> u32 \<times> cipher_drv" where
  "DRV_CipherInitHardWareChn chnId d =
    (let d = hal (HAL_Cipher_SetInBufNum chnId CI_MAX_LIST_NUM) d;
         d = hal (HAL_Cipher_SetInBufCnt chnId 0) d;
         d = hal (HAL_Cipher_SetOutBufNum chnId CI_MAX_LIST_NUM) d;
         d = hal (HAL_Cipher_SetOutBufCnt chnId CI_MAX_LIST_NUM) d;
         d = hal (HAL_Cipher_SetAGEThreshold chnId OUT_BUF 0) d;
         d = hal (HAL_Cipher_SetAGEThreshold chnId IN_BUF 0) d;
         d = hal (HAL_Cipher_DisableInt chnId (OUT_BUF OR IN_BUF)) d
     in (HI_SUCCESS, d))"

definition DRV_CipherDeInitHardWareChn :: "u32 \<Rightarrow> cipher_drv \<Rightarrow> u32 \<times> cipher_drv" where
  "DRV_CipherDeInitHardWareChn chnId d = (HI_SUCCESS, hal (HAL_Cipher_DisableInt chnId (OUT_BUF OR IN_BUF)) d)"

definition DRV_Cipher_OpenChn :: "u32 \<Rightarrow> cipher_drv \<Rightarrow> u32 \<times> cipher_drv" where
  "DRV_Cipher_OpenChn softChnId d =
    (let d = put_soft softChnId ((soft_of d softChnId)\<lparr>u32HardWareChn := softChnId\<rparr>) d;
         hw = chan_id (chan_of d (u32HardWareChn (soft_of d softChnId)));
         d = hal (HAL_Cipher_SetIntThreshold hw OUT_BUF CIPHER_DEFAULT_INT_NUM) d;
         ret = fst (HAL_Cipher_EnableInt hw OUT_BUF (ci_reg_file d));
         d = hal (HAL_Cipher_EnableInt hw OUT_BUF) d
     in (ret, put_soft softChnId ((soft_of d softChnId)\<lparr>bOpen := True\<rparr>) d))"

definition DRV_Cipher_CloseChn :: "u32 \<Rightarrow> cipher_drv \<Rightarrow> u32 \<times> cipher_drv" where
  "DRV_Cipher_CloseChn softChnId d = (HI_SUCCESS, put_soft softChnId ((soft_of d softChnId)\<lparr>bOpen := False\<rparr>) d)"

definition DRV_Cipher_ConfigChn :: "u32 \<Rightarrow> cipher_ctrl \<Rightarrow> nat option \<Rightarrow> cipher_drv \<Rightarrow> u32 \<times> cipher_drv" where
  "DRV_Cipher_ConfigChn softChnId pConfig fnCallBack d =
    (let d = put_soft softChnId ((soft_of d softChnId)\<lparr>pfnCallBack := fnCallBack\<rparr>) d;
         hw = chan_id (chan_of d (u32HardWareChn (soft_of d softChnId)));
         ret = fst (HAL_Cipher_Config hw 0 False pConfig (ci_reg_file d));
         d = hal (HAL_Cipher_Config hw 0 False pConfig) d
     in (ret, put_soft softChnId ((soft_of d softChnId)\<lparr>bIVChange := True, bKeyChange := True, stCtrl := pConfig\<rparr>) d))"

section \<open>Tasks\<close>

text \<open>The single package runs to its end inside the call: \<open>cfg\<close> is what the polls of the busy bit
  read, \<open>r'\<close> the register file the engine leaves. The package is returned with the data read.\<close>

definition DRV_CipherStartSinglePkgChn ::
  "u32 \<Rightarrow> cipher_info \<Rightarrow> (nat \<Rightarrow> u32) \<Rightarrow> ci_regs \<Rightarrow> cipher_drv \<Rightarrow> u32 \<times> cipher_info \<times> cipher_drv" where
  "DRV_CipherStartSinglePkgChn softChnId p cfg r' d =
    (let c = stCtrl (soft_of d softChnId);
         d = hal (HAL_Cipher_Config 0 (bDecrypt p) False c) d;
         d = hal (HAL_Cipher_SetInIV 0 c) d;
         d = hal_reg (HAL_Cipher_SetKey 0 c) d;
         d = hal_reg (HAL_Cipher_SetDataSinglePkg (u32DataPkg p)) d;
         d = hal_reg HAL_Cipher_StartSinglePkg d;
         ret = HAL_Cipher_WaitIdle cfg;
         d = d\<lparr>ci_reg_file := r'\<rparr>
     in if ret \<noteq> HI_SUCCESS then (HI_FAILURE, p, d)
        else (HI_SUCCESS, p\<lparr>u32DataPkg := HAL_Cipher_ReadDataSinglePkg r'\<rparr>, d))"

definition ci_flag :: "nat \<Rightarrow> u32" where "ci_flag n = push_bit n 1"

text \<open>The input and output descriptors of a task in slot \<open>n\<close>, and the vector slot.\<close>

definition fill_slot :: "nat \<Rightarrow> cipher_info \<Rightarrow> cipher_softchan \<Rightarrow> cipher_chan \<Rightarrow> cipher_chan" where
  "fill_slot n p s c =
    (let i = (pstInBuf c ! n)\<lparr>u32DataAddr := u32src p, U32DataLen := u32length p\<rparr>;
         q = (pstOutBuf c ! n)\<lparr>u32DataAddr := u32dest p, U32DataLen := u32length p\<rparr>;
         phy = fst (astCipherIVValue c ! n);
         iv = (if bIVChange s then (astCipherIVValue c)[n := (phy, take 4 (u32IV (stCtrl s)))] else astCipherIVValue c);
         i = (if bIVChange s then i\<lparr>u32IVStartAddr := phy, u32Flags := u32Flags i OR ci_flag 21\<rparr>
              else i\<lparr>u32Flags := u32Flags i AND NOT (ci_flag 21)\<rparr>);
         i = i\<lparr>u32Flags := u32Flags i OR ci_flag 22\<rparr>;
         q = q\<lparr>u32Flags := u32Flags q OR ci_flag 22\<rparr>
     in c\<lparr>pstInBuf := (pstInBuf c)[n := i], pstOutBuf := (pstOutBuf c)[n := q], astCipherIVValue := iv\<rparr>)"

definition ptr_next :: "u32 \<Rightarrow> u32" where
  "ptr_next p = (let p = p + 1 in if p \<ge> CI_MAX_LIST_NUM then 0 else p)"

text \<open>The tail of the operation: the slot is tagged and the ring pointer moves on.\<close>

definition tag_slot :: "u32 \<Rightarrow> u32 \<Rightarrow> cipher_chan \<Rightarrow> cipher_chan" where
  "tag_slot softChnId arg c =
    (let cur = u32CurrentPtr (unInData c); n = unat cur
     in c\<lparr>au32WitchSoftChn := (au32WitchSoftChn c)[n := softChnId],
          au32CallBackArg := (au32CallBackArg c)[n := arg],
          unInData := (unInData c)\<lparr>u32CurrentPtr := ptr_next cur, u32TotalPkg := u32TotalPkg (unInData c) + 1\<rparr>,
          unOutData := (unOutData c)\<lparr>u32TotalPkg := u32TotalPkg (unOutData c) + 1\<rparr>\<rparr>)"

text \<open>The engine's counter is only read for the channels with a ring, where the read succeeds.\<close>

definition in_busy :: "u32 \<Rightarrow> ci_regs \<Rightarrow> u32" where
  "in_busy hw r = (case HAL_Cipher_GetInBufCnt hw r of Inr n \<Rightarrow> n | Inl e \<Rightarrow> 0)"

definition DRV_CipherStartMultiPkgChn :: "u32 \<Rightarrow> cipher_info \<Rightarrow> u32 \<Rightarrow> cipher_drv \<Rightarrow> u32 \<times> cipher_drv" where
  "DRV_CipherStartMultiPkgChn softChnId p arg d =
    (let hw = u32HardWareChn (soft_of d softChnId);
         BusyCnt = in_busy hw (ci_reg_file d);
         c = chan_of d hw;
         c = c\<lparr>unInData := (unInData c)\<lparr>u32BusyCnt := BusyCnt\<rparr>\<rparr>;
         d = put_chan hw c d;
         s = soft_of d softChnId
     in if BusyCnt < CI_MAX_LIST_NUM then
       let c = fill_slot (unat (u32CurrentPtr (unInData c))) p s c;
           d = (if bKeyChange s then hal_reg (HAL_Cipher_SetKey hw (stCtrl s)) d else d);
           ret = fst (HAL_Cipher_Config hw (bDecrypt p) (bIVChange s) (stCtrl s) (ci_reg_file d));
           d = hal (HAL_Cipher_Config hw (bDecrypt p) (bIVChange s) (stCtrl s)) d;
           d = put_soft softChnId (s\<lparr>bKeyChange := False, bIVChange := False, u32PirvateData := arg\<rparr>) d;
           d = put_chan hw (tag_slot softChnId arg c) d
       in (ret, hal (HAL_Cipher_SetInBufCnt hw 1) d)
     else (HI_FAILURE, d))"

text \<open>\<open>DRV_Cipher_CreatTask\<close>; the key and vector pointers may be null.\<close>

definition DRV_Cipher_CreatTask ::
  "u32 \<Rightarrow> cipher_info \<Rightarrow> u32 \<Rightarrow> u32 list option \<Rightarrow> u32 list option \<Rightarrow> (nat \<Rightarrow> u32) \<Rightarrow> ci_regs \<Rightarrow> cipher_drv \<Rightarrow>
    u32 \<times> cipher_info \<times> cipher_drv" where
  "DRV_Cipher_CreatTask softChnId p arg pKey pIV cfg r' d =
    (let s = soft_of d softChnId;
         s = (case pKey of None \<Rightarrow> s | Some k \<Rightarrow> s\<lparr>bKeyChange := True, stCtrl := (stCtrl s)\<lparr>u32Key := take 8 k\<rparr>\<rparr>);
         s = (case pIV of None \<Rightarrow> s | Some v \<Rightarrow> s\<lparr>bIVChange := True, stCtrl := (stCtrl s)\<lparr>u32IV := take 4 v\<rparr>\<rparr>);
         d = put_soft softChnId s d
     in if u32HardWareChn s = CI_PKGx1_CHAN then DRV_CipherStartSinglePkgChn softChnId p cfg r' d
        else let (ret, d) = DRV_CipherStartMultiPkgChn softChnId p arg d in (ret, p, d))"

section \<open>Completion\<close>

definition call_back :: "cipher_softchan \<Rightarrow> cipher_drv \<Rightarrow> cipher_drv" where
  "call_back s d = (case pfnCallBack s of None \<Rightarrow> d | Some f \<Rightarrow> d\<lparr>ci_calls := ci_calls d @ [(f, u32PirvateData s)]\<rparr>)"

definition DRV_CipherDataDoneSinglePkg :: "u32 \<Rightarrow> cipher_drv \<Rightarrow> u32 \<times> cipher_drv" where
  "DRV_CipherDataDoneSinglePkg chnId d = (HI_SUCCESS, call_back (soft_of d chnId) d)"

text \<open>One turn of the completion loop at slot \<open>idx\<close>: the tag is read and overwritten, and the soft
  channel it names is called. \<open>None\<close> is an access outside an array.\<close>

definition done_turn :: "u32 \<Rightarrow> u32 \<Rightarrow> cipher_drv \<Rightarrow> cipher_drv option" where
  "done_turn chnId idx d =
    (let c = chan_of d chnId
     in if idx \<ge> CI_MAX_LIST_NUM then None
        else
          let softChnId = au32WitchSoftChn c ! unat idx;
              d = put_chan chnId (c\<lparr>au32WitchSoftChn := (au32WitchSoftChn c)[unat idx := CIPHER_INVALID_CHN]\<rparr>) d
          in if softChnId \<ge> 8 then None else Some (call_back (soft_of d softChnId) d))"

fun done_loop :: "nat \<Rightarrow> u32 \<Rightarrow> u32 \<Rightarrow> cipher_drv \<Rightarrow> (u32 \<times> cipher_drv) option" where
  "done_loop 0 chnId idx d = Some (idx, d)"
| "done_loop (Suc n) chnId idx d =
    (case done_turn chnId idx d of None \<Rightarrow> None | Some d \<Rightarrow> done_loop n chnId (ptr_next idx) d)"

definition DRV_CipherDataDoneMultiPkg :: "u32 \<Rightarrow> cipher_drv \<Rightarrow> (u32 \<times> cipher_drv) option" where
  "DRV_CipherDataDoneMultiPkg chnId d =
    (case HAL_Cipher_GetOutBufFull chnId (ci_reg_file d) of
       Inl ret \<Rightarrow> Some (ret, d)
     | Inr fullCnt \<Rightarrow>
         if fullCnt > 0 then
           (case done_loop (unat fullCnt) chnId (u32CurrentPtr (unOutData (chan_of d chnId))) d of
              None \<Rightarrow> None
            | Some (idx, d) \<Rightarrow>
                let c = chan_of d chnId;
                    d = put_chan chnId (c\<lparr>unOutData := (unOutData c)\<lparr>u32CurrentPtr := idx\<rparr>\<rparr>) d;
                    d = hal (HAL_Cipher_SetInBufEmpty chnId fullCnt) d;
                    d = hal (HAL_Cipher_SetOutBufFull chnId fullCnt) d;
                    d = hal (HAL_Cipher_SetOutBufCnt chnId fullCnt) d
                in Some (HI_SUCCESS, d))
         else Some (HI_FAILURE, d))"

text \<open>The interrupt routine acknowledges first, then serves channel 0 and the rings 1 to 7.\<close>

fun isr_chans :: "u32 \<Rightarrow> u32 list \<Rightarrow> cipher_drv \<Rightarrow> cipher_drv option" where
  "isr_chans INTValue [] d = Some d"
| "isr_chans INTValue (i # is) d =
    (if drop_bit (unat i + 8) INTValue AND 0x1 \<noteq> 0 then
       (case DRV_CipherDataDoneMultiPkg i d of None \<Rightarrow> None | Some (ret, d) \<Rightarrow> isr_chans INTValue is d)
     else isr_chans INTValue is d)"

definition DRV_Cipher_ISR :: "cipher_drv \<Rightarrow> cipher_drv option" where
  "DRV_Cipher_ISR d =
    (let INTValue = HAL_Cipher_GetIntState (ci_reg_file d);
         d = hal_reg (HAL_Cipher_ClrIntState INTValue) d;
         d = (if drop_bit 8 INTValue AND 0x1 \<noteq> 0 then snd (DRV_CipherDataDoneSinglePkg 0 d) else d)
     in isr_chans INTValue [1, 2, 3, 4, 5, 6, 7] d)"

section \<open>Starting, stopping, power management\<close>

abbreviation ivbufSizeChn :: u32 where "ivbufSizeChn \<equiv> 16 * CI_MAX_LIST_NUM"
abbreviation databufSizeChn :: u32 where "databufSizeChn \<equiv> 16 * CI_MAX_LIST_NUM"
abbreviation bufSizeChn :: u32 where "bufSizeChn \<equiv> databufSizeChn * 2 + ivbufSizeChn"
abbreviation bufSizeTotal :: u32 where "bufSizeTotal \<equiv> bufSizeChn * (7 - 1 + 1)"

definition zero_ctrl :: cipher_ctrl where
  "zero_ctrl = \<lparr>u32Key = replicate 8 0, u32IV = replicate 4 0, bKeyByCA = 0, enAlg = 0, enBitWidth = 0,
    enWorkMode = 0, enKeyLen = 0\<rparr>"
definition zero_entry :: ci_entry where "zero_entry = \<lparr>u32DataAddr = 0, u32Flags = 0, U32DataLen = 0, u32IVStartAddr = 0\<rparr>"
definition zero_mng :: pkgn_mng where "zero_mng = \<lparr>u32TotalPkg = 0, u32CurrentPtr = 0, u32BusyCnt = 0\<rparr>"

definition zero_chan :: cipher_chan where
  "zero_chan = \<lparr>chan_id = 0, pstInBuf = [], pstOutBuf = [], astCipherIVValue = replicate 128 (0, []),
    au32WitchSoftChn = replicate 128 0, au32CallBackArg = replicate 128 0, unInData = zero_mng, unOutData = zero_mng\<rparr>"

definition zero_soft :: cipher_softchan where
  "zero_soft = \<lparr>bOpen = False, u32HardWareChn = 0, stCtrl = zero_ctrl, bIVChange = False, bKeyChange = False,
    u32PirvateData = 0, pfnCallBack = None\<rparr>"

text \<open>The vectors, then the input and the output descriptors of channel \<open>i + 1\<close>, from \<open>phy\<close> on.\<close>

definition layout_chan :: "u32 \<Rightarrow> u32 \<Rightarrow> cipher_chan \<Rightarrow> cipher_chan" where
  "layout_chan phy i c =
    (let iv0 = phy + i * bufSizeChn
     in c\<lparr>astCipherIVValue := map (\<lambda>j. (iv0 + 16 * of_nat j, replicate 4 0)) [0..<128],
          pstInBuf := replicate 128 zero_entry, pstOutBuf := replicate 128 zero_entry\<rparr>)"

text \<open>The addresses the engine gets for a channel, and its counters.\<close>

definition program_chan :: "u32 \<Rightarrow> cipher_drv \<Rightarrow> cipher_drv" where
  "program_chan hwChnId d =
    (let iv0 = fst (astCipherIVValue (chan_of d hwChnId) ! 0);
         d = hal (HAL_Cipher_SetBufAddr hwChnId IN_BUF (iv0 + ivbufSizeChn)) d;
         d = hal (HAL_Cipher_SetBufAddr hwChnId OUT_BUF (iv0 + ivbufSizeChn + databufSizeChn)) d
     in snd (DRV_CipherInitHardWareChn hwChnId d))"

fun init_chans :: "u32 \<Rightarrow> u32 list \<Rightarrow> cipher_drv \<Rightarrow> cipher_drv" where
  "init_chans phy [] d = d"
| "init_chans phy (i # is) d =
    (let hwChnId = i + 1;
         d = put_chan hwChnId (layout_chan phy i (chan_of d hwChnId)) d
     in init_chans phy is (program_chan hwChnId d))"

text \<open>\<open>alloc\<close> is the physical address of the memory the media zone gives, or a failure; \<open>irq\<close> the
  result of the request for the interrupt.\<close>

definition DRV_Cipher_Init :: "u32 option \<Rightarrow> u32 \<Rightarrow> cipher_drv \<Rightarrow> u32 \<times> cipher_drv" where
  "DRV_Cipher_Init alloc irq d =
    (let d = d\<lparr>g_stCipherChans := replicate 8 zero_chan, g_stCipherSoftChans := replicate 8 zero_soft\<rparr>;
         d = hal_reg HAL_Cipher_DisableAllInt d
     in case alloc of
       None \<Rightarrow> (HI_FAILURE, d)
     | Some phy \<Rightarrow>
         let d = d\<lparr>g_stCipherChans := map (\<lambda>i. (g_stCipherChans d ! i)\<lparr>chan_id := of_nat i\<rparr>) [0..<8]\<rparr>;
             d = init_chans phy [0, 1, 2, 3, 4, 5, 6] d;
             d = hal_reg (HAL_Cipher_ClrIntState 0xffffffff) d
         in if irq \<noteq> HI_SUCCESS then
              (HI_FAILURE, hal_reg (HAL_Cipher_ClrIntState 0xffffffff) (hal_reg HAL_Cipher_DisableAllInt d))
            else (HI_SUCCESS, d))"

definition DRV_Cipher_DeInit :: "cipher_drv \<Rightarrow> cipher_drv" where
  "DRV_Cipher_DeInit d =
    (let d = hal_reg HAL_Cipher_DisableAllInt d;
         d = hal_reg (HAL_Cipher_ClrIntState 0xffffffff) d
     in fold (\<lambda>i d. snd (DRV_CipherDeInitHardWareChn (i + 1) d)) [0, 1, 2, 3, 4, 5, 6] d)"

definition DRV_Cipher_Suspend :: "cipher_drv \<Rightarrow> cipher_drv" where "DRV_Cipher_Suspend d = d"

definition DRV_Cipher_Resume :: "cipher_drv \<Rightarrow> cipher_drv" where
  "DRV_Cipher_Resume d =
    (let d = hal_reg HAL_Cipher_DisableAllInt d;
         d = fold (\<lambda>i d. program_chan (i + 1) d) [0, 1, 2, 3, 4, 5, 6] d;
         d = hal_reg HAL_Cipher_DisableAllInt d
     in hal_reg (HAL_Cipher_ClrIntState 0xffffffff) d)"

section \<open>Access to the state\<close>

lemma put_soft_simps [simp]:
  "g_stCipherChans (put_soft i s d) = g_stCipherChans d" "ci_reg_file (put_soft i s d) = ci_reg_file d"
  "ci_calls (put_soft i s d) = ci_calls d" "chan_of (put_soft i s d) j = chan_of d j"
  "length (g_stCipherSoftChans (put_soft i s d)) = length (g_stCipherSoftChans d)"
  by (simp_all add: put_soft_def chan_of_def)

lemma put_chan_simps [simp]:
  "g_stCipherSoftChans (put_chan i c d) = g_stCipherSoftChans d" "ci_reg_file (put_chan i c d) = ci_reg_file d"
  "ci_calls (put_chan i c d) = ci_calls d" "soft_of (put_chan i c d) j = soft_of d j"
  "length (g_stCipherChans (put_chan i c d)) = length (g_stCipherChans d)"
  by (simp_all add: put_chan_def soft_of_def)

lemma chan_of_put [simp]:
  "unat i < length (g_stCipherChans d) \<Longrightarrow> chan_of (put_chan i c d) j = (if i = j then c else chan_of d j)"
  by (auto simp: put_chan_def chan_of_def nth_list_update word_unat_eq_iff)

lemma soft_of_put [simp]:
  "unat i < length (g_stCipherSoftChans d) \<Longrightarrow> soft_of (put_soft i s d) j = (if i = j then s else soft_of d j)"
  by (auto simp: put_soft_def soft_of_def nth_list_update word_unat_eq_iff)

lemma hal_simps [simp]:
  "g_stCipherChans (hal f d) = g_stCipherChans d" "g_stCipherSoftChans (hal f d) = g_stCipherSoftChans d"
  "ci_calls (hal f d) = ci_calls d" "chan_of (hal f d) j = chan_of d j" "soft_of (hal f d) j = soft_of d j"
  "ci_reg_file (hal f d) = snd (f (ci_reg_file d))"
  "g_stCipherChans (hal_reg g d) = g_stCipherChans d" "g_stCipherSoftChans (hal_reg g d) = g_stCipherSoftChans d"
  "ci_calls (hal_reg g d) = ci_calls d" "chan_of (hal_reg g d) j = chan_of d j" "soft_of (hal_reg g d) j = soft_of d j"
  "ci_reg_file (hal_reg g d) = g (ci_reg_file d)"
  by (simp_all add: hal_def hal_reg_def chan_of_def soft_of_def)

lemma call_back_simps [simp]:
  "g_stCipherChans (call_back s d) = g_stCipherChans d" "g_stCipherSoftChans (call_back s d) = g_stCipherSoftChans d"
  "ci_reg_file (call_back s d) = ci_reg_file d" "chan_of (call_back s d) j = chan_of d j" "soft_of (call_back s d) j = soft_of d j"
  by (simp_all add: call_back_def chan_of_def soft_of_def split: option.split)

section \<open>The descriptor ring as a queue\<close>

lemma unat_ptr_next: "unat p < 128 \<Longrightarrow> unat (ptr_next p) = (unat p + 1) mod 128"
proof -
  assume a: "unat p < 128"
  then have e: "unat (p + 1) = unat p + 1" by (simp add: unat_word_ariths)
  have "p + 1 \<ge> 128 \<longleftrightarrow> 128 \<le> unat p + 1" using e by (simp add: word_le_nat_alt)
  then show ?thesis using a e by (auto simp: ptr_next_def Let_def le_Suc_eq)
qed

text \<open>\<open>chan_rep c xs\<close>: the slots from the completion pointer to the submission pointer carry the soft
  channels \<open>xs\<close>, each of which exists.\<close>

definition chan_shape :: "cipher_chan \<Rightarrow> bool" where
  "chan_shape c \<longleftrightarrow> length (au32WitchSoftChn c) = 128 \<and> length (au32CallBackArg c) = 128 \<and> length (astCipherIVValue c) = 128 \<and>
     unat (u32CurrentPtr (unInData c)) < 128 \<and> unat (u32CurrentPtr (unOutData c)) < 128"

definition chan_rep :: "cipher_chan \<Rightarrow> u32 list \<Rightarrow> bool" where
  "chan_rep c xs \<longleftrightarrow> chan_shape c \<and> length xs \<le> 128 \<and>
     unat (u32CurrentPtr (unInData c)) = (unat (u32CurrentPtr (unOutData c)) + length xs) mod 128 \<and>
     (\<forall>j < length xs. au32WitchSoftChn c ! ((unat (u32CurrentPtr (unOutData c)) + j) mod 128) = xs ! j) \<and>
     (\<forall>x \<in> set xs. unat x < 8)"

text \<open>What a completed slot does to the channel: the tag leaves and the completion pointer moves on.\<close>

definition out_ptr :: "u32 \<Rightarrow> cipher_chan \<Rightarrow> cipher_chan" where
  "out_ptr p c = c\<lparr>unOutData := (unOutData c)\<lparr>u32CurrentPtr := p\<rparr>\<rparr>"

definition take_tag :: "cipher_chan \<Rightarrow> u32 option \<times> cipher_chan" where
  "take_tag c =
    (let p = u32CurrentPtr (unOutData c)
     in (Some (au32WitchSoftChn c ! unat p),
         out_ptr (ptr_next p) (c\<lparr>au32WitchSoftChn := (au32WitchSoftChn c)[unat p := CIPHER_INVALID_CHN]\<rparr>)))"

lemma tag_slot_rep:
  assumes "chan_rep c xs" "length xs < 128" "unat x < 8"
  shows "chan_rep (tag_slot x arg c) (xs @ [x])"
proof -
  let ?o = "unat (u32CurrentPtr (unOutData c))" and ?i = "unat (u32CurrentPtr (unInData c))"
  have i: "?i = (?o + length xs) mod 128" "?i < 128" "length (au32WitchSoftChn c) = 128"
    using assms(1) by (auto simp: chan_rep_def chan_shape_def)
  have old: "(?o + j) mod 128 \<noteq> ?i" if "j < length xs" for j
    using mod_shift_inj [of ?o j 128 "length xs"] that assms(2) i(1) by auto
  have nxt: "unat (ptr_next (u32CurrentPtr (unInData c))) = (?o + Suc (length xs)) mod 128"
    using i by (simp add: unat_ptr_next mod_Suc_eq)
  show ?thesis unfolding chan_rep_def
  proof (intro conjI allI impI ballI)
    show "chan_shape (tag_slot x arg c)"
      using assms(1) by (simp add: chan_rep_def chan_shape_def tag_slot_def Let_def unat_ptr_next)
    show "length (xs @ [x]) \<le> 128" using assms(2) by simp
    show "unat (u32CurrentPtr (unInData (tag_slot x arg c))) = (unat (u32CurrentPtr (unOutData (tag_slot x arg c))) + length (xs @ [x])) mod 128"
      using nxt by (simp add: tag_slot_def Let_def)
    show "unat y < 8" if "y \<in> set (xs @ [x])" for y using that assms by (auto simp: chan_rep_def)
    fix j assume "j < length (xs @ [x])"
    then consider "j < length xs" | "j = length xs" by fastforce
    then show "au32WitchSoftChn (tag_slot x arg c) ! ((unat (u32CurrentPtr (unOutData (tag_slot x arg c))) + j) mod 128) = (xs @ [x]) ! j"
    proof cases
      case 1
      then show ?thesis using old [OF 1] assms(1) by (simp add: tag_slot_def Let_def nth_append chan_rep_def)
    next
      case 2
      then show ?thesis using i by (simp add: tag_slot_def Let_def)
    qed
  qed
qed

lemma take_tag_rep:
  assumes "chan_rep c (x # xs)"
  shows "fst (take_tag c) = Some x" "chan_rep (snd (take_tag c)) xs"
proof -
  let ?o = "unat (u32CurrentPtr (unOutData c))"
  have o: "?o < 128" "length (au32WitchSoftChn c) = 128" "length xs < 128"
    using assms by (auto simp: chan_rep_def chan_shape_def)
  have w: "au32WitchSoftChn c ! ((?o + j) mod 128) = (x # xs) ! j" if "j < Suc (length xs)" for j
    using assms that by (simp add: chan_rep_def)
  show "fst (take_tag c) = Some x" using w [of 0] o by (simp add: take_tag_def Let_def)
  have n: "unat (ptr_next (u32CurrentPtr (unOutData c))) = (?o + 1) mod 128" using o by (simp add: unat_ptr_next)
  have s: "((?o + 1) mod 128 + j) mod 128 = (?o + Suc j) mod 128" for j by (simp add: mod_simps)
  have ne: "?o \<noteq> (?o + Suc j) mod 128" if "j < length xs" for j
    using mod_shift_inj [of ?o 0 128 "Suc j"] that o by auto
  show "chan_rep (snd (take_tag c)) xs" unfolding chan_rep_def
  proof (intro conjI allI impI ballI)
    show "chan_shape (snd (take_tag c))"
      using assms n by (simp add: chan_rep_def chan_shape_def take_tag_def out_ptr_def Let_def)
    show "unat (u32CurrentPtr (unInData (snd (take_tag c)))) = (unat (u32CurrentPtr (unOutData (snd (take_tag c)))) + length xs) mod 128"
      using assms n by (simp add: take_tag_def out_ptr_def Let_def chan_rep_def mod_simps)
    show "unat y < 8" if "y \<in> set xs" for y using that assms by (simp add: chan_rep_def)
    fix j assume j: "j < length xs"
    show "au32WitchSoftChn (snd (take_tag c)) ! ((unat (u32CurrentPtr (unOutData (snd (take_tag c)))) + j) mod 128) = xs ! j"
    proof -
      have e: "unat (u32CurrentPtr (unOutData (snd (take_tag c)))) = (?o + 1) mod 128"
        "au32WitchSoftChn (snd (take_tag c)) = (au32WitchSoftChn c)[?o := CIPHER_INVALID_CHN]"
        using n by (simp_all add: take_tag_def out_ptr_def Let_def)
      show ?thesis unfolding e s nth_list_update_neq [OF ne [OF j]] using w [of "Suc j"] j by simp
    qed
  qed (use o in simp)
qed

text \<open>A full and an empty ring have equal pointers: the engine, not the driver, knows how many
  packages are under way. The queue is the channel together with that number.\<close>

definition ci_enq :: "u32 \<Rightarrow> cipher_chan \<times> nat \<Rightarrow> u32 \<Rightarrow> cipher_chan \<times> nat" where
  "ci_enq arg q x = (tag_slot x arg (fst q), snd q + 1)"
definition ci_deq :: "cipher_chan \<times> nat \<Rightarrow> u32 option \<times> cipher_chan \<times> nat" where
  "ci_deq q = (fst (take_tag (fst q)), snd (take_tag (fst q)), snd q - 1)"
definition ci_rep :: "cipher_chan \<times> nat \<Rightarrow> u32 list \<Rightarrow> bool" where
  "ci_rep q xs \<longleftrightarrow> chan_rep (fst q) xs \<and> length xs = snd q"
definition ci_room :: "cipher_chan \<times> nat \<Rightarrow> u32 \<Rightarrow> bool" where "ci_room q x \<longleftrightarrow> snd q < 128 \<and> unat x < 8"

interpretation ciq: fifo_core "ci_enq arg" ci_deq ci_rep ci_room for arg
  by unfold_locales (use tag_slot_rep take_tag_rep in \<open>auto simp: ci_enq_def ci_deq_def ci_rep_def ci_room_def\<close>)

section \<open>The completion loop takes from the queue\<close>

definition tag_calls :: "cipher_drv \<Rightarrow> u32 \<Rightarrow> (nat \<times> u32) list" where
  "tag_calls d x = (case pfnCallBack (soft_of d x) of None \<Rightarrow> [] | Some f \<Rightarrow> [(f, u32PirvateData (soft_of d x))])"

definition add_calls :: "(nat \<times> u32) list \<Rightarrow> cipher_drv \<Rightarrow> cipher_drv" where
  "add_calls cs d = d\<lparr>ci_calls := ci_calls d @ cs\<rparr>"

lemma add_calls_simps [simp]:
  "g_stCipherChans (add_calls cs d) = g_stCipherChans d" "g_stCipherSoftChans (add_calls cs d) = g_stCipherSoftChans d"
  "ci_reg_file (add_calls cs d) = ci_reg_file d" "chan_of (add_calls cs d) j = chan_of d j" "soft_of (add_calls cs d) j = soft_of d j"
  "ci_calls (add_calls cs d) = ci_calls d @ cs" "add_calls bs (add_calls as d) = add_calls (as @ bs) d"
  "add_calls [] d = d" "put_chan i c (add_calls cs d) = add_calls cs (put_chan i c d)" "tag_calls (add_calls cs d) = tag_calls d"
  by (simp_all add: add_calls_def chan_of_def soft_of_def put_chan_def tag_calls_def fun_eq_iff split: option.split)

lemma call_back_add: "call_back (soft_of d x) d = add_calls (tag_calls d x) d"
  by (simp add: call_back_def tag_calls_def add_calls_def split: option.split)

lemma put_chan_put [simp]: "put_chan i c (put_chan i c' d) = put_chan i c d" by (simp add: put_chan_def)
lemma put_chan_same [simp]: "put_chan i (chan_of d i) d = d" by (simp add: put_chan_def chan_of_def)
lemma tag_calls_put_chan [simp]: "tag_calls (put_chan i c d) = tag_calls d" by (simp add: tag_calls_def fun_eq_iff split: option.split)
lemma tag_calls_hal [simp]: "tag_calls (hal f d) = tag_calls d" "tag_calls (hal_reg g d) = tag_calls d"
  by (simp_all add: tag_calls_def fun_eq_iff split: option.split)
lemma call_back_put: "call_back (soft_of d x) (put_chan i c d) = add_calls (tag_calls d x) (put_chan i c d)"
  using call_back_add [of "put_chan i c d" x] by simp

lemma out_ptr_simps [simp]:
  "u32CurrentPtr (unOutData (out_ptr p c)) = p" "au32WitchSoftChn (out_ptr p c) = au32WitchSoftChn c"
  "out_ptr p (out_ptr q c) = out_ptr p c" "unInData (out_ptr p c) = unInData c"
  "(out_ptr p c)\<lparr>au32WitchSoftChn := w\<rparr> = out_ptr p (c\<lparr>au32WitchSoftChn := w\<rparr>)" "chan_id (out_ptr p c) = chan_id c"
  "out_ptr (u32CurrentPtr (unOutData c)) c = c"
  by (simp_all add: out_ptr_def)

lemma chan_shape_take: "chan_shape c \<Longrightarrow> chan_shape (snd (take_tag c))"
  by (simp add: chan_shape_def take_tag_def out_ptr_def Let_def unat_ptr_next)

lemma done_loop_deq:
  assumes "unat chn < length (g_stCipherChans d)" "chan_shape (out_ptr idx (chan_of d chn))"
    and "deq_n ci_deq n (out_ptr idx (chan_of d chn), k) = (ts, c', k')" "\<forall>t \<in> set ts. unat t < 8"
  shows "\<exists>idx' c. done_loop n chn idx d = Some (idx', add_calls (concat (map (tag_calls d) ts)) (put_chan chn c d)) \<and>
    out_ptr idx' c = c' \<and> chan_id c = chan_id (chan_of d chn)"
  using assms
proof (induction n arbitrary: idx d k ts)
  case 0
  then show ?case by (intro exI [of _ idx] exI [of _ "chan_of d chn"]) simp
next
  case (Suc n)
  let ?c = "chan_of d chn"
  let ?t = "au32WitchSoftChn ?c ! unat idx" and ?e = "?c\<lparr>au32WitchSoftChn := (au32WitchSoftChn ?c)[unat idx := CIPHER_INVALID_CHN]\<rparr>"
  let ?d = "add_calls (tag_calls d ?t) (put_chan chn ?e d)"
  have i: "unat idx < 128" using Suc.prems(2) by (simp add: chan_shape_def)
  have q: "ci_deq (out_ptr idx ?c, k) = (Some ?t, out_ptr (ptr_next idx) ?e, k - 1)"
    by (simp add: ci_deq_def take_tag_def Let_def)
  obtain us where us: "deq_n ci_deq n (out_ptr (ptr_next idx) ?e, k - 1) = (us, c', k')" "ts = ?t # us"
    using Suc.prems(3) by (auto simp: q split: prod.splits)
  have turn: "done_turn chn idx d = Some ?d"
    using i Suc.prems(4) us(2) by (auto simp: done_turn_def Let_def word_le_nat_alt call_back_put)
  have e: "chan_of ?d chn = ?e" using Suc.prems(1) by simp
  have sh: "chan_shape (out_ptr (ptr_next idx) ?e)"
    using chan_shape_take [OF Suc.prems(2)] by (simp add: take_tag_def Let_def)
  from Suc.IH [of ?d "ptr_next idx" "k - 1" us, unfolded e, OF _ sh us(1)] Suc.prems us(2)
  obtain idx' c where "done_loop n chn (ptr_next idx) ?d = Some (idx', add_calls (concat (map (tag_calls ?d) us)) (put_chan chn c ?d))"
    "out_ptr idx' c = c'" "chan_id c = chan_id ?e" by auto
  then show ?case using turn us(2) by (intro exI [of _ idx'] exI [of _ c]) simp
qed

lemma done_loop_rep:
  assumes "unat chn < length (g_stCipherChans d)" "chan_rep (chan_of d chn) xs" "n \<le> length xs"
  shows "\<exists>idx c. done_loop n chn (u32CurrentPtr (unOutData (chan_of d chn))) d =
      Some (idx, add_calls (concat (map (tag_calls d) (take n xs))) (put_chan chn c d)) \<and>
    chan_rep (out_ptr idx c) (drop n xs) \<and> chan_id c = chan_id (chan_of d chn)"
proof -
  let ?c = "chan_of d chn"
  let ?o = "u32CurrentPtr (unOutData ?c)"
  have "ci_rep (?c, length xs) xs" using assms(2) by (simp add: ci_rep_def)
  from ciq.deq_n_rep [OF this assms(3)] obtain c' k'
    where q: "deq_n ci_deq n (?c, length xs) = (take n xs, c', k')" "chan_rep c' (drop n xs)"
    by (auto simp: ci_rep_def prod_eq_iff)
  have "\<forall>t \<in> set (take n xs). unat t < 8" "chan_shape (out_ptr ?o ?c)"
    using assms(2) by (auto simp: chan_rep_def dest: in_set_takeD)
  with done_loop_deq [of chn d ?o n "length xs" "take n xs" c' k'] q assms(1)
  obtain idx c where "done_loop n chn ?o d = Some (idx, add_calls (concat (map (tag_calls d) (take n xs))) (put_chan chn c d))"
    "out_ptr idx c = c'" "chan_id c = chan_id ?c" by auto
  with q(2) show ?thesis by blast
qed

section \<open>The completion interrupt\<close>

lemma unat_reg: "unat n < 8 \<Longrightarrow> unat off < 128 \<Longrightarrow> unat (REG_CI_CHANn off n) = 4096 + unat n * 128 + unat off"
  by (simp add: REG_CI_CHANn_def unat_word_ariths)

lemma ring_digits:
  assumes "a * 128 + b = c * 128 + (d :: nat)" "b < 128" "d < 128"
  shows "a = c \<and> b = d"
  using assms by (cases rule: linorder_cases [of a c]) linarith+

lemma reg_eq_iff:
  assumes "unat n < 8" "unat off < 128" "unat m < 8" "unat off' < 128"
  shows "REG_CI_CHANn off n = REG_CI_CHANn off' m \<longleftrightarrow> off = off' \<and> n = m"
proof
  assume "REG_CI_CHANn off n = REG_CI_CHANn off' m"
  then have "unat (REG_CI_CHANn off n) = unat (REG_CI_CHANn off' m)" by (rule arg_cong)
  then have "unat n * 128 + unat off = unat m * 128 + unat off'" unfolding unat_reg [OF assms(1,2)] unat_reg [OF assms(3,4)] by simp
  then have "unat n = unat m \<and> unat off = unat off'" by (rule ring_digits) (use assms in simp_all)
  then show "off = off' \<and> n = m" by (simp add: word_unat_eq_iff)
qed simp

definition same_chans :: "u32 \<Rightarrow> ci_regs \<Rightarrow> ci_regs \<Rightarrow> bool" where
  "same_chans chn r r' \<longleftrightarrow> (\<forall>i off. unat i < 8 \<longrightarrow> i \<noteq> chn \<longrightarrow> unat off < 128 \<longrightarrow> r' (REG_CI_CHANn off i) = r (REG_CI_CHANn off i))"

lemma same_chans_refl [simp]: "same_chans chn r r" by (simp add: same_chans_def)

lemma same_chans_put:
  "unat chn < 8 \<Longrightarrow> unat off < 128 \<Longrightarrow> same_chans chn r r' \<Longrightarrow> same_chans chn r (snd (hal_put off chn v r'))"
  by (auto simp: same_chans_def hal_put_def Let_def reg_eq_iff)

lemma hal_add_calls [simp]:
  "hal f (add_calls cs d) = add_calls cs (hal f d)" "hal_reg g (add_calls cs d) = add_calls cs (hal_reg g d)"
  by (simp_all add: hal_def hal_reg_def add_calls_def)

lemma hal_hal_reg: "hal f d = hal_reg (\<lambda>r. snd (f r)) d" "hal_reg g (hal_reg h d) = hal_reg (\<lambda>r. g (h r)) d"
  by (simp_all add: hal_def hal_reg_def)

definition done_count :: "cipher_drv \<Rightarrow> u32 \<Rightarrow> nat" where
  "done_count d chn = unat (ci_reg_file d (REG_CI_CHANn OFULL_CNT chn))"

lemma data_done_rep:
  assumes "unat chn < 8" "chn \<noteq> 0" "length (g_stCipherChans d) = 8" "chan_rep (chan_of d chn) xs" "done_count d chn \<le> length xs"
  shows "\<exists>ret c g. DRV_CipherDataDoneMultiPkg chn d =
      Some (ret, add_calls (concat (map (tag_calls d) (take (done_count d chn) xs))) (hal_reg g (put_chan chn c d))) \<and>
    chan_rep c (drop (done_count d chn) xs) \<and> same_chans chn (ci_reg_file d) (g (ci_reg_file d)) \<and>
    ret = (if done_count d chn = 0 then HI_FAILURE else HI_SUCCESS)"
proof (cases "done_count d chn = 0")
  case True
  have "hal_reg (\<lambda>r. r) d = d" by (simp add: hal_reg_def)
  then show ?thesis using True assms(2,4)
    by (intro exI [of _ HI_FAILURE] exI [of _ "chan_of d chn"] exI [of _ "\<lambda>r. r"])
       (auto simp: DRV_CipherDataDoneMultiPkg_def HAL_Cipher_GetOutBufFull_def hal_get_def done_count_def unat_eq_0)
next
  case False
  let ?n = "ci_reg_file d (REG_CI_CHANn OFULL_CNT chn)"
  let ?cs = "concat (map (tag_calls d) (take (done_count d chn) xs))"
  obtain idx c where c: "done_loop (done_count d chn) chn (u32CurrentPtr (unOutData (chan_of d chn))) d = Some (idx, add_calls ?cs (put_chan chn c d))"
    "chan_rep (out_ptr idx c) (drop (done_count d chn) xs)"
    using done_loop_rep [of chn d xs "done_count d chn"] assms by auto
  let ?g = "\<lambda>r. snd (HAL_Cipher_SetOutBufCnt chn ?n (snd (HAL_Cipher_SetOutBufFull chn ?n (snd (HAL_Cipher_SetInBufEmpty chn ?n r)))))"
  have "?n > 0" using False by (simp add: done_count_def word_neq_0_conv [symmetric] unat_eq_0)
  moreover have "HAL_Cipher_GetOutBufFull chn (ci_reg_file d) = Inr ?n"
    using assms(2) by (simp add: HAL_Cipher_GetOutBufFull_def hal_get_def)
  ultimately have "DRV_CipherDataDoneMultiPkg chn d =
      (let d1 = add_calls ?cs (put_chan chn c d)
       in Some (HI_SUCCESS, hal_reg ?g (put_chan chn (out_ptr idx (chan_of d1 chn)) d1)))"
    using c(1) unfolding DRV_CipherDataDoneMultiPkg_def done_count_def
    by (simp only: sum.case option.case prod.case Let_def if_True hal_hal_reg out_ptr_def)
  then have "DRV_CipherDataDoneMultiPkg chn d = Some (HI_SUCCESS, add_calls ?cs (hal_reg ?g (put_chan chn (out_ptr idx c) d)))"
    using assms(1,3) by (simp only: Let_def hal_add_calls add_calls_simps put_chan_put chan_of_put simp_thms if_True)
  moreover have "same_chans chn (ci_reg_file d) (?g (ci_reg_file d))"
    using assms(1) by (simp add: HAL_Cipher_SetOutBufCnt_def HAL_Cipher_SetOutBufFull_def HAL_Cipher_SetInBufEmpty_def same_chans_put)
  ultimately show ?thesis using c(2) False
    by (intro exI [of _ HI_SUCCESS] exI [of _ "out_ptr idx c"] exI [of _ ?g]) simp
qed

text \<open>The channels an interrupt word names, the callbacks owed to them, and what stays queued.\<close>

definition raised :: "u32 \<Rightarrow> u32 \<Rightarrow> bool" where "raised v i \<longleftrightarrow> drop_bit (unat i + 8) v AND 0x1 \<noteq> 0"

definition owed :: "u32 \<Rightarrow> (u32 \<Rightarrow> u32 list) \<Rightarrow> cipher_drv \<Rightarrow> u32 \<Rightarrow> (nat \<times> u32) list" where
  "owed v Q d i = (if raised v i then concat (map (tag_calls d) (take (done_count d i) (Q i))) else [])"

definition left :: "u32 \<Rightarrow> (u32 \<Rightarrow> u32 list) \<Rightarrow> cipher_drv \<Rightarrow> u32 \<Rightarrow> u32 list" where
  "left v Q d i = (if raised v i then drop (done_count d i) (Q i) else Q i)"

lemma isr_chans_rep:
  assumes "distinct is" "\<forall>i \<in> set is. i \<noteq> 0 \<and> unat i < 8 \<and> chan_rep (chan_of d i) (Q i) \<and> (raised v i \<longrightarrow> done_count d i \<le> length (Q i))"
    and "length (g_stCipherChans d) = 8"
  shows "\<exists>d'. isr_chans v is d = Some d' \<and> ci_calls d' = ci_calls d @ concat (map (owed v Q d) is) \<and>
    g_stCipherSoftChans d' = g_stCipherSoftChans d \<and> length (g_stCipherChans d') = 8 \<and>
    (\<forall>i \<in> set is. chan_rep (chan_of d' i) (left v Q d i)) \<and> (\<forall>i. i \<notin> set is \<longrightarrow> chan_of d' i = chan_of d i)"
  using assms
proof (induction "is" arbitrary: d)
  case Nil
  then show ?case by simp
next
  case (Cons i "is")
  show ?case
  proof (cases "raised v i")
    case False
    with Cons.IH [of d] Cons.prems obtain d' where "isr_chans v is d = Some d'"
      "ci_calls d' = ci_calls d @ concat (map (owed v Q d) is)" "g_stCipherSoftChans d' = g_stCipherSoftChans d"
      "length (g_stCipherChans d') = 8" "\<forall>i \<in> set is. chan_rep (chan_of d' i) (left v Q d i)"
      "\<forall>i. i \<notin> set is \<longrightarrow> chan_of d' i = chan_of d i" by auto
    moreover have "owed v Q d i = []" "left v Q d i = Q i" using False by (simp_all add: owed_def left_def)
    ultimately show ?thesis using False Cons.prems by (intro exI [of _ d']) (auto simp: raised_def [symmetric])
  next
    case True
    obtain ret c g where r: "DRV_CipherDataDoneMultiPkg i d = Some (ret, add_calls (owed v Q d i) (hal_reg g (put_chan i c d)))"
      "chan_rep c (left v Q d i)" "same_chans i (ci_reg_file d) (g (ci_reg_file d))"
      using data_done_rep [of i d "Q i"] Cons.prems True by (auto simp: owed_def left_def)
    let ?d = "add_calls (owed v Q d i) (hal_reg g (put_chan i c d))"
    have i8: "unat i < length (g_stCipherChans d)" using Cons.prems by simp
    have tc: "tag_calls ?d = tag_calls d" by (simp add: tag_calls_def fun_eq_iff split: option.split)
    have cnt: "done_count ?d j = done_count d j" if "j \<in> set is" for j
      using r(3) that Cons.prems by (auto simp: done_count_def same_chans_def)
    have ch: "chan_of ?d j = chan_of d j" if "j \<in> set is" for j using that Cons.prems(1) i8 by auto
    have eq: "owed v Q ?d j = owed v Q d j" "left v Q ?d j = left v Q d j" if "j \<in> set is" for j
      using cnt [OF that] tc by (simp_all add: owed_def left_def)
    obtain d' where d': "isr_chans v is ?d = Some d'" "ci_calls d' = ci_calls ?d @ concat (map (owed v Q ?d) is)"
      "g_stCipherSoftChans d' = g_stCipherSoftChans ?d" "length (g_stCipherChans d') = 8"
      "\<forall>i \<in> set is. chan_rep (chan_of d' i) (left v Q ?d i)" "\<forall>i. i \<notin> set is \<longrightarrow> chan_of d' i = chan_of ?d i"
      using Cons.IH [of ?d] Cons.prems cnt ch by auto
    have m: "concat (map (owed v Q ?d) is) = concat (map (owed v Q d) is)" using eq by (simp cong: map_cong)
    have "isr_chans v (i # is) d = Some d'" using True d'(1) r(1) by (simp add: raised_def)
    moreover have "ci_calls d' = ci_calls d @ concat (map (owed v Q d) (i # is))" using d'(2) unfolding m by simp
    moreover have "g_stCipherSoftChans d' = g_stCipherSoftChans d" using d'(3) by simp
    moreover have "chan_of d' i = c" using d'(6) Cons.prems(1) i8 by simp
    then have "\<forall>j \<in> set (i # is). chan_rep (chan_of d' j) (left v Q d j)" using d'(5) eq(2) r(2) by simp
    moreover have "\<forall>j. j \<notin> set (i # is) \<longrightarrow> chan_of d' j = chan_of d j" using d'(6) i8 by simp
    ultimately show ?thesis using d'(4) by blast
  qed
qed

section \<open>The invariant of the driver\<close>

definition drv_ok :: "cipher_drv \<Rightarrow> bool" where
  "drv_ok d \<longleftrightarrow> length (g_stCipherChans d) = 8 \<and> length (g_stCipherSoftChans d) = 8 \<and>
     (\<forall>i. unat i < 8 \<longrightarrow> chan_id (chan_of d i) = i \<and> chan_shape (chan_of d i) \<and> u32HardWareChn (soft_of d i) \<in> {0, i})"

lemma drv_okD:
  assumes "drv_ok d" "unat i < 8"
  shows "chan_id (chan_of d i) = i" "chan_shape (chan_of d i)" "u32HardWareChn (soft_of d i) \<in> {0, i}"
    "length (g_stCipherChans d) = 8" "length (g_stCipherSoftChans d) = 8"
  using assms by (auto simp: drv_ok_def)

lemma drv_ok_hal [simp]: "drv_ok (hal f d) = drv_ok d" "drv_ok (hal_reg g d) = drv_ok d" "drv_ok (add_calls cs d) = drv_ok d"
  by (simp_all add: drv_ok_def)

lemma drv_ok_put_soft: "drv_ok d \<Longrightarrow> unat i < 8 \<Longrightarrow> u32HardWareChn s \<in> {0, i} \<Longrightarrow> drv_ok (put_soft i s d)"
  by (auto simp: drv_ok_def)

lemma drv_ok_put_chan: "drv_ok d \<Longrightarrow> unat i < 8 \<Longrightarrow> chan_id c = i \<Longrightarrow> chan_shape c \<Longrightarrow> drv_ok (put_chan i c d)"
  by (auto simp: drv_ok_def)

section \<open>Submitting a task\<close>

lemma fill_slot_simps [simp]:
  "au32WitchSoftChn (fill_slot n p s c) = au32WitchSoftChn c" "au32CallBackArg (fill_slot n p s c) = au32CallBackArg c"
  "length (astCipherIVValue (fill_slot n p s c)) = length (astCipherIVValue c)" "unInData (fill_slot n p s c) = unInData c"
  "unOutData (fill_slot n p s c) = unOutData c" "chan_id (fill_slot n p s c) = chan_id c"
  by (simp_all add: fill_slot_def Let_def)

lemma fill_slot_shape [simp]: "chan_shape (fill_slot n p s c) = chan_shape c" "chan_rep (fill_slot n p s c) xs = chan_rep c xs"
  by (simp_all add: chan_shape_def chan_rep_def)

lemma busy_rep [simp]:
  "chan_rep (c\<lparr>unInData := (unInData c)\<lparr>u32BusyCnt := b\<rparr>\<rparr>) xs = chan_rep c xs"
  "chan_shape (c\<lparr>unInData := (unInData c)\<lparr>u32BusyCnt := b\<rparr>\<rparr>) = chan_shape c"
  by (simp_all add: chan_shape_def chan_rep_def)

text \<open>The descriptors a slot must hold for a task: addresses and length, the end-of-list flag on
  both, and the vector exactly when it has changed.\<close>

definition slot_for :: "nat \<Rightarrow> cipher_info \<Rightarrow> cipher_softchan \<Rightarrow> cipher_chan \<Rightarrow> bool" where
  "slot_for n p s c \<longleftrightarrow>
     u32DataAddr (pstInBuf c ! n) = u32src p \<and> u32DataAddr (pstOutBuf c ! n) = u32dest p \<and>
     U32DataLen (pstInBuf c ! n) = u32length p \<and> U32DataLen (pstOutBuf c ! n) = u32length p \<and>
     bit (u32Flags (pstInBuf c ! n)) 22 \<and> bit (u32Flags (pstOutBuf c ! n)) 22 \<and>
     bit (u32Flags (pstInBuf c ! n)) 21 = bIVChange s \<and>
     (bIVChange s \<longrightarrow> u32IVStartAddr (pstInBuf c ! n) = fst (astCipherIVValue c ! n) \<and>
        snd (astCipherIVValue c ! n) = take 4 (u32IV (stCtrl s)))"

lemma bit_ci_flag: "bit (ci_flag k) n \<longleftrightarrow> k = n \<and> n < 32"
  by (auto simp: ci_flag_def bit_exp_iff possible_bit_def)

lemma fill_slot_for:
  assumes "n < length (pstInBuf c)" "n < length (pstOutBuf c)" "n < length (astCipherIVValue c)"
  shows "slot_for n p s (fill_slot n p s c)"
  using assms
  by (simp add: slot_for_def fill_slot_def Let_def bit_or_iff bit_and_iff bit_not_iff bit_ci_flag possible_bit_def)

lemma tag_slot_slot_for [simp]: "slot_for n p s (tag_slot x arg c) = slot_for n p s c"
  by (simp add: slot_for_def tag_slot_def Let_def)

lemma submit_rep:
  assumes "drv_ok d" "unat s < 8" "s \<noteq> 0" "u32HardWareChn (soft_of d s) = s" "chan_rep (chan_of d s) xs" "length xs < 128"
    and "length (pstInBuf (chan_of d s)) = 128" "length (pstOutBuf (chan_of d s)) = 128" "in_busy s (ci_reg_file d) < CI_MAX_LIST_NUM"
  shows "fst (DRV_CipherStartMultiPkgChn s p arg d) = HI_SUCCESS \<and>
    (let d' = snd (DRV_CipherStartMultiPkgChn s p arg d); n = unat (u32CurrentPtr (unInData (chan_of d s)))
     in slot_for n p (soft_of d s) (chan_of d' s) \<and> chan_rep (chan_of d' s) (xs @ [s]) \<and>
        soft_of d' s = (soft_of d s)\<lparr>bKeyChange := False, bIVChange := False, u32PirvateData := arg\<rparr> \<and>
        ci_reg_file d' (REG_CI_CHANn IBUF_CNT s) = 1 \<and> ci_calls d' = ci_calls d \<and> drv_ok d' \<and>
        (\<forall>i. i \<noteq> s \<longrightarrow> chan_of d' i = chan_of d i \<and> soft_of d' i = soft_of d i))"
proof -
  let ?S = "soft_of d s" and ?C = "chan_of d s"
  define c where "c = ?C\<lparr>unInData := (unInData ?C)\<lparr>u32BusyCnt := in_busy s (ci_reg_file d)\<rparr>\<rparr>"
  define n where "n = unat (u32CurrentPtr (unInData ?C))"
  define t where "t = tag_slot s arg (fill_slot n p ?S c)"
  define g where "g r = (if bKeyChange ?S then HAL_Cipher_SetKey s (stCtrl ?S) r else r)" for r
  let ?T = "?S\<lparr>bKeyChange := False, bIVChange := False, u32PirvateData := arg\<rparr>"
  note len = drv_okD(4,5) [OF assms(1,2)]
  have n: "n < 128" and iv: "length (astCipherIVValue ?C) = 128" using drv_okD(2) [OF assms(1,2)] by (auto simp: chan_shape_def n_def)
  let ?d = "hal (HAL_Cipher_SetInBufCnt s 1) (put_chan s t (put_soft s ?T
      (hal (HAL_Cipher_Config s (bDecrypt p) (bIVChange ?S) (stCtrl ?S)) (hal_reg g (put_chan s c d)))))"
  have gg: "hal_reg g x = (if bKeyChange ?S then hal_reg (HAL_Cipher_SetKey s (stCtrl ?S)) x else x)" for x
    by (simp add: g_def hal_reg_def)
  have run: "DRV_CipherStartMultiPkgChn s p arg d = (HI_SUCCESS, ?d)"
    using assms(2,9) len unfolding DRV_CipherStartMultiPkgChn_def assms(4) Let_def c_def [symmetric] gg
    by (simp add: t_def n_def HAL_Cipher_Config_def Let_def, simp add: c_def)
  have "chan_rep t (xs @ [s])" unfolding t_def by (rule tag_slot_rep) (use assms in \<open>simp_all add: c_def\<close>)
  moreover have "slot_for n p ?S t" unfolding t_def tag_slot_slot_for
    by (rule fill_slot_for) (use assms n iv in \<open>simp_all add: c_def\<close>)
  moreover have "chan_id t = s" using drv_okD(1) [OF assms(1,2)] by (simp add: t_def tag_slot_def Let_def c_def)
  moreover have "chan_shape t" using \<open>chan_rep t (xs @ [s])\<close> by (simp add: chan_rep_def)
  moreover have "chan_id c = s" "chan_shape c" using drv_okD [OF assms(1,2)] by (simp_all add: c_def)
  ultimately show ?thesis unfolding run using assms(1-4) len
    by (simp add: Let_def n_def drv_ok_put_chan drv_ok_put_soft HAL_Cipher_SetInBufCnt_def hal_put_def)
qed


section \<open>The register file after the channels are programmed\<close>

lemma reg_ne_high: "unat n < 8 \<Longrightarrow> unat off < 128 \<Longrightarrow> 5120 \<le> unat w \<Longrightarrow> REG_CI_CHANn off n \<noteq> w"
  using unat_reg [of n off] by auto

lemma reg_ne_int [simp]: "unat n < 8 \<Longrightarrow> unat off < 128 \<Longrightarrow> REG_CI_CHANn off n \<noteq> REG_CI_INT_EN"
  by (rule reg_ne_high) simp_all

definition program_regs :: "u32 \<Rightarrow> u32 \<Rightarrow> ci_regs \<Rightarrow> ci_regs" where
  "program_regs iv0 hw r =
    (let r = snd (HAL_Cipher_SetBufAddr hw IN_BUF (iv0 + ivbufSizeChn) r);
         r = snd (HAL_Cipher_SetBufAddr hw OUT_BUF (iv0 + ivbufSizeChn + databufSizeChn) r);
         r = snd (HAL_Cipher_SetInBufNum hw CI_MAX_LIST_NUM r);
         r = snd (HAL_Cipher_SetInBufCnt hw 0 r);
         r = snd (HAL_Cipher_SetOutBufNum hw CI_MAX_LIST_NUM r);
         r = snd (HAL_Cipher_SetOutBufCnt hw CI_MAX_LIST_NUM r);
         r = snd (HAL_Cipher_SetAGEThreshold hw OUT_BUF 0 r);
         r = snd (HAL_Cipher_SetAGEThreshold hw IN_BUF 0 r)
     in snd (HAL_Cipher_DisableInt hw (OUT_BUF OR IN_BUF) r))"

lemma program_chan_regs: "program_chan hw d = hal_reg (program_regs (fst (astCipherIVValue (chan_of d hw) ! 0)) hw) d"
  unfolding program_chan_def DRV_CipherInitHardWareChn_def program_regs_def Let_def by (simp only: hal_hal_reg hal_simps snd_conv)

lemma disable_other: "a \<noteq> REG_CI_INT_EN \<Longrightarrow> snd (HAL_Cipher_DisableInt hw t r) a = r a"
  by (simp add: HAL_Cipher_DisableInt_def Let_def)

lemma disable_zero: "r REG_CI_INT_EN = 0 \<Longrightarrow> snd (HAL_Cipher_DisableInt hw t r) REG_CI_INT_EN = 0"
  by (simp add: HAL_Cipher_DisableInt_def Let_def)

lemmas hal_put_ops = HAL_Cipher_SetInBufNum_def HAL_Cipher_SetInBufCnt_def HAL_Cipher_SetOutBufNum_def
  HAL_Cipher_SetOutBufCnt_def HAL_Cipher_SetAGEThreshold_def HAL_Cipher_SetBufAddr_def hal_put_def Let_def

lemma program_regs_addr:
  assumes "unat hw < 8" "hw \<noteq> 0"
  shows "program_regs iv0 hw r (REG_CI_CHANn SRC_LST_SADDR hw) = iv0 + 2048"
    "program_regs iv0 hw r (REG_CI_CHANn DEST_LST_SADDR hw) = iv0 + 4096"
    "same_chans hw r (program_regs iv0 hw r)" "r REG_CI_INT_EN = 0 \<Longrightarrow> program_regs iv0 hw r REG_CI_INT_EN = 0"
proof -
  show "program_regs iv0 hw r (REG_CI_CHANn SRC_LST_SADDR hw) = iv0 + 2048"
    "program_regs iv0 hw r (REG_CI_CHANn DEST_LST_SADDR hw) = iv0 + 4096"
    using assms by (simp_all add: program_regs_def hal_put_ops disable_other reg_eq_iff)
  show "same_chans hw r (program_regs iv0 hw r)"
    using assms by (simp add: same_chans_def program_regs_def hal_put_ops disable_other reg_eq_iff)
  have ne: "REG_CI_INT_EN \<noteq> REG_CI_CHANn off hw" if "unat off < 128" for off using reg_ne_int [OF assms(1) that] by metis
  show "program_regs iv0 hw r REG_CI_INT_EN = 0" if "r REG_CI_INT_EN = 0"
    unfolding program_regs_def Let_def
    by (rule disable_zero) (use that assms ne in \<open>simp add: hal_put_ops\<close>)
qed

text \<open>A channel laid out at \<open>phy\<close>: its vectors and the addresses the engine has.\<close>

definition laid_out :: "u32 \<Rightarrow> u32 \<Rightarrow> cipher_drv \<Rightarrow> bool" where
  "laid_out phy i d \<longleftrightarrow>
     chan_of d (i + 1) = layout_chan phy i (zero_chan\<lparr>chan_id := i + 1\<rparr>) \<and>
     ci_reg_file d (REG_CI_CHANn SRC_LST_SADDR (i + 1)) = phy + i * 6144 + 2048 \<and>
     ci_reg_file d (REG_CI_CHANn DEST_LST_SADDR (i + 1)) = phy + i * 6144 + 4096"

lemma layout_chan_simps [simp]:
  "fst (astCipherIVValue (layout_chan phy i c) ! 0) = phy + i * 6144" "chan_id (layout_chan phy i c) = chan_id c"
  by (simp_all add: layout_chan_def Let_def nth_map [of 0 "[0..<128]"] del: upt_rec_numeral)

lemma init_chans_ok:
  assumes "distinct is" "\<forall>i \<in> set is. unat i < 7 \<and> chan_of d (i + 1) = zero_chan\<lparr>chan_id := i + 1\<rparr>"
    and "length (g_stCipherChans d) = 8" "ci_reg_file d REG_CI_INT_EN = 0"
  shows "(\<forall>i \<in> set is. laid_out phy i (init_chans phy is d)) \<and> length (g_stCipherChans (init_chans phy is d)) = 8 \<and>
    g_stCipherSoftChans (init_chans phy is d) = g_stCipherSoftChans d \<and> ci_calls (init_chans phy is d) = ci_calls d \<and>
    ci_reg_file (init_chans phy is d) REG_CI_INT_EN = 0 \<and>
    (\<forall>j. unat j < 8 \<longrightarrow> j \<notin> (\<lambda>i. i + 1) ` set is \<longrightarrow> chan_of (init_chans phy is d) j = chan_of d j \<and>
       (\<forall>off. unat off < 128 \<longrightarrow> ci_reg_file (init_chans phy is d) (REG_CI_CHANn off j) = ci_reg_file d (REG_CI_CHANn off j)))"
  using assms
proof (induction "is" arbitrary: d)
  case Nil
  then show ?case by simp
next
  case (Cons i "is")
  have i: "unat (i + 1) < 8" "i + 1 \<noteq> 0" "unat (i + 1) < length (g_stCipherChans d)"
  proof -
    have "unat i < 7" using Cons.prems by simp
    then have "unat (i + 1) = unat i + 1" by (simp add: unat_word_ariths)
    with \<open>unat i < 7\<close> show "unat (i + 1) < 8" "unat (i + 1) < length (g_stCipherChans d)" using Cons.prems by simp_all
    from \<open>unat (i + 1) = unat i + 1\<close> show "i + 1 \<noteq> 0" by (metis add_eq_0_iff_both_eq_0 unsigned_0 zero_neq_one)
  qed
  let ?c = "layout_chan phy i (chan_of d (i + 1))"
  let ?d = "program_chan (i + 1) (put_chan (i + 1) ?c d)"
  have d: "?d = hal_reg (program_regs (phy + i * 6144) (i + 1)) (put_chan (i + 1) ?c d)"
    using i(3) by (simp add: program_chan_regs)
  note p = program_regs_addr [OF i(1,2), where ?iv0.0 = "phy + i * 6144" and r = "ci_reg_file d"]
  have other: "j + 1 \<noteq> i + 1" if "j \<in> set is" for j using that Cons.prems(1) by auto
  have lo: "laid_out phy i ?d" using Cons.prems(2) i(3) p(1,2) unfolding d laid_out_def by (simp add: add.assoc)
  from Cons.IH [of ?d] have IH: "(\<forall>i \<in> set is. laid_out phy i (init_chans phy is ?d)) \<and> length (g_stCipherChans (init_chans phy is ?d)) = 8 \<and>
    g_stCipherSoftChans (init_chans phy is ?d) = g_stCipherSoftChans ?d \<and> ci_calls (init_chans phy is ?d) = ci_calls ?d \<and>
    ci_reg_file (init_chans phy is ?d) REG_CI_INT_EN = 0 \<and>
    (\<forall>j. unat j < 8 \<longrightarrow> j \<notin> (\<lambda>i. i + 1) ` set is \<longrightarrow> chan_of (init_chans phy is ?d) j = chan_of ?d j \<and>
       (\<forall>off. unat off < 128 \<longrightarrow> ci_reg_file (init_chans phy is ?d) (REG_CI_CHANn off j) = ci_reg_file ?d (REG_CI_CHANn off j)))"
    using Cons.prems other i(3) p(4) unfolding d by auto
  have "i + 1 \<notin> (\<lambda>i. i + 1) ` set is" using Cons.prems(1) by auto
  then have "laid_out phy i (init_chans phy is ?d)" using IH lo i(1) by (simp add: laid_out_def)
  moreover have "chan_of ?d j = chan_of d j" "unat off < 128 \<Longrightarrow> ci_reg_file ?d (REG_CI_CHANn off j) = ci_reg_file d (REG_CI_CHANn off j)"
    if "unat j < 8" "j \<noteq> i + 1" for j off
    using that p(3) i(3) unfolding d by (auto simp: same_chans_def)
  moreover have "init_chans phy (i # is) d = init_chans phy is ?d" by (simp add: Let_def)
  moreover have "g_stCipherSoftChans ?d = g_stCipherSoftChans d" "ci_calls ?d = ci_calls d" unfolding d by simp_all
  ultimately show ?case using IH by auto
qed

section \<open>Properties\<close>

text \<open>The three regions of ring \<open>i + 1\<close>: vectors, input and output descriptors, 2048 bytes each.\<close>

definition region_base :: "cipher_drv \<Rightarrow> nat \<Rightarrow> nat \<Rightarrow> nat" where
  "region_base d i k =
    (let hw = of_nat (i + 1)
     in unat (if k = 0 then fst (astCipherIVValue (chan_of d hw) ! 0)
              else if k = 1 then ci_reg_file d (REG_CI_CHANn SRC_LST_SADDR hw)
              else ci_reg_file d (REG_CI_CHANn DEST_LST_SADDR hw)))"

definition init_base :: "cipher_drv \<Rightarrow> cipher_drv" where
  "init_base d = (hal_reg HAL_Cipher_DisableAllInt (d\<lparr>g_stCipherSoftChans := replicate 8 zero_soft\<rparr>))
     \<lparr>g_stCipherChans := map (\<lambda>i. zero_chan\<lparr>chan_id := of_nat i\<rparr>) [0..<8]\<rparr>"

lemma init_base_simps:
  "unat j < 8 \<Longrightarrow> chan_of (init_base d) j = zero_chan\<lparr>chan_id := j\<rparr>" "unat j < 8 \<Longrightarrow> soft_of (init_base d) j = zero_soft"
  "length (g_stCipherChans (init_base d)) = 8" "length (g_stCipherSoftChans (init_base d)) = 8"
  "ci_reg_file (init_base d) REG_CI_INT_EN = 0" "ci_calls (init_base d) = ci_calls d"
  by (simp_all add: init_base_def hal_reg_def chan_of_def soft_of_def HAL_Cipher_DisableAllInt_def del: upt_rec_numeral)

lemma init_run:
  "DRV_Cipher_Init (Some phy) 0 d =
    (HI_SUCCESS, hal_reg (HAL_Cipher_ClrIntState 0xffffffff) (init_chans phy [0, 1, 2, 3, 4, 5, 6] (init_base d)))"
proof -
  have m: "map (\<lambda>i. (replicate 8 zero_chan ! i)\<lparr>chan_id := of_nat i\<rparr>) [0..<8] = map (\<lambda>i. zero_chan\<lparr>chan_id := of_nat i\<rparr>) [0..<8]"
    by (rule map_cong) auto
  show ?thesis
    by (simp add: DRV_Cipher_Init_def Let_def init_base_def hal_reg_def m del: upt_rec_numeral init_chans.simps map_eq_conv)
qed

lemma init_result:
  fixes phy :: u32 and d :: cipher_drv
  defines "d' \<equiv> snd (DRV_Cipher_Init (Some phy) 0 d)"
  shows "\<forall>i \<in> {0, 1, 2, 3, 4, 5, 6}. laid_out phy i d'" "chan_of d' 0 = zero_chan" "length (g_stCipherChans d') = 8"
    "g_stCipherSoftChans d' = replicate 8 zero_soft" "ci_reg_file d' REG_CI_INT_EN = 0"
proof -
  let ?is = "[0, 1, 2, 3, 4, 5, 6] :: u32 list" and ?e = "init_chans phy [0, 1, 2, 3, 4, 5, 6] (init_base d)"
  have d': "d' = hal_reg (HAL_Cipher_ClrIntState 0xffffffff) ?e" by (simp add: d'_def init_run del: init_chans.simps)
  have raw: "REG_CI_CHANn off hw \<noteq> REG_CI_INT_RAW" if "unat hw < 8" "unat off < 128" for hw off
    by (rule reg_ne_high) (use that in simp_all)
  have hyp: "\<forall>i \<in> set ?is. unat i < 7 \<and> chan_of (init_base d) (i + 1) = zero_chan\<lparr>chan_id := i + 1\<rparr>"
    using init_base_simps(1) by simp
  have n: "0 \<notin> (\<lambda>i. i + 1) ` set ?is" by simp
  note I = init_chans_ok [OF _ hyp init_base_simps(3) init_base_simps(5), of phy]
  show "\<forall>i \<in> {0, 1, 2, 3, 4, 5, 6}. laid_out phy i d'"
    using I unfolding d' laid_out_def hal_simps HAL_Cipher_ClrIntState_def by (simp add: raw del: init_chans.simps)
  have "chan_of ?e 0 = chan_of (init_base d) 0" using I n by (simp del: init_chans.simps)
  then show "chan_of d' 0 = zero_chan" unfolding d' using init_base_simps(1) [of 0 d] by (simp add: zero_chan_def del: init_chans.simps)
  show "length (g_stCipherChans d') = 8" "ci_reg_file d' REG_CI_INT_EN = 0"
    using I unfolding d' by (simp_all add: HAL_Cipher_ClrIntState_def del: init_chans.simps)
  have "g_stCipherSoftChans ?e = g_stCipherSoftChans (init_base d)" using I by (simp del: init_chans.simps)
  then show "g_stCipherSoftChans d' = replicate 8 zero_soft" unfolding d' by (simp add: init_base_def del: init_chans.simps)
qed

lemma chan_cases:
  assumes "unat (j :: u32) < 8"
  shows "j = 0 \<or> (\<exists>i \<in> {0, 1, 2, 3, 4, 5, 6}. j = i + 1)"
proof -
  have "unat j = 0 \<or> unat j = 1 \<or> unat j = 2 \<or> unat j = 3 \<or> unat j = 4 \<or> unat j = 5 \<or> unat j = 6 \<or> unat j = 7"
    using assms by linarith
  then have "j = 0 \<or> j = 1 \<or> j = 2 \<or> j = 3 \<or> j = 4 \<or> j = 5 \<or> j = 6 \<or> j = 7" by (simp add: word_unat_eq_iff)
  then show ?thesis by auto
qed

lemma zero_chan_shape: "chan_shape zero_chan" "chan_rep zero_chan []"
  by (simp_all add: chan_shape_def chan_rep_def zero_chan_def zero_mng_def)

lemma layout_rep: "chan_rep (layout_chan phy i (zero_chan\<lparr>chan_id := k\<rparr>)) []"
  by (simp add: chan_shape_def chan_rep_def layout_chan_def Let_def zero_chan_def zero_mng_def)

lemma init_rep:
  assumes "unat j < 8"
  shows "chan_rep (chan_of (snd (DRV_Cipher_Init (Some phy) 0 d)) j) []" "chan_id (chan_of (snd (DRV_Cipher_Init (Some phy) 0 d)) j) = j"
  using chan_cases [OF assms] init_result(1,2) [of phy d] layout_rep zero_chan_shape
  by (auto simp: laid_out_def zero_chan_def simp del: init_chans.simps)

lemma init_drv_ok: "drv_ok (snd (DRV_Cipher_Init (Some phy) 0 d))"
proof -
  let ?d = "snd (DRV_Cipher_Init (Some phy) 0 d)"
  have "soft_of ?d i = zero_soft" if "unat i < 8" for i
    using that init_result(4) [of phy d] by (simp add: soft_of_def del: replicate.simps)
  then show ?thesis unfolding drv_ok_def using init_rep [of _ phy d] init_result(3,4) [of phy d]
    by (auto simp: chan_rep_def zero_soft_def)
qed

lemma unat_of_nat_u32: "n < 2 ^ 32 \<Longrightarrow> unat (of_nat n :: u32) = n"
  by (simp add: unat_of_nat)

lemma region_base_init:
  assumes "unat phy + 43008 \<le> 2 ^ 32" "i < 7" "k < 3"
  shows "region_base (snd (DRV_Cipher_Init (Some phy) 0 d)) i k = unat phy + 6144 * i + 2048 * k"
proof -
  let ?d = "snd (DRV_Cipher_Init (Some phy) 0 d)"
  have "(of_nat i :: u32) \<in> {0, 1, 2, 3, 4, 5, 6}" using assms(2) by (auto simp: less_Suc_eq numeral_eq_Suc)
  then have lo: "laid_out phy (of_nat i) ?d" using init_result(1) [of phy d] by blast
  have iv: "fst (astCipherIVValue (chan_of ?d (of_nat i + 1)) ! 0) = phy + of_nat i * 6144"
    using lo by (simp add: laid_out_def)
  have n: "unat phy + 6144 * i + 2048 * k < 2 ^ 32" using assms by linarith
  have e: "unat (phy + of_nat i * 6144 + w) = unat phy + 6144 * i + 2048 * k" if "w = of_nat (2048 * k)" for w
  proof -
    have eq: "phy + of_nat i * 6144 + w = of_nat (unat phy + 6144 * i + 2048 * k)"
      by (simp add: that mult.commute)
    show ?thesis unfolding eq by (rule unat_of_nat_u32 [OF n])
  qed
  consider "k = 0" | "k = 1" | "k = 2" using assms(3) by linarith
  then show ?thesis
  proof cases
    case 1
    then show ?thesis using e [of 0] iv by (simp add: region_base_def Let_def add.commute)
  next
    case 2
    then show ?thesis using e [of 2048] lo by (simp add: region_base_def Let_def laid_out_def add.commute)
  next
    case 3
    then show ?thesis using e [of 4096] lo by (simp add: region_base_def Let_def laid_out_def add.commute)
  qed
qed


lemma isr_rep:
  assumes "drv_ok d" "v = ci_reg_file d REG_CI_INT_STATUS"
    and "\<forall>i \<in> {1, 2, 3, 4, 5, 6, 7}. chan_rep (chan_of d i) (Q i) \<and> (raised v i \<longrightarrow> done_count d i \<le> length (Q i))"
  shows "\<exists>d'. DRV_Cipher_ISR d = Some d' \<and>
    ci_calls d' = ci_calls d @ (if bit v 8 then tag_calls d 0 else []) @ concat (map (owed v Q d) [1, 2, 3, 4, 5, 6, 7]) \<and>
    (\<forall>i \<in> {1, 2, 3, 4, 5, 6, 7}. chan_rep (chan_of d' i) (left v Q d i)) \<and> g_stCipherSoftChans d' = g_stCipherSoftChans d"
proof -
  let ?is = "[1, 2, 3, 4, 5, 6, 7] :: u32 list"
  define d1 where "d1 = add_calls (if bit v 8 then tag_calls d 0 else []) (hal_reg (HAL_Cipher_ClrIntState v) d)"
  have b: "drop_bit 8 v AND 0x1 \<noteq> 0 \<longleftrightarrow> bit v 8" by (simp add: bit_iff_odd_drop_bit and_one_eq odd_iff_mod_2_eq_one)
  have c0: "call_back (soft_of d 0) (hal_reg g d) = add_calls (tag_calls d 0) (hal_reg g d)" for g
    using call_back_add [of "hal_reg g d" 0] by simp
  have run: "DRV_Cipher_ISR d = isr_chans v ?is d1"
    unfolding DRV_Cipher_ISR_def Let_def HAL_Cipher_GetIntState_def assms(2) [symmetric] b d1_def DRV_CipherDataDoneSinglePkg_def
    by (simp add: c0 del: isr_chans.simps)
  have raw: "REG_CI_CHANn off hw \<noteq> REG_CI_INT_RAW" if "unat hw < 8" "unat off < 128" for hw off
    by (rule reg_ne_high) (use that in simp_all)
  have cnt: "done_count d1 i = done_count d i" if "i \<in> set ?is" for i
    using that by (auto simp: d1_def done_count_def HAL_Cipher_ClrIntState_def raw)
  have tc: "tag_calls d1 = tag_calls d" by (simp add: d1_def tag_calls_def fun_eq_iff split: option.split)
  have eq: "owed v Q d1 i = owed v Q d i" "left v Q d1 i = left v Q d i" if "i \<in> set ?is" for i
    using cnt [OF that] tc by (simp_all add: owed_def left_def)
  have pre: "\<forall>i \<in> set ?is. i \<noteq> 0 \<and> unat i < 8 \<and> chan_rep (chan_of d1 i) (Q i) \<and> (raised v i \<longrightarrow> done_count d1 i \<le> length (Q i))"
  proof
    fix i assume i: "i \<in> set ?is"
    then have "i \<noteq> 0 \<and> unat i < 8" by auto
    moreover have "chan_of d1 i = chan_of d i" by (simp add: d1_def)
    ultimately show "i \<noteq> 0 \<and> unat i < 8 \<and> chan_rep (chan_of d1 i) (Q i) \<and> (raised v i \<longrightarrow> done_count d1 i \<le> length (Q i))"
      using assms(3) i cnt [OF i] by (simp only: list.set) auto
  qed
  have l: "length (g_stCipherChans d1) = 8" using assms(1) by (simp add: d1_def drv_ok_def)
  have dis: "distinct ?is" by simp
  have m: "map (owed v Q d1) ?is = map (owed v Q d) ?is" unfolding map_eq_conv using eq(1) by blast
  from isr_chans_rep [OF dis pre l] show ?thesis unfolding run m
    using eq(2) by (auto simp: d1_def simp del: isr_chans.simps)
qed


text \<open>A completed slot leaves the submission side alone and never revives a tag.\<close>

lemma take_tag_keeps:
  "unInData (snd (take_tag c)) = unInData c"
  "au32WitchSoftChn c ! k = CIPHER_INVALID_CHN \<Longrightarrow> k < length (au32WitchSoftChn c) \<Longrightarrow>
     au32WitchSoftChn (snd (take_tag c)) ! k = CIPHER_INVALID_CHN"
  "length (au32WitchSoftChn (snd (take_tag c))) = length (au32WitchSoftChn c)"
  by (simp add: take_tag_def Let_def out_ptr_def)
     (cases "unat (u32CurrentPtr (unOutData c)) = k", simp_all add: take_tag_def Let_def out_ptr_def)

lemma ci_deq_pair: "ci_deq (c, k) = (fst (take_tag c), snd (take_tag c), k - 1)" by (simp add: ci_deq_def)

lemma deq_n_keeps:
  assumes "deq_n ci_deq n (c, k) = (ts, c', k')"
  shows "unInData c' = unInData c" "length (au32WitchSoftChn c') = length (au32WitchSoftChn c)"
    "j < length (au32WitchSoftChn c) \<Longrightarrow> au32WitchSoftChn c ! j = CIPHER_INVALID_CHN \<Longrightarrow> au32WitchSoftChn c' ! j = CIPHER_INVALID_CHN"
proof -
  have "unInData c' = unInData c \<and> length (au32WitchSoftChn c') = length (au32WitchSoftChn c) \<and>
    (j < length (au32WitchSoftChn c) \<longrightarrow> au32WitchSoftChn c ! j = CIPHER_INVALID_CHN \<longrightarrow> au32WitchSoftChn c' ! j = CIPHER_INVALID_CHN)"
    using assms
  proof (induction n arbitrary: c k ts)
    case (Suc n)
    then obtain us where "deq_n ci_deq n (snd (take_tag c), k - 1) = (us, c', k')"
      by (auto simp: ci_deq_pair split: prod.splits)
    from Suc.IH [OF this] show ?case using take_tag_keeps by simp
  qed simp
  then show "unInData c' = unInData c" "length (au32WitchSoftChn c') = length (au32WitchSoftChn c)"
    "j < length (au32WitchSoftChn c) \<Longrightarrow> au32WitchSoftChn c ! j = CIPHER_INVALID_CHN \<Longrightarrow> au32WitchSoftChn c' ! j = CIPHER_INVALID_CHN"
    by auto
qed

lemma done_loop_add:
  "done_loop (m + n) chn idx d = (case done_loop m chn idx d of None \<Rightarrow> None | Some (i, d) \<Rightarrow> done_loop n chn i d)"
  by (induction m arbitrary: idx d) (auto split: option.splits)

text \<open>The completion routine trusts the engine's count. If a ring reports more finished packages than
  are queued and the next slot was completed before (its tag is the invalid channel number), the
  routine uses that number as an index: it leaves the array of software channels.\<close>
theorem cipher_spurious_done:
  assumes "drv_ok d" "unat chn < 8" "chn \<noteq> 0" "chan_rep (chan_of d chn) xs" "length xs < done_count d chn"
    and "au32WitchSoftChn (chan_of d chn) ! ((unat (u32CurrentPtr (unOutData (chan_of d chn))) + length xs) mod 128) = CIPHER_INVALID_CHN"
  shows "DRV_CipherDataDoneMultiPkg chn d = None"
proof -
  let ?c = "chan_of d chn"
  let ?o = "u32CurrentPtr (unOutData ?c)"
  let ?k = "(unat ?o + length xs) mod 128"
  have w: "length (au32WitchSoftChn ?c) = 128" "unat (u32CurrentPtr (unInData ?c)) = ?k" "chan_shape ?c"
    using assms(4) by (auto simp: chan_rep_def chan_shape_def)
  have l: "unat chn < length (g_stCipherChans d)" using drv_okD(4) [OF assms(1,2)] assms(2) by simp
  have "ci_rep (?c, length xs) xs" using assms(4) by (simp add: ci_rep_def)
  from ciq.deq_n_rep [OF this order.refl] obtain c' k' where q: "deq_n ci_deq (length xs) (?c, length xs) = (xs, c', k')" "chan_rep c' []"
    by (auto simp: ci_rep_def prod_eq_iff)
  have "\<forall>t \<in> set xs. unat t < 8" using assms(4) by (simp add: chan_rep_def)
  with done_loop_deq [of chn d ?o "length xs" "length xs" xs c' k'] q(1) l w(3)
  obtain idx c where c: "done_loop (length xs) chn ?o d = Some (idx, add_calls (concat (map (tag_calls d) xs)) (put_chan chn c d))"
    "out_ptr idx c = c'" by auto
  have idx: "unat idx = ?k" using q(2) deq_n_keeps(1) [OF q(1)] w(2) c(2) [symmetric] by (auto simp: chan_rep_def chan_shape_def)
  have tag: "au32WitchSoftChn c ! unat idx = CIPHER_INVALID_CHN"
    using deq_n_keeps(3) [OF q(1), of ?k] assms(6) w(1) idx c(2) [symmetric] by simp
  have stop: "done_loop (Suc m) chn idx (add_calls cs (put_chan chn c d)) = None" for m cs
    using tag l by (auto simp: done_turn_def Let_def word_le_nat_alt)
  obtain m where m: "done_count d chn = length xs + Suc m" using assms(5) less_iff_Suc_add by fastforce
  have "done_loop (done_count d chn) chn ?o d = None" unfolding m done_loop_add c(1) option.case prod.case by (rule stop)
  moreover have "ci_reg_file d (REG_CI_CHANn OFULL_CNT chn) > 0"
    using assms(5) by (simp add: done_count_def word_less_nat_alt)
  ultimately show ?thesis using assms(3)
    by (simp add: DRV_CipherDataDoneMultiPkg_def HAL_Cipher_GetOutBufFull_def hal_get_def done_count_def)
qed

lemma open_int:
  assumes "drv_ok d" "unat s < 8" "s \<noteq> 0"
  shows "bit (ci_reg_file (snd (DRV_Cipher_OpenChn s d)) REG_CI_INT_EN) (8 + unat s)"
proof -
  note len = drv_okD(4,5) [OF assms(1,2)]
  have "ci_reg_file (snd (DRV_Cipher_OpenChn s d)) REG_CI_INT_EN =
      snd (HAL_Cipher_EnableInt s OUT_BUF (snd (HAL_Cipher_SetIntThreshold s OUT_BUF CIPHER_DEFAULT_INT_NUM (ci_reg_file d)))) REG_CI_INT_EN"
    using assms(2) len drv_okD(1) [OF assms(1,2)] by (simp add: DRV_Cipher_OpenChn_def Let_def)
  also have "bit \<dots> (8 + unat s)"
    using assms(2,3) unfolding HAL_Cipher_EnableInt_def Let_def int_bit_def [symmetric] add_0 unat_8_plus [OF assms(2)]
    by (simp add: bit_or_iff bit_int_bit)
  finally show ?thesis .
qed

text \<open>Resuming after a power-down switches every interrupt of the engine off and none on again, while
  the software channels stay open: a channel opened before, whose completion interrupt was on,
  gets no completion any more.\<close>
theorem cipher_resume_deaf:
  assumes "drv_ok d" "unat s < 8" "s \<noteq> 0"
  shows "let d1 = snd (DRV_Cipher_OpenChn s d); d2 = DRV_Cipher_Resume (DRV_Cipher_Suspend d1)
    in bOpen (soft_of d1 s) \<and> bit (ci_reg_file d1 REG_CI_INT_EN) (8 + unat s) \<and>
       bOpen (soft_of d2 s) \<and> ci_reg_file d2 REG_CI_INT_EN = 0"
proof -
  note len = drv_okD(4,5) [OF assms(1,2)]
  let ?d1 = "snd (DRV_Cipher_OpenChn s d)"
  have id: "chan_id (chan_of d s) = s" by (rule drv_okD(1) [OF assms(1,2)])
  have o: "bOpen (soft_of ?d1 s)" using assms(2) len by (simp add: DRV_Cipher_OpenChn_def Let_def)
  have "bit (ci_reg_file ?d1 REG_CI_INT_EN) (8 + unat s)" by (rule open_int [OF assms])
  moreover have "g_stCipherSoftChans (fold (\<lambda>i d. program_chan (i + 1) d) is x) = g_stCipherSoftChans x" for "is" x
    by (induction "is" arbitrary: x) (simp_all add: program_chan_regs)
  then have "soft_of (DRV_Cipher_Resume (DRV_Cipher_Suspend ?d1)) s = soft_of ?d1 s"
    unfolding DRV_Cipher_Resume_def DRV_Cipher_Suspend_def Let_def hal_simps by (simp only: soft_of_def hal_simps)
  moreover have "ci_reg_file (DRV_Cipher_Resume (DRV_Cipher_Suspend ?d1)) REG_CI_INT_EN = 0"
    by (simp add: DRV_Cipher_Resume_def DRV_Cipher_Suspend_def Let_def HAL_Cipher_ClrIntState_def HAL_Cipher_DisableAllInt_def)
  ultimately show ?thesis using o by (simp add: Let_def)
qed

section \<open>Every operation keeps the invariant\<close>

lemma drv_ok_regs [simp]: "drv_ok (d\<lparr>ci_reg_file := r\<rparr>) = drv_ok d" by (simp add: drv_ok_def chan_of_def soft_of_def)

lemma open_ok: "drv_ok d \<Longrightarrow> unat s < 8 \<Longrightarrow> drv_ok (snd (DRV_Cipher_OpenChn s d))"
  by (auto simp: DRV_Cipher_OpenChn_def Let_def drv_okD(5) intro!: drv_ok_put_soft)

lemma close_ok: "drv_ok d \<Longrightarrow> unat s < 8 \<Longrightarrow> drv_ok (snd (DRV_Cipher_CloseChn s d))"
  using drv_okD(3) [of d s] by (auto simp: DRV_Cipher_CloseChn_def intro!: drv_ok_put_soft)

lemma config_ok: "drv_ok d \<Longrightarrow> unat s < 8 \<Longrightarrow> drv_ok (snd (DRV_Cipher_ConfigChn s c f d))"
  using drv_okD(3) [of d s] by (auto simp: DRV_Cipher_ConfigChn_def Let_def drv_okD(5) intro!: drv_ok_put_soft)

lemma tag_slot_shape: "chan_shape c \<Longrightarrow> chan_shape (tag_slot x arg c)"
  by (simp add: chan_shape_def tag_slot_def Let_def unat_ptr_next)

lemma tag_slot_id [simp]: "chan_id (tag_slot x arg c) = chan_id c" by (simp add: tag_slot_def Let_def)

lemma multi_ok:
  assumes "drv_ok d" "unat s < 8"
  shows "drv_ok (snd (DRV_CipherStartMultiPkgChn s p arg d))"
proof -
  define hw where "hw = u32HardWareChn (soft_of d s)"
  have hw: "unat hw < 8" "hw \<in> {0, s}" using drv_okD(3) [OF assms] assms(2) by (auto simp: hw_def)
  have c: "chan_id (chan_of d hw) = hw" "chan_shape (chan_of d hw)" using drv_okD(1,2) [OF assms(1) hw(1)] by auto
  show ?thesis
    using assms hw(1) c drv_okD(3) [OF assms]
    by (auto simp: DRV_CipherStartMultiPkgChn_def Let_def hw_def [symmetric] intro!: drv_ok_put_chan drv_ok_put_soft tag_slot_shape)
qed

lemma task_ok:
  assumes "drv_ok d" "unat s < 8"
  shows "drv_ok (snd (snd (DRV_Cipher_CreatTask s p arg k v cfg r' d)))"
proof -
  have ok: "drv_ok (put_soft s t d)" if "u32HardWareChn t = u32HardWareChn (soft_of d s)" for t
    using that drv_okD(3) [OF assms] by (intro drv_ok_put_soft assms) auto
  have single: "drv_ok (snd (snd (DRV_CipherStartSinglePkgChn s p cfg r' e)))" if "drv_ok e" for e
    using that by (simp add: DRV_CipherStartSinglePkgChn_def Let_def)
  show ?thesis unfolding DRV_Cipher_CreatTask_def Let_def
    using assms(2) by (auto simp: case_prod_beta split: option.split intro!: single multi_ok ok)
qed

lemma done_turn_ok:
  assumes "drv_ok d" "unat chn < 8" "done_turn chn idx d = Some d'"
  shows "drv_ok d'" "g_stCipherSoftChans d' = g_stCipherSoftChans d" "chan_shape (chan_of d' chn) \<and> unat idx < 128"
proof -
  let ?c = "chan_of d chn"
  let ?e = "?c\<lparr>au32WitchSoftChn := (au32WitchSoftChn ?c)[unat idx := CIPHER_INVALID_CHN]\<rparr>"
  have e: "chan_shape ?e" "chan_id ?e = chn" using drv_okD [OF assms(1,2)] by (auto simp: chan_shape_def)
  have "unat idx < 128" "d' = add_calls (tag_calls d (au32WitchSoftChn ?c ! unat idx)) (put_chan chn ?e d)"
    using assms(3) by (auto simp: done_turn_def Let_def word_le_nat_alt call_back_put split: if_splits)
  then show "drv_ok d'" "g_stCipherSoftChans d' = g_stCipherSoftChans d" "chan_shape (chan_of d' chn) \<and> unat idx < 128"
    using e drv_ok_put_chan [OF assms(1,2) e(2,1)] assms(2) drv_okD(4) [OF assms(1,2)] by simp_all
qed

lemma done_loop_ok:
  assumes "drv_ok d" "unat chn < 8" "done_loop n chn idx d = Some (idx', d')" "unat idx < 128"
  shows "drv_ok d' \<and> g_stCipherSoftChans d' = g_stCipherSoftChans d \<and> unat idx' < 128"
  using assms
proof (induction n arbitrary: idx d)
  case (Suc n)
  then obtain e where e: "done_turn chn idx d = Some e" "done_loop n chn (ptr_next idx) e = Some (idx', d')"
    by (auto split: option.splits)
  from Suc.IH [OF done_turn_ok(1) [OF Suc.prems(1,2) e(1)] Suc.prems(2) e(2)] done_turn_ok [OF Suc.prems(1,2) e(1)] Suc.prems(4)
  show ?case by (simp add: unat_ptr_next)
qed simp

lemma data_done_ok:
  assumes "drv_ok d" "unat chn < 8" "DRV_CipherDataDoneMultiPkg chn d = Some (ret, d')"
  shows "drv_ok d' \<and> g_stCipherSoftChans d' = g_stCipherSoftChans d"
proof (cases "HAL_Cipher_GetOutBufFull chn (ci_reg_file d)")
  case (Inl e)
  then show ?thesis using assms by (simp add: DRV_CipherDataDoneMultiPkg_def)
next
  case (Inr n)
  show ?thesis
  proof (cases "n > 0")
    case True
    then obtain idx e where e: "done_loop (unat n) chn (u32CurrentPtr (unOutData (chan_of d chn))) d = Some (idx, e)"
      "d' = hal (HAL_Cipher_SetOutBufCnt chn n) (hal (HAL_Cipher_SetOutBufFull chn n) (hal (HAL_Cipher_SetInBufEmpty chn n)
        (put_chan chn ((chan_of e chn)\<lparr>unOutData := (unOutData (chan_of e chn))\<lparr>u32CurrentPtr := idx\<rparr>\<rparr>) e)))"
      using assms(3) Inr by (auto simp: DRV_CipherDataDoneMultiPkg_def Let_def split: option.splits)
    have "unat (u32CurrentPtr (unOutData (chan_of d chn))) < 128" using drv_okD(2) [OF assms(1,2)] by (simp add: chan_shape_def)
    from done_loop_ok [OF assms(1,2) e(1) this] have l: "drv_ok e" "g_stCipherSoftChans e = g_stCipherSoftChans d" "unat idx < 128" by auto
    have "chan_shape ((chan_of e chn)\<lparr>unOutData := (unOutData (chan_of e chn))\<lparr>u32CurrentPtr := idx\<rparr>\<rparr>)"
      using drv_okD(2) [OF l(1) assms(2)] l(3) by (simp add: chan_shape_def)
    then show ?thesis using l drv_okD(1) [OF l(1) assms(2)] assms(2) unfolding e(2) by (simp add: drv_ok_put_chan)
  next
    case False
    then show ?thesis using assms Inr by (simp add: DRV_CipherDataDoneMultiPkg_def)
  qed
qed

lemma isr_chans_ok:
  assumes "drv_ok d" "\<forall>i \<in> set is. unat i < 8" "isr_chans v is d = Some d'"
  shows "drv_ok d' \<and> g_stCipherSoftChans d' = g_stCipherSoftChans d"
  using assms
proof (induction "is" arbitrary: d)
  case (Cons i "is")
  have i: "unat i < 8" "\<forall>i \<in> set is. unat i < 8" using Cons.prems(2) by auto
  show ?case
  proof (cases "raised v i")
    case True
    then obtain ret e where e: "DRV_CipherDataDoneMultiPkg i d = Some (ret, e)" "isr_chans v is e = Some d'"
      using Cons.prems(3) unfolding raised_def isr_chans.simps by (auto split: option.splits prod.splits)
    note o = data_done_ok [OF Cons.prems(1) i(1) e(1)]
    from Cons.IH [OF conjunct1 [OF o] i(2) e(2)] o show ?thesis by simp
  next
    case False
    then have "isr_chans v is d = Some d'" using Cons.prems(3) by (simp add: raised_def)
    from Cons.IH [OF Cons.prems(1) i(2) this] show ?thesis .
  qed
qed simp

lemma isr_ok:
  assumes "drv_ok d" "DRV_Cipher_ISR d = Some d'"
  shows "drv_ok d'" "g_stCipherSoftChans d' = g_stCipherSoftChans d"
proof -
  let ?is = "[1, 2, 3, 4, 5, 6, 7] :: u32 list"
  have c: "drv_ok (call_back s e) = drv_ok e" for s e by (simp add: drv_ok_def)
  define v where "v = HAL_Cipher_GetIntState (ci_reg_file d)"
  define b where "b \<longleftrightarrow> drop_bit 8 v AND 0x1 \<noteq> 0"
  define f where "f = hal_reg (HAL_Cipher_ClrIntState v) d"
  define e where "e = (if b then snd (DRV_CipherDataDoneSinglePkg 0 f) else f)"
  have run: "isr_chans v ?is e = Some d'"
    using assms(2) unfolding DRV_Cipher_ISR_def Let_def v_def [symmetric] b_def [symmetric] f_def [symmetric] e_def [symmetric] .
  have e: "drv_ok e" "g_stCipherSoftChans e = g_stCipherSoftChans d"
    using assms(1) by (cases b; simp add: e_def f_def DRV_CipherDataDoneSinglePkg_def c)+
  have "\<forall>i \<in> set ?is. unat i < 8" by simp
  note r = isr_chans_ok [OF e(1) this run]
  show "drv_ok d'" by (rule conjunct1 [OF r])
  show "g_stCipherSoftChans d' = g_stCipherSoftChans d" by (rule trans [OF conjunct2 [OF r] e(2)])
qed

section \<open>Concrete states\<close>

definition ex_info :: cipher_info where
  "ex_info = \<lparr>u32src = 0x1000, u32dest = 0x2000, u32length = 64, bDecrypt = 0, u32DataPkg = [0, 0, 0, 0]\<rparr>"

text \<open>A started driver, then one whose channel 1 is open and configured, with all registers 0.\<close>

definition ex_started :: cipher_drv where
  "ex_started = snd (DRV_Cipher_Init (Some 0x80000000) 0
     \<lparr>g_stCipherChans = [], g_stCipherSoftChans = [], ci_reg_file = (\<lambda>_. 0), ci_calls = []\<rparr>)"
definition ex_open :: cipher_drv where
  "ex_open = (snd (DRV_Cipher_ConfigChn 1 zero_ctrl (Some 7) (snd (DRV_Cipher_OpenChn 1 ex_started))))\<lparr>ci_reg_file := \<lambda>_. 0\<rparr>"

lemma ex_started_ok: "drv_ok ex_started" "unat j < 8 \<Longrightarrow> chan_rep (chan_of ex_started j) []"
  unfolding ex_started_def by (rule init_drv_ok) (rule init_rep(1))

lemma chan_of_regs [simp]: "chan_of (d\<lparr>ci_reg_file := r\<rparr>) j = chan_of d j" "soft_of (d\<lparr>ci_reg_file := r\<rparr>) j = soft_of d j"
  by (simp_all add: chan_of_def soft_of_def)

lemma ex_open_ok:
  "drv_ok ex_open" "chan_of ex_open j = chan_of ex_started j" "u32HardWareChn (soft_of ex_open 1) = 1" "pfnCallBack (soft_of ex_open 1) = Some 7"
proof -
  have u: "unat (1 :: u32) < 8" by simp
  show "drv_ok ex_open" unfolding ex_open_def by (simp add: config_ok open_ok ex_started_ok)
  show "chan_of ex_open j = chan_of ex_started j" by (simp add: ex_open_def DRV_Cipher_ConfigChn_def DRV_Cipher_OpenChn_def Let_def)
  show "u32HardWareChn (soft_of ex_open 1) = 1" "pfnCallBack (soft_of ex_open 1) = Some 7"
    using drv_okD(5) [OF ex_started_ok(1) u]
    by (simp_all add: ex_open_def DRV_Cipher_ConfigChn_def DRV_Cipher_OpenChn_def Let_def)
qed

lemma ex_started_buf: "length (pstInBuf (chan_of ex_started 1)) = 128" "length (pstOutBuf (chan_of ex_started 1)) = 128"
proof -
  have "laid_out 0x80000000 0 ex_started" unfolding ex_started_def using init_result(1) by blast
  then show "length (pstInBuf (chan_of ex_started 1)) = 128" "length (pstOutBuf (chan_of ex_started 1)) = 128"
    by (simp_all add: laid_out_def layout_chan_def Let_def del: replicate.simps)
qed



definition ex_busy :: cipher_drv where
  "ex_busy = put_chan 1 (tag_slot 1 1 (chan_of ex_open 1))
     (ex_open\<lparr>ci_reg_file := \<lambda>a. if a = REG_CI_INT_STATUS then 0x200 else if a = REG_CI_CHANn OFULL_CNT 1 then 1 else 0\<rparr>)"


definition ex_stale :: cipher_drv where
  "ex_stale = put_chan 1 ((chan_of ex_open 1)\<lparr>au32WitchSoftChn := replicate 128 CIPHER_INVALID_CHN\<rparr>)
     (ex_open\<lparr>ci_reg_file := \<lambda>_. 1\<rparr>)"

theorem cipher_spurious_done_witness: "DRV_CipherDataDoneMultiPkg 1 ex_stale = None"
proof -
  let ?c = "(chan_of ex_open 1)\<lparr>au32WitchSoftChn := replicate 128 CIPHER_INVALID_CHN\<rparr>"
  have u: "unat (1 :: u32) < 8" "(1 :: u32) \<noteq> 0" by simp_all
  have c: "chan_of ex_stale 1 = ?c"
    using drv_okD(4) [OF ex_open_ok(1) u(1)] by (simp add: ex_stale_def)
  have r: "chan_rep ?c []" using ex_started_ok(2) [OF u(1)] by (simp add: ex_open_ok(2) chan_rep_def chan_shape_def del: replicate.simps)
  have ok: "drv_ok ex_stale" unfolding ex_stale_def
    by (rule drv_ok_put_chan) (use ex_open_ok(1) r drv_okD(1) [OF ex_open_ok(1) u(1)] in \<open>simp_all add: chan_rep_def\<close>)
  have "done_count ex_stale 1 = 1" by (simp add: done_count_def ex_stale_def)
  moreover have "chan_rep (chan_of ex_stale 1) []" using r c by simp
  moreover have "au32WitchSoftChn (chan_of ex_stale 1) ! ((unat (u32CurrentPtr (unOutData (chan_of ex_stale 1))) + length ([] :: u32 list)) mod 128) = CIPHER_INVALID_CHN"
    unfolding c by (simp del: replicate.simps)
  ultimately show ?thesis using cipher_spurious_done [OF ok u, of "[]"] by simp
qed

theorem cipher_resume_deaf_witness:
  "bOpen (soft_of (DRV_Cipher_Resume (DRV_Cipher_Suspend (snd (DRV_Cipher_OpenChn 1 ex_started)))) 1) \<and>
   ci_reg_file (DRV_Cipher_Resume (DRV_Cipher_Suspend (snd (DRV_Cipher_OpenChn 1 ex_started)))) REG_CI_INT_EN = 0"
  using cipher_resume_deaf [OF ex_started_ok(1), of 1] by (simp add: Let_def)

end
