(* ===== verification/CipherIntf.thy ===== *)
theory CipherIntf
  imports CipherDrv
begin

text \<open>
  The device file of the cipher engine, \<open>cipher/src/cipher_intf.c\<close>, and the user library above it,
  \<open>cipher/src/hi_unf_cipher.c\<close>. A file is a number. A control call that waits for the engine is
  two steps, one up to the wait and one after it; between them other calls, interrupts and changes
  of the registers take place, as the step relation says.
\<close>

section \<open>State\<close>

abbreviation HI_ERR_CIPHER_NOT_INIT :: u32 where "HI_ERR_CIPHER_NOT_INIT \<equiv> 0x804D0001"
abbreviation HI_ERR_CIPHER_FAILED_INIT :: u32 where "HI_ERR_CIPHER_FAILED_INIT \<equiv> 0x804D0005"
abbreviation HI_ERR_CIPHER_FAILED_GETHANDLE :: u32 where "HI_ERR_CIPHER_FAILED_GETHANDLE \<equiv> 0x804D0006"
abbreviation neg_ERESTARTSYS :: u32 where "neg_ERESTARTSYS \<equiv> - 512"
abbreviation HI_ID_CIPHER :: u32 where "HI_ID_CIPHER \<equiv> 100"

record cipher_osr_chn =
  g_bSoftChnOpen :: bool
  g_bDataDone :: bool
  pWichFile :: "nat option"

record cipher_intf =
  g_stCipherOsrChn :: "cipher_osr_chn list"
  g_CipherMutexKernel :: nat
  cipher_dev :: cipher_drv

record cipher_data =
  CIHandle :: u32
  ScrPhyAddr :: u32
  DestPhyAddr :: u32
  ByteLength :: u32

text \<open>The commands with what the user copies deliver: \<open>None\<close> when \<open>copy_from_user\<close> fails; for the
  creation of a handle, whether \<open>copy_to_user\<close> succeeds.\<close>

datatype cipher_cmd = CreateHandle bool | DestroyHandle u32 | ConfigHandle "(u32 \<times> cipher_ctrl) option"
  | Encrypt "cipher_data option" | Decrypt "cipher_data option" | OtherCmd

datatype ioctl_result = Return u32 | Sleep u32

definition osr :: "cipher_intf \<Rightarrow> u32 \<Rightarrow> cipher_osr_chn" where "osr st i = g_stCipherOsrChn st ! unat i"
definition put_osr :: "u32 \<Rightarrow> cipher_osr_chn \<Rightarrow> cipher_intf \<Rightarrow> cipher_intf" where
  "put_osr i c st = st\<lparr>g_stCipherOsrChn := (g_stCipherOsrChn st)[unat i := c]\<rparr>"
definition on_dev :: "(cipher_drv \<Rightarrow> u32 \<times> cipher_drv) \<Rightarrow> cipher_intf \<Rightarrow> u32 \<times> cipher_intf" where
  "on_dev f st = (case f (cipher_dev st) of (ret, d) \<Rightarrow> (ret, st\<lparr>cipher_dev := d\<rparr>))"

text \<open>\<open>down_interruptible\<close>: when a signal interrupts it the count is not lowered. \<open>up\<close> raises it.\<close>

definition down :: "bool \<Rightarrow> cipher_intf \<Rightarrow> cipher_intf" where
  "down signal st = (if signal then st else st\<lparr>g_CipherMutexKernel := g_CipherMutexKernel st - 1\<rparr>)"
definition up :: "cipher_intf \<Rightarrow> cipher_intf" where
  "up st = st\<lparr>g_CipherMutexKernel := g_CipherMutexKernel st + 1\<rparr>"

section \<open>Operations\<close>

text \<open>The callback the driver is configured with is function 1.\<close>

definition DRV_CIPHER_UserCommCallBack :: "u32 \<Rightarrow> cipher_intf \<Rightarrow> cipher_intf" where
  "DRV_CIPHER_UserCommCallBack arg st = put_osr arg ((osr st arg)\<lparr>g_bDataDone := True\<rparr>) st"

abbreviation user_callback :: nat where "user_callback \<equiv> 1"

text \<open>\<open>softChnId\<close> is free in the search for a channel; the loop runs from 1 to 7.\<close>

fun find_free :: "u32 list \<Rightarrow> cipher_intf \<Rightarrow> u32 option" where
  "find_free [] st = None"
| "find_free (i # is) st = (if \<not> g_bSoftChnOpen (osr st i) then Some i else find_free is st)"

definition cipher_create :: "nat \<Rightarrow> bool \<Rightarrow> cipher_intf \<Rightarrow> u32 \<times> u32 option \<times> cipher_intf" where
  "cipher_create file copy_ok st =
    (case find_free [1, 2, 3, 4, 5, 6, 7] st of
       None \<Rightarrow> (HI_ERR_CIPHER_FAILED_GETHANDLE, None, st)
     | Some softChnId \<Rightarrow>
         let st = put_osr softChnId ((osr st softChnId)\<lparr>g_bSoftChnOpen := True\<rparr>) st;
             Cipherchn = push_bit 16 HI_ID_CIPHER + softChnId;
             (Ret, st) = on_dev (DRV_Cipher_OpenChn softChnId) st
         in if Ret \<noteq> HI_SUCCESS then (Ret, None, st)
            else if \<not> copy_ok then (HI_FAILURE, None, st)
            else (HI_SUCCESS, Some Cipherchn, put_osr softChnId ((osr st softChnId)\<lparr>pWichFile := Some file\<rparr>) st))"

text \<open>The test all operations on a handle make: the channel is open and the file is its owner.\<close>

definition owned :: "nat \<Rightarrow> u32 \<Rightarrow> cipher_intf \<Rightarrow> bool" where
  "owned file softChnId st \<longleftrightarrow> g_bSoftChnOpen (osr st softChnId) \<and> pWichFile (osr st softChnId) = Some file"

definition cipher_destroy :: "nat \<Rightarrow> u32 \<Rightarrow> cipher_intf \<Rightarrow> u32 \<times> cipher_intf" where
  "cipher_destroy file arg st =
    (let softChnId = arg AND 0x00ff
     in if softChnId \<ge> 8 then (HI_ERR_CIPHER_INVALID_HANDLE, st)
        else if \<not> owned file softChnId st then (HI_SUCCESS, st)
        else on_dev (DRV_Cipher_CloseChn softChnId)
          (put_osr softChnId ((osr st softChnId)\<lparr>g_bSoftChnOpen := False, pWichFile := None\<rparr>) st))"

definition cipher_config :: "nat \<Rightarrow> (u32 \<times> cipher_ctrl) option \<Rightarrow> cipher_intf \<Rightarrow> u32 \<times> cipher_intf" where
  "cipher_config file arg st =
    (case arg of
       None \<Rightarrow> (HI_FAILURE, st)
     | Some (handle, ctrl) \<Rightarrow>
         let softChnId = handle AND 0xffff
         in if softChnId \<ge> 8 then (HI_ERR_CIPHER_INVALID_HANDLE, st)
            else if \<not> owned file softChnId st then (HI_ERR_CIPHER_INVALID_HANDLE, st)
            else on_dev (DRV_Cipher_ConfigChn softChnId ctrl (Some user_callback)) st)"

text \<open>Encryption and decryption up to the wait: the semaphore is released before the task is created,
  and a task that cannot be created returns at once. \<open>cfg\<close> and \<open>r'\<close> are what a single-package
  channel would read; the channels handed out have rings.\<close>

definition cipher_start ::
  "u32 \<Rightarrow> nat \<Rightarrow> cipher_data option \<Rightarrow> (nat \<Rightarrow> u32) \<Rightarrow> ci_regs \<Rightarrow> cipher_intf \<Rightarrow> ioctl_result \<times> cipher_intf" where
  "cipher_start dec file arg cfg r' st =
    (case arg of
       None \<Rightarrow> (Return HI_FAILURE, up st)
     | Some CIData \<Rightarrow>
         let softChnId = CIHandle CIData AND 0xffff
         in if softChnId \<ge> 8 then (Return HI_ERR_CIPHER_INVALID_HANDLE, up st)
            else if \<not> owned file softChnId st then (Return HI_ERR_CIPHER_INVALID_HANDLE, up st)
            else
              let p = \<lparr>u32src = ScrPhyAddr CIData, u32dest = DestPhyAddr CIData, u32length = ByteLength CIData,
                       bDecrypt = dec, u32DataPkg = [0, 0, 0, 0]\<rparr>;
                  st = put_osr softChnId ((osr st softChnId)\<lparr>g_bDataDone := False\<rparr>) st;
                  st = up st;
                  (Ret, p, d) = DRV_Cipher_CreatTask softChnId p softChnId None None cfg r' (cipher_dev st);
                  st = st\<lparr>cipher_dev := d\<rparr>
              in if Ret \<noteq> HI_SUCCESS then (Return Ret, st) else (Sleep softChnId, st))"

definition DRV_CIPHER_Ioctl ::
  "bool \<Rightarrow> nat \<Rightarrow> cipher_cmd \<Rightarrow> (nat \<Rightarrow> u32) \<Rightarrow> ci_regs \<Rightarrow> cipher_intf \<Rightarrow> ioctl_result \<times> cipher_intf" where
  "DRV_CIPHER_Ioctl signal file cmd cfg r' st =
    (let st = down signal st
     in case cmd of
       CreateHandle copy_ok \<Rightarrow> (let (Ret, h, st) = cipher_create file copy_ok st in (Return Ret, up st))
     | DestroyHandle arg \<Rightarrow> (let (Ret, st) = cipher_destroy file arg st in (Return Ret, up st))
     | ConfigHandle arg \<Rightarrow> (let (Ret, st) = cipher_config file arg st in (Return Ret, up st))
     | Encrypt arg \<Rightarrow> cipher_start 0 file arg cfg r' st
     | Decrypt arg \<Rightarrow> cipher_start 1 file arg cfg r' st
     | OtherCmd \<Rightarrow> (Return HI_FAILURE, up st))"

text \<open>The rest of the call after \<open>wait_event_interruptible_timeout\<close>: it returned 0 (a timeout) or not
  (the data is done, or a signal arrived).\<close>

definition ioctl_resume :: "bool \<Rightarrow> bool \<Rightarrow> cipher_intf \<Rightarrow> u32 \<times> cipher_intf" where
  "ioctl_resume timeout signal st =
    (if timeout then (HI_FAILURE, st)
     else if signal then (neg_ERESTARTSYS, st)
     else (HI_SUCCESS, up (down False st)))"

definition DRV_CIPHER_Open :: "cipher_intf \<Rightarrow> u32 \<times> cipher_intf" where "DRV_CIPHER_Open st = (0, st)"

definition release_chan :: "nat \<Rightarrow> u32 \<Rightarrow> cipher_intf \<Rightarrow> cipher_intf" where
  "release_chan file i st =
    (if pWichFile (osr st i) = Some file then
       let st = snd (on_dev (DRV_Cipher_CloseChn i) st)
       in put_osr i ((osr st i)\<lparr>g_bSoftChnOpen := False, pWichFile := None\<rparr>) st
     else st)"

definition DRV_CIPHER_Release :: "nat \<Rightarrow> cipher_intf \<Rightarrow> cipher_intf" where
  "DRV_CIPHER_Release file st = fold (release_chan file) [0, 1, 2, 3, 4, 5, 6, 7] st"

definition DRV_CIPHER_ModInit :: "bool \<Rightarrow> u32 option \<Rightarrow> u32 \<Rightarrow> cipher_intf \<Rightarrow> u32 \<times> cipher_intf" where
  "DRV_CIPHER_ModInit registered alloc irq st =
    (if \<not> registered then (- 1, st)
     else
       let (ret, st) = on_dev (DRV_Cipher_Init alloc irq) st
       in if ret \<noteq> HI_SUCCESS then (ret, st)
          else (HI_SUCCESS, st\<lparr>g_stCipherOsrChn :=
            replicate 8 \<lparr>g_bSoftChnOpen = False, g_bDataDone = False, pWichFile = None\<rparr>\<rparr>))"

definition DRV_CIPHER_ModExit :: "cipher_intf \<Rightarrow> cipher_intf" where
  "DRV_CIPHER_ModExit st = st\<lparr>cipher_dev := DRV_Cipher_DeInit (cipher_dev st)\<rparr>"

text \<open>The interrupt as the system sees it: the driver's routine, with each callback it makes.\<close>

definition cipher_interrupt :: "cipher_intf \<Rightarrow> cipher_intf option" where
  "cipher_interrupt st =
    (case DRV_Cipher_ISR (cipher_dev st) of
       None \<Rightarrow> None
     | Some d \<Rightarrow> Some (fold (\<lambda>(f, arg). DRV_CIPHER_UserCommCallBack arg)
         (drop (length (ci_calls (cipher_dev st))) (ci_calls d)) (st\<lparr>cipher_dev := d\<rparr>)))"

section \<open>The user library\<close>

text \<open>\<open>ioctl\<close> is the system call on the device file, with its effect on a state of the caller's
  choosing. \<open>g_CipherDevFd\<close> is the descriptor.\<close>

definition HI_UNF_CIPHER_Open :: "int \<Rightarrow> int \<Rightarrow> u32 \<times> int" where
  "HI_UNF_CIPHER_Open opened fd =
    (if fd > 0 then (HI_SUCCESS, fd)
     else if opened < 0 then (HI_ERR_CIPHER_FAILED_INIT, opened) else (HI_SUCCESS, opened))"

definition HI_UNF_CIPHER_Close :: "u32 \<Rightarrow> int \<Rightarrow> u32 \<times> int" where
  "HI_UNF_CIPHER_Close closed fd =
    (if fd < 0 then (HI_SUCCESS, fd)
     else if closed \<noteq> HI_SUCCESS then (HI_ERR_CIPHER_NOT_INIT, fd) else (HI_SUCCESS, - 1))"

definition unf_call :: "('s \<Rightarrow> cipher_cmd \<Rightarrow> u32 \<times> 's) \<Rightarrow> int \<Rightarrow> cipher_cmd \<Rightarrow> 's \<Rightarrow> u32 \<times> 's" where
  "unf_call ioctl fd cmd s =
    (if fd < 0 then (HI_ERR_CIPHER_NOT_INIT, s)
     else let (Ret, s) = ioctl s cmd in if Ret \<noteq> HI_SUCCESS then (Ret, s) else (HI_SUCCESS, s))"

definition HI_UNF_CIPHER_CreateHandle :: "bool \<Rightarrow> ('s \<Rightarrow> cipher_cmd \<Rightarrow> u32 \<times> 's) \<Rightarrow> int \<Rightarrow> 's \<Rightarrow> u32 \<times> 's" where
  "HI_UNF_CIPHER_CreateHandle writable ioctl fd s = unf_call ioctl fd (CreateHandle writable) s"

definition HI_UNF_CIPHER_DestroyHandle :: "('s \<Rightarrow> cipher_cmd \<Rightarrow> u32 \<times> 's) \<Rightarrow> int \<Rightarrow> u32 \<Rightarrow> 's \<Rightarrow> u32 \<times> 's" where
  "HI_UNF_CIPHER_DestroyHandle ioctl fd hCipher s = unf_call ioctl fd (DestroyHandle hCipher) s"

definition HI_UNF_CIPHER_ConfigHandle ::
  "('s \<Rightarrow> cipher_cmd \<Rightarrow> u32 \<times> 's) \<Rightarrow> int \<Rightarrow> u32 \<Rightarrow> cipher_ctrl \<Rightarrow> 's \<Rightarrow> u32 \<times> 's" where
  "HI_UNF_CIPHER_ConfigHandle ioctl fd hCipher ctrl s =
    (if enWorkMode ctrl \<ge> 5 then (HI_ERR_CIPHER_INVALID_PARA, s)
     else unf_call ioctl fd (ConfigHandle (Some (hCipher, ctrl))) s)"

definition CIPHER_MAX_ENC_DEC_LEN :: u32 where "CIPHER_MAX_ENC_DEC_LEN = 1024 * 1024"

definition unf_crypt ::
  "(cipher_data option \<Rightarrow> cipher_cmd) \<Rightarrow> ('s \<Rightarrow> cipher_cmd \<Rightarrow> u32 \<times> 's) \<Rightarrow> int \<Rightarrow> u32 \<Rightarrow> u32 \<Rightarrow> u32 \<Rightarrow> u32 \<Rightarrow> 's \<Rightarrow> u32 \<times> 's" where
  "unf_crypt cmd ioctl fd hCipher src dest len s =
    (let chnid = hCipher AND 0x00ff
     in if 0 = chnid \<or> len < 16 \<or> len \<ge> CIPHER_MAX_ENC_DEC_LEN then (HI_ERR_CIPHER_INVALID_PARA, s)
        else unf_call ioctl fd (cmd (Some \<lparr>CIHandle = hCipher, ScrPhyAddr = src, DestPhyAddr = dest, ByteLength = len\<rparr>)) s)"

definition HI_UNF_CIPHER_Encrypt :: "('s \<Rightarrow> cipher_cmd \<Rightarrow> u32 \<times> 's) \<Rightarrow> int \<Rightarrow> u32 \<Rightarrow> u32 \<Rightarrow> u32 \<Rightarrow> u32 \<Rightarrow> 's \<Rightarrow> u32 \<times> 's" where
  "HI_UNF_CIPHER_Encrypt = unf_crypt Encrypt"
definition HI_UNF_CIPHER_Decrypt :: "('s \<Rightarrow> cipher_cmd \<Rightarrow> u32 \<times> 's) \<Rightarrow> int \<Rightarrow> u32 \<Rightarrow> u32 \<Rightarrow> u32 \<Rightarrow> u32 \<Rightarrow> 's \<Rightarrow> u32 \<times> 's" where
  "HI_UNF_CIPHER_Decrypt = unf_crypt Decrypt"

section \<open>The invariant\<close>

definition intf_ok :: "cipher_intf \<Rightarrow> bool" where
  "intf_ok st \<longleftrightarrow> length (g_stCipherOsrChn st) = 8 \<and> drv_ok (cipher_dev st) \<and> \<not> g_bSoftChnOpen (osr st 0) \<and>
     (\<forall>i. unat i < 8 \<longrightarrow> pWichFile (osr st i) \<noteq> None \<longrightarrow> g_bSoftChnOpen (osr st i))"

lemma put_osr_simps [simp]:
  "cipher_dev (put_osr i c st) = cipher_dev st" "g_CipherMutexKernel (put_osr i c st) = g_CipherMutexKernel st"
  "length (g_stCipherOsrChn (put_osr i c st)) = length (g_stCipherOsrChn st)"
  by (simp_all add: put_osr_def)

lemma osr_put [simp]:
  "unat i < length (g_stCipherOsrChn st) \<Longrightarrow> osr (put_osr i c st) j = (if i = j then c else osr st j)"
  by (auto simp: put_osr_def osr_def nth_list_update word_unat_eq_iff)

lemma osr_out [simp]: "\<not> unat i < length (g_stCipherOsrChn st) \<Longrightarrow> put_osr i c st = st"
  by (simp add: put_osr_def list_update_beyond)

lemma osr_dev [simp]: "osr (st\<lparr>cipher_dev := d\<rparr>) i = osr st i" "osr (st\<lparr>g_CipherMutexKernel := n\<rparr>) i = osr st i"
  by (simp_all add: osr_def)

lemma put_osr_dev: "put_osr i c (st\<lparr>cipher_dev := d\<rparr>) = (put_osr i c st)\<lparr>cipher_dev := d\<rparr>" by (simp add: put_osr_def)

lemma on_dev_snd: "snd (on_dev f st) = st\<lparr>cipher_dev := snd (f (cipher_dev st))\<rparr>" "fst (on_dev f st) = fst (f (cipher_dev st))"
  by (simp_all add: on_dev_def case_prod_beta)

lemma on_dev_eq: "on_dev f st = (fst (f (cipher_dev st)), st\<lparr>cipher_dev := snd (f (cipher_dev st))\<rparr>)"
  by (simp add: on_dev_def case_prod_beta)

lemma down_up_simps [simp]:
  "cipher_dev (down b st) = cipher_dev st" "osr (down b st) i = osr st i" "g_stCipherOsrChn (down b st) = g_stCipherOsrChn st"
  "cipher_dev (up st) = cipher_dev st" "osr (up st) i = osr st i" "g_stCipherOsrChn (up st) = g_stCipherOsrChn st"
  "g_CipherMutexKernel (up st) = g_CipherMutexKernel st + 1" "owned f c (down b st) = owned f c st"
  by (simp_all add: down_def up_def osr_def owned_def)

lemma intf_ok_balance [simp]: "intf_ok (down b st) = intf_ok st" "intf_ok (up st) = intf_ok st"
  by (simp_all add: intf_ok_def)

lemma intf_ok_dev: "intf_ok st \<Longrightarrow> drv_ok d \<Longrightarrow> intf_ok (st\<lparr>cipher_dev := d\<rparr>)" by (simp add: intf_ok_def)

lemma intf_ok_osr:
  "intf_ok st \<Longrightarrow> (i = 0 \<longrightarrow> \<not> g_bSoftChnOpen c) \<Longrightarrow> (pWichFile c \<noteq> None \<longrightarrow> g_bSoftChnOpen c) \<Longrightarrow> intf_ok (put_osr i c st)"
  by (cases "unat i < length (g_stCipherOsrChn st)") (auto simp: intf_ok_def)

lemma find_free_spec:
  "find_free is st = Some i \<Longrightarrow> i \<in> set is \<and> \<not> g_bSoftChnOpen (osr st i)"
  "find_free is st = None \<longleftrightarrow> (\<forall>i \<in> set is. g_bSoftChnOpen (osr st i))"
  by (induction "is") (auto split: if_splits)

lemma find_free_down [simp]: "find_free is (down b st) = find_free is st"
  by (induction "is") simp_all

lemma rings_range: "i \<in> set [1, 2, 3, 4, 5, 6, 7 :: u32] \<Longrightarrow> unat i < 8 \<and> i \<noteq> 0" by auto

lemma intf_range: "intf_ok st \<Longrightarrow> unat i < 8 \<Longrightarrow> unat i < length (g_stCipherOsrChn st)" by (simp add: intf_ok_def)
lemma intf_drv: "intf_ok st \<Longrightarrow> drv_ok (cipher_dev st)" by (simp add: intf_ok_def)

lemma open_success: "fst (DRV_Cipher_OpenChn s d) = HI_SUCCESS" by (simp add: DRV_Cipher_OpenChn_def Let_def HAL_Cipher_EnableInt_def)

lemma cipher_create_eq:
  "cipher_create file copy_ok st =
    (case find_free [1, 2, 3, 4, 5, 6, 7] st of
       None \<Rightarrow> (HI_ERR_CIPHER_FAILED_GETHANDLE, None, st)
     | Some c \<Rightarrow>
         let st' = (put_osr c ((osr st c)\<lparr>g_bSoftChnOpen := True\<rparr>) st)\<lparr>cipher_dev := snd (DRV_Cipher_OpenChn c (cipher_dev st))\<rparr>
         in if \<not> copy_ok then (HI_FAILURE, None, st')
            else (HI_SUCCESS, Some (push_bit 16 HI_ID_CIPHER + c), put_osr c ((osr st' c)\<lparr>pWichFile := Some file\<rparr>) st'))"
  by (simp add: cipher_create_def on_dev_eq open_success Let_def case_prod_beta split: option.split)

lemma create_ok:
  assumes "intf_ok st"
  shows "intf_ok (snd (snd (cipher_create file copy_ok st)))"
proof (cases "find_free [1, 2, 3, 4, 5, 6, 7] st")
  case None
  then show ?thesis using assms by (simp add: cipher_create_eq del: find_free.simps)
next
  case (Some c)
  then have c: "unat c < 8" "c \<noteq> 0" using find_free_spec(1) rings_range by blast+
  let ?st = "(put_osr c ((osr st c)\<lparr>g_bSoftChnOpen := True\<rparr>) st)\<lparr>cipher_dev := snd (DRV_Cipher_OpenChn c (cipher_dev st))\<rparr>"
  have st: "intf_ok ?st" by (intro intf_ok_dev intf_ok_osr open_ok assms intf_drv) (use c in simp_all)
  have "intf_ok (put_osr c ((osr ?st c)\<lparr>pWichFile := Some file\<rparr>) ?st)"
    by (rule intf_ok_osr [OF st]) (use c intf_range [OF assms c(1)] in simp_all)
  then show ?thesis using Some st by (simp add: cipher_create_eq Let_def del: find_free.simps)
qed

lemma destroy_ok: "intf_ok st \<Longrightarrow> intf_ok (snd (cipher_destroy file arg st))"
  by (auto simp: cipher_destroy_def Let_def on_dev_snd word_le_nat_alt intro!: intf_ok_dev intf_ok_osr close_ok intf_drv)

lemma config_cipher_ok: "intf_ok st \<Longrightarrow> intf_ok (snd (cipher_config file arg st))"
  by (auto simp: cipher_config_def Let_def on_dev_snd word_le_nat_alt intro!: intf_ok_dev config_ok intf_drv split: option.split)

lemma start_ok:
  assumes "intf_ok st"
  shows "intf_ok (snd (cipher_start dec file arg cfg r' st))"
proof (cases arg)
  case None
  then show ?thesis using assms by (simp add: cipher_start_def)
next
  case (Some D)
  let ?c = "CIHandle D AND 0xffff"
  show ?thesis
  proof (cases "\<not> ?c \<ge> 8 \<and> owned file ?c st")
    case True
    then have c: "unat ?c < 8" by (simp add: word_le_nat_alt)
    let ?st = "up (put_osr ?c ((osr st ?c)\<lparr>g_bDataDone := False\<rparr>) st)"
    have "?c = 0 \<longrightarrow> \<not> g_bSoftChnOpen (osr st ?c)" "pWichFile (osr st ?c) \<noteq> None \<longrightarrow> g_bSoftChnOpen (osr st ?c)"
      using assms c by (auto simp: intf_ok_def)
    then have st: "intf_ok ?st" unfolding intf_ok_balance by (intro intf_ok_osr assms) simp_all
    have "intf_ok (?st\<lparr>cipher_dev := snd (snd (DRV_Cipher_CreatTask ?c p ?c None None cfg r' (cipher_dev ?st)))\<rparr>)" for p
      by (intro intf_ok_dev st task_ok intf_drv c)
    then show ?thesis using True Some by (simp add: cipher_start_def Let_def case_prod_beta)
  next
    case False
    then show ?thesis using Some assms by (auto simp: cipher_start_def Let_def)
  qed
qed

lemma ioctl_ok: "intf_ok st \<Longrightarrow> intf_ok (snd (DRV_CIPHER_Ioctl signal file cmd cfg r' st))"
  by (cases cmd) (simp_all add: DRV_CIPHER_Ioctl_def Let_def case_prod_beta create_ok destroy_ok config_cipher_ok start_ok)

lemma resume_ok: "intf_ok st \<Longrightarrow> intf_ok (snd (ioctl_resume t s st))" by (simp add: ioctl_resume_def)

lemma release_chan_ok:
  assumes "intf_ok st" "unat i < 8"
  shows "intf_ok (release_chan file i st)"
proof -
  have "intf_ok (st\<lparr>cipher_dev := snd (DRV_Cipher_CloseChn i (cipher_dev st))\<rparr>)"
    by (intro intf_ok_dev close_ok assms intf_drv)
  then show ?thesis using assms(1) by (auto simp: release_chan_def Let_def on_dev_snd intro!: intf_ok_osr)
qed

lemma release_fold_ok: "intf_ok st \<Longrightarrow> \<forall>i \<in> set is. unat i < 8 \<Longrightarrow> intf_ok (fold (release_chan file) is st)"
  by (induction "is" arbitrary: st) (simp_all add: release_chan_ok)

lemma release_ok: "intf_ok st \<Longrightarrow> intf_ok (DRV_CIPHER_Release file st)"
  unfolding DRV_CIPHER_Release_def by (rule release_fold_ok) simp_all

lemma callback_ok: "intf_ok st \<Longrightarrow> intf_ok (DRV_CIPHER_UserCommCallBack arg st)"
  by (cases "unat arg < length (g_stCipherOsrChn st)")
     (auto simp: DRV_CIPHER_UserCommCallBack_def intf_ok_def)

lemma callbacks_ok: "intf_ok st \<Longrightarrow> intf_ok (fold (\<lambda>(f, arg). DRV_CIPHER_UserCommCallBack arg) cs st)"
  by (induction cs arbitrary: st) (auto simp: callback_ok)

lemma interrupt_ok: "intf_ok st \<Longrightarrow> cipher_interrupt st = Some st' \<Longrightarrow> intf_ok st'"
  using isr_ok(1) [OF intf_drv] by (auto simp: cipher_interrupt_def intro!: callbacks_ok intf_ok_dev split: option.splits)

lemma modinit_ok:
  "DRV_CIPHER_ModInit True (Some phy) 0 st = (HI_SUCCESS, st') \<Longrightarrow> intf_ok st'"
  using init_drv_ok [of phy "cipher_dev st"]
  by (auto simp: DRV_CIPHER_ModInit_def on_dev_eq Let_def intf_ok_def osr_def init_run simp del: init_chans.simps split: if_splits)

section \<open>Runs of the system\<close>

text \<open>A state and the calls that wait, each with its file and channel. A critical section between
  \<open>down_interruptible\<close> and \<open>up\<close> is one step. The system releases a file only when no call on it is
  under way. The registers change at any time.\<close>

inductive cipher_step :: "cipher_intf \<times> (nat \<times> u32) list \<Rightarrow> cipher_intf \<times> (nat \<times> u32) list \<Rightarrow> bool" where
  ioctl_returns: "signal \<or> g_CipherMutexKernel st > 0 \<Longrightarrow> DRV_CIPHER_Ioctl signal f cmd cfg r' st = (Return ret, st') \<Longrightarrow>
    cipher_step (st, sl) (st', sl)"
| ioctl_waits: "signal \<or> g_CipherMutexKernel st > 0 \<Longrightarrow> DRV_CIPHER_Ioctl signal f cmd cfg r' st = (Sleep c, st') \<Longrightarrow>
    cipher_step (st, sl) (st', (f, c) # sl)"
| ioctl_wakes: "(f, c) \<in> set sl \<Longrightarrow> \<not> (timeout \<and> g_bDataDone (osr st c)) \<Longrightarrow> timeout \<or> signal \<or> g_CipherMutexKernel st > 0 \<Longrightarrow>
    ioctl_resume timeout signal st = (ret, st') \<Longrightarrow> cipher_step (st, sl) (st', remove1 (f, c) sl)"
| interrupt: "cipher_interrupt st = Some st' \<Longrightarrow> cipher_step (st, sl) (st', sl)"
| hardware: "cipher_step (st, sl) (st\<lparr>cipher_dev := (cipher_dev st)\<lparr>ci_reg_file := r\<rparr>\<rparr>, sl)"
| releases: "f \<notin> fst ` set sl \<Longrightarrow> cipher_step (st, sl) (DRV_CIPHER_Release f st, sl)"

inductive cipher_reach :: "cipher_intf \<times> (nat \<times> u32) list \<Rightarrow> cipher_intf \<times> (nat \<times> u32) list \<Rightarrow> bool" where
  start: "cipher_reach x x"
| step: "cipher_reach x y \<Longrightarrow> cipher_step y z \<Longrightarrow> cipher_reach x z"

lemma step_ok: "cipher_step x y \<Longrightarrow> intf_ok (fst x) \<Longrightarrow> intf_ok (fst y)"
proof (induction rule: cipher_step.induct)
  case (ioctl_returns signal st f cmd cfg r' ret st' sl)
  then show ?case using ioctl_ok [of st signal f cmd cfg r'] by simp
next
  case (ioctl_waits signal st f cmd cfg r' c st' sl)
  then show ?case using ioctl_ok [of st signal f cmd cfg r'] by simp
next
  case (ioctl_wakes f c sl timeout st signal ret st')
  then show ?case using resume_ok [of st timeout signal] by simp
next
  case (interrupt st st' sl)
  then show ?case using interrupt_ok by simp
next
  case (hardware st sl r)
  then show ?case using intf_drv by (simp add: intf_ok_dev)
next
  case (releases f sl st)
  then show ?case using release_ok by simp
qed

lemma reach_ok: "cipher_reach x y \<Longrightarrow> intf_ok (fst x) \<Longrightarrow> intf_ok (fst y)"
  by (induction rule: cipher_reach.induct) (auto dest: step_ok)

section \<open>The semaphore\<close>

lemma mutex_simps [simp]:
  "g_CipherMutexKernel (st\<lparr>cipher_dev := d\<rparr>) = g_CipherMutexKernel st"
  "g_CipherMutexKernel (snd (snd (cipher_create f b st))) = g_CipherMutexKernel st"
  "g_CipherMutexKernel (snd (cipher_destroy f h st)) = g_CipherMutexKernel st"
  "g_CipherMutexKernel (snd (cipher_config f arg st)) = g_CipherMutexKernel st"
  "g_CipherMutexKernel (snd (cipher_start dec f a cfg r' st)) = g_CipherMutexKernel st + 1"
  "g_CipherMutexKernel (release_chan f i st) = g_CipherMutexKernel st"
  by (simp_all add: cipher_create_eq cipher_destroy_def cipher_config_def cipher_start_def release_chan_def Let_def on_dev_snd
      case_prod_beta del: find_free.simps split: option.split)

lemma ioctl_mutex: "g_CipherMutexKernel (snd (DRV_CIPHER_Ioctl signal f cmd cfg r' st)) = g_CipherMutexKernel (down signal st) + 1"
  by (cases cmd) (simp_all add: DRV_CIPHER_Ioctl_def Let_def case_prod_beta)

lemma release_mutex: "g_CipherMutexKernel (fold (release_chan f) is st) = g_CipherMutexKernel st"
  by (induction "is" arbitrary: st) simp_all

lemma callback_mutex: "g_CipherMutexKernel (fold (\<lambda>(f, arg). DRV_CIPHER_UserCommCallBack arg) cs st) = g_CipherMutexKernel st"
  by (induction cs arbitrary: st) (auto simp: DRV_CIPHER_UserCommCallBack_def)

lemma interrupt_mutex: "cipher_interrupt st = Some st' \<Longrightarrow> g_CipherMutexKernel st' = g_CipherMutexKernel st"
  by (auto simp: cipher_interrupt_def callback_mutex split: option.splits)

lemma step_mutex: "cipher_step x y \<Longrightarrow> g_CipherMutexKernel (fst x) \<le> g_CipherMutexKernel (fst y)"
proof (induction rule: cipher_step.induct)
  case (ioctl_returns signal st f cmd cfg r' ret st' sl)
  then show ?case using ioctl_mutex [of signal f cmd cfg r' st] by (auto simp: down_def split: if_splits)
next
  case (ioctl_waits signal st f cmd cfg r' c st' sl)
  then show ?case using ioctl_mutex [of signal f cmd cfg r' st] by (auto simp: down_def split: if_splits)
next
  case (ioctl_wakes f c sl timeout st signal ret st')
  then show ?case by (auto simp: ioctl_resume_def down_def up_def split: if_splits)
next
  case (interrupt st st' sl)
  then show ?case using interrupt_mutex by simp
next
  case (hardware st sl r)
  then show ?case by simp
next
  case (releases f sl st)
  then show ?case by (simp add: DRV_CIPHER_Release_def release_mutex del: fold_simps)
qed

lemma reach_mutex: "cipher_reach x y \<Longrightarrow> g_CipherMutexKernel (fst x) \<le> g_CipherMutexKernel (fst y)"
  by (induction rule: cipher_reach.induct) (auto dest: step_mutex intro: order_trans)


text \<open>The result of \<open>down_interruptible\<close> is not looked at: a control call interrupted by a signal while
  it waits for the semaphore goes on without it and then releases it, so the count grows by one
  for good and from then on one more caller may be inside the critical section.\<close>
theorem cipher_signal_breaks_mutex:
  assumes "cipher_reach (snd (DRV_CIPHER_Ioctl True f cmd cfg r' st), sl) (st', sl')"
  shows "g_CipherMutexKernel st' \<ge> g_CipherMutexKernel st + 1"
  using reach_mutex [OF assms] ioctl_mutex [of True f cmd cfg r' st] by (simp add: down_def)

section \<open>Isolation of the files\<close>

definition same_chan :: "u32 \<Rightarrow> cipher_intf \<Rightarrow> cipher_intf \<Rightarrow> bool" where
  "same_chan c st st' \<longleftrightarrow> osr st' c = osr st c \<and> soft_of (cipher_dev st') c = soft_of (cipher_dev st) c \<and>
     chan_of (cipher_dev st') c = chan_of (cipher_dev st) c"

lemma same_chan_refl [simp]: "same_chan c st st" by (simp add: same_chan_def)

lemma same_chan_trans: "same_chan c st st' \<Longrightarrow> same_chan c st' st'' \<Longrightarrow> same_chan c st st''" by (simp add: same_chan_def)

lemma same_chan_balance [simp]:
  "same_chan c (down b st) st' = same_chan c st st'" "same_chan c st (up st') = same_chan c st st'" "same_chan c st (down b st') = same_chan c st st'"
  by (simp_all add: same_chan_def)

lemma same_chan_put: "i \<noteq> c \<Longrightarrow> same_chan c st st' \<Longrightarrow> same_chan c st (put_osr i x st')"
  by (cases "unat i < length (g_stCipherOsrChn st')") (simp_all add: same_chan_def)

lemma same_chan_dev:
  "soft_of d c = soft_of (cipher_dev st') c \<Longrightarrow> chan_of d c = chan_of (cipher_dev st') c \<Longrightarrow> same_chan c st st' \<Longrightarrow>
    same_chan c st (st'\<lparr>cipher_dev := d\<rparr>)"
  by (simp add: same_chan_def)

lemma drv_frame:
  assumes "drv_ok d" "unat s < 8" "s \<noteq> c"
  shows "soft_of (snd (DRV_Cipher_OpenChn s d)) c = soft_of d c" "chan_of (snd (DRV_Cipher_OpenChn s d)) c = chan_of d c"
    "soft_of (snd (DRV_Cipher_CloseChn s d)) c = soft_of d c" "chan_of (snd (DRV_Cipher_CloseChn s d)) c = chan_of d c"
    "soft_of (snd (DRV_Cipher_ConfigChn s k f d)) c = soft_of d c" "chan_of (snd (DRV_Cipher_ConfigChn s k f d)) c = chan_of d c"
  using assms drv_okD(5) [OF assms(1,2)]
  by (simp_all add: DRV_Cipher_OpenChn_def DRV_Cipher_CloseChn_def DRV_Cipher_ConfigChn_def Let_def)

lemma multi_frame:
  assumes "drv_ok d" "unat s < 8" "s \<noteq> c" "c \<noteq> 0"
  shows "soft_of (snd (DRV_CipherStartMultiPkgChn s p arg d)) c = soft_of d c \<and> chan_of (snd (DRV_CipherStartMultiPkgChn s p arg d)) c = chan_of d c"
proof -
  define hw where "hw = u32HardWareChn (soft_of d s)"
  have hw: "unat hw < 8" "hw \<noteq> c" using drv_okD(3) [OF assms(1,2)] assms by (auto simp: hw_def)
  show ?thesis using assms hw drv_okD(4,5) [OF assms(1,2)]
    by (simp add: DRV_CipherStartMultiPkgChn_def Let_def hw_def [symmetric])
qed

lemma task_frame:
  assumes "drv_ok d" "unat s < 8" "s \<noteq> c" "c \<noteq> 0"
  shows "soft_of (snd (snd (DRV_Cipher_CreatTask s p arg None None cfg r' d))) c = soft_of d c \<and>
    chan_of (snd (snd (DRV_Cipher_CreatTask s p arg None None cfg r' d))) c = chan_of d c"
proof -
  have e: "put_soft s (soft_of d s) d = d" by (simp add: put_soft_def soft_of_def)
  show ?thesis using multi_frame [OF assms, of p arg]
    by (simp add: DRV_Cipher_CreatTask_def Let_def e DRV_CipherStartSinglePkgChn_def case_prod_beta)
qed

lemma ioctl_frame:
  assumes "intf_ok st" "g_bSoftChnOpen (osr st c)" "\<not> owned f c st"
  shows "same_chan c st (snd (DRV_CIPHER_Ioctl signal f cmd cfg r' st))"
proof -
  let ?st = "down signal st"
  have c0: "c \<noteq> 0" using assms(1,2) by (auto simp: intf_ok_def)
  have ok: "intf_ok ?st" "drv_ok (cipher_dev ?st)" using assms(1) intf_drv by simp_all
  have create: "same_chan c st (snd (snd (cipher_create f b ?st)))" for b
  proof (cases "find_free [1, 2, 3, 4, 5, 6, 7] ?st")
    case None
    then show ?thesis by (simp add: cipher_create_eq del: find_free.simps)
  next
    case (Some i)
    then have i: "unat i < 8" "\<not> g_bSoftChnOpen (osr ?st i)" using find_free_spec(1) rings_range by blast+
    then have ic: "i \<noteq> c" using assms(2) by auto
    show ?thesis using Some ic
      by (simp add: cipher_create_eq Let_def del: find_free.simps)
         (auto intro!: same_chan_put same_chan_dev simp: drv_frame [OF ok(2) i(1) ic, simplified])
  qed
  have other: "i \<noteq> c" if "owned f i ?st" for i using assms(3) that by auto
  have destroy: "same_chan c st (snd (cipher_destroy f h ?st))" for h
  proof (cases "\<not> (h AND 0x00ff) \<ge> 8 \<and> owned f (h AND 0x00ff) ?st")
    case True
    then have i: "unat (h AND 0x00ff) < 8" "h AND 0x00ff \<noteq> c" using other by (auto simp: word_le_nat_alt)
    then show ?thesis using True
      by (auto simp: cipher_destroy_def Let_def on_dev_snd drv_frame [OF ok(2) i, simplified] intro!: same_chan_dev same_chan_put)
  qed (auto simp: cipher_destroy_def Let_def)
  have config: "same_chan c st (snd (cipher_config f arg ?st))" for arg
  proof (cases arg)
    case None
    then show ?thesis by (simp add: cipher_config_def)
  next
    case (Some hc)
    obtain h k where hc: "hc = (h, k)" by (cases hc)
    show ?thesis
    proof (cases "\<not> (h AND 0xffff) \<ge> 8 \<and> owned f (h AND 0xffff) ?st")
      case True
      then have i: "unat (h AND 0xffff) < 8" "h AND 0xffff \<noteq> c" using other by (auto simp: word_le_nat_alt)
      then show ?thesis using True Some hc
        by (auto simp: cipher_config_def Let_def on_dev_snd drv_frame [OF ok(2) i, simplified] intro!: same_chan_dev)
    qed (auto simp: cipher_config_def Let_def Some hc)
  qed
  have start: "same_chan c st (snd (cipher_start dec f arg cfg r' ?st))" for dec arg
  proof (cases arg)
    case None
    then show ?thesis by (simp add: cipher_start_def)
  next
    case (Some D)
    let ?i = "CIHandle D AND 0xffff"
    show ?thesis
    proof (cases "\<not> ?i \<ge> 8 \<and> owned f ?i ?st")
      case True
      then have i: "unat ?i < 8" "?i \<noteq> c" using other by (auto simp: word_le_nat_alt)
      note fr = task_frame [OF ok(2) i c0]
      show ?thesis using True Some i(2)
        by (simp add: cipher_start_def Let_def case_prod_beta) (auto intro!: same_chan_dev same_chan_put simp: fr [simplified])
    qed (auto simp: cipher_start_def Let_def Some)
  qed
  show ?thesis
    by (cases cmd) (simp_all add: DRV_CIPHER_Ioctl_def Let_def case_prod_beta create destroy config start)
qed

lemma release_frame:
  assumes "intf_ok st" "g_bSoftChnOpen (osr st c)" "\<not> owned f c st"
  shows "same_chan c st (DRV_CIPHER_Release f st)"
proof -
  have "same_chan c st (fold (release_chan f) is st')"
    if "intf_ok st'" "same_chan c st st'" "\<forall>i \<in> set is. unat i < 8" for "is" st'
    using that
  proof (induction "is" arbitrary: st')
    case (Cons i "is")
    have i: "unat i < 8" using Cons.prems(3) by simp
    have "same_chan c st (release_chan f i st')"
    proof (cases "pWichFile (osr st' i) = Some f")
      case True
      then have ic: "i \<noteq> c" using Cons.prems(2) assms(2,3) by (auto simp: same_chan_def owned_def)
      note fr = drv_frame(3,4) [OF intf_drv [OF Cons.prems(1)] i ic]
      show ?thesis using True ic Cons.prems(2)
        by (auto simp: release_chan_def Let_def on_dev_snd fr intro!: same_chan_put same_chan_dev)
    qed (use Cons.prems in \<open>simp add: release_chan_def\<close>)
    then show ?case using Cons.IH [OF release_chan_ok [OF Cons.prems(1) i]] Cons.prems(3) by simp
  qed simp
  from this [OF assms(1) same_chan_refl, of "[0, 1, 2, 3, 4, 5, 6, 7]"] show ?thesis
    unfolding DRV_CIPHER_Release_def by (simp del: fold_simps)
qed

text \<open>C13: A file cannot touch another file's channel: whatever control call (with whatever handle) or release
  a file performs, a channel that another file owns keeps its owner, its open and done flags, its
  keys and vectors and its ring.\<close>
theorem cipher_isolation:
  assumes "intf_ok st" "owned g c st" "g \<noteq> f"
  shows "same_chan c st (snd (DRV_CIPHER_Ioctl signal f cmd cfg r' st)) \<and> same_chan c st (DRV_CIPHER_Release f st)"
proof -
  have "g_bSoftChnOpen (osr st c)" "\<not> owned f c st" using assms(2,3) by (auto simp: owned_def)
  then show ?thesis using ioctl_frame release_frame assms(1) by blast
qed

section \<open>Creation of handles\<close>


text \<open>C40: When the new handle cannot be copied to the user the call fails, but the channel stays open with
  no owner. No later call, release, interrupt or timeout of any file gives it back: it is lost
  until the module is reloaded.\<close>
theorem cipher_create_leaks:
  assumes "intf_ok st" "find_free [1, 2, 3, 4, 5, 6, 7] st = Some c"
    and "cipher_reach (snd (DRV_CIPHER_Ioctl False f (CreateHandle False) cfg r' st), sl) (st', sl')"
  shows "fst (DRV_CIPHER_Ioctl False f (CreateHandle False) cfg r' st) = Return HI_FAILURE \<and>
    g_bSoftChnOpen (osr st' c) \<and> (\<forall>g. \<not> owned g c st')"
proof -
  let ?st = "snd (DRV_CIPHER_Ioctl False f (CreateHandle False) cfg r' st)"
  have ff: "find_free [1, 2, 3, 4, 5, 6, 7] (down False st) = Some c" using assms(2) by (simp del: find_free.simps)
  have cc: "c \<in> set [1, 2, 3, 4, 5, 6, 7]" "\<not> g_bSoftChnOpen (osr st c)" using assms(2) find_free_spec(1) by blast+
  then have c: "unat c < 8" using rings_range by blast
  have l: "unat c < length (g_stCipherOsrChn st)" by (rule intf_range [OF assms(1) c])
  have none: "pWichFile (osr st c) = None" using assms(1) c cc(2) by (auto simp: intf_ok_def)
  define lost where "lost st \<longleftrightarrow> intf_ok st \<and> g_bSoftChnOpen (osr st c) \<and> pWichFile (osr st c) = None" for st
  have "g_bSoftChnOpen (osr ?st c) \<and> pWichFile (osr ?st c) = None" using ff l none
    by (simp add: DRV_CIPHER_Ioctl_def cipher_create_eq Let_def del: find_free.simps)
  then have "lost ?st" unfolding lost_def using ioctl_ok [OF assms(1)] by blast
  moreover have keep: "lost st2" if "same_chan c st1 st2" "lost st1" "intf_ok st2" for st1 st2
    using that by (simp add: lost_def same_chan_def)
  have flag: "lost (DRV_CIPHER_UserCommCallBack a s)" if "lost s" for a s
    using that callback_ok [of s a] by (cases "unat a < length (g_stCipherOsrChn s)") (auto simp: lost_def DRV_CIPHER_UserCommCallBack_def)
  have flags: "lost (fold (\<lambda>(f, arg). DRV_CIPHER_UserCommCallBack arg) cs s)" if "lost s" for cs s
    using that by (induction cs arbitrary: s) (auto simp: flag)
  have io: "lost (snd (DRV_CIPHER_Ioctl sig g cmd a b s))" if "lost s" for sig g cmd a b s
    using that keep [OF ioctl_frame] ioctl_ok by (auto simp: lost_def owned_def)
  have step: "lost (fst y)" if "cipher_step x y" "lost (fst x)" for x y
    using that
  proof (induction rule: cipher_step.induct)
    case (ioctl_returns signal st f cmd cfg r' ret st' sl)
    then show ?case using io [of st signal f cmd cfg r'] by simp
  next
    case (ioctl_waits signal st f cmd cfg r' c st' sl)
    then show ?case using io [of st signal f cmd cfg r'] by simp
  next
    case (ioctl_wakes f c sl timeout st signal ret st')
    then show ?case using resume_ok [of st timeout signal] by (auto simp: lost_def ioctl_resume_def split: if_splits)
  next
    case (interrupt st st' sl)
    then obtain d where d: "DRV_Cipher_ISR (cipher_dev st) = Some d"
      "st' = fold (\<lambda>(f, arg). DRV_CIPHER_UserCommCallBack arg) (drop (length (ci_calls (cipher_dev st))) (ci_calls d)) (st\<lparr>cipher_dev := d\<rparr>)"
      by (auto simp: cipher_interrupt_def split: option.splits)
    have "lost (st\<lparr>cipher_dev := d\<rparr>)" using interrupt.prems isr_ok(1) [OF intf_drv d(1)] by (simp add: lost_def intf_ok_dev)
    then show ?case unfolding d(2) fst_conv by (rule flags)
  next
    case (hardware st sl r)
    then show ?case by (simp add: lost_def intf_ok_dev intf_drv)
  next
    case (releases f sl st)
    then show ?case using keep [OF release_frame] release_ok by (auto simp: lost_def owned_def)
  qed
  have "lost (fst y)" if "cipher_reach x y" "lost (fst x)" for x y
    using that by (induction rule: cipher_reach.induct) (auto intro: step)
  ultimately have "lost st'" using assms(3) by fastforce
  moreover have "fst (DRV_CIPHER_Ioctl False f (CreateHandle False) cfg r' st) = Return HI_FAILURE"
    using ff by (simp add: DRV_CIPHER_Ioctl_def cipher_create_eq Let_def del: find_free.simps)
  ultimately show ?thesis by (simp add: lost_def owned_def)
qed

section \<open>Completion of a request\<close>

lemma callbacks_done:
  "unat c < length (g_stCipherOsrChn st) \<Longrightarrow>
    g_bDataDone (osr (fold (\<lambda>(f, arg). DRV_CIPHER_UserCommCallBack arg) cs st) c) \<longleftrightarrow> g_bDataDone (osr st c) \<or> c \<in> snd ` set cs"
proof (induction cs arbitrary: st)
  case (Cons x cs)
  obtain f a where x: "x = (f, a)" by (cases x)
  have "g_bDataDone (osr (DRV_CIPHER_UserCommCallBack a st) c) \<longleftrightarrow> g_bDataDone (osr st c) \<or> c = a"
    using Cons.prems by (cases "unat a < length (g_stCipherOsrChn st)")
      (auto simp: DRV_CIPHER_UserCommCallBack_def)
  then show ?case using Cons by (auto simp: x DRV_CIPHER_UserCommCallBack_def)
qed simp

lemma callbacks_dev: "cipher_dev (fold (\<lambda>(f, arg). DRV_CIPHER_UserCommCallBack arg) cs st) = cipher_dev st"
  by (induction cs arbitrary: st) (auto simp: DRV_CIPHER_UserCommCallBack_def)

text \<open>What an interrupt does to a ring that reports one finished package: the done flag of the channel
  whose package is the oldest is set, and that package leaves the ring.\<close>

lemma interrupt_oldest:
  assumes "intf_ok st" "unat c < 8" "c \<noteq> 0" "v = ci_reg_file (cipher_dev st) REG_CI_INT_STATUS" "raised v c"
    and "\<forall>i \<in> {1, 2, 3, 4, 5, 6, 7}. chan_rep (chan_of (cipher_dev st) i) (Q i) \<and> (raised v i \<longrightarrow> done_count (cipher_dev st) i \<le> length (Q i))"
    and "Q c = c # qs" "done_count (cipher_dev st) c = 1"
    and "pfnCallBack (soft_of (cipher_dev st) c) = Some user_callback" "u32PirvateData (soft_of (cipher_dev st) c) = c"
  shows "\<exists>st'. cipher_interrupt st = Some st' \<and> g_bDataDone (osr st' c) \<and> chan_rep (chan_of (cipher_dev st') c) qs"
proof -
  let ?d = "cipher_dev st"
  have c: "c \<in> {1, 2, 3, 4, 5, 6, 7}" using chan_cases [OF assms(2)] assms(3) by auto
  obtain d' where d': "DRV_Cipher_ISR ?d = Some d'"
    "ci_calls d' = ci_calls ?d @ (if bit v 8 then tag_calls ?d 0 else []) @ concat (map (owed v Q ?d) [1, 2, 3, 4, 5, 6, 7])"
    "\<forall>i \<in> {1, 2, 3, 4, 5, 6, 7}. chan_rep (chan_of d' i) (left v Q ?d i)"
    using isr_rep [OF intf_drv [OF assms(1)] assms(4,6)] by blast
  have "(user_callback, c) \<in> set (owed v Q ?d c)"
    using assms(5,7-10) by (simp add: owed_def tag_calls_def)
  then have "(user_callback, c) \<in> set (concat (map (owed v Q ?d) [1, 2, 3, 4, 5, 6, 7]))" using c by auto
  then have "c \<in> snd ` set (drop (length (ci_calls ?d)) (ci_calls d'))" unfolding d'(2) by force
  moreover have "left v Q ?d c = qs" using assms(5,7,8) by (simp add: left_def)
  ultimately show ?thesis
    using d'(1,3) c intf_range [OF assms(1,2)]
    by (auto simp: cipher_interrupt_def callbacks_dev callbacks_done simp del: fold_simps)
qed



text \<open>The library hands a request to the device exactly when the device is open, the handle names a
  channel other than 0 and the length is from 16 bytes to just below a megabyte, so the length
  fits the 20-bit field of the descriptor; otherwise nothing is called.\<close>
theorem unf_encrypt_bounds:
  "snd (HI_UNF_CIPHER_Encrypt (\<lambda>s cmd. (ret, s @ [cmd])) fd h src dest len []) =
    (if 0 \<le> fd \<and> h AND 0xff \<noteq> 0 \<and> 16 \<le> unat len \<and> unat len < 2 ^ 20
     then [Encrypt (Some \<lparr>CIHandle = h, ScrPhyAddr = src, DestPhyAddr = dest, ByteLength = len\<rparr>)] else [])"
  by (auto simp: HI_UNF_CIPHER_Encrypt_def unf_crypt_def unf_call_def CIPHER_MAX_ENC_DEC_LEN_def Let_def word_less_nat_alt word_le_nat_alt)

section \<open>Concrete runs\<close>

definition ex_unloaded :: cipher_intf where
  "ex_unloaded = \<lparr>g_stCipherOsrChn = [], g_CipherMutexKernel = 1,
     cipher_dev = \<lparr>g_stCipherChans = [], g_stCipherSoftChans = [], ci_reg_file = (\<lambda>_. 0), ci_calls = []\<rparr>\<rparr>"
definition ex_loaded :: cipher_intf where "ex_loaded = snd (DRV_CIPHER_ModInit True (Some 0x80000000) 0 ex_unloaded)"
definition ex_created :: cipher_intf where "ex_created = snd (DRV_CIPHER_Ioctl False 5 (CreateHandle True) (\<lambda>_. 0) (\<lambda>_. 0) ex_loaded)"

lemma ex_loaded_init: "DRV_CIPHER_ModInit True (Some 0x80000000) 0 ex_unloaded = (HI_SUCCESS, ex_loaded)"
  by (simp add: ex_loaded_def DRV_CIPHER_ModInit_def on_dev_eq init_run Let_def del: init_chans.simps)

lemma ex_loaded_ok: "intf_ok ex_loaded" by (rule modinit_ok [OF ex_loaded_init])

lemma ex_loaded_osr: "unat i < 8 \<Longrightarrow> osr ex_loaded i = \<lparr>g_bSoftChnOpen = False, g_bDataDone = False, pWichFile = None\<rparr>"
  by (simp add: ex_loaded_def DRV_CIPHER_ModInit_def on_dev_eq init_run Let_def osr_def del: init_chans.simps replicate.simps)

lemma ex_loaded_free: "find_free [1, 2, 3, 4, 5, 6, 7] ex_loaded = Some 1" by (simp add: ex_loaded_osr)

lemma ex_created_ioctl: "DRV_CIPHER_Ioctl False 5 (CreateHandle True) (\<lambda>_. 0) (\<lambda>_. 0) ex_loaded = (Return HI_SUCCESS, ex_created)"
proof -
  have "find_free [1, 2, 3, 4, 5, 6, 7] (down False ex_loaded) = Some 1" using ex_loaded_free by (simp del: find_free.simps)
  then have "fst (DRV_CIPHER_Ioctl False 5 (CreateHandle True) (\<lambda>_. 0) (\<lambda>_. 0) ex_loaded) = Return HI_SUCCESS"
    by (simp add: DRV_CIPHER_Ioctl_def cipher_create_eq Let_def del: find_free.simps)
  then show ?thesis by (simp add: ex_created_def prod_eq_iff)
qed

lemma ex_created_ok: "intf_ok ex_created" unfolding ex_created_def by (rule ioctl_ok [OF ex_loaded_ok])

lemma ex_created_owned: "owned 5 1 ex_created"
proof -
  have f: "find_free [1, 2, 3, 4, 5, 6, 7] (down False ex_loaded) = Some 1" using ex_loaded_free by (simp del: find_free.simps)
  have "unat (1 :: u32) < length (g_stCipherOsrChn ex_loaded)" by (rule intf_range [OF ex_loaded_ok]) simp
  then show ?thesis using f
    by (simp add: ex_created_def DRV_CIPHER_Ioctl_def cipher_create_eq Let_def owned_def del: find_free.simps)
qed


theorem cipher_signal_breaks_mutex_witness:
  "g_CipherMutexKernel (snd (DRV_CIPHER_Ioctl True 5 OtherCmd (\<lambda>_. 0) (\<lambda>_. 0) ex_loaded)) \<ge> g_CipherMutexKernel ex_loaded + 1"
  by (rule cipher_signal_breaks_mutex [OF start])

theorem cipher_isolation_witness:
  "same_chan 1 ex_created (snd (DRV_CIPHER_Ioctl False 6 (DestroyHandle 0x640001) (\<lambda>_. 0) (\<lambda>_. 0) ex_created)) \<and>
   same_chan 1 ex_created (DRV_CIPHER_Release 6 ex_created)"
  by (rule cipher_isolation [OF ex_created_ok ex_created_owned]) simp


theorem cipher_create_leaks_witness:
  "fst (DRV_CIPHER_Ioctl False 5 (CreateHandle False) (\<lambda>_. 0) (\<lambda>_. 0) ex_loaded) = Return HI_FAILURE \<and>
   g_bSoftChnOpen (osr (DRV_CIPHER_Release 5 (snd (DRV_CIPHER_Ioctl False 5 (CreateHandle False) (\<lambda>_. 0) (\<lambda>_. 0) ex_loaded))) 1)"
proof -
  let ?x = "snd (DRV_CIPHER_Ioctl False 5 (CreateHandle False) (\<lambda>_. 0) (\<lambda>_. 0) ex_loaded)"
  have "cipher_reach (?x, []) (DRV_CIPHER_Release 5 ?x, [])" by (rule step [OF start releases]) simp
  from cipher_create_leaks [OF ex_loaded_ok ex_loaded_free this] show ?thesis by blast
qed

text \<open>Channel 1 open, owned by file 5 and configured, nothing outstanding; and the same with two packages
  of the channel in the ring, one reported finished.\<close>

definition ex_ready :: cipher_intf where
  "ex_ready = \<lparr>g_stCipherOsrChn = (replicate 8 \<lparr>g_bSoftChnOpen = False, g_bDataDone = False, pWichFile = None\<rparr>)
      [1 := \<lparr>g_bSoftChnOpen = True, g_bDataDone = False, pWichFile = Some 5\<rparr>],
     g_CipherMutexKernel = 1,
     cipher_dev = put_soft 1 ((soft_of ex_open 1)\<lparr>pfnCallBack := Some user_callback, u32PirvateData := 1\<rparr>) ex_open\<rparr>"

definition ex_int_regs :: ci_regs where
  "ex_int_regs = (\<lambda>a. if a = REG_CI_INT_STATUS then 0x200 else if a = REG_CI_CHANn OFULL_CNT 1 then 1 else 0)"

lemma ex_ready_dev:
  "drv_ok (cipher_dev ex_ready)" "chan_of (cipher_dev ex_ready) i = chan_of ex_started i" "u32HardWareChn (soft_of (cipher_dev ex_ready) 1) = 1"
  "pfnCallBack (soft_of (cipher_dev ex_ready) 1) = Some user_callback" "u32PirvateData (soft_of (cipher_dev ex_ready) 1) = 1"
proof -
  have u: "unat (1 :: u32) < 8" by simp
  have l: "unat (1 :: u32) < length (g_stCipherSoftChans ex_open)" using drv_okD(5) [OF ex_open_ok(1) u] u by simp
  show "drv_ok (cipher_dev ex_ready)" unfolding ex_ready_def using ex_open_ok(1,3)
    by (simp add: drv_ok_put_soft)
  show "chan_of (cipher_dev ex_ready) i = chan_of ex_started i" by (simp add: ex_ready_def ex_open_ok(2))
  show "u32HardWareChn (soft_of (cipher_dev ex_ready) 1) = 1" "pfnCallBack (soft_of (cipher_dev ex_ready) 1) = Some user_callback"
    "u32PirvateData (soft_of (cipher_dev ex_ready) 1) = 1"
    unfolding ex_ready_def cipher_intf.select_convs soft_of_put [OF l] using ex_open_ok(3) by simp_all
qed

lemma ex_ready_osr:
  "unat i < 8 \<Longrightarrow> osr ex_ready i = \<lparr>g_bSoftChnOpen = (i = 1), g_bDataDone = False, pWichFile = (if i = 1 then Some 5 else None)\<rparr>"
  by (auto simp: ex_ready_def osr_def nth_list_update word_unat_eq_iff simp del: replicate.simps)

lemma ex_ready_ok: "intf_ok ex_ready" "owned 5 1 ex_ready"
  using ex_ready_dev(1) by (auto simp: intf_ok_def owned_def ex_ready_osr) (simp add: ex_ready_def)

lemma ex_int_raised: "raised (ex_int_regs REG_CI_INT_STATUS) i \<longleftrightarrow> i = 1"
proof -
  have f: "(0x200 :: u32) = ci_flag 9" by (simp add: ci_flag_def)
  have "raised (ci_flag 9) i \<longleftrightarrow> bit (ci_flag 9) (unat i + 8)"
    unfolding raised_def by (simp add: bit_iff_odd_drop_bit and_one_eq odd_iff_mod_2_eq_one)
  also have "\<dots> \<longleftrightarrow> i = 1" by (auto simp: bit_ci_flag word_unat_eq_iff)
  finally show ?thesis by (simp add: ex_int_regs_def f)
qed


definition ex_behind :: cipher_intf where
  "ex_behind = ex_ready\<lparr>cipher_dev := put_chan 1 (tag_slot 1 1 (tag_slot 1 1 (chan_of ex_started 1)))
     ((cipher_dev ex_ready)\<lparr>ci_reg_file := ex_int_regs\<rparr>)\<rparr>"


end
