(* ===== verification/Sha256.thy ===== *)
theory Sha256
  imports HashStream
begin

text \<open>
  SHA-224 and SHA-256, \<open>rt3370/common/crypt_sha2.c\<close>: the rotated compression function, whose message
  schedule overwrites the block buffer, the incremental digest on a buffer of sixteen words that
  is filled bytewise on the little-endian target, and the interface that picks the variant by
  length. The digests interpret \<open>stream_hash\<close>; the compression function is proved equal to
  the one of FIPS 180-4. The 64-bit variants are switched off in the header.
\<close>

section \<open>Words\<close>

definition rotr32 :: "u32 \<Rightarrow> nat \<Rightarrow> u32" where "rotr32 x n = drop_bit n x OR push_bit (32 - n) x"

definition bswap_32 :: "u32 \<Rightarrow> u32" where
  "bswap_32 x = (rotr32 x 24 AND 0x00ff00ff) OR (rotr32 x 8 AND 0xff00ff00)"

definition sha2_ch :: "u32 \<Rightarrow> u32 \<Rightarrow> u32 \<Rightarrow> u32" where "sha2_ch x y z = z XOR (x AND (y XOR z))"
definition sha2_maj :: "u32 \<Rightarrow> u32 \<Rightarrow> u32 \<Rightarrow> u32" where "sha2_maj x y z = (x AND y) OR (z AND (x XOR y))"

definition s_0 :: "u32 \<Rightarrow> u32" where "s_0 x = rotr32 x 2 XOR rotr32 x 13 XOR rotr32 x 22"
definition s_1 :: "u32 \<Rightarrow> u32" where "s_1 x = rotr32 x 6 XOR rotr32 x 11 XOR rotr32 x 25"
definition g_0 :: "u32 \<Rightarrow> u32" where "g_0 x = rotr32 x 7 XOR rotr32 x 18 XOR drop_bit 3 x"
definition g_1 :: "u32 \<Rightarrow> u32" where "g_1 x = rotr32 x 17 XOR rotr32 x 19 XOR drop_bit 10 x"

definition k256 :: "u32 list" where
  "k256 =
   concat
    [[0x428a2f98, 0x71374491, 0xb5c0fbcf, 0xe9b5dba5, 0x3956c25b, 0x59f111f1, 0x923f82a4, 0xab1c5ed5],
     [0xd807aa98, 0x12835b01, 0x243185be, 0x550c7dc3, 0x72be5d74, 0x80deb1fe, 0x9bdc06a7, 0xc19bf174],
     [0xe49b69c1, 0xefbe4786, 0x0fc19dc6, 0x240ca1cc, 0x2de92c6f, 0x4a7484aa, 0x5cb0a9dc, 0x76f988da],
     [0x983e5152, 0xa831c66d, 0xb00327c8, 0xbf597fc7, 0xc6e00bf3, 0xd5a79147, 0x06ca6351, 0x14292967],
     [0x27b70a85, 0x2e1b2138, 0x4d2c6dfc, 0x53380d13, 0x650a7354, 0x766a0abb, 0x81c2c92e, 0x92722c85],
     [0xa2bfe8a1, 0xa81a664b, 0xc24b8b70, 0xc76c51a3, 0xd192e819, 0xd6990624, 0xf40e3585, 0x106aa070],
     [0x19a4c116, 0x1e376c08, 0x2748774c, 0x34b0bcb5, 0x391c0cb3, 0x4ed8aa4a, 0x5b9cca4f, 0x682e6ff3],
     [0x748f82ee, 0x78a5636f, 0x84c87814, 0x8cc70208, 0x90befffa, 0xa4506ceb, 0xbef9a3f7, 0xc67178f2]]"

section \<open>The compression function\<close>

record sha256_ctx =
  count0 :: u32
  count1 :: u32
  hash :: "u32 list"
  wbuf :: "u32 list"

text \<open>\<open>vf(n,i)\<close> is \<open>v[(n - i) & 7]\<close>; \<open>hf(i)\<close> updates the schedule in place and yields the new word.\<close>

definition vf :: "nat \<Rightarrow> nat \<Rightarrow> nat" where "vf n i = nat ((int n - int i) AND 7)"

definition hf :: "nat \<Rightarrow> u32 list \<Rightarrow> u32 list" where
  "hf i p = p[i AND 15 := p ! (i AND 15) + (g_1 (p ! ((i + 14) AND 15)) + p ! ((i + 9) AND 15) + g_0 (p ! ((i + 1) AND 15)))]"

definition v_cycle :: "nat \<Rightarrow> nat \<Rightarrow> u32 list \<times> u32 list \<Rightarrow> u32 list \<times> u32 list" where
  "v_cycle i j vp =
    (case vp of (v, p) \<Rightarrow>
       let p = (if j \<noteq> 0 then hf i p else p);
           w = (if j \<noteq> 0 then p ! (i AND 15) else p ! i);
           v = v[vf 7 i := v ! vf 7 i + (w + k256 ! (i + j) + s_1 (v ! vf 4 i) + sha2_ch (v ! vf 4 i) (v ! vf 5 i) (v ! vf 6 i))];
           v = v[vf 3 i := v ! vf 3 i + v ! vf 7 i];
           v = v[vf 7 i := v ! vf 7 i + (s_0 (v ! vf 0 i) + sha2_maj (v ! vf 0 i) (v ! vf 1 i) (v ! vf 2 i))]
       in (v, p))"

definition sha256_compile :: "sha256_ctx \<Rightarrow> sha256_ctx" where
  "sha256_compile ctx =
    (case fold (\<lambda>j. fold (\<lambda>i. v_cycle i j) [0..<16]) [0, 16, 32, 48] (hash ctx, wbuf ctx) of (v, p) \<Rightarrow>
       ctx\<lparr>hash := map2 (+) (hash ctx) v, wbuf := p\<rparr>)"

section \<open>The incremental digest\<close>

text \<open>The buffer seen as bytes, a copy into it, and the reversal of the bytes of its first \<open>n\<close> words.\<close>

definition word_bytes :: "u32 list \<Rightarrow> u8 list" where "word_bytes ws = concat (map le_bytes ws)"

definition copy_bytes :: "u32 list \<Rightarrow> nat \<Rightarrow> u8 list \<Rightarrow> u32 list" where
  "copy_bytes ws pos src = words_at (copy_at (word_bytes ws) pos src) (length ws)"

definition bsw_32 :: "nat \<Rightarrow> u32 list \<Rightarrow> u32 list" where
  "bsw_32 n p = map bswap_32 (take n p) @ drop n p"

definition sha2_block :: "u32 \<Rightarrow> u32 \<Rightarrow> u8 list \<Rightarrow> sha256_ctx \<Rightarrow> sha256_ctx" where
  "sha2_block pos space sp ctx =
    sha256_compile (ctx\<lparr>wbuf := bsw_32 16 (copy_bytes (wbuf ctx) (unat pos) (take (unat space) sp))\<rparr>)"

text \<open>The loop over whole blocks; \<open>space\<close> is what is left of the current block.\<close>

function sha256_loop :: "u32 \<Rightarrow> u32 \<Rightarrow> u8 list \<Rightarrow> u32 \<Rightarrow> sha256_ctx \<Rightarrow> u32 \<times> u8 list \<times> u32 \<times> sha256_ctx" where
  "sha256_loop pos space sp len ctx =
    (if len \<ge> space then sha256_loop 0 64 (drop (unat space) sp) (len - space) (sha2_block pos space sp ctx)
     else (pos, sp, len, ctx))"
  by pat_completeness auto
termination
proof (relation "measure (\<lambda>(pos, space, sp, len, ctx). unat len + (if space = 64 then 0 else 1))")
  fix pos space len :: u32 and sp :: "u8 list" and ctx :: sha256_ctx
  assume l: "space \<le> len"
  have u: "unat (len - space) = unat len - unat space" using l by (simp add: unat_sub)
  show "((0, 64, drop (unat space) sp, len - space, sha2_block pos space sp ctx), pos, space, sp, len, ctx)
    \<in> measure (\<lambda>(pos, space, sp, len, ctx). unat len + (if space = 64 then 0 else 1))"
    using l u by (auto simp: word_le_nat_alt)
qed simp

declare sha256_loop.simps [simp del]

definition sha256_hash :: "u8 list \<Rightarrow> u32 \<Rightarrow> sha256_ctx \<Rightarrow> sha256_ctx" where
  "sha256_hash dat len ctx =
    (let pos = count0 ctx AND 63;
         space = 64 - pos;
         ctx = ctx\<lparr>count0 := count0 ctx + len\<rparr>;
         ctx = (if count0 ctx < len then ctx\<lparr>count1 := count1 ctx + 1\<rparr> else ctx);
         (pos, sp, len, ctx) = sha256_loop pos space dat len ctx
     in ctx\<lparr>wbuf := copy_bytes (wbuf ctx) (unat pos) (take (unat len) sp)\<rparr>)"

text \<open>The end: the padding byte goes into the word of the last byte, the words behind are cleared, and
  the length takes the last two words, in another block when there is no room.\<close>

definition sha_end1 :: "nat \<Rightarrow> sha256_ctx \<Rightarrow> u8 list \<times> sha256_ctx" where
  "sha_end1 hlen ctx =
    (let i = count0 ctx AND 63;
         w = bsw_32 (unat (drop_bit 2 (i + 3))) (wbuf ctx);
         q = unat (drop_bit 2 i);
         sh = unat (8 * (NOT i AND 3));
         w = w[q := w ! q AND push_bit sh 0xffffff80];
         w = w[q := w ! q OR push_bit sh 0x00000080];
         (n, ctx) =
           (if i > 64 - 9 then
              let w = (if i < 60 then w[15 := 0] else w)
              in (0, sha256_compile (ctx\<lparr>wbuf := w\<rparr>))
            else (unat (drop_bit 2 i + 1), ctx\<lparr>wbuf := w\<rparr>));
         w = map (\<lambda>k. if n \<le> k \<and> k < 14 then 0 else wbuf ctx ! k) [0..<16];
         w = w[14 := push_bit 3 (count1 ctx) OR drop_bit 29 (count0 ctx)];
         w = w[15 := push_bit 3 (count0 ctx)];
         ctx = sha256_compile (ctx\<lparr>wbuf := w\<rparr>)
     in (map (\<lambda>i. ucast (drop_bit (8 * (3 - i mod 4)) (hash ctx ! (i div 4)))) [0..<hlen], ctx))"

definition i224 :: "u32 list" where
  "i224 = [0xc1059ed8, 0x367cd507, 0x3070dd17, 0xf70e5939, 0xffc00b31, 0x68581511, 0x64f98fa7, 0xbefa4fa4]"
definition i256 :: "u32 list" where
  "i256 = [0x6a09e667, 0xbb67ae85, 0x3c6ef372, 0xa54ff53a, 0x510e527f, 0x9b05688c, 0x1f83d9ab, 0x5be0cd19]"

definition sha224_begin :: "sha256_ctx \<Rightarrow> sha256_ctx" where
  "sha224_begin ctx = ctx\<lparr>count0 := 0, count1 := 0, hash := i224\<rparr>"
definition sha256_begin :: "sha256_ctx \<Rightarrow> sha256_ctx" where
  "sha256_begin ctx = ctx\<lparr>count0 := 0, count1 := 0, hash := i256\<rparr>"
definition sha224_end :: "sha256_ctx \<Rightarrow> u8 list \<times> sha256_ctx" where "sha224_end = sha_end1 28"
definition sha256_end :: "sha256_ctx \<Rightarrow> u8 list \<times> sha256_ctx" where "sha256_end = sha_end1 32"

definition sha224 :: "sha256_ctx \<Rightarrow> u8 list \<Rightarrow> u8 list" where
  "sha224 cx dat = fst (sha_end1 28 (sha256_hash dat (of_nat (length dat)) (sha224_begin cx)))"
definition sha256 :: "sha256_ctx \<Rightarrow> u8 list \<Rightarrow> u8 list" where
  "sha256 cx dat = fst (sha_end1 32 (sha256_hash dat (of_nat (length dat)) (sha256_begin cx)))"

text \<open>The interface by length; \<open>None\<close> is the failure of an unknown length. A context whose length field
  is neither 28 nor 32 is left alone.\<close>

record sha2_ctx =
  ctx256 :: sha256_ctx
  sha2_len :: u32

definition sha2_begin :: "u32 \<Rightarrow> sha2_ctx \<Rightarrow> sha2_ctx option" where
  "sha2_begin len ctx =
    (if len = 224 \<or> len = 28 then Some (ctx\<lparr>ctx256 := (ctx256 ctx)\<lparr>count0 := 0, count1 := 0, hash := i224\<rparr>, sha2_len := 28\<rparr>)
     else if len = 256 \<or> len = 32 then Some (ctx\<lparr>ctx256 := (ctx256 ctx)\<lparr>count0 := 0, count1 := 0, hash := i256\<rparr>, sha2_len := 32\<rparr>)
     else None)"

definition sha2_hash :: "u8 list \<Rightarrow> u32 \<Rightarrow> sha2_ctx \<Rightarrow> sha2_ctx" where
  "sha2_hash dat len ctx =
    (if sha2_len ctx = 28 \<or> sha2_len ctx = 32 then ctx\<lparr>ctx256 := sha256_hash dat len (ctx256 ctx)\<rparr> else ctx)"

definition sha2_end :: "sha2_ctx \<Rightarrow> u8 list" where
  "sha2_end ctx =
    (if sha2_len ctx = 28 then fst (sha_end1 28 (ctx256 ctx))
     else if sha2_len ctx = 32 then fst (sha_end1 32 (ctx256 ctx)) else [])"

definition sha2 :: "sha2_ctx \<Rightarrow> u32 \<Rightarrow> u8 list \<Rightarrow> u8 list option" where
  "sha2 cx sz dat =
    (case sha2_begin sz cx of None \<Rightarrow> None | Some cx \<Rightarrow> Some (sha2_end (sha2_hash dat (of_nat (length dat)) cx)))"

section \<open>The reference: FIPS 180-4\<close>

definition fips_ch :: "u32 \<Rightarrow> u32 \<Rightarrow> u32 \<Rightarrow> u32" where "fips_ch x y z = (x AND y) XOR (NOT x AND z)"
definition fips_maj :: "u32 \<Rightarrow> u32 \<Rightarrow> u32 \<Rightarrow> u32" where "fips_maj x y z = (x AND y) XOR (x AND z) XOR (y AND z)"

fun fips_schedule :: "nat \<Rightarrow> u32 list \<Rightarrow> u32 list" where
  "fips_schedule 0 W = W"
| "fips_schedule (Suc n) W =
    (let t = length W
     in fips_schedule n (W @ [g_1 (W ! (t - 2)) + W ! (t - 7) + g_0 (W ! (t - 15)) + W ! (t - 16)]))"

definition fips_round :: "u32 \<Rightarrow> u32 \<Rightarrow> u32 list \<Rightarrow> u32 list" where
  "fips_round k w s =
    (let a = s ! 0; b = s ! 1; c = s ! 2; d = s ! 3; e = s ! 4; f = s ! 5; g = s ! 6; h = s ! 7;
         T1 = h + s_1 e + fips_ch e f g + k + w;
         T2 = s_0 a + fips_maj a b c
     in [T1 + T2, a, b, c, d + T1, e, f, g])"

definition fips_compress :: "u32 list \<Rightarrow> u32 list \<Rightarrow> u32 list" where
  "fips_compress H M =
    (let W = fips_schedule 48 M
     in map2 (+) H (fold (\<lambda>t. fips_round (k256 ! t) (W ! t)) [0..<64] H))"

definition be32 :: "u8 list \<Rightarrow> u32" where
  "be32 bs = push_bit 24 (ucast (bs ! 0)) OR push_bit 16 (ucast (bs ! 1)) OR push_bit 8 (ucast (bs ! 2)) OR ucast (bs ! 3)"

definition be_words :: "u8 list \<Rightarrow> nat \<Rightarrow> u32 list" where
  "be_words bs n = map (\<lambda>i. be32 (drop (4 * i) bs)) [0..<n]"

definition fips_block :: "u32 list \<Rightarrow> u8 list \<Rightarrow> u32 list" where
  "fips_block H bs = fips_compress H (be_words bs 16)"

definition be64_count :: "u32 \<Rightarrow> u32 \<Rightarrow> u8 list" where "be64_count lo hi = be_bytes hi @ be_bytes lo"

definition sha2_ref :: "u32 list \<Rightarrow> nat \<Rightarrow> u8 list \<Rightarrow> u8 list" where
  "sha2_ref iv hlen bs = take hlen (concat (map be_bytes (fst (absorb fips_block iv (md_pad be64_count bs)))))"

section \<open>The compression function is the standard's\<close>

lemma sha2_ch_fips: "sha2_ch x y z = fips_ch x y z"
  by (rule bit_word_eqI) (auto simp: sha2_ch_def fips_ch_def bit_xor_iff bit_and_iff bit_not_iff)

lemma sha2_maj_fips: "sha2_maj x y z = fips_maj x y z"
  by (rule bit_word_eqI) (auto simp: sha2_maj_def fips_maj_def bit_xor_iff bit_and_iff bit_or_iff)

lemma int_and7: "(x::int) AND 7 = x mod 8"
  using take_bit_eq_mask [of 3 x] by (simp add: take_bit_eq_mod mask_eq_exp_minus_1)

lemma nat_and15: "(n::nat) AND 15 = n mod 16"
  using take_bit_eq_mask [of 4 n] by (simp add: take_bit_eq_mod mask_eq_exp_minus_1)

lemma vf_mod: "vf n i = (n + 7 * i) mod 8"
proof -
  have "int n - int i = int (n + 7 * i) + 8 * - int i" by simp
  then have "(int n - int i) mod 8 = int (n + 7 * i) mod 8" by (simp only: mod_mult_self2)
  also have "\<dots> = int ((n + 7 * i) mod 8)" by (simp only: zmod_int of_nat_numeral)
  finally show ?thesis by (simp only: vf_def int_and7 nat_int)
qed

lemma vf_less [simp]: "vf n i < 8" by (simp add: vf_mod)

lemma vf_eq_iff: "n < 8 \<Longrightarrow> m < 8 \<Longrightarrow> vf n i = vf m i \<longleftrightarrow> n = m"
proof -
  assume nm: "n < 8" "m < 8"
  define a where "a = 7 * i mod 8"
  have a: "a < 8" "vf n i = (n + a) mod 8" "vf m i = (m + a) mod 8"
    by (simp_all add: a_def vf_mod mod_simps)
  have "(k + a) mod 8 = (if k + a < 8 then k + a else k + a - 8)" if "k < 8" for k
    using that a(1) by (simp add: mod_if)
  then show "vf n i = vf m i \<longleftrightarrow> n = m" unfolding a(2,3) using nm by auto
qed

lemma vf_0_Suc: "vf 0 (Suc i) = vf 7 i" by (simp add: vf_mod)

lemma vf_Suc_Suc: "vf (Suc n) (Suc i) = vf n i"
proof -
  have "Suc n + 7 * Suc i = (n + 7 * i) + 8" by simp
  then show ?thesis unfolding vf_mod by (simp only: mod_add_self2)
qed

lemma vf_mod16: "vf n (t mod 16) = vf n t"
proof -
  have "t mod 16 mod 8 = t mod 8" by (rule mod_mod_cancel) simp
  then have "7 * (t mod 16) mod 8 = 7 * t mod 8" by (metis mod_mult_right_eq)
  then show ?thesis unfolding vf_mod by (metis mod_add_right_eq)
qed

text \<open>The working variables of the standard, read off the rotated array after \<open>t\<close> rounds.\<close>

definition working :: "nat \<Rightarrow> u32 list \<Rightarrow> u32 list" where "working t v = map (\<lambda>k. v ! vf k t) [0..<8]"

definition rotated_round :: "nat \<Rightarrow> u32 \<Rightarrow> u32 \<Rightarrow> u32 list \<Rightarrow> u32 list" where
  "rotated_round t k w v =
    (let v = v[vf 7 t := v ! vf 7 t + (w + k + s_1 (v ! vf 4 t) + sha2_ch (v ! vf 4 t) (v ! vf 5 t) (v ! vf 6 t))];
         v = v[vf 3 t := v ! vf 3 t + v ! vf 7 t]
     in v[vf 7 t := v ! vf 7 t + (s_0 (v ! vf 0 t) + sha2_maj (v ! vf 0 t) (v ! vf 1 t) (v ! vf 2 t))])"

lemma upt8: "[0..<8] = [0, 1, 2, 3, 4, 5, 6, 7 :: nat]" by (simp add: upt_rec)

lemma vf_steps:
  "vf (Suc 0) (Suc t) = vf 0 t" "vf 2 (Suc t) = vf (Suc 0) t" "vf 3 (Suc t) = vf 2 t" "vf 4 (Suc t) = vf 3 t"
  "vf 5 (Suc t) = vf 4 t" "vf 6 (Suc t) = vf 5 t" "vf 7 (Suc t) = vf 6 t"
  using vf_Suc_Suc [of 0 t] vf_Suc_Suc [of 1 t] vf_Suc_Suc [of 2 t] vf_Suc_Suc [of 3 t]
    vf_Suc_Suc [of 4 t] vf_Suc_Suc [of 5 t] vf_Suc_Suc [of 6 t] by (simp_all add: eval_nat_numeral)

lemma rotated_round_fips:
  assumes "length v = 8"
  shows "working (Suc t) (rotated_round t k w v) = fips_round k w (working t v)"
  using assms
  by (simp add: working_def upt8 rotated_round_def fips_round_def Let_def vf_0_Suc vf_steps vf_eq_iff
      sha2_ch_fips sha2_maj_fips algebra_simps)

lemma rotated_round_length [simp]: "length (rotated_round t k w v) = length v"
  by (simp add: rotated_round_def Let_def)

text \<open>The message schedule: the standard's list, and the circular buffer that holds its last sixteen words.\<close>

lemma fips_schedule_length [simp]: "length (fips_schedule n W) = length W + n"
  by (induction n W rule: fips_schedule.induct) (simp_all add: Let_def)

lemma fips_schedule_keeps: "t < length W \<Longrightarrow> fips_schedule n W ! t = W ! t"
  by (induction n W rule: fips_schedule.induct) (simp_all add: Let_def nth_append)

lemma fips_schedule_rec:
  assumes "16 \<le> length W" "length W \<le> t" "t < length W + n"
  defines "S \<equiv> fips_schedule n W"
  shows "S ! t = g_1 (S ! (t - 2)) + S ! (t - 7) + g_0 (S ! (t - 15)) + S ! (t - 16)"
  using assms(1-3) unfolding S_def
proof (induction n W rule: fips_schedule.induct)
  case (2 n W)
  let ?W = "W @ [g_1 (W ! (length W - 2)) + W ! (length W - 7) + g_0 (W ! (length W - 15)) + W ! (length W - 16)]"
  have s: "fips_schedule (Suc n) W = fips_schedule n ?W" by (simp add: Let_def)
  show ?case
  proof (cases "t = length W")
    case True
    then show ?thesis
      unfolding s using "2.prems"(1) by (subst (1 2 3 4 5) fips_schedule_keeps) (auto simp: nth_append)
  next
    case False
    then show ?thesis unfolding s using "2.prems" by (intro "2.IH") auto
  qed
qed simp

definition last16 :: "nat \<Rightarrow> u32 list \<Rightarrow> u32 list \<Rightarrow> bool" where
  "last16 t W p \<longleftrightarrow> length p = 16 \<and> (\<forall>k. max t 16 - 16 \<le> k \<and> k < max t 16 \<longrightarrow> p ! (k mod 16) = W ! k)"

lemma hf_last16:
  assumes "last16 t (fips_schedule 48 M) p" "length M = 16" "16 \<le> t" "t < 64"
  shows "last16 (Suc t) (fips_schedule 48 M) (hf t p)" and "hf t p ! (t AND 15) = fips_schedule 48 M ! t"
proof -
  let ?W = "fips_schedule 48 M"
  have p: "length p = 16" "\<And>k. t - 16 \<le> k \<Longrightarrow> k < t \<Longrightarrow> p ! (k mod 16) = ?W ! k"
    using assms(1,3) by (auto simp: last16_def max_def)
  have m: "(t + 14) mod 16 = (t - 2) mod 16" "(t + 9) mod 16 = (t - 7) mod 16"
    "(t + 1) mod 16 = (t - 15) mod 16" "t mod 16 = (t - 16) mod 16"
  proof -
    obtain s where t: "t = 16 + s" using assms(3) le_Suc_ex by blast
    have "16 + s + 14 = (s + 14) + 16" "16 + s + 9 = (s + 9) + 16" "16 + s + 1 = (s + 1) + 16" "16 + s = s + 16"
      "16 + s - 2 = s + 14" "16 + s - 7 = s + 9" "16 + s - 15 = s + 1" "16 + s - 16 = s" by simp_all
    then show "(t + 14) mod 16 = (t - 2) mod 16" "(t + 9) mod 16 = (t - 7) mod 16"
      "(t + 1) mod 16 = (t - 15) mod 16" "t mod 16 = (t - 16) mod 16"
      unfolding t by (simp_all only: mod_add_self2)
  qed
  have r: "p ! (t mod 16) = ?W ! (t - 16)" "p ! ((t + 14) mod 16) = ?W ! (t - 2)"
    "p ! ((t + 9) mod 16) = ?W ! (t - 7)" "p ! ((t + 1) mod 16) = ?W ! (t - 15)"
    unfolding m using assms(3) by (intro p(2); simp)+
  have w: "hf t p = p[t mod 16 := ?W ! t]"
    unfolding hf_def nat_and15 r
    using fips_schedule_rec [of M t 48] assms(2-4) by (simp add: algebra_simps)
  show "hf t p ! (t AND 15) = ?W ! t" using p(1) by (simp add: w nat_and15)
  have "p[t mod 16 := ?W ! t] ! (k mod 16) = ?W ! k" if "Suc t - 16 \<le> k" "k < Suc t" for k
  proof (cases "k = t")
    case True
    then show ?thesis using p(1) by simp
  next
    case False
    then have d: "k < t" "t - k < 16" using that assms(3) by auto
    have "k mod 16 \<noteq> t mod 16"
    proof
      assume "k mod 16 = t mod 16"
      then have "16 dvd t - k" using d(1) by (metis less_imp_le_nat mod_eq_dvd_iff_nat)
      then show False using d by (auto dest: dvd_imp_le)
    qed
    then show ?thesis using p(1) p(2) [of k] d that(1) by simp
  qed
  then show "last16 (Suc t) ?W (hf t p)"
    using p(1) assms(3) by (auto simp: last16_def w)
qed

lemma hf_mod16: "hf (t mod 16) p = hf t p"
  by (simp add: hf_def nat_and15 mod_simps)

lemma v_cycle_round:
  assumes "last16 t (fips_schedule 48 M) p" "length M = 16" "t < 64" "length v = 8"
  shows "\<exists>p'. v_cycle (t mod 16) (t - t mod 16) (v, p) = (rotated_round t (k256 ! t) (fips_schedule 48 M ! t) v, p') \<and>
    last16 (Suc t) (fips_schedule 48 M) p'"
proof (cases "t < 16")
  case True
  have "p ! t = fips_schedule 48 M ! t" using assms(1) True by (auto simp: last16_def dest: spec [of _ t])
  moreover have "last16 (Suc t) (fips_schedule 48 M) p" using assms(1) True by (simp add: last16_def max_def)
  ultimately show ?thesis using True by (simp add: v_cycle_def rotated_round_def Let_def)
next
  case False
  then have n: "t - t mod 16 \<noteq> 0" "t mod 16 + (t - t mod 16) = t"
    by (metis diff_is_0_eq mod_less_divisor not_le order.strict_trans2 zero_less_numeral, simp)
  note H = hf_last16 [OF assms(1,2)]
  show ?thesis
    using H False assms(3) n unfolding v_cycle_def rotated_round_def prod.case Let_def hf_mod16
    by (simp add: vf_mod16 nat_and15)
qed

lemma flat_cycles:
  "fold (\<lambda>j. fold (\<lambda>i. v_cycle i j) [0..<16]) [0, 16, 32, 48] = fold (\<lambda>t. v_cycle (t mod 16) (t - t mod 16)) [0..<64]"
proof -
  let ?c = "\<lambda>t. v_cycle (t mod 16) (t - t mod 16)"
  have b: "fold (\<lambda>i. v_cycle i j) [0..<16] = fold ?c [j..<j + 16]" if "j mod 16 = 0" for j
  proof -
    have e: "[j..<j + 16] = map (\<lambda>i. i + j) [0..<16]" using map_add_upt [of j 16] by (simp add: add.commute)
    have "(i + j) mod 16 = i" if "i < 16" for i
      using that \<open>j mod 16 = 0\<close> mod_add_eq [of i 16 j] by simp
    then show ?thesis unfolding e fold_map by (intro ext fold_cong) (auto simp: o_def)
  qed
  have "[0..<64] = [0..<0 + 16] @ [16..<16 + 16] @ [32..<32 + 16] @ [48..<48 + 16 :: nat]"
    using upt_add_eq_append [of 0 16 48] upt_add_eq_append [of 16 32 32] upt_add_eq_append [of 32 48 16] by simp
  then have "fold ?c [0..<64] = fold ?c [48..<48 + 16] \<circ> fold ?c [32..<32 + 16] \<circ> fold ?c [16..<16 + 16] \<circ> fold ?c [0..<0 + 16]"
    by (simp only: fold_append o_assoc)
  then show ?thesis
    using b [of 0] b [of 16] b [of 32] b [of 48] by (simp add: o_assoc del: upt_rec_numeral)
qed

lemma cycles_rounds:
  assumes "n \<le> 64" "length v = 8" "length M = 16"
  shows "\<exists>v' p'. fold (\<lambda>t. v_cycle (t mod 16) (t - t mod 16)) [0..<n] (v, M) = (v', p') \<and> length v' = 8 \<and>
    last16 n (fips_schedule 48 M) p' \<and>
    working n v' = fold (\<lambda>t. fips_round (k256 ! t) (fips_schedule 48 M ! t)) [0..<n] (working 0 v)"
  using assms(1)
proof (induction n)
  case 0
  then show ?case using assms(2,3) by (simp add: last16_def fips_schedule_keeps)
next
  case (Suc n)
  then obtain v' p' where I: "fold (\<lambda>t. v_cycle (t mod 16) (t - t mod 16)) [0..<n] (v, M) = (v', p')" "length v' = 8"
    "last16 n (fips_schedule 48 M) p'"
    "working n v' = fold (\<lambda>t. fips_round (k256 ! t) (fips_schedule 48 M ! t)) [0..<n] (working 0 v)" by auto
  from v_cycle_round [OF I(3) assms(3) _ I(2)] Suc.prems obtain p'' where
    "v_cycle (n mod 16) (n - n mod 16) (v', p') = (rotated_round n (k256 ! n) (fips_schedule 48 M ! n) v', p'')"
    "last16 (Suc n) (fips_schedule 48 M) p''" by auto
  then show ?case using I(1,2) by (simp add: rotated_round_fips I(4))
qed

lemma working_8k: "length v = 8 \<Longrightarrow> working 0 v = v" "length v = 8 \<Longrightarrow> working 64 v = v"
proof -
  have "vf k 64 = k" "vf k 0 = k" if "k < 8" for k
    using that mod_mult_self1 [of k 56 8] by (simp_all add: vf_mod)
  then show "length v = 8 \<Longrightarrow> working 0 v = v" "length v = 8 \<Longrightarrow> working 64 v = v"
    unfolding working_def by (auto intro!: nth_equalityI simp del: upt_rec_numeral)
qed

lemma sha256_compile_fips:
  assumes "length (hash ctx) = 8" "length (wbuf ctx) = 16"
  shows "\<exists>p. length p = 16 \<and> sha256_compile ctx = ctx\<lparr>hash := fips_compress (hash ctx) (wbuf ctx), wbuf := p\<rparr>"
proof -
  from cycles_rounds [of 64, OF _ assms] obtain v p where
    "fold (\<lambda>t. v_cycle (t mod 16) (t - t mod 16)) [0..<64] (hash ctx, wbuf ctx) = (v, p)" "length v = 8"
    "last16 64 (fips_schedule 48 (wbuf ctx)) p"
    "working 64 v = fold (\<lambda>t. fips_round (k256 ! t) (fips_schedule 48 (wbuf ctx) ! t)) [0..<64] (working 0 (hash ctx))"
    by auto
  then show ?thesis
    using assms unfolding sha256_compile_def flat_cycles
    by (auto simp: working_8k fips_compress_def last16_def simp del: upt_rec_numeral)
qed

section \<open>The buffer as bytes and as words\<close>

lemma bits_32: "(\<And>n. n < 32 \<Longrightarrow> bit (x :: u32) n = bit y n) \<Longrightarrow> x = y"
  by (rule bit_word_eqI) simp

lemma bit_bytes_32:
  fixes a :: u8
  shows "bit (push_bit k (ucast a :: u32)) n \<longleftrightarrow> n < 32 \<and> k \<le> n \<and> bit a (n - k)"
    and "bit (ucast a :: u32) n \<longleftrightarrow> n < 32 \<and> bit a n"
  by (auto simp: bit_push_bit_iff bit_ucast_iff dest: bit_imp_le_length)

lemma byte_bits: "bit (a :: u8) n \<Longrightarrow> n < 8"
  using bit_imp_le_length [of a n] by simp

lemma byte_high: "8 \<le> n \<Longrightarrow> \<not> bit (a :: u8) n"
  by (auto dest: byte_bits)

lemma byte_of_le32:
  "ucast (le32 bs) = bs ! 0" "ucast (drop_bit 8 (le32 bs)) = bs ! 1"
  "ucast (drop_bit 16 (le32 bs)) = bs ! 2" "ucast (drop_bit 24 (le32 bs)) = bs ! 3"
  by (rule bit_word_eqI; auto simp: le32_def bit_or_iff bit_bytes_32 bit_ucast_iff bit_drop_bit_eq dest: byte_bits)+

lemma four_cons: "4 \<le> length xs \<Longrightarrow> \<exists>a b c d ys. xs = a # b # c # d # ys"
  by (auto simp: numeral_eq_Suc Suc_le_length_iff)

lemma le_bytes_le32:
  assumes "4 \<le> length bs"
  shows "le_bytes (le32 bs) = take 4 bs"
proof -
  obtain a b c d xs where "bs = a # b # c # d # xs" using four_cons [OF assms] by blast
  then show ?thesis by (simp add: le_bytes_def byte_of_le32 upt_rec)
qed

lemma bit_rotr32: "n < 32 \<Longrightarrow> m < 32 \<Longrightarrow> bit (rotr32 x m) n = bit x (if n + m < 32 then n + m else n + m - 32)"
  by (auto simp: rotr32_def bit_or_iff bit_drop_bit_eq bit_push_bit_iff add.commute dest: bit_imp_le_length)

lemma bit_ff_masks:
  "n < 32 \<Longrightarrow> bit (0x00ff00ff :: u32) n \<longleftrightarrow> n < 8 \<or> (16 \<le> n \<and> n < 24)"
  "n < 32 \<Longrightarrow> bit (0xff00ff00 :: u32) n \<longleftrightarrow> (8 \<le> n \<and> n < 16) \<or> 24 \<le> n"
proof -
  have m: "(0x00ff00ff :: u32) = mask 8 OR push_bit 16 (mask 8)" "(0xff00ff00 :: u32) = push_bit 8 (mask 8) OR push_bit 24 (mask 8)"
    by (simp_all add: mask_eq_exp_minus_1)
  show "n < 32 \<Longrightarrow> bit (0x00ff00ff :: u32) n \<longleftrightarrow> n < 8 \<or> (16 \<le> n \<and> n < 24)"
    "n < 32 \<Longrightarrow> bit (0xff00ff00 :: u32) n \<longleftrightarrow> (8 \<le> n \<and> n < 16) \<or> 24 \<le> n"
    unfolding m by (auto simp: bit_or_iff bit_mask_iff bit_push_bit_iff)
qed

lemma bswap_bit:
  assumes "n < 32"
  shows "bit (bswap_32 x) n = bit x (if n < 8 then n + 24 else if n < 16 then n + 8 else if n < 24 then n - 8 else n - 24)"
proof -
  have "bit (bswap_32 x) n \<longleftrightarrow>
      bit x (if n < 8 then n + 24 else n - 8) \<and> (n < 8 \<or> (16 \<le> n \<and> n < 24)) \<or>
      bit x (if n < 24 then n + 8 else n - 24) \<and> ((8 \<le> n \<and> n < 16) \<or> 24 \<le> n)"
    unfolding bswap_32_def bit_or_iff bit_and_iff bit_ff_masks [OF assms] using assms by (simp add: bit_rotr32)
  then show ?thesis using assms by auto
qed

lemma bswap_le32: "bswap_32 (le32 bs) = be32 bs"
proof (rule bits_32)
  fix n :: nat
  assume n: "n < 32"
  consider "n < 8" | "8 \<le> n" "n < 16" | "16 \<le> n" "n < 24" | "24 \<le> n" using n by linarith
  then show "bit (bswap_32 (le32 bs)) n = bit (be32 bs) n"
    unfolding bswap_bit [OF n] using n
    by cases (simp_all add: be32_def le32_def bit_or_iff bit_bytes_32 byte_high, auto)
qed

lemma concat_nth4:
  assumes "\<And>x. length (f x) = 4"
  shows "i < 4 * length xs \<Longrightarrow> concat (map f xs) ! i = f (xs ! (i div 4)) ! (i mod 4)"
proof (induction xs arbitrary: i)
  case (Cons x xs)
  show ?case
  proof (cases "i < 4")
    case True
    then show ?thesis by (simp add: nth_append assms)
  next
    case False
    then show ?thesis
      using Cons by (simp add: nth_append assms le_div_geq le_mod_geq)
  qed
qed simp

lemma word_bytes_length [simp]: "length (word_bytes ws) = 4 * length ws"
  by (induction ws) (simp_all add: word_bytes_def)

lemma words_at_length [simp]: "length (words_at bs n) = n" by (simp add: words_at_def)
lemma be_words_length [simp]: "length (be_words bs n) = n" by (simp add: be_words_def)

lemma drop_word_bytes: "i \<le> length ws \<Longrightarrow> drop (4 * i) (word_bytes ws) = word_bytes (drop i ws)"
  by (induction ws arbitrary: i; case_tac i; simp add: word_bytes_def)

lemma word_bytes_nth: "i < length ws \<Longrightarrow> le32 (drop (4 * i) (word_bytes ws)) = ws ! i"
proof -
  assume i: "i < length ws"
  then have "word_bytes (drop i ws) = le_bytes (ws ! i) @ word_bytes (drop (Suc i) ws)"
    by (simp add: Cons_nth_drop_Suc [symmetric] word_bytes_def)
  then show ?thesis using i by (simp only: drop_word_bytes less_imp_le_nat le32_le_bytes)
qed

lemma word_bytes_words_at: "4 * n \<le> length bs \<Longrightarrow> word_bytes (words_at bs n) = take (4 * n) bs"
proof (induction n)
  case (Suc n)
  have "word_bytes (words_at bs (Suc n)) = word_bytes (words_at bs n) @ le_bytes (le32 (drop (4 * n) bs))"
    by (simp add: words_at_def word_bytes_def)
  also have "\<dots> = take (4 * n) bs @ take 4 (drop (4 * n) bs)"
    using Suc by (simp add: le_bytes_le32)
  also have "\<dots> = take (4 * Suc n) bs" by (simp add: take_add [symmetric] add.commute)
  finally show ?case .
qed (simp add: words_at_def word_bytes_def)

lemma copy_bytes_length [simp]: "length (copy_bytes ws pos src) = length ws" by (simp add: copy_bytes_def)

lemma copy_bytes_bytes:
  "pos + length src \<le> 4 * length ws \<Longrightarrow> word_bytes (copy_bytes ws pos src) = copy_at (word_bytes ws) pos src"
  by (simp add: copy_bytes_def word_bytes_words_at copy_length)

lemma bsw_words:
  assumes "length ws = n"
  shows "bsw_32 n ws = be_words (word_bytes ws) n"
  using assms by (auto simp: bsw_32_def be_words_def bswap_le32 [symmetric] word_bytes_nth intro!: nth_equalityI)

section \<open>Correctness of the incremental digest\<close>

definition sha2_shape :: "sha256_ctx \<Rightarrow> bool" where
  "sha2_shape c \<longleftrightarrow> length (hash c) = 8 \<and> length (wbuf c) = 16"

lemma sha2_block_fips:
  assumes "sha2_shape c" "unat pos + unat space = 64" "unat space \<le> length sp"
  shows "\<exists>p. length p = 16 \<and> sha2_block pos space sp c =
    c\<lparr>hash := fips_block (hash c) (take (unat pos) (word_bytes (wbuf c)) @ take (unat space) sp), wbuf := p\<rparr>"
proof -
  let ?w = "copy_bytes (wbuf c) (unat pos) (take (unat space) sp)"
  have l: "length (hash c) = 8" "length (wbuf c) = 16" using assms(1) by (simp_all add: sha2_shape_def)
  have "word_bytes ?w = take (unat pos) (word_bytes (wbuf c)) @ take (unat space) sp"
    using assms(2,3) l by (simp add: copy_bytes_bytes copy_at_def)
  then show ?thesis
    using sha256_compile_fips [of "c\<lparr>wbuf := bsw_32 16 ?w\<rparr>"] l
    by (auto simp: sha2_block_def fips_block_def bsw_words)
qed

lemma fips_compress_length: "length H = 8 \<Longrightarrow> length (fips_compress H M) = 8"
proof -
  have "length (fold (\<lambda>t. fips_round (k t) (w t)) ts s) = 8" if "length s = 8" for k w and ts :: "nat list" and s
    using that by (induction ts arbitrary: s) (simp_all add: fips_round_def Let_def)
  then show "length H = 8 \<Longrightarrow> length (fips_compress H M) = 8"
    by (simp add: fips_compress_def Let_def del: upt_rec_numeral)
qed

lemma sha256_loop_absorb:
  assumes "sha2_shape ctx" "unat pos + unat space = 64" "length sp = unat len"
  shows "case sha256_loop pos space sp len ctx of (pos', sp', len', ctx') \<Rightarrow>
    absorb fips_block (hash ctx) (take (unat pos) (word_bytes (wbuf ctx)) @ sp) =
      (hash ctx', take (unat pos') (word_bytes (wbuf ctx')) @ sp') \<and>
    sha2_shape ctx' \<and> length sp' = unat len' \<and> unat pos' + unat len' < 64 \<and>
    count0 ctx' = count0 ctx \<and> count1 ctx' = count1 ctx"
  using assms
proof (induction pos space sp len ctx rule: sha256_loop.induct)
  case (1 pos space sp len ctx)
  have l: "length (word_bytes (wbuf ctx)) = 64" using "1.prems"(1) by (simp add: sha2_shape_def)
  show ?case
  proof (cases "space \<le> len")
    case True
    then have s: "unat space \<le> length sp" using "1.prems"(3) by (simp add: word_le_nat_alt)
    obtain p where p: "length p = 16" "sha2_block pos space sp ctx =
        ctx\<lparr>hash := fips_block (hash ctx) (take (unat pos) (word_bytes (wbuf ctx)) @ take (unat space) sp), wbuf := p\<rparr>"
      using sha2_block_fips [OF "1.prems"(1,2) s] by blast
    have sh: "sha2_shape (sha2_block pos space sp ctx)"
      using p "1.prems"(1) by (simp add: sha2_shape_def fips_block_def fips_compress_length)
    have d: "length (drop (unat space) sp) = unat (len - space)"
      using True "1.prems"(3) by (simp add: unat_sub)
    have b: "length (take (unat pos) (word_bytes (wbuf ctx)) @ take (unat space) sp) = 64"
      using l s "1.prems"(2) by simp
    have "absorb fips_block (hash ctx) (take (unat pos) (word_bytes (wbuf ctx)) @ sp) =
        absorb fips_block (hash (sha2_block pos space sp ctx)) (drop (unat space) sp)"
      using absorb_block [OF b, of fips_block "hash ctx" "drop (unat space) sp"] p(2) by simp
    then show ?thesis
      using "1.IH" [OF True sh _ d] True p(2) by (simp add: sha256_loop.simps [of pos space])
  next
    case False
    then have "unat len < unat space" by (simp add: word_le_nat_alt)
    then show ?thesis
      using False l "1.prems" by (simp add: sha256_loop.simps [of pos space])
  qed
qed

definition sha2_rep :: "u32 list \<Rightarrow> sha256_ctx \<Rightarrow> u8 list \<Rightarrow> bool" where
  "sha2_rep iv c bs \<longleftrightarrow> sha2_shape c \<and>
     absorb fips_block iv bs = (hash c, take (length bs mod 64) (word_bytes (wbuf c))) \<and>
     count0 c = of_nat (length bs) \<and> count1 c = of_nat (length bs div 2 ^ 32)"

definition sha2_upd :: "sha256_ctx \<Rightarrow> u8 list \<Rightarrow> sha256_ctx" where
  "sha2_upd c ds = sha256_hash ds (of_nat (length ds)) c"

lemma byte_count_step:
  fixes d :: u32
  assumes "lo = of_nat n" "hi = of_nat (n div 2 ^ 32)"
  shows "lo + d = of_nat (n + unat d)" and "(if lo + d < d then hi + 1 else hi) = of_nat ((n + unat d) div 2 ^ 32)"
proof -
  define M where "M = (2::nat) ^ 32"
  show "lo + d = of_nat (n + unat d)" unfolding assms(1) by simp
  have ulo: "unat lo = n mod M" unfolding assms(1) M_def using unat_of_nat [where ?'a = 32] by simp
  have dM: "unat d < M" unfolding M_def using unsigned_less [of d, where ?'a = nat] by simp
  have c: "lo + d < d \<longleftrightarrow> M \<le> n mod M + unat d"
  proof -
    have "unat (lo + d) = (unat d + n mod M) mod M"
      by (simp only: unat_word_ariths ulo M_def add.commute) simp
    then show ?thesis
      using carry_nat [of "unat d" M "n mod M"] dM by (simp add: word_less_nat_alt add.commute M_def)
  qed
  have "(n + unat d) div M = n div M + (n mod M + unat d) div M"
    using div_add1_eq [of n "unat d" M] dM by simp
  also have "(n mod M + unat d) div M = (if M \<le> n mod M + unat d then 1 else 0)"
  proof (cases "M \<le> n mod M + unat d")
    case True
    have "n mod M < M" by (simp add: M_def)
    then show ?thesis using True dM by (subst le_div_geq) (simp_all add: M_def)
  qed simp
  finally show "(if lo + d < d then hi + 1 else hi) = of_nat ((n + unat d) div 2 ^ 32)"
    unfolding c by (simp add: assms(2) M_def)
qed

lemma and_63: "unat ((of_nat n :: u32) AND 63) = n mod 64"
proof -
  have "(of_nat n :: u32) AND 63 = take_bit 6 (of_nat n)"
    using take_bit_eq_mask [of 6 "of_nat n :: u32"] by (simp add: mask_eq_exp_minus_1)
  then have "unat ((of_nat n :: u32) AND 63) = unat (of_nat n :: u32) mod 64"
    by (simp add: unsigned_take_bit_eq) (simp add: take_bit_eq_mod)
  also have "\<dots> = n mod 2 ^ 32 mod 64" using unat_of_nat [of n, where ?'a = 32] by simp
  also have "\<dots> = n mod 64" by (rule mod_mod_cancel) simp
  finally show ?thesis .
qed

lemma sha2_update_rep:
  assumes "sha2_rep iv c bs" "length ds < 2 ^ 31"
  shows "sha2_rep iv (sha2_upd c ds) (bs @ ds)"
proof -
  define len :: u32 where "len = of_nat (length ds)"
  have len: "length ds = unat len" using assms(2) by (simp add: unat_of_nat len_def)
  have r: "sha2_shape c" "absorb fips_block iv bs = (hash c, take (length bs mod 64) (word_bytes (wbuf c)))"
    "count0 c = of_nat (length bs)" "count1 c = of_nat (length bs div 2 ^ 32)"
    using assms(1) by (auto simp: sha2_rep_def)
  define pos where "pos = count0 c AND 63"
  have p: "unat pos = length bs mod 64" unfolding pos_def r(3) by (rule and_63)
  have "unat pos < 64" unfolding p by simp
  then have s: "unat pos + unat (64 - pos) = 64" by (simp add: unat_sub word_le_nat_alt)
  note C = byte_count_step [OF r(3,4), of len]
  define c1 where "c1 = c\<lparr>count0 := of_nat (length bs + unat len), count1 := of_nat ((length bs + unat len) div 2 ^ 32)\<rparr>"
  have sh: "sha2_shape c1" using r(1) by (simp add: sha2_shape_def c1_def)
  obtain pos' sp' len' c2 where L: "sha256_loop pos (64 - pos) ds len c1 = (pos', sp', len', c2)"
    by (cases "sha256_loop pos (64 - pos) ds len c1")
  have c1: "hash c1 = hash c" "wbuf c1 = wbuf c" by (simp_all add: c1_def)
  note A = sha256_loop_absorb [OF sh s len, unfolded L prod.case c1 p]
  have sh2: "length (word_bytes (wbuf c2)) = 64" "length sp' = unat len'" "unat pos' + unat len' < 64"
    using A by (simp_all add: sha2_shape_def)
  have U: "sha2_upd c ds = c2\<lparr>wbuf := copy_bytes (wbuf c2) (unat pos') sp'\<rparr>"
  proof -
    have "(let ctx = c\<lparr>count0 := count0 c + len\<rparr> in if count0 ctx < len then ctx\<lparr>count1 := count1 ctx + 1\<rparr> else ctx) = c1"
      using C by (simp add: c1_def Let_def split: if_split_asm)
    then show ?thesis
      using L sh2(2) by (simp add: sha2_upd_def sha256_hash_def Let_def len_def [symmetric] pos_def [symmetric])
  qed
  have "absorb fips_block iv (bs @ ds) = absorb fips_block (hash c) (take (length bs mod 64) (word_bytes (wbuf c)) @ ds)"
    by (subst absorb_append) (simp add: r(2))
  then have B: "absorb fips_block iv (bs @ ds) = (hash c2, take (unat pos') (word_bytes (wbuf c2)) @ sp')" using A by simp
  then have m: "length (bs @ ds) mod 64 = unat pos' + unat len'"
    using absorb_length [of fips_block iv "bs @ ds"] sh2 by simp
  have "take (unat pos' + unat len') (word_bytes (copy_bytes (wbuf c2) (unat pos') sp')) = take (unat pos') (word_bytes (wbuf c2)) @ sp'"
    using take_copy [of "unat pos'" sp' "word_bytes (wbuf c2)"] sh2 by (simp add: copy_bytes_bytes)
  then show ?thesis
    using A B m len unfolding U sha2_rep_def by (simp add: sha2_shape_def c1_def)
qed

text \<open>The end of the message. The words of the last block, by the number of bytes in it.\<close>

lemma nth_drop4: "4 * k + m < length bs \<Longrightarrow> drop (4 * k) bs ! m = bs ! (4 * k + m)" by simp

lemma be32_cong: "(\<And>m. m < 4 \<Longrightarrow> xs ! m = ys ! m) \<Longrightarrow> be32 xs = be32 ys"
  by (simp add: be32_def)

lemma be32_be_bytes: "be32 (be_bytes w @ xs) = w"
proof -
  have e: "be_bytes w = [ucast (drop_bit 24 w), ucast (drop_bit 16 w), ucast (drop_bit 8 w), ucast w]"
    by (simp add: be_bytes_def upt_rec)
  have "le32 (le_bytes w @ []) = be32 (be_bytes w @ xs)"
    unfolding e by (simp add: be32_def le32_def le_bytes_def upt_rec ac_simps)
  then show ?thesis by (simp only: le32_le_bytes)
qed

lemma pad_mask_bits:
  "n < 32 \<Longrightarrow> bit (0xffffff80 :: u32) n \<longleftrightarrow> 7 \<le> n" "bit (0x80 :: u32) n \<longleftrightarrow> n = 7" "bit (0x80 :: u8) n \<longleftrightarrow> n = 7"
proof -
  have "(0xffffff80 :: u32) = push_bit 7 (mask 25)" "(0x80 :: u32) = push_bit 7 1" "(0x80 :: u8) = push_bit 7 1"
    by (simp_all add: mask_eq_exp_minus_1)
  then show "n < 32 \<Longrightarrow> bit (0xffffff80 :: u32) n \<longleftrightarrow> 7 \<le> n" "bit (0x80 :: u32) n \<longleftrightarrow> n = 7" "bit (0x80 :: u8) n \<longleftrightarrow> n = 7"
    by (simp_all only: bit_push_bit_iff bit_mask_iff bit_1_iff) auto
qed

lemma bit_pad:
  "bit (push_bit k 0xffffff80 :: u32) n \<longleftrightarrow> n < 32 \<and> k + 7 \<le> n" "bit (push_bit k 0x80 :: u32) n \<longleftrightarrow> n < 32 \<and> n = k + 7"
  using pad_mask_bits [of "n - k"] by (auto simp: bit_push_bit_iff)

lemma be32_Cons:
  "be32 (a # b # c # d # xs) = push_bit 24 (ucast a) OR push_bit 16 (ucast b) OR push_bit 8 (ucast c) OR ucast d"
  by (simp add: be32_def)

lemmas pad_bits = be32_Cons bit_or_iff bit_and_iff bit_pad bit_bytes_32 pad_mask_bits(3)

lemma pad_word:
  fixes a b c d :: u8
  shows "(w AND push_bit 24 0xffffff80) OR push_bit 24 0x80 = be32 (0x80 # 0 # 0 # 0 # ys)"
    and "(be32 (a # b # c # d # xs) AND push_bit 16 0xffffff80) OR push_bit 16 0x80 = be32 (a # 0x80 # 0 # 0 # ys)"
    and "(be32 (a # b # c # d # xs) AND push_bit 8 0xffffff80) OR push_bit 8 0x80 = be32 (a # b # 0x80 # 0 # ys)"
    and "(be32 (a # b # c # d # xs) AND push_bit 0 0xffffff80) OR push_bit 0 0x80 = be32 (a # b # c # 0x80 # ys)"
proof -
  show "(w AND push_bit 24 0xffffff80) OR push_bit 24 0x80 = be32 (0x80 # 0 # 0 # 0 # ys)"
    by (rule bits_32) (unfold pad_bits, auto)
  show "(be32 (a # b # c # d # xs) AND push_bit 16 0xffffff80) OR push_bit 16 0x80 = be32 (a # 0x80 # 0 # 0 # ys)"
    by (rule bits_32) (unfold pad_bits, auto dest: byte_bits)
  show "(be32 (a # b # c # d # xs) AND push_bit 8 0xffffff80) OR push_bit 8 0x80 = be32 (a # b # 0x80 # 0 # ys)"
    by (rule bits_32) (unfold pad_bits, auto dest: byte_bits)
  show "(be32 (a # b # c # d # xs) AND push_bit 0 0xffffff80) OR push_bit 0 0x80 = be32 (a # b # c # 0x80 # ys)"
    by (rule bits_32) (unfold pad_bits, auto dest: byte_bits)
qed

definition end_block :: "u8 list \<Rightarrow> u8 list" where
  "end_block r = r @ [0x80] @ replicate (63 - length r) 0"

lemma end_block_length: "length r < 64 \<Longrightarrow> length (end_block r) = 64" by (simp add: end_block_def)

definition end_buffer :: "nat \<Rightarrow> u32 list \<Rightarrow> u32 list" where
  "end_buffer i W =
    (let w = bsw_32 ((i + 3) div 4) W
     in w[i div 4 := (w ! (i div 4) AND push_bit (8 * (3 - i mod 4)) 0xffffff80) OR push_bit (8 * (3 - i mod 4)) 0x80])"

lemma end_buffer_length [simp]: "length (end_buffer i W) = length W"
  by (simp add: end_buffer_def bsw_32_def Let_def)

lemma bsw_nth: "k < n \<Longrightarrow> k < length W \<Longrightarrow> bsw_32 n W ! k = be32 (drop (4 * k) (word_bytes W))"
  by (simp add: bsw_32_def nth_append bswap_le32 [symmetric] word_bytes_nth)

lemma replicate_3: "replicate (3 - 0) x = [x, x, x]" "replicate (3 - 1) x = [x, x]" "replicate (3 - 2) x = [x]" "replicate (3 - 3) x = []"
  by (simp_all add: numeral_eq_Suc)

lemma take_list: "take 1 (a # xs) = [a]" "take 2 (a # b # xs) = [a, b]" "take 3 (a # b # c # xs) = [a, b, c]"
  by (simp_all add: numeral_eq_Suc)

lemma end_buffer_word:
  assumes "length W = 16" "i < 64"
  shows "k < i div 4 \<Longrightarrow> end_buffer i W ! k = be32 (drop (4 * k) (end_block (take i (word_bytes W))))"
    and "end_buffer i W ! (i div 4) = be32 (drop (4 * (i div 4)) (end_block (take i (word_bytes W))))"
    and "i div 4 < k \<Longrightarrow> k < 16 \<Longrightarrow> be32 (drop (4 * k) (end_block (take i (word_bytes W)))) = 0"
proof -
  let ?B = "word_bytes W" and ?q = "i div 4" and ?s = "i mod 4"
  have B: "length ?B = 64" using assms(1) by simp
  have qs: "i = 4 * ?q + ?s" "?s < 4" "?q < 16" using assms(2) by (simp, simp, arith)
  {
    assume k: "k < ?q"
    have "be32 (drop (4 * k) ?B) = be32 (drop (4 * k) (end_block (take i ?B)))"
    proof (rule be32_cong)
      fix m :: nat
      assume "m < 4"
      then have "4 * k + m < i" using k qs by linarith
      moreover from this have "m < i - 4 * k" by linarith
      ultimately show "drop (4 * k) ?B ! m = drop (4 * k) (end_block (take i ?B)) ! m"
        using B assms(2) by (simp add: end_block_def nth_append)
    qed
    moreover have "k < (i + 3) div 4" "k < 16" using k qs by linarith+
    ultimately show "end_buffer i W ! k = be32 (drop (4 * k) (end_block (take i ?B)))"
      using k assms(1) by (simp add: end_buffer_def Let_def bsw_nth)
  }
  {
    assume k: "?q < k" "k < 16"
    have z: "drop (4 * k) (end_block (take i ?B)) ! m = 0" if "m < 4" for m
    proof -
      have "i < 4 * k + m" "4 * k + m < 64" using k that qs by linarith+
      moreover define n where "n = 4 * k + m"
      ultimately have n: "i < n" "n < 64" by simp_all
      have "end_block (take i ?B) ! n = 0" using n B assms(2) by (simp add: end_block_def nth_append nth_Cons')
      then show ?thesis using n B assms(2) k(2) by (subst nth_drop) (simp_all add: n_def end_block_length)
    qed
    show "be32 (drop (4 * k) (end_block (take i ?B))) = 0"
      using z [of 0] z [of 1] z [of 2] z [of 3] by (simp add: be32_def)
  }
  have "4 \<le> length (drop (4 * ?q) ?B)" using B qs(3) by simp
  from four_cons [OF this] obtain a b c d xs where d: "drop (4 * ?q) ?B = a # b # c # d # xs" by blast
  have "drop (4 * ?q) (take i ?B) = take ?s (drop (4 * ?q) ?B)"
    using qs(1) by (metis add_diff_cancel_left' drop_take)
  moreover have "replicate (63 - i) (0::u8) = replicate (3 - ?s) 0 @ replicate (60 - 4 * ?q) 0"
  proof -
    have "63 - i = (3 - ?s) + (60 - 4 * ?q)" using qs by linarith
    then show ?thesis by (simp only: replicate_add)
  qed
  moreover have "length (take i ?B) = i" "4 * ?q \<le> i" using B assms(2) qs(1) by simp_all
  ultimately have e: "drop (4 * ?q) (end_block (take i ?B)) =
      take ?s (a # b # c # d # xs) @ [0x80] @ replicate (3 - ?s) 0 @ replicate (60 - 4 * ?q) 0"
    by (simp add: end_block_def d)
  have w: "bsw_32 ((i + 3) div 4) W ! ?q = be32 (a # b # c # d # xs)" if "?s \<noteq> 0"
  proof -
    have "?q < (i + 3) div 4" using that qs by linarith
    then show ?thesis using qs(3) assms(1) by (simp add: bsw_nth d)
  qed
  have f: "end_buffer i W ! ?q = (bsw_32 ((i + 3) div 4) W ! ?q AND push_bit (8 * (3 - ?s)) 0xffffff80) OR push_bit (8 * (3 - ?s)) 0x80"
  proof -
    have "length (bsw_32 ((i + 3) div 4) W) = 16" using assms(1) by (simp add: bsw_32_def)
    then show ?thesis unfolding end_buffer_def Let_def using qs(3) by (simp only: nth_list_update_eq)
  qed
  consider "?s = 0" | "?s = 1" | "?s = 2" | "?s = 3" using qs(2) by linarith
  then show "end_buffer i W ! ?q = be32 (drop (4 * ?q) (end_block (take i ?B)))"
  proof cases
    case 1
    have "(8::nat) * (3 - 0) = 24" by simp
    then show ?thesis
      unfolding f 1 e [unfolded 1] using pad_word(1) by (simp only: take_0 append_Nil append_Cons replicate_3)
  next
    case 2
    have "(8::nat) * (3 - 1) = 16" by simp
    then show ?thesis
      unfolding f 2 e [unfolded 2] using w [unfolded 2] pad_word(2) [of a b c d xs] by (simp only: take_list replicate_3 append_Nil append_Cons one_neq_zero simp_thms)
  next
    case 3
    have "(8::nat) * (3 - 2) = 8" by simp
    then show ?thesis
      unfolding f 3 e [unfolded 3] using w [unfolded 3] pad_word(3) [of a b c d xs] by (simp only: take_list replicate_3 append_Nil append_Cons zero_neq_numeral [symmetric] simp_thms)
  next
    case 4
    have "(8::nat) * (3 - 3) = 0" by simp
    then show ?thesis
      unfolding f 4 e [unfolded 4] using w [unfolded 4] pad_word(4) [of a b c d xs] by (simp only: take_list replicate_3 append_Nil append_Cons zero_neq_numeral [symmetric] simp_thms)
  qed
qed

lemma end_buffer_words:
  assumes "length W = 16" "i < 64"
  shows "map (\<lambda>k. if i div 4 + 1 \<le> k then 0 else end_buffer i W ! k) [0..<16] = be_words (end_block (take i (word_bytes W))) 16"
proof (rule nth_equalityI)
  fix k
  assume "k < length (map (\<lambda>k. if i div 4 + 1 \<le> k then 0 else end_buffer i W ! k) [0..<16])"
  then have "k < 16" by simp
  then show "map (\<lambda>k. if i div 4 + 1 \<le> k then 0 else end_buffer i W ! k) [0..<16] ! k =
      be_words (end_block (take i (word_bytes W))) 16 ! k"
    using end_buffer_word(1,3) [OF assms, of k] end_buffer_word(2) [OF assms]
    by (cases "k < i div 4"; cases "k = i div 4") (simp_all add: be_words_def del: upt_rec_numeral)
qed simp

lemma be_words_length_words:
  assumes "length xs = 56"
  shows "be_words (xs @ be_bytes a @ be_bytes b) 16 = be_words xs 14 @ [a, b]"
proof -
  have "be32 (drop (4 * k) (xs @ ys)) = be32 (drop (4 * k) xs)" if "k < 14" for k ys
  proof (rule be32_cong)
    fix m :: nat
    assume "m < 4"
    then have "m < 56 - 4 * k" using that by linarith
    then show "drop (4 * k) (xs @ ys) ! m = drop (4 * k) xs ! m" using that assms by (simp add: nth_append)
  qed
  moreover have "[0..<16] = [0..<14] @ [14, 15 :: nat]" by (simp add: upt_rec)
  ultimately show ?thesis
    using assms be32_be_bytes [of a "be_bytes b"] be32_be_bytes [of b "[]"]
    by (simp add: be_words_def del: upt_rec_numeral)
qed

lemma length_words:
  assumes "lo = of_nat n" "hi = of_nat (n div 2 ^ 32)"
  shows "push_bit 3 lo = (of_nat (8 * n) :: u32)"
    and "push_bit 3 hi OR drop_bit 29 lo = (of_nat (8 * n div 2 ^ 32) :: u32)"
proof -
  show "push_bit 3 lo = (of_nat (8 * n) :: u32)" by (simp add: assms push_bit_eq_mult mult.commute)
  have d: "drop_bit 29 lo = (of_nat (n mod 2 ^ 32 div 2 ^ 29) :: u32)"
  proof -
    have "unat (drop_bit 29 lo) = n mod 2 ^ 32 div 2 ^ 29"
      using unat_of_nat [of n, where ?'a = 32] by (simp add: assms drop_bit_eq_div unat_div)
    then show ?thesis by (metis of_nat_unat ucast_id)
  qed
  have "push_bit 3 hi OR drop_bit 29 lo = push_bit 3 hi + drop_bit 29 lo"
  proof (rule disjunctive_add [symmetric])
    fix k
    show "\<not> bit (push_bit 3 hi) k \<or> \<not> bit (drop_bit 29 lo) k"
      by (auto simp: bit_push_bit_iff bit_drop_bit_eq dest: bit_imp_le_length)
  qed
  also have "\<dots> = of_nat (8 * (n div 2 ^ 32) + n mod 2 ^ 32 div 2 ^ 29)"
    unfolding d by (simp add: assms push_bit_eq_mult mult.commute)
  also have "8 * (n div 2 ^ 32) + n mod 2 ^ 32 div 2 ^ 29 = (n mod 2 ^ 32 + 2 ^ 29 * (8 * (n div 2 ^ 32))) div 2 ^ 29"
    by (subst div_mult_self2) simp_all
  also have "n mod 2 ^ 32 + 2 ^ 29 * (8 * (n div 2 ^ 32)) = n"
    using mod_mult_div_eq [of n "2 ^ 32"] by simp
  also have "n div 2 ^ 29 = 8 * n div 2 ^ 32" using div_mult_mult1 [of 8 n "2 ^ 29"] by simp
  finally show "push_bit 3 hi OR drop_bit 29 lo = (of_nat (8 * n div 2 ^ 32) :: u32)" .
qed

lemma not_and_mask: "NOT a AND b = NOT (a AND b) AND (b :: u32)"
  by (rule bit_word_eqI) (auto simp: bit_and_iff bit_or_iff bit_not_iff)

lemma not_and_3: "unat (8 * (NOT i AND 3) :: u32) = 8 * (3 - unat i mod 4)"
proof -
  define j where "j = i AND 3"
  have "unat j = unat i mod 4"
    using take_bit_eq_mask [of 2 i] unsigned_take_bit_eq [of 2 i, where ?'a = nat]
    by (simp add: j_def mask_eq_exp_minus_1 take_bit_eq_mod)
  then have "unat j < 4" by simp
  then have "j = 0 \<or> j = 1 \<or> j = 2 \<or> j = 3"
    unfolding word_unat_eq_iff by (simp, linarith)
  moreover have "NOT i AND 3 = NOT j AND 3"
    unfolding j_def by (rule not_and_mask)
  ultimately show ?thesis unfolding \<open>unat j = unat i mod 4\<close> [symmetric] by (elim disjE) simp_all
qed

lemma hash_bytes:
  assumes "length h = 8" "n \<le> 32"
  shows "map (\<lambda>i. ucast (drop_bit (8 * (3 - i mod 4)) (h ! (i div 4)))) [0..<n] = take n (concat (map be_bytes h))"
proof (rule nth_equalityI)
  have l: "length (concat (map be_bytes h)) = 4 * length h" by (induction h) simp_all
  show "length (map (\<lambda>i. ucast (drop_bit (8 * (3 - i mod 4)) (h ! (i div 4))) :: u8) [0..<n]) =
      length (take n (concat (map be_bytes h)))"
    using assms l by simp
  fix i
  assume "i < length (map (\<lambda>i. ucast (drop_bit (8 * (3 - i mod 4)) (h ! (i div 4))) :: u8) [0..<n])"
  then have i: "i < n" by simp
  have "take n (concat (map be_bytes h)) ! i = be_bytes (h ! (i div 4)) ! (i mod 4)"
    using i assms concat_nth4 [of be_bytes i h] by simp
  also have "\<dots> = ucast (drop_bit (8 * (3 - i mod 4)) (h ! (i div 4)))"
    by (simp add: be_bytes_def del: upt_rec_numeral)
  finally show "map (\<lambda>i. ucast (drop_bit (8 * (3 - i mod 4)) (h ! (i div 4))) :: u8) [0..<n] ! i = take n (concat (map be_bytes h)) ! i"
    using i by simp
qed

text \<open>The last call: what the two cases hand to the compression function is the padded end of the message.\<close>

lemma sha_end1_buffer:
  assumes "i = count0 c AND 63" "unat i < 64" "length (wbuf c) = 16"
  shows "sha_end1 hlen c =
    (let w = end_buffer (unat i) (wbuf c);
         (n, ctx) = (if 56 \<le> unat i then (0, sha256_compile (c\<lparr>wbuf := if unat i < 60 then w[15 := 0] else w\<rparr>))
                     else (unat i div 4 + 1, c\<lparr>wbuf := w\<rparr>));
         w = map (\<lambda>k. if n \<le> k \<and> k < 14 then 0 else wbuf ctx ! k) [0..<16];
         ctx = sha256_compile (ctx\<lparr>wbuf := w[14 := push_bit 3 (count1 ctx) OR drop_bit 29 (count0 ctx), 15 := push_bit 3 (count0 ctx)]\<rparr>)
     in (map (\<lambda>i. ucast (drop_bit (8 * (3 - i mod 4)) (hash ctx ! (i div 4)))) [0..<hlen], ctx))"
proof -
  have a: "unat (drop_bit 2 i) = unat i div 4" "unat (drop_bit 2 i + 1) = unat i div 4 + 1" "unat (drop_bit 2 (i + 3)) = (unat i + 3) div 4"
  proof -
    show d: "unat (drop_bit 2 i) = unat i div 4" by (simp add: drop_bit_eq_div unat_div)
    show "unat (drop_bit 2 i + 1) = unat i div 4 + 1" using assms(2) d by (simp add: unat_word_ariths)
    have "unat (i + 3) = unat i + 3" using assms(2) by (simp add: unat_word_ariths)
    then show "unat (drop_bit 2 (i + 3)) = (unat i + 3) div 4" by (simp add: drop_bit_eq_div unat_div)
  qed
  have b: "i > 64 - 9 \<longleftrightarrow> 56 \<le> unat i" "i < 60 \<longleftrightarrow> unat i < 60" by (auto simp: word_less_nat_alt)
  have e: "(wbuf' [unat i div 4 := x])[unat i div 4 := (wbuf' [unat i div 4 := x]) ! (unat i div 4) OR y] = wbuf' [unat i div 4 := x OR y]"
    if "length wbuf' = 16" for wbuf' :: "u32 list" and x y
    using that assms(2) by simp
  have l: "length (bsw_32 ((unat i + 3) div 4) (wbuf c)) = 16" using assms(3) by (simp add: bsw_32_def)
  show ?thesis
    unfolding sha_end1_def Let_def assms(1) [symmetric] a b not_and_3 e [OF l] end_buffer_def ..
qed

lemma last_words: "length xs = 16 \<Longrightarrow> xs[14 := a, 15 := b] = take 14 xs @ [a, b]"
  by (rule nth_equalityI) (auto simp: nth_append nth_Cons' nth_list_update)

lemma be_words_take: "length bs = 64 \<Longrightarrow> be_words (take 56 bs) 14 = take 14 (be_words bs 16)"
proof (rule nth_equalityI)
  fix k
  assume l: "length bs = 64" and "k < length (be_words (take 56 bs) 14)"
  then have k: "k < 14" by simp
  have "be32 (drop (4 * k) (take 56 bs)) = be32 (drop (4 * k) bs)"
  proof (rule be32_cong)
    fix m :: nat
    assume "m < 4"
    then have "4 * k + m < 56" using k by linarith
    then show "drop (4 * k) (take 56 bs) ! m = drop (4 * k) bs ! m" using k l by simp
  qed
  then show "be_words (take 56 bs) 14 ! k = take 14 (be_words bs 16) ! k"
    using k by (simp add: be_words_def del: upt_rec_numeral)
qed simp

lemma be_words_zero: "be_words (replicate 56 0) 14 = replicate 14 0"
proof (rule nth_equalityI)
  fix k
  assume "k < length (be_words (replicate 56 0) 14)"
  then have k: "k < 14" by simp
  then have "be32 (drop (4 * k) (replicate 56 0)) = 0"
    by (simp add: be32_def del: drop_replicate)
  then show "be_words (replicate 56 0) 14 ! k = replicate 14 0 ! k"
    using k by (simp add: be_words_def del: upt_rec_numeral drop_replicate)
qed simp

lemma sha2_final_rep:
  assumes "sha2_rep iv c bs" "hlen \<le> 32"
  shows "fst (sha_end1 hlen c) = sha2_ref iv hlen bs" and "sha2_shape (snd (sha_end1 hlen c))"
proof -
  define i where "i = count0 c AND 63"
  define r where "r = take (length bs mod 64) (word_bytes (wbuf c))"
  have c: "length (hash c) = 8" "length (wbuf c) = 16" "absorb fips_block iv bs = (hash c, r)"
    "count0 c = of_nat (length bs)" "count1 c = of_nat (length bs div 2 ^ 32)"
    using assms(1) by (simp_all add: sha2_rep_def sha2_shape_def r_def)
  have i: "unat i = length bs mod 64" unfolding i_def c(4) by (rule and_63)
  then have i64: "unat i < 64" by simp
  have lr: "length r = unat i" using c(2) i i64 by (simp add: r_def)
  define a b where "a = push_bit 3 (count1 c) OR drop_bit 29 (count0 c)" and "b = push_bit 3 (count0 c)"
  define e where "e = be_bytes a @ be_bytes b"
  have e: "length e = 8" "e = be64_count (of_nat (8 * length bs)) (of_nat (8 * length bs div 2 ^ 32))"
    using length_words [OF c(4,5)] by (simp_all only: e_def be64_count_def a_def b_def be_bytes_length length_append)
  let ?w = "end_buffer (unat i) (wbuf c)" and ?L = "be_words (end_block r) 16"
  have W: "map (\<lambda>k. if unat i div 4 + 1 \<le> k then 0 else ?w ! k) [0..<16] = ?L"
    using end_buffer_words [OF c(2) i64] i by (simp only: r_def)
  then have Wn: "?L ! k = (if unat i div 4 + 1 \<le> k then 0 else ?w ! k)" if "k < 16" for k
    using that unfolding W [symmetric] by (simp del: upt_rec_numeral)
  define last where "last = (\<lambda>h. fips_compress h (take 14 (if 56 \<le> unat i then replicate 14 0 else ?L) @ [a, b]))"
  have "\<exists>c'. sha_end1 hlen c = (map (\<lambda>i. ucast (drop_bit (8 * (3 - i mod 4)) (hash c' ! (i div 4)))) [0..<hlen], c') \<and>
    sha2_shape c' \<and> hash c' = fst (absorb fips_block iv (md_pad be64_count bs))"
  proof (cases "56 \<le> unat i")
    case True
    have w: "(if unat i < 60 then ?w[15 := 0] else ?w) = ?L"
    proof (rule nth_equalityI)
      fix k
      assume "k < length (if unat i < 60 then ?w[15 := 0] else ?w)"
      then have k: "k < 16" using c(2) by (simp split: if_splits)
      have "unat i < 60 \<longleftrightarrow> unat i div 4 = 14" "\<not> unat i < 60 \<longleftrightarrow> unat i div 4 = 15" using True i64 by linarith+
      then show "(if unat i < 60 then ?w[15 := 0] else ?w) ! k = ?L ! k"
        using k c(2) by (auto simp: Wn nth_list_update)
    qed (use c(2) in simp)
    obtain p where p: "length p = 16" "sha256_compile (c\<lparr>wbuf := ?L\<rparr>) = c\<lparr>hash := fips_block (hash c) (end_block r), wbuf := p\<rparr>"
      using sha256_compile_fips [of "c\<lparr>wbuf := ?L\<rparr>"] c(1) by (auto simp: fips_block_def)
    define h where "h = fips_block (hash c) (end_block r)"
    have h: "length h = 8" by (simp add: h_def fips_block_def fips_compress_length c(1))
    let ?v = "map (\<lambda>k. if (0::nat) \<le> k \<and> k < 14 then 0 else p ! k) [0..<16]"
    have v: "?v[14 := a, 15 := b] = be_words (replicate 56 0 @ e) 16"
    proof -
      have "take 14 ?v = replicate 14 0"
        by (rule nth_equalityI) (simp_all del: upt_rec_numeral)
      then show ?thesis
        unfolding e_def using last_words [of ?v a b] be_words_length_words [of "replicate 56 0" a b]
        by (simp add: be_words_zero del: upt_rec_numeral)
    qed
    obtain p' where p': "length p' = 16" "sha256_compile (c\<lparr>hash := h, wbuf := be_words (replicate 56 0 @ e) 16\<rparr>) =
        c\<lparr>hash := fips_block h (replicate 56 0 @ e), wbuf := p'\<rparr>"
      using sha256_compile_fips [of "c\<lparr>hash := h, wbuf := be_words (replicate 56 0 @ e) 16\<rparr>"] h by (auto simp: fips_block_def)
    have "fst (absorb fips_block iv (md_pad be64_count bs)) = fips_block h (replicate 56 0 @ e)"
      using pad_two_blocks [OF c(3) _ e(1), of be64_count] e(2) True by (simp add: lr h_def end_block_def)
    moreover have "sha_end1 hlen c = (let ctx = sha256_compile (c\<lparr>hash := h, wbuf := ?v[14 := a, 15 := b]\<rparr>)
        in (map (\<lambda>i. ucast (drop_bit (8 * (3 - i mod 4)) (hash ctx ! (i div 4)))) [0..<hlen], ctx))"
      unfolding sha_end1_buffer [OF i_def i64 c(2)] Let_def w
      using True p by (simp add: h_def a_def b_def del: upt_rec_numeral cong: if_cong)
    ultimately show ?thesis
      unfolding v p' Let_def using p'(1) h
      by (simp add: sha2_shape_def fips_block_def fips_compress_length)
  next
    case False
    let ?v = "map (\<lambda>k. if unat i div 4 + 1 \<le> k \<and> k < 14 then 0 else ?w ! k) [0..<16]"
    have v: "?v[14 := a, 15 := b] = be_words (take 56 (end_block r) @ e) 16"
    proof -
      have "take 14 ?v = take 14 ?L"
        by (rule nth_equalityI) (simp_all add: Wn del: upt_rec_numeral)
      then show ?thesis
        unfolding e_def using last_words [of ?v a b] be_words_length_words [of "take 56 (end_block r)" a b]
          be_words_take [of "end_block r"] end_block_length [of r] lr i64 by (simp del: upt_rec_numeral)
    qed
    have t: "take 56 (end_block r) = r @ [0x80] @ replicate (55 - length r) 0"
      using False lr by (simp add: end_block_def take_Cons')
    obtain p' where p': "length p' = 16" "sha256_compile (c\<lparr>wbuf := be_words (take 56 (end_block r) @ e) 16\<rparr>) =
        c\<lparr>hash := fips_block (hash c) (take 56 (end_block r) @ e), wbuf := p'\<rparr>"
      using sha256_compile_fips [of "c\<lparr>wbuf := be_words (take 56 (end_block r) @ e) 16\<rparr>"] c(1) by (auto simp: fips_block_def)
    have "fst (absorb fips_block iv (md_pad be64_count bs)) = fips_block (hash c) (take 56 (end_block r) @ e)"
      using pad_one_block [OF c(3) _ e(1), of be64_count] e(2) False by (simp add: lr t)
    moreover have "sha_end1 hlen c = (let ctx = sha256_compile (c\<lparr>wbuf := ?v[14 := a, 15 := b]\<rparr>)
        in (map (\<lambda>i. ucast (drop_bit (8 * (3 - i mod 4)) (hash ctx ! (i div 4)))) [0..<hlen], ctx))"
      unfolding sha_end1_buffer [OF i_def i64 c(2)] Let_def
      using False by (simp add: a_def b_def del: upt_rec_numeral cong: if_cong)
    ultimately show ?thesis
      unfolding v p' Let_def using p'(1) c(1)
      by (simp add: sha2_shape_def fips_block_def fips_compress_length)
  qed
  then show "fst (sha_end1 hlen c) = sha2_ref iv hlen bs" "sha2_shape (snd (sha_end1 hlen c))"
    using assms(2) by (auto simp: sha2_ref_def hash_bytes sha2_shape_def)
qed

section \<open>The digests as instances of the contract\<close>

lemma sha2_ref_length:
  assumes "length iv = 8" "n \<le> 32"
  shows "length (sha2_ref iv n bs) = n"
proof -
  have "length (fst (absorb fips_block h bs)) = 8" if "length h = 8" for h bs
    using that
  proof (induction fips_block h bs rule: absorb.induct)
    case (1 h bs)
    then show ?case by (subst absorb.simps) (simp add: fips_block_def fips_compress_length)
  qed
  moreover have "length (concat (map be_bytes h)) = 4 * length h" for h by (induction h) simp_all
  ultimately show ?thesis using assms by (simp add: sha2_ref_def)
qed

lemma sha2_begin_rep:
  "sha2_shape c \<Longrightarrow> sha2_rep i256 (sha256_begin c) []" "sha2_shape c \<Longrightarrow> sha2_rep i224 (sha224_begin c) []"
  by (simp_all add: sha256_begin_def sha224_begin_def sha2_rep_def sha2_shape_def i256_def i224_def)

lemma iv_length: "length i224 = 8" "length i256 = 8" by (simp_all add: i224_def i256_def)

interpretation s256: stream_hash sha256_begin sha2_upd sha256_end sha2_shape "sha2_rep i256" "sha2_ref i256 32" 32
  by unfold_locales
    (simp_all add: sha256_end_def sha2_final_rep sha2_update_rep sha2_begin_rep sha2_ref_length iv_length)

interpretation s224: stream_hash sha224_begin sha2_upd sha224_end sha2_shape "sha2_rep i224" "sha2_ref i224 28" 28
  by unfold_locales
    (simp_all add: sha224_end_def sha2_final_rep sha2_update_rep sha2_begin_rep sha2_ref_length iv_length)

definition ex_sha256_ctx :: sha256_ctx where
  "ex_sha256_ctx = \<lparr>count0 = 70, count1 = 5, hash = replicate 8 3, wbuf = replicate 16 0xEEEEEEEE\<rparr>"

text \<open>The compression function of the code, which rotates the roles of the working variables and
  overwrites the message in a circular buffer, computes the one of FIPS 180-4, with its list of 64
  schedule words and its shift of all eight variables in every round.\<close>
theorem sha256_compile_standard:
  assumes "length (hash ctx) = 8" "length (wbuf ctx) = 16"
  shows "hash (sha256_compile ctx) = fips_compress (hash ctx) (wbuf ctx)"
  using sha256_compile_fips [OF assms] by auto

theorem sha256_compile_standard_witness:
  "hash (sha256_compile ex_sha256_ctx) = fips_compress (replicate 8 3) (replicate 16 0xEEEEEEEE)"
  using sha256_compile_standard [of ex_sha256_ctx] by (simp add: ex_sha256_ctx_def)

text \<open>C26: The SHA-256 digest of a message fed in any pieces is the FIPS 180-4 digest of the whole message,
  whatever the context held before, and whatever the length of the message is modulo 4 and 64.\<close>
theorem sha256_stream_correct:
  assumes "length (hash c) = 8" "length (wbuf c) = 16"
    and "\<forall>d\<in>set ds. length d < 2 ^ 31" "length (concat ds) < 2 ^ 61"
  shows "fst (sha256_end (foldl (\<lambda>c d. sha256_hash d (of_nat (length d)) c) (sha256_begin c) ds)) = sha2_ref i256 32 (concat ds)"
proof -
  have "sha2_upd = (\<lambda>c d. sha256_hash d (of_nat (length d)) c)" by (intro ext) (simp add: sha2_upd_def)
  then show ?thesis using s256.pieces_digest(1) [of c ds] assms by (simp add: sha2_shape_def)
qed

theorem sha256_stream_correct_witness:
  "fst (sha256_end (sha256_hash [0x62, 0x63] 2 (sha256_hash [0x61] 1 (sha256_begin ex_sha256_ctx)))) = sha2_ref i256 32 [0x61, 0x62, 0x63]"
  using sha256_stream_correct [of ex_sha256_ctx "[[0x61], [0x62, 0x63]]"] by (simp add: ex_sha256_ctx_def)

text \<open>The call by length gives SHA-224 for 224 and 28, SHA-256 for 256 and 32, and fails for every other
  length, whatever the context on the stack holds.\<close>
theorem sha2_by_length:
  assumes "length (hash (ctx256 cx)) = 8" "length (wbuf (ctx256 cx)) = 16" "length dat < 2 ^ 31"
  shows "sha2 cx sz dat =
    (if sz = 224 \<or> sz = 28 then Some (sha2_ref i224 28 dat)
     else if sz = 256 \<or> sz = 32 then Some (sha2_ref i256 32 dat) else None)"
proof -
  have sh: "sha2_shape (ctx256 cx)" using assms(1,2) by (simp add: sha2_shape_def)
  show ?thesis
    using s256.one_piece(1) [OF sh assms(3)] s224.one_piece(1) [OF sh assms(3)]
    by (auto simp: sha2_def sha2_begin_def sha2_hash_def sha2_end_def sha2_upd_def sha256_end_def sha224_end_def
        sha256_begin_def sha224_begin_def)
qed

theorem sha2_by_length_witness:
  "sha2 \<lparr>ctx256 = ex_sha256_ctx, sha2_len = 0\<rparr> 256 [1, 2] = Some (sha2_ref i256 32 [1, 2]) \<and>
   sha2 \<lparr>ctx256 = ex_sha256_ctx, sha2_len = 0\<rparr> 384 [1, 2] = None"
  using sha2_by_length [of "\<lparr>ctx256 = ex_sha256_ctx, sha2_len = 0\<rparr>" "[1, 2]" 256]
    sha2_by_length [of "\<lparr>ctx256 = ex_sha256_ctx, sha2_len = 0\<rparr>" "[1, 2]" 384] by (simp add: ex_sha256_ctx_def)

section \<open>A known answer\<close>

definition abc2_schedule :: "u32 list" where
  "abc2_schedule =
   [0x61626380, 0x0, 0x0, 0x0, 0x0, 0x0, 0x0, 0x0, 0x0, 0x0,
    0x0, 0x0, 0x0, 0x0, 0x0, 0x18, 0x61626380, 0xf0000, 0x7da86405, 0x600003c6,
    0x3e9d7b78, 0x183fc00, 0x12dcbfdb, 0xe2e2c38e, 0xc8215c1a, 0xb73679a2, 0xe5bc3909, 0x32663c5b, 0x9d209d67, 0xec8726cb,
    0x702138a4, 0xd3b7973b, 0x93f5997f, 0x3b68ba73, 0xaff4ffc1, 0xf10a5c62, 0xa8b3996, 0x72af830a, 0x9409e33e, 0x24641522,
    0x9f47bf94, 0xf0a64f5a, 0x3e246a79, 0x27333ba3, 0xc4763f2, 0x840abf27, 0x7a290d5d, 0x65c43da, 0xfb3e89cb, 0xcc7617db,
    0xb9e66c34, 0xa9993667, 0x84badedd, 0xc21462bc, 0x1487472c, 0xb20f7a99, 0xef57b9cd, 0xebe6b238, 0x9fe3095e, 0x78bc8d4b,
    0xa43fcf15, 0x668b2ff8, 0xeeaba2cc, 0x12b1edeb]"

lemma abc2_pad: "md_pad be64_count [0x61, 0x62, 0x63] = [0x61, 0x62, 0x63, 0x80] @ replicate 59 0 @ [24]"
  by (simp add: md_pad_def be64_count_def be_bytes_def upt_rec) (simp add: eval_nat_numeral)

lemma abc2_words: "be_words (md_pad be64_count [0x61, 0x62, 0x63]) 16 = take 16 abc2_schedule"
  unfolding abc2_pad by code_simp

lemma fips_schedule_add: "fips_schedule (m + n) W = fips_schedule n (fips_schedule m W)"
  by (induction m arbitrary: W) (simp_all add: Let_def)

lemma abc2_extend1: "fips_schedule 16 (take 16 abc2_schedule) = take 32 abc2_schedule" by code_simp
lemma abc2_extend2: "fips_schedule 16 (take 32 abc2_schedule) = take 48 abc2_schedule" by code_simp
lemma abc2_extend3: "fips_schedule 16 (take 48 abc2_schedule) = abc2_schedule" by code_simp

lemma abc2_extend: "fips_schedule 48 (take 16 abc2_schedule) = abc2_schedule"
  using fips_schedule_add [of 16 32 "take 16 abc2_schedule"] fips_schedule_add [of 16 16 "take 32 abc2_schedule"]
  by (simp add: abc2_extend1 abc2_extend2 abc2_extend3)

lemma abc2_round1: "fold (\<lambda>t. fips_round (k256 ! t) (abc2_schedule ! t)) [0..<16]
    [0x6a09e667, 0xbb67ae85, 0x3c6ef372, 0xa54ff53a, 0x510e527f, 0x9b05688c, 0x1f83d9ab, 0x5be0cd19] =
    [0xb0fa238e, 0xc0645fde, 0xd932eb16, 0x87912990, 0x7590dcd, 0xb92f20c, 0x745a48de, 0x1e578218]"
  by code_simp

lemma abc2_round2: "fold (\<lambda>t. fips_round (k256 ! t) (abc2_schedule ! t)) [16..<32]
    [0xb0fa238e, 0xc0645fde, 0xd932eb16, 0x87912990, 0x7590dcd, 0xb92f20c, 0x745a48de, 0x1e578218] =
    [0x73b33bf5, 0xea992a22, 0xa0060b30, 0x363482c9, 0xba591112, 0x109ab3a, 0xade79437, 0x6112a3b7]"
  by code_simp

lemma abc2_round3: "fold (\<lambda>t. fips_round (k256 ! t) (abc2_schedule ! t)) [32..<48]
    [0x73b33bf5, 0xea992a22, 0xa0060b30, 0x363482c9, 0xba591112, 0x109ab3a, 0xade79437, 0x6112a3b7] =
    [0x4172328d, 0xa14c14b0, 0x72ab4b91, 0x26628815, 0xfecf0bc6, 0xd57b94a9, 0xb7755da1, 0xa80f11f0]"
  by code_simp

lemma abc2_round4: "fold (\<lambda>t. fips_round (k256 ! t) (abc2_schedule ! t)) [48..<64]
    [0x4172328d, 0xa14c14b0, 0x72ab4b91, 0x26628815, 0xfecf0bc6, 0xd57b94a9, 0xb7755da1, 0xa80f11f0] =
    [0x506e3058, 0xd39a2165, 0x4d24d6c, 0xb85e2ce9, 0x5ef50f24, 0xfb121210, 0x948d25b6, 0x961f4894]"
  by code_simp

lemma abc2_steps: "fold (\<lambda>t. fips_round (k256 ! t) (abc2_schedule ! t)) [0..<64] i256 =
    [0x506e3058, 0xd39a2165, 0x4d24d6c, 0xb85e2ce9, 0x5ef50f24, 0xfb121210, 0x948d25b6, 0x961f4894]"
proof -
  have "[0..<64] = [0..<16] @ [16..<32] @ [32..<48] @ [48..<64 :: nat]"
    using upt_add_eq_append [of 0 16 48] upt_add_eq_append [of 16 32 32] upt_add_eq_append [of 32 48 16] by simp
  then show ?thesis by (simp only: i256_def fold_append o_apply abc2_round1 abc2_round2 abc2_round3 abc2_round4)
qed

text \<open>Known answer of FIPS 180-4: the code's SHA-256 digest of "abc".\<close>
theorem sha256_known_answer:
  "sha256 ex_sha256_ctx [0x61, 0x62, 0x63] =
   [0xba, 0x78, 0x16, 0xbf, 0x8f, 0x1, 0xcf, 0xea, 0x41, 0x41, 0x40, 0xde, 0x5d, 0xae, 0x22, 0x23,
    0xb0, 0x3, 0x61, 0xa3, 0x96, 0x17, 0x7a, 0x9c, 0xb4, 0x10, 0xff, 0x61, 0xf2, 0x0, 0x15, 0xad]"
proof -
  have sh: "sha2_shape ex_sha256_ctx" by (simp add: sha2_shape_def ex_sha256_ctx_def)
  have l: "length (md_pad be64_count [0x61, 0x62, 0x63]) = 64" by (simp add: md_pad_def be64_count_def)
  have "fips_block i256 (md_pad be64_count [0x61, 0x62, 0x63]) = map2 (+) i256
      [0x506e3058, 0xd39a2165, 0x4d24d6c, 0xb85e2ce9, 0x5ef50f24, 0xfb121210, 0x948d25b6, 0x961f4894]"
    unfolding fips_block_def fips_compress_def Let_def abc2_words abc2_extend abc2_steps ..
  also have "\<dots> = [0xba7816bf, 0x8f01cfea, 0x414140de, 0x5dae2223, 0xb00361a3, 0x96177a9c, 0xb410ff61, 0xf20015ad]"
    by (simp add: i256_def)
  finally have "sha2_ref i256 32 [0x61, 0x62, 0x63] = take 32 (concat (map be_bytes
      [0xba7816bf, 0x8f01cfea, 0x414140de, 0x5dae2223, 0xb00361a3, 0x96177a9c, 0xb410ff61, 0xf20015ad]))"
    using absorb_block [OF l, of fips_block i256 "[]"] by (simp add: sha2_ref_def)
  also have "\<dots> = [0xba, 0x78, 0x16, 0xbf, 0x8f, 0x1, 0xcf, 0xea, 0x41, 0x41, 0x40, 0xde, 0x5d, 0xae, 0x22, 0x23,
    0xb0, 0x3, 0x61, 0xa3, 0x96, 0x17, 0x7a, 0x9c, 0xb4, 0x10, 0xff, 0x61, 0xf2, 0x0, 0x15, 0xad]"
    by code_simp
  finally show ?thesis
    using s256.one_piece(1) [OF sh, of "[0x61, 0x62, 0x63]"] by (simp add: sha256_def sha2_upd_def sha256_end_def)
qed

end
