(* ===== verification/Hmac.thy ===== *)
theory Hmac
  imports Sha256
begin

text \<open>
  The keyed digest over SHA-256, \<open>rt3370/common/crypt_hmac.c\<close>: the key comes in pieces, is
  hashed once it is longer than a block, the first data call ends the key phase, and the end
  returns as many bytes of the code as the caller asks for.
\<close>

record hmac_ctx =
  hkey :: "u8 list"
  hctx :: sha256_ctx
  klen :: u32

abbreviation HASH_INPUT_SIZE :: u32 where "HASH_INPUT_SIZE \<equiv> 64"
abbreviation HASH_OUTPUT_SIZE :: u32 where "HASH_OUTPUT_SIZE \<equiv> 32"
abbreviation HMAC_IN_DATA :: u32 where "HMAC_IN_DATA \<equiv> 0xffffffff"
abbreviation HMAC_OK :: int where "HMAC_OK \<equiv> 0"
abbreviation HMAC_BAD_MODE :: int where "HMAC_BAD_MODE \<equiv> -1"

definition hmac_sha_begin :: hmac_ctx where
  "hmac_sha_begin = \<lparr>hkey = replicate 64 0,
     hctx = \<lparr>count0 = 0, count1 = 0, hash = replicate 8 0, wbuf = replicate 16 0\<rparr>, klen = 0\<rparr>"

text \<open>\<open>None\<close> is a copy past the end of the stored key: the sum of the lengths is taken in 32 bits.\<close>

definition hmac_sha_key :: "u8 list \<Rightarrow> u32 \<Rightarrow> hmac_ctx \<Rightarrow> (int \<times> hmac_ctx) option" where
  "hmac_sha_key key key_len cx =
    (if klen cx = HMAC_IN_DATA then Some (HMAC_BAD_MODE, cx)
     else if klen cx + key_len > HASH_INPUT_SIZE then
       let cx = (if klen cx \<le> HASH_INPUT_SIZE
                 then cx\<lparr>hctx := sha256_hash (take (unat (klen cx)) (hkey cx)) (klen cx) (sha256_begin (hctx cx))\<rparr> else cx);
           cx = cx\<lparr>hctx := sha256_hash key key_len (hctx cx)\<rparr>
       in Some (HMAC_OK, cx\<lparr>klen := klen cx + key_len\<rparr>)
     else if 64 < unat (klen cx) + unat key_len then None
     else Some (HMAC_OK, cx\<lparr>hkey := copy_at (hkey cx) (unat (klen cx)) (take (unat key_len) key), klen := klen cx + key_len\<rparr>))"

text \<open>The exclusive or of the sixteen words of the key.\<close>

definition xor_words :: "u32 \<Rightarrow> u8 list \<Rightarrow> u8 list" where
  "xor_words m key = word_bytes (map (\<lambda>w. w XOR m) (words_at key 16))"

definition hmac_sha_data :: "u8 list \<Rightarrow> u32 \<Rightarrow> hmac_ctx \<Rightarrow> hmac_ctx" where
  "hmac_sha_data dat data_len cx =
    (let cx =
       (if klen cx \<noteq> HMAC_IN_DATA then
          let cx = (if klen cx > HASH_INPUT_SIZE
                    then case sha256_end (hctx cx) of (d, c) \<Rightarrow> cx\<lparr>hkey := copy_at (hkey cx) 0 d, hctx := c, klen := HASH_OUTPUT_SIZE\<rparr>
                    else cx);
              cx = cx\<lparr>hkey := copy_at (hkey cx) (unat (klen cx)) (replicate (unat (HASH_INPUT_SIZE - klen cx)) 0)\<rparr>;
              cx = cx\<lparr>hkey := xor_words 0x36363636 (hkey cx)\<rparr>;
              cx = cx\<lparr>hctx := sha256_hash (hkey cx) HASH_INPUT_SIZE (sha256_begin (hctx cx))\<rparr>
          in cx\<lparr>klen := HMAC_IN_DATA\<rparr>
        else cx)
     in if data_len \<noteq> 0 then cx\<lparr>hctx := sha256_hash dat data_len (hctx cx)\<rparr> else cx)"

text \<open>\<open>None\<close> is a read past the 32 bytes of the digest.\<close>

definition hmac_sha_end :: "nat \<Rightarrow> hmac_ctx \<Rightarrow> (u8 list \<times> hmac_ctx) option" where
  "hmac_sha_end mac_len cx =
    (let cx = (if klen cx \<noteq> HMAC_IN_DATA then hmac_sha_data [] 0 cx else cx)
     in case sha256_end (hctx cx) of (dig, c) \<Rightarrow>
       let key = xor_words (0x36363636 XOR 0x5c5c5c5c) (hkey cx);
           c = sha256_begin c;
           c = sha256_hash key HASH_INPUT_SIZE c;
           c = sha256_hash dig HASH_OUTPUT_SIZE c
       in case sha256_end c of (dig, c) \<Rightarrow>
         if mac_len \<le> length dig then Some (take mac_len dig, cx\<lparr>hkey := key, hctx := c\<rparr>) else None)"

definition hmac_sha :: "u8 list \<Rightarrow> u32 \<Rightarrow> u8 list \<Rightarrow> u32 \<Rightarrow> nat \<Rightarrow> u8 list option" where
  "hmac_sha key key_len dat data_len mac_len =
    (case hmac_sha_key key key_len hmac_sha_begin of
       None \<Rightarrow> None
     | Some (_, cx) \<Rightarrow> map_option fst (hmac_sha_end mac_len (hmac_sha_data dat data_len cx)))"

section \<open>The words of the key\<close>

lemma le_bytes_xor: "le_bytes (w XOR v) = map2 (XOR) (le_bytes w) (le_bytes v)"
proof -
  have b: "(ucast (x XOR y) :: u8) = ucast x XOR ucast y" for x y :: u32
    by (rule bit_word_eqI) (auto simp: bit_xor_iff bit_ucast_iff)
  show ?thesis by (simp add: le_bytes_def b upt_rec)
qed

definition rep4 :: "u8 \<Rightarrow> u32" where "rep4 m = le32 [m, m, m, m]"

lemma le_bytes_rep4: "le_bytes (rep4 m) = [m, m, m, m]"
  by (simp add: rep4_def le_bytes_le32)

lemma le_bytes_xor_rep4: "le_bytes (w XOR rep4 m) = map (\<lambda>x. x XOR m) (le_bytes w)"
  by (simp add: le_bytes_xor le_bytes_rep4) (simp add: le_bytes_def upt_rec)

lemma xor_words_bytes: "length key = 64 \<Longrightarrow> xor_words (rep4 m) key = map (\<lambda>x. x XOR m) key"
proof -
  assume l: "length key = 64"
  have "word_bytes (map (\<lambda>w. w XOR rep4 m) ws) = map (\<lambda>x. x XOR m) (word_bytes ws)" for ws
    by (induction ws) (simp_all add: word_bytes_def le_bytes_xor_rep4)
  then show ?thesis using l by (simp add: xor_words_def word_bytes_words_at)
qed

lemma pads: "(0x36363636 :: u32) = rep4 0x36" "(0x36363636 XOR 0x5c5c5c5c :: u32) = rep4 0x6a"
  by (simp_all add: rep4_def le32_def)

lemma repad: "map (\<lambda>x. x XOR 0x6a) (map (\<lambda>x. x XOR 0x36) k) = map (\<lambda>x. x XOR 0x5c) (k :: u8 list)"
  by (simp add: xor.assoc)

section \<open>Correctness\<close>

abbreviation sha256_ref :: "u8 list \<Rightarrow> u8 list" where "sha256_ref \<equiv> sha2_ref i256 32"

text \<open>The key phase and the data phase: what the context stands for.\<close>

definition key_rep :: "hmac_ctx \<Rightarrow> u8 list \<Rightarrow> bool" where
  "key_rep cx k \<longleftrightarrow> length (hkey cx) = 64 \<and> length k < 2 ^ 31 \<and> klen cx = of_nat (length k) \<and>
     (if length k \<le> 64 then take (length k) (hkey cx) = k \<and> sha2_shape (hctx cx) else sha2_rep i256 (hctx cx) k)"

definition data_rep :: "hmac_ctx \<Rightarrow> u8 list \<Rightarrow> u8 list \<Rightarrow> bool" where
  "data_rep cx k t \<longleftrightarrow> klen cx = HMAC_IN_DATA \<and> hkey cx = map (\<lambda>x. x XOR 0x36) (hmac_key sha256_ref k) \<and>
     sha2_rep i256 (hctx cx) (hkey cx @ t)"

lemma unat_len: "length ds < 2 ^ 31 \<Longrightarrow> unat (of_nat (length ds) :: u32) = length ds"
  by (simp add: unat_of_nat)

lemma sha256_ref_length [simp]: "length (sha256_ref bs) = 32" by (simp add: sha2_ref_length iv_length)

lemma hash_rep: "sha2_rep i256 c bs \<Longrightarrow> length ds < 2 ^ 31 \<Longrightarrow> sha2_rep i256 (sha256_hash ds (of_nat (length ds)) c) (bs @ ds)"
  using sha2_update_rep [of i256 c bs ds] by (simp add: sha2_upd_def)

lemma start_rep: "sha2_shape c \<Longrightarrow> length ds < 2 ^ 31 \<Longrightarrow> sha2_rep i256 (sha256_hash ds (of_nat (length ds)) (sha256_begin c)) ds"
  using hash_rep [OF sha2_begin_rep(1), of c ds] by simp

lemma end_rep:
  assumes "sha2_rep i256 c bs"
  shows "fst (sha256_end c) = sha256_ref bs" "sha2_shape (snd (sha256_end c))"
  using sha2_final_rep [OF assms, of 32] by (simp_all add: sha256_end_def)

lemma begin_key_rep: "key_rep hmac_sha_begin []"
  by (simp add: key_rep_def hmac_sha_begin_def sha2_shape_def)

lemma key_step:
  assumes "key_rep cx k" "length (k @ ds) < 2 ^ 31"
  shows "\<exists>cx'. hmac_sha_key ds (of_nat (length ds)) cx = Some (HMAC_OK, cx') \<and> key_rep cx' (k @ ds)"
proof -
  have r: "length (hkey cx) = 64" "klen cx = of_nat (length k)" using assms(1) by (simp_all add: key_rep_def)
  have u: "unat (of_nat (length ds) :: u32) = length ds" "unat (of_nat (length k) :: u32) = length k"
    using assms(2) by (simp_all add: unat_len)
  have ul: "unat (klen cx + of_nat (length ds)) = length (k @ ds)"
    using assms(2) unfolding r(2) unat_word_ariths u by simp
  have nd: "klen cx \<noteq> HMAC_IN_DATA" using u(2) assms(2) unfolding r(2) by auto
  have c: "klen cx + of_nat (length ds) > HASH_INPUT_SIZE \<longleftrightarrow> 64 < length (k @ ds)"
    unfolding word_less_nat_alt ul by simp
  have d: "klen cx \<le> HASH_INPUT_SIZE \<longleftrightarrow> length k \<le> 64" unfolding word_le_nat_alt r(2) u by simp
  consider "length (k @ ds) \<le> 64" | "64 < length (k @ ds)" "length k \<le> 64" | "64 < length k" by fastforce
  then show ?thesis
  proof cases
    case 1
    then have "take (length (k @ ds)) (copy_at (hkey cx) (length k) ds) = k @ ds"
      using assms(1) take_copy [of "length k" ds "hkey cx"] r(1) by (simp add: key_rep_def)
    then show ?thesis
      using 1 assms c nd u r copy_length [of "length k" ds "hkey cx"]
      by (simp add: hmac_sha_key_def key_rep_def not_less) (auto simp: not_less)
  next
    case 2
    have "sha2_rep i256 (sha256_hash k (of_nat (length k)) (sha256_begin (hctx cx))) k"
      using assms 2 by (intro start_rep) (simp_all add: key_rep_def)
    then have "sha2_rep i256 (sha256_hash ds (of_nat (length ds)) (sha256_hash k (of_nat (length k)) (sha256_begin (hctx cx)))) (k @ ds)"
      using assms(2) by (intro hash_rep) simp_all
    then show ?thesis
      using 2 assms c d nd u r by (simp add: hmac_sha_key_def key_rep_def Let_def)
  next
    case 3
    then have "sha2_rep i256 (sha256_hash ds (of_nat (length ds)) (hctx cx)) (k @ ds)"
      using assms by (intro hash_rep) (simp_all add: key_rep_def)
    then show ?thesis
      using 3 assms c d nd u r by (simp add: hmac_sha_key_def key_rep_def Let_def)
  qed
qed

lemma xor_words_pad: "length key = 64 \<Longrightarrow> xor_words 0x36363636 key = map (\<lambda>x. x XOR 0x36) key"
  "length key = 64 \<Longrightarrow> xor_words (0x36363636 XOR 0x5c5c5c5c) key = map (\<lambda>x. x XOR 0x6a) key"
  by (simp_all only: pads(2) xor_words_bytes) (simp only: pads(1) xor_words_bytes)

lemma hmac_key_length: "length (hmac_key sha256_ref k) = 64" by (simp add: hmac_key_def Let_def)

lemma to_data:
  assumes "key_rep cx k" "length ds < 2 ^ 31"
  shows "data_rep (hmac_sha_data ds (of_nat (length ds)) cx) k ds"
proof -
  have r: "length (hkey cx) = 64" "length k < 2 ^ 31" "klen cx = of_nat (length k)" using assms(1) by (simp_all add: key_rep_def)
  have u: "unat (of_nat (length k) :: u32) = length k" using r(2) by (rule unat_len)
  have nd: "klen cx \<noteq> HMAC_IN_DATA" using u r(2) unfolding r(3) by auto
  have g: "klen cx > HASH_INPUT_SIZE \<longleftrightarrow> 64 < length k" unfolding word_less_nat_alt r(3) u by simp
  define cy where "cy = (if klen cx > HASH_INPUT_SIZE
    then case sha256_end (hctx cx) of (d, c) \<Rightarrow> cx\<lparr>hkey := copy_at (hkey cx) 0 d, hctx := c, klen := HASH_OUTPUT_SIZE\<rparr> else cx)"
  have k: "copy_at (hkey cy) (unat (klen cy)) (replicate (unat (HASH_INPUT_SIZE - klen cy)) 0) = hmac_key sha256_ref k"
    and sh: "sha2_shape (hctx cy)"
  proof -
    have "copy_at (hkey cy) (unat (klen cy)) (replicate (unat (HASH_INPUT_SIZE - klen cy)) 0) = hmac_key sha256_ref k \<and> sha2_shape (hctx cy)"
    proof (cases "64 < length k")
      case True
      then have "sha2_rep i256 (hctx cx) k" using assms(1) by (simp add: key_rep_def)
      note E = end_rep [OF this]
      then show ?thesis
        using True g r(1) by (simp add: cy_def hmac_key_def copy_at_def split_beta)
    next
      case False
      moreover have "unat (HASH_INPUT_SIZE - of_nat (length k)) = 64 - length k"
        using False u by (simp add: unat_sub word_le_nat_alt)
      ultimately show ?thesis
        using assms(1) g u r(1,3) by (simp add: cy_def key_rep_def hmac_key_def copy_at_def)
    qed
    then show "copy_at (hkey cy) (unat (klen cy)) (replicate (unat (HASH_INPUT_SIZE - klen cy)) 0) = hmac_key sha256_ref k"
      and "sha2_shape (hctx cy)" by blast+
  qed
  define ip where "ip = map (\<lambda>x. x XOR 0x36) (hmac_key sha256_ref k)"
  have lip: "length ip = 64" by (simp add: ip_def hmac_key_length)
  define c where "c = sha256_hash ip HASH_INPUT_SIZE (sha256_begin (hctx cy))"
  have c: "sha2_rep i256 c ip" using start_rep [OF sh, of ip] lip by (simp add: c_def)
  have "hmac_sha_data ds (of_nat (length ds)) cx =
      (let cz = cy\<lparr>hkey := ip, hctx := c, klen := HMAC_IN_DATA\<rparr>
       in if (of_nat (length ds) :: u32) \<noteq> 0 then cz\<lparr>hctx := sha256_hash ds (of_nat (length ds)) (hctx cz)\<rparr> else cz)"
    using nd k hmac_key_length [of k]
    by (simp add: hmac_sha_data_def Let_def cy_def [symmetric] xor_words_pad ip_def c_def)
  moreover have "(of_nat (length ds) :: u32) \<noteq> 0 \<longleftrightarrow> ds \<noteq> []"
    using unat_len [OF assms(2)] by auto
  ultimately show ?thesis
    using hash_rep [OF c assms(2)] c by (simp add: data_rep_def Let_def ip_def)
qed

lemma in_data:
  assumes "data_rep cx k t" "length ds < 2 ^ 31"
  shows "data_rep (hmac_sha_data ds (of_nat (length ds)) cx) k (t @ ds)"
proof -
  have "(of_nat (length ds) :: u32) \<noteq> 0 \<longleftrightarrow> ds \<noteq> []" using unat_len [OF assms(2)] by auto
  then show ?thesis
    using assms(1) hash_rep [OF _ assms(2), of "hctx cx" "hkey cx @ t"] by (auto simp: hmac_sha_data_def data_rep_def Let_def)
qed

lemma mac_of_data:
  assumes "data_rep cx k t" "n \<le> 32"
  shows "map_option fst (hmac_sha_end n cx) = Some (take n (hmac_ref sha256_ref k t))"
proof -
  let ?k = "hmac_key sha256_ref k"
  have r: "klen cx = HMAC_IN_DATA" "hkey cx = map (\<lambda>x. x XOR 0x36) ?k" "sha2_rep i256 (hctx cx) (map (\<lambda>x. x XOR 0x36) ?k @ t)"
    using assms(1) unfolding data_rep_def by metis+
  have key: "xor_words (0x36363636 XOR 0x5c5c5c5c) (hkey cx) = map (\<lambda>x. x XOR 0x5c) ?k"
    using xor_words_pad(2) [of "hkey cx"] repad [of ?k] by (simp only: r(2) length_map hmac_key_length refl True_implies_equals)
  have six: "(0x36363636 XOR 0x5c5c5c5c :: u32) = 0x6a6a6a6a" by simp
  note E = end_rep [OF r(3)]
  let ?ok = "map (\<lambda>x. x XOR 0x5c) ?k" and ?d = "sha256_ref (map (\<lambda>x. x XOR 0x36) ?k @ t)"
  have "sha2_rep i256 (sha256_hash ?ok HASH_INPUT_SIZE (sha256_begin (snd (sha256_end (hctx cx))))) ?ok"
    using start_rep [OF E(2), of ?ok] by (simp add: hmac_key_length)
  from hash_rep [OF this, of ?d]
  have F: "sha2_rep i256 (sha256_hash ?d HASH_OUTPUT_SIZE (sha256_hash ?ok HASH_INPUT_SIZE (sha256_begin (snd (sha256_end (hctx cx)))))) (?ok @ ?d)"
    by simp
  show ?thesis
    using end_rep [OF F] assms(2) r(1) E(1) unfolding hmac_sha_end_def Let_def hmac_ref_def six
    by (simp add: key [unfolded six] split_beta)
qed

lemma key_pieces:
  assumes "key_rep cx k" "length (k @ concat ks) < 2 ^ 31"
  shows "\<exists>cx'. foldl (\<lambda>c d. Option.bind c (\<lambda>c. map_option snd (hmac_sha_key d (of_nat (length d)) c))) (Some cx) ks = Some cx' \<and>
    key_rep cx' (k @ concat ks)"
  using assms
proof (induction ks arbitrary: cx k)
  case (Cons d ks)
  from key_step [OF Cons.prems(1), of d] Cons.prems(2) obtain cy where
    "hmac_sha_key d (of_nat (length d)) cx = Some (HMAC_OK, cy)" "key_rep cy (k @ d)" by auto
  then show ?case using Cons.IH [of cy "k @ d"] Cons.prems(2) by simp
qed simp

lemma data_pieces:
  assumes "data_rep cx k t" "\<forall>d\<in>set ds. length d < 2 ^ 31"
  shows "data_rep (foldl (\<lambda>c d. hmac_sha_data d (of_nat (length d)) c) cx ds) k (t @ concat ds)"
  using assms
proof (induction ds arbitrary: cx t)
  case (Cons d ds)
  then show ?case using Cons.IH [OF in_data [OF Cons.prems(1)], of d] by simp
qed simp

definition hmac_keys :: "u8 list list \<Rightarrow> hmac_ctx option" where
  "hmac_keys ks = foldl (\<lambda>c d. Option.bind c (\<lambda>c. map_option snd (hmac_sha_key d (of_nat (length d)) c))) (Some hmac_sha_begin) ks"

definition hmac_datas :: "u8 list list \<Rightarrow> hmac_ctx \<Rightarrow> hmac_ctx" where
  "hmac_datas ds cx = foldl (\<lambda>c d. hmac_sha_data d (of_nat (length d)) c) cx ds"

lemma hmac_keys_rep: "length (concat ks) < 2 ^ 31 \<Longrightarrow> \<exists>cx. hmac_keys ks = Some cx \<and> key_rep cx (concat ks)"
  using key_pieces [OF begin_key_rep, of ks] by (simp add: hmac_keys_def)

lemma hmac_datas_rep:
  assumes "key_rep cx k" "ds \<noteq> []" "\<forall>d\<in>set ds. length d < 2 ^ 31"
  shows "data_rep (hmac_datas ds cx) k (concat ds)"
proof -
  obtain d es where "ds = d # es" using assms(2) by (cases ds) auto
  then show ?thesis using data_pieces [OF to_data [OF assms(1), of d]] assms(3) by (simp add: hmac_datas_def)
qed

lemma mac_of_key:
  assumes "key_rep cx k" "n \<le> 32"
  shows "map_option fst (hmac_sha_end n cx) = Some (take n (hmac_ref sha256_ref k []))"
proof -
  have r: "length k < 2 ^ 31" "klen cx = of_nat (length k)" using assms(1) by (simp_all add: key_rep_def)
  have nd: "klen cx \<noteq> HMAC_IN_DATA" using unat_len [OF r(1)] r(1) unfolding r(2) by auto
  have D: "data_rep (hmac_sha_data [] 0 cx) k []" using to_data [OF assms(1), of "[]"] by simp
  then have "klen (hmac_sha_data [] 0 cx) = HMAC_IN_DATA" by (simp add: data_rep_def)
  then have "hmac_sha_end n cx = hmac_sha_end n (hmac_sha_data [] 0 cx)"
    unfolding hmac_sha_end_def using nd by simp
  then show ?thesis using mac_of_data [OF D assms(2)] by simp
qed

text \<open>C25: However the key and the data are cut into pieces, every key piece is accepted and the code that
  comes out is the start of the HMAC of RFC 2104 over SHA-256 of the joined data under the joined key,
  for keys shorter and longer than a block, and also when no data was given at all.\<close>
theorem hmac_sha_pieces:
  assumes "length (concat ks) < 2 ^ 31" "\<forall>d\<in>set ds. length d < 2 ^ 31" "n \<le> 32"
  shows "Option.bind (hmac_keys ks) (\<lambda>cx. map_option fst (hmac_sha_end n (hmac_datas ds cx))) =
    Some (take n (hmac_ref (sha2_ref i256 32) (concat ks) (concat ds)))"
proof -
  obtain cx where cx: "hmac_keys ks = Some cx" "key_rep cx (concat ks)" using hmac_keys_rep [OF assms(1)] by blast
  show ?thesis
  proof (cases "ds = []")
    case True
    then show ?thesis using mac_of_key [OF cx(2) assms(3)] cx(1) by (simp add: hmac_datas_def)
  next
    case False
    then show ?thesis using mac_of_data [OF hmac_datas_rep [OF cx(2) False assms(2)] assms(3)] cx(1) by simp
  qed
qed

theorem hmac_sha_pieces_witness:
  "Option.bind (hmac_keys [replicate 40 1, replicate 40 2]) (\<lambda>cx. map_option fst (hmac_sha_end 20 (hmac_datas [[3], [4, 5]] cx))) =
    Some (take 20 (hmac_ref (sha2_ref i256 32) (replicate 40 1 @ replicate 40 2) [3, 4, 5]))"
  using hmac_sha_pieces [of "[replicate 40 1, replicate 40 2]" "[[3], [4, 5]]" 20] by (simp del: replicate.simps)

text \<open>Once data has been given, a further key piece is refused and changes nothing, so the code is the
  one of the key given before.\<close>
theorem hmac_late_key:
  assumes "key_rep cx k" "length dat < 2 ^ 31"
  shows "hmac_sha_key key key_len (hmac_sha_data dat (of_nat (length dat)) cx) =
    Some (HMAC_BAD_MODE, hmac_sha_data dat (of_nat (length dat)) cx)"
  using to_data [OF assms] by (simp add: hmac_sha_key_def data_rep_def)

theorem hmac_late_key_witness:
  "hmac_sha_key [9] 1 (hmac_sha_data [7] 1 hmac_sha_begin) = Some (-1, hmac_sha_data [7] 1 hmac_sha_begin)"
  using hmac_late_key [OF begin_key_rep, of "[7]" "[9]" 1] by simp

text \<open>The one-call version gives the code for any length up to 32; a longer one is a read past the end of
  the digest on the stack, which nothing checks.\<close>
theorem hmac_sha_oneshot:
  assumes "length key < 2 ^ 31" "length dat < 2 ^ 31"
  shows "hmac_sha key (of_nat (length key)) dat (of_nat (length dat)) n =
    (if n \<le> 32 then Some (take n (hmac_ref (sha2_ref i256 32) key dat)) else None)"
proof -
  obtain cx where cx: "hmac_sha_key key (of_nat (length key)) hmac_sha_begin = Some (HMAC_OK, cx)" "key_rep cx key"
    using key_step [OF begin_key_rep, of key] assms(1) by auto
  note D = to_data [OF cx(2) assms(2)]
  show ?thesis
  proof (cases "n \<le> 32")
    case True
    then show ?thesis using mac_of_data [OF D True] cx(1) by (simp add: hmac_sha_def)
  next
    case False
    have "hmac_sha_end n c = None" if "\<not> n \<le> 32" for c
      using that by (simp add: hmac_sha_end_def Let_def sha256_end_def sha_end1_def split_beta)
    then show ?thesis using cx(1) False by (simp add: hmac_sha_def)
  qed
qed

theorem hmac_sha_oneshot_witness:
  "hmac_sha [1, 2] 2 [3] 1 33 = None \<and> hmac_sha [1, 2] 2 [3] 1 4 = Some (take 4 (hmac_ref (sha2_ref i256 32) [1, 2] [3]))"
  using hmac_sha_oneshot [of "[1, 2]" "[3]" 33] hmac_sha_oneshot [of "[1, 2]" "[3]" 4] by simp

end
