(* ===== verification/Cmac.thy ===== *)
theory Cmac
  imports Ccm
begin

text \<open>
  The CMAC of \<open>rt3370/common/crypt_aes.c\<close>: \<open>AES_CMAC_GenerateSubKey\<close> and \<open>AES_CMAC\<close>, against RFC 4493, whose
  sub keys are shifts of a 128-bit string (here a 128-bit word) where the code moves one byte at a time.
\<close>

section \<open>The code\<close>

definition Const_Zero :: "u8 list" where "Const_Zero = replicate 16 0"
definition Const_Rb :: "u8 list" where "Const_Rb = replicate 15 0 @ [0x87]"

definition Top_Bit :: "u8 list \<Rightarrow> nat \<Rightarrow> u8" where
  "Top_Bit SubKey1 Index = (if SubKey1 ! (Index + 1) AND 0x80 \<noteq> 0 then 1 else 0)"

text \<open>The first sub key is shifted where it stands, from the first byte on.\<close>

definition cmac_SubKey1 :: "u8 list \<Rightarrow> u8 list" where
  "cmac_SubKey1 SubKey1 =
    (let MSB_L = SubKey1 ! 0 AND 0x80;
         SubKey1 = fold (\<lambda>Index SubKey1. SubKey1[Index := push_bit 1 (SubKey1 ! Index) OR Top_Bit SubKey1 Index]) [0..<15] SubKey1;
         SubKey1 = SubKey1[15 := push_bit 1 (SubKey1 ! 15)]
     in if MSB_L > 0 then xor_bytes SubKey1 Const_Rb else SubKey1)"

definition cmac_SubKey2 :: "u8 list \<Rightarrow> u8 list \<Rightarrow> u8 list" where
  "cmac_SubKey2 SubKey1 SubKey2 =
    (let MSB_K1 = SubKey1 ! 0 AND 0x80;
         SubKey2 = fold (\<lambda>Index SubKey2. SubKey2[Index := push_bit 1 (SubKey1 ! Index) OR Top_Bit SubKey1 Index]) [0..<15] SubKey2;
         SubKey2 = SubKey2[15 := push_bit 1 (SubKey1 ! 15)]
     in if MSB_K1 > 0 then xor_bytes SubKey2 Const_Rb else SubKey2)"

definition AES_CMAC_GenerateSubKey :: "bool \<Rightarrow> u8 list \<Rightarrow> u32 \<Rightarrow> u8 list \<Rightarrow> u8 list \<Rightarrow> u8 list \<times> u8 list" where
  "AES_CMAC_GenerateSubKey alloc Key KeyLength SubKey1 SubKey2 =
    (if KeyLength \<noteq> 16 then (SubKey1, SubKey2)
     else
       let SubKey1 = aes_block alloc Key KeyLength SubKey1 Const_Zero;
           SubKey1 = cmac_SubKey1 SubKey1
       in (SubKey1, cmac_SubKey2 SubKey1 SubKey2))"

text \<open>The blocks before the last one; the list is the text from \<open>PlainBlockStart\<close> on.\<close>

function cmac_loop :: "(u8 list \<Rightarrow> u8 list \<Rightarrow> u8 list) \<Rightarrow> u8 list \<Rightarrow> u8 list \<Rightarrow> u8 list \<times> u8 list" where
  "cmac_loop enc X rest =
    (if length rest > 16 then cmac_loop enc (enc X (xor_bytes (take 16 rest) X)) (drop 16 rest) else (X, rest))"
  by pat_completeness auto
termination by (relation "measure (\<lambda>(_, _, rest). length rest)") auto

declare cmac_loop.simps [simp del]

definition AES_CMAC :: "bool \<Rightarrow> u8 list \<Rightarrow> u32 \<Rightarrow> u8 list \<Rightarrow> u32 \<Rightarrow> u8 list \<Rightarrow> u32 \<Rightarrow> u8 list \<times> u32" where
  "AES_CMAC alloc PlainText PlainTextLength Key KeyLength MACText MACTextLength =
    (if MACTextLength < 16 then (MACText, MACTextLength)
     else if KeyLength \<noteq> 16 then (MACText, MACTextLength)
     else
       let (SubKey1, SubKey2) = AES_CMAC_GenerateSubKey alloc Key KeyLength (replicate 16 0) (replicate 16 0);
           (X, rest) = cmac_loop (aes_block alloc Key KeyLength) Const_Zero (take (unat PlainTextLength) PlainText);
           Y = (if length rest = 16 then xor_bytes (xor_bytes rest X) SubKey1
                else xor_bytes (xor_bytes ((copy_at zero_block 0 rest)[length rest := 0x80]) X) SubKey2)
       in RT_AES_Encrypt alloc Y 16 Key KeyLength MACText MACTextLength)"

section \<open>The reference: RFC 4493\<close>

definition block_word :: "u8 list \<Rightarrow> 128 word" where
  "block_word b = fold (\<lambda>x w. push_bit 8 w OR ucast x) b 0"

definition word_block :: "128 word \<Rightarrow> u8 list" where
  "word_block w = map (\<lambda>i. ucast (drop_bit (8 * (15 - i)) w)) [0..<16]"

definition rfc_double :: "u8 list \<Rightarrow> u8 list" where
  "rfc_double b = (let w = block_word b in word_block (if bit w 127 then push_bit 1 w XOR 0x87 else push_bit 1 w))"

definition rfc_cmac :: "(u8 list \<Rightarrow> u8 list) \<Rightarrow> u8 list \<Rightarrow> u8 list" where
  "rfc_cmac E m =
    (let K1 = rfc_double (E zero_block); K2 = rfc_double K1;
         n = max 1 ((length m + 15) div 16);
         l = drop (16 * (n - 1)) m;
         X = cbc_mac E zero_block (take (16 * (n - 1)) m);
         M_last = (if length l = 16 then xor_bytes l K1 else xor_bytes (l @ [0x80] @ replicate (15 - length l) 0) K2)
     in E (xor_bytes M_last X))"

section \<open>The sub keys\<close>

lemma block_word_bit:
  "length b \<le> 16 \<Longrightarrow> bit (block_word b) n \<longleftrightarrow> n < 8 * length b \<and> bit (rev b ! (n div 8)) (n mod 8)"
proof (induction b arbitrary: n rule: rev_induct)
  case (snoc x b)
  have "bit (block_word (b @ [x])) n \<longleftrightarrow> (8 \<le> n \<and> n < 128 \<and> bit (block_word b) (n - 8)) \<or> (n < 8 \<and> bit x n)"
    by (auto simp: block_word_def bit_or_iff bit_push_bit_iff bit_ucast_iff dest: bit_imp_le_length)
  also have "\<dots> \<longleftrightarrow> n < 8 * length (b @ [x]) \<and> bit (rev (b @ [x]) ! (n div 8)) (n mod 8)"
  proof (cases "n < 8")
    case False
    then have "n div 8 = Suc ((n - 8) div 8)" "(n - 8) mod 8 = n mod 8" by (simp_all add: le_div_geq le_mod_geq)
    then show ?thesis using False snoc.IH [of "n - 8"] snoc.prems by auto
  qed simp
  finally show ?case .
qed (simp add: block_word_def)

lemma block_bit:
  assumes "length b = 16" "i < 16" "k < 8"
  shows "bit (block_word b) (8 * (15 - i) + k) = bit (b ! i) k"
proof -
  have "rev b ! (15 - i) = b ! i" using assms(1,2) by (simp add: rev_nth)
  moreover have "(8 * (15 - i) + k) div 8 = 15 - i" "(8 * (15 - i) + k) mod 8 = k" using assms(3) by simp_all
  moreover have "8 * (15 - i) + k < 8 * length b" using assms by simp
  ultimately show ?thesis using assms(1) by (simp only: block_word_bit) simp
qed

definition shifted :: "u8 list \<Rightarrow> u8 list" where
  "shifted b = map (\<lambda>i. push_bit 1 (b ! i) OR (if i < 15 then Top_Bit b i else 0)) [0..<16]"

lemma word_block_length [simp]: "length (word_block w) = 16" by (simp add: word_block_def)

lemma top_bit: "x AND 0x80 \<noteq> 0 \<longleftrightarrow> bit (x :: u8) 7"
proof
  assume "x AND 0x80 \<noteq> 0"
  then obtain n where n: "bit (x AND 0x80) n" by (auto simp: bit_eq_iff)
  have "(0x80 :: u8) = 2 ^ 7" by simp
  then have "bit x n \<and> bit (2 ^ 7 :: u8) n" using n by (simp only: bit_and_iff)
  moreover have "n = 7" if "bit (2 ^ 7 :: u8) n" using that by (simp only: bit_exp_iff)
  ultimately show "bit x 7" by auto
next
  assume "bit x 7"
  moreover have "bit (0x80 :: u8) 7" by (simp add: bit_iff_odd_drop_bit)
  ultimately have "bit (x AND 0x80) 7" by (simp add: bit_and_iff)
  then show "x AND 0x80 \<noteq> 0" by auto
qed

lemma shifted_word:
  assumes "length b = 16"
  shows "shifted b = word_block (push_bit 1 (block_word b))"
proof (rule nth_equalityI)
  fix i
  assume "i < length (shifted b)"
  then have i: "i < 16" by (simp add: shifted_def)
  show "shifted b ! i = word_block (push_bit 1 (block_word b)) ! i"
  proof (rule bit_word_eqI)
    fix k
    assume "k < LENGTH(8)"
    then have k: "k < 8" by simp
    have L: "bit (shifted b ! i) k \<longleftrightarrow> (if k = 0 then i < 15 \<and> bit (b ! (i + 1)) 7 else bit (b ! i) (k - 1))"
      using i k by (auto simp: shifted_def Top_Bit_def top_bit bit_or_iff bit_push_bit_iff bit_1_iff simp del: upt_rec_numeral push_bit_Suc One_nat_def)
    have R: "bit (word_block (push_bit 1 (block_word b)) ! i) k \<longleftrightarrow> 0 < 8 * (15 - i) + k \<and> bit (block_word b) (8 * (15 - i) + k - 1)"
      using i k by (auto simp: word_block_def bit_ucast_iff bit_drop_bit_eq bit_push_bit_iff simp del: upt_rec_numeral push_bit_Suc One_nat_def)
    show "bit (shifted b ! i) k = bit (word_block (push_bit 1 (block_word b)) ! i) k"
    proof (cases "k = 0")
      case False
      then have "8 * (15 - i) + k - 1 = 8 * (15 - i) + (k - 1)" by simp
      then show ?thesis unfolding L R using False block_bit [OF assms i, of "k - 1"] k by simp
    next
      case True
      show ?thesis
      proof (cases "i < 15")
        case t: True
        then have "8 * (15 - i) - 1 = 8 * (15 - (i + 1)) + 7" by simp
        then show ?thesis unfolding L R using True t block_bit [OF assms, of "i + 1" 7] by simp
      next
        case f: False
        then show ?thesis unfolding L R using True i by simp
      qed
    qed
  qed
qed (simp add: shifted_def)

lemma shift_in_place:
  assumes "length b = 16" "n \<le> 15"
  shows "fold (\<lambda>Index s. s[Index := push_bit 1 (s ! Index) OR Top_Bit s Index]) [0..<n] b =
    map (\<lambda>i. push_bit 1 (b ! i) OR Top_Bit b i) [0..<n] @ drop n b"
  using assms(2)
proof (induction n)
  case (Suc n)
  let ?m = "map (\<lambda>i. push_bit 1 (b ! i) OR Top_Bit b i) [0..<n] @ drop n b"
  have n: "n < length b" "n + 1 < length b" using Suc.prems assms(1) by simp_all
  have "?m ! n = b ! n" "?m ! (n + 1) = b ! (n + 1)" using n by (simp_all add: nth_append)
  moreover have "drop n b = b ! n # drop (Suc n) b" using Cons_nth_drop_Suc [OF n(1)] by simp
  then have "?m[n := v] = map (\<lambda>i. push_bit 1 (b ! i) OR Top_Bit b i) [0..<n] @ v # drop (Suc n) b" for v
    by (simp add: list_update_append del: push_bit_Suc One_nat_def)
  ultimately have "?m[n := push_bit 1 (?m ! n) OR Top_Bit ?m n] = map (\<lambda>i. push_bit 1 (b ! i) OR Top_Bit b i) [0..<Suc n] @ drop (Suc n) b"
    by (simp add: Top_Bit_def del: push_bit_Suc One_nat_def)
  then show ?case using Suc by simp
qed simp

lemma shift_to:
  assumes "length s = 16" "n \<le> 15"
  shows "fold (\<lambda>Index s. s[Index := push_bit 1 (b ! Index) OR Top_Bit b Index]) [0..<n] s =
    map (\<lambda>i. push_bit 1 (b ! i) OR Top_Bit b i) [0..<n] @ drop n s"
  using assms(2)
proof (induction n)
  case (Suc n)
  have n: "n < length s" using Suc.prems assms(1) by simp
  have "drop n s = s ! n # drop (Suc n) s" using Cons_nth_drop_Suc [OF n] by simp
  then show ?case using Suc by (simp add: list_update_append del: push_bit_Suc)
qed simp

lemma shifted_last:
  assumes "length b = 16" "length s = 16" "s ! 15 = b ! 15"
  shows "(map (\<lambda>i. push_bit 1 (b ! i) OR Top_Bit b i) [0..<15] @ drop 15 s)[15 := push_bit 1 (b ! 15)] = shifted b"
proof (rule nth_equalityI)
  fix i
  assume "i < length ((map (\<lambda>i. push_bit 1 (b ! i) OR Top_Bit b i) [0..<15] @ drop 15 s)[15 := push_bit 1 (b ! 15)])"
  then have i: "i < 16" using assms by simp
  show "(map (\<lambda>i. push_bit 1 (b ! i) OR Top_Bit b i) [0..<15] @ drop 15 s)[15 := push_bit 1 (b ! 15)] ! i = shifted b ! i"
    using i assms by (cases "i = 15") (auto simp: shifted_def nth_append simp del: upt_rec_numeral)
qed (use assms in \<open>simp add: shifted_def\<close>)

lemma rb_word:
  "word_block (w XOR 0x87) = xor_bytes (word_block w) Const_Rb"
proof -
  have x: "(ucast (drop_bit n (w XOR 0x87)) :: u8) = ucast (drop_bit n w) XOR ucast (drop_bit n (0x87 :: 128 word))" for n
    by (rule bit_word_eqI) (auto simp: bit_ucast_iff bit_drop_bit_eq bit_xor_iff)
  have z: "drop_bit n (0x87 :: 128 word) = 0" if "8 \<le> n" for n
  proof -
    have "drop_bit n (0x87 :: 128 word) = drop_bit (n - 8) (drop_bit 8 0x87)" using that by (simp only: drop_bit_drop_bit) simp
    then show ?thesis by simp
  qed
  show ?thesis
  proof (rule nth_equalityI)
    fix i
    assume "i < length (word_block (w XOR 0x87))"
    then have i: "i < 16" by simp
    have l: "word_block v ! i = ucast (drop_bit (8 * (15 - i)) v)" for v
      using i unfolding word_block_def by (simp del: upt_rec_numeral)
    have "xor_bytes (word_block w) Const_Rb ! i = word_block w ! i XOR Const_Rb ! i"
      using i by (intro xor_bytes_nth) (simp_all add: Const_Rb_def)
    moreover have "Const_Rb ! i = ucast (drop_bit (8 * (15 - i)) (0x87 :: 128 word))"
    proof (cases "i = 15")
      case False
      then have "8 \<le> 8 * (15 - i)" using i by simp
      then show ?thesis using False i z by (simp add: Const_Rb_def nth_append del: replicate.simps)
    qed (simp add: Const_Rb_def nth_append del: replicate.simps)
    ultimately show "word_block (w XOR 0x87) ! i = xor_bytes (word_block w) Const_Rb ! i" by (simp only: l x)
  qed (simp add: Const_Rb_def)
qed


lemma msb: "x AND 0x80 > 0 \<longleftrightarrow> bit (x :: u8) 7"
  using top_bit [of x] word_gt_0 [of "x AND 0x80"] by metis

lemma double_word: "length b = 16 \<Longrightarrow> rfc_double b = (if bit (b ! 0) 7 then xor_bytes (shifted b) Const_Rb else shifted b)"
  using block_bit [of b 0 7] by (simp add: rfc_double_def Let_def rb_word shifted_word)

lemma SubKey1_double:
  assumes "length b = 16"
  shows "cmac_SubKey1 b = rfc_double b"
proof -
  let ?f = "fold (\<lambda>Index s. s[Index := push_bit 1 (s ! Index) OR Top_Bit s Index]) [0..<15] b"
  have f: "?f = map (\<lambda>i. push_bit 1 (b ! i) OR Top_Bit b i) [0..<15] @ drop 15 b" by (rule shift_in_place [OF assms order_refl])
  have "(map (\<lambda>i. push_bit 1 (b ! i) OR Top_Bit b i) [0..<15] @ drop 15 b) ! 15 = b ! 15"
    using assms by (simp add: nth_append del: upt_rec_numeral)
  then have "?f[15 := push_bit 1 (?f ! 15)] = shifted b" unfolding f using shifted_last [OF assms assms refl] by simp
  then show ?thesis unfolding cmac_SubKey1_def Let_def msb double_word [OF assms] by simp
qed

lemma SubKey2_double:
  assumes "length b = 16" "length s = 16"
  shows "cmac_SubKey2 b s = rfc_double b"
proof -
  let ?f = "fold (\<lambda>Index s. s[Index := push_bit 1 (b ! Index) OR Top_Bit b Index]) [0..<15] s"
  have d: "drop 15 s = [s ! 15]" "drop 15 b = [b ! 15]"
    using Cons_nth_drop_Suc [of 15 s] Cons_nth_drop_Suc [of 15 b] assms by simp_all
  have "?f[15 := v] = map (\<lambda>i. push_bit 1 (b ! i) OR Top_Bit b i) [0..<15] @ [v]" for v
    unfolding shift_to [OF assms(2) order_refl] unfolding d by (simp add: list_update_append del: upt_rec_numeral)
  then have "?f[15 := push_bit 1 (b ! 15)] = shifted b"
    using shifted_last [OF assms(1) assms(1) refl] unfolding d by (simp add: list_update_append del: upt_rec_numeral)
  then show ?thesis unfolding cmac_SubKey2_def Let_def msb double_word [OF assms(1)] by simp
qed

section \<open>The code\<close>

lemma loop_rfc:
  assumes "\<And>o' b. length o' = 16 \<Longrightarrow> length b = 16 \<Longrightarrow> enc o' b = E b" "\<And>b. length b = 16 \<Longrightarrow> length (E b) = 16"
  defines "n m \<equiv> max 1 ((length m + 15) div 16)"
  shows "length X = 16 \<Longrightarrow> cmac_loop enc X m = (cbc_mac E X (take (16 * (n m - 1)) m), drop (16 * (n m - 1)) m)"
proof (induction "length m" arbitrary: X m rule: less_induct)
  case less
  show ?case
  proof (cases "length m > 16")
    case True
    then have b: "length (xor_bytes (take 16 m) X) = 16" using less.prems by simp
    have n: "n m = Suc (n (drop 16 m))" "1 \<le> n (drop 16 m)" using True by (auto simp: n_def max_def le_div_geq)
    have t: "take (16 * (n m - 1)) m = take 16 m @ take (16 * (n (drop 16 m) - 1)) (drop 16 m)"
      using n by (cases "n (drop 16 m)") (simp_all add: take_add [symmetric])
    have d: "drop (16 * (n m - 1)) m = drop (16 * (n (drop 16 m) - 1)) (drop 16 m)"
      using n by (cases "n (drop 16 m)") (simp_all add: add.commute)
    have "cmac_loop enc X m = cmac_loop enc (E (xor_bytes (take 16 m) X)) (drop 16 m)"
      using True assms(1) [OF less.prems b] by (simp add: cmac_loop.simps [of enc X m])
    also have "\<dots> = (cbc_mac E (E (xor_bytes (take 16 m) X)) (take (16 * (n (drop 16 m) - 1)) (drop 16 m)), drop (16 * (n (drop 16 m) - 1)) (drop 16 m))"
      using True assms(2) [OF b] by (intro less.hyps) simp_all
    also have "\<dots> = (cbc_mac E X (take (16 * (n m - 1)) m), drop (16 * (n m - 1)) m)"
      unfolding t d using cbc_block [of "take 16 m" E X] True by simp
    finally show ?thesis .
  next
    case False
    then have "n m = 1" by (auto simp: n_def max_def)
    then show ?thesis using False by (simp add: cmac_loop.simps [of enc X m])
  qed
qed

text \<open>\<open>AES_CMAC\<close> computes the CMAC of RFC 4493 over the AES of FIPS 197 for a 16-byte key and texts of any
  length, and stores the length 16; a short buffer or another key length is refused with no effect.\<close>

theorem cmac_rfc:
  assumes "length Key = unat KeyLength" "length p < 2 ^ 32" "length mt = unat mtl"
  shows "AES_CMAC True p (of_nat (length p)) Key KeyLength mt mtl =
    (if 16 \<le> mtl \<and> KeyLength = 16 then (rfc_cmac (fips_cipher Key) p @ drop 16 mt, 16) else (mt, mtl))"
proof (cases "16 \<le> mtl \<and> KeyLength = 16")
  case True
  let ?E = "fips_cipher Key" and ?enc = "aes_block True Key 16"
  have k: "length Key = 16" "KeyLength = 16" using True assms(1) by simp_all
  have E: "?enc out b = ?E b" if "length out = 16" "length b = 16" for out b by (rule aes_block_fips [OF k(1) that(2,1)])
  have lE: "length (?E b) = 16" for b by simp
  have lr: "length (rfc_double b) = 16" for b by (simp add: rfc_double_def Let_def)
  have sk: "AES_CMAC_GenerateSubKey True Key 16 (replicate 16 0) (replicate 16 0) = (rfc_double (?E zero_block), rfc_double (rfc_double (?E zero_block)))"
    unfolding AES_CMAC_GenerateSubKey_def Let_def Const_Zero_def
    by (simp add: E SubKey1_double SubKey2_double lr del: replicate.simps)
  define n where "n = max 1 ((length p + 15) div 16)"
  define l where "l = drop (16 * (n - 1)) p"
  define X where "X = cbc_mac ?E zero_block (take (16 * (n - 1)) p)"
  have lp: "cmac_loop ?enc Const_Zero p = (X, l)"
    unfolding X_def l_def n_def Const_Zero_def by (rule loop_rfc [OF E lE]) simp_all
  have n1: "16 * (n - 1) \<le> length p" "length p - 16 * (n - 1) \<le> 16" unfolding n_def by (auto simp: max_def)
  have ll: "length l \<le> 16" unfolding l_def using n1 by simp
  have lX: "length X = 16" unfolding X_def using n1(1) by (intro cbc_mac_length) simp_all
  have pad: "(copy_at zero_block 0 l)[length l := 0x80] = l @ [0x80] @ replicate (15 - length l) 0" if "length l \<noteq> 16"
  proof -
    have "16 - length l = Suc (15 - length l)" using that ll by simp
    then show ?thesis using ll by (simp add: copy_at_def list_update_append)
  qed
  define Y where "Y = (if length l = 16 then xor_bytes (xor_bytes l X) (rfc_double (?E zero_block))
    else xor_bytes (xor_bytes ((copy_at zero_block 0 l)[length l := 0x80]) X) (rfc_double (rfc_double (?E zero_block))))"
  define M where "M = (if length l = 16 then xor_bytes l (rfc_double (?E zero_block))
    else xor_bytes (l @ [0x80] @ replicate (15 - length l) 0) (rfc_double (rfc_double (?E zero_block))))"
  have swap: "xor_bytes (xor_bytes u X) K = xor_bytes (xor_bytes u K) X" if "length u = 16" "length K = 16" for u K
    using that lX by (intro nth_equalityI) (simp_all add: xor_bytes_def ac_simps)
  have "Y = xor_bytes M X"
    unfolding Y_def M_def using pad ll by (auto simp: swap lr simp del: replicate.simps)
  moreover have "rfc_cmac ?E p = ?E (xor_bytes M X)"
    unfolding rfc_cmac_def Let_def M_def X_def l_def n_def by simp
  moreover have "length Y = 16" unfolding Y_def using pad ll lX by (auto simp: lr simp del: replicate.simps)
  moreover have "unat (of_nat (length p) :: u32) = length p" using assms(2) by (simp add: unat_of_nat)
  then have "AES_CMAC True p (of_nat (length p)) Key KeyLength mt mtl = RT_AES_Encrypt True Y 16 Key 16 mt mtl"
    unfolding AES_CMAC_def k(2) sk using True lp by (simp add: Y_def Let_def leD del: replicate.simps)
  ultimately show ?thesis
    using rt_encrypt [of 16 Key Y mtl mt] True k assms(3) by (simp add: key_length_ok_def copy_at_def word_le_nat_alt)
qed (auto simp: AES_CMAC_def not_le)

theorem cmac_rfc_witness:
  "AES_CMAC True [1, 2, 3] 3 (replicate 16 5) 16 (replicate 16 0) 16 = (rfc_cmac (fips_cipher (replicate 16 5)) [1, 2, 3], 16)"
  using cmac_rfc [of "replicate 16 5" 16 "[1, 2, 3]" "replicate 16 0" 16] by (simp del: replicate.simps)

end
