(* ===== verification/AesBytes.thy ===== *)
theory AesBytes
  imports Ccm
begin

text \<open>
  The byte-wise AES of \<open>rt3370/common/cmm_aes.c\<close>: \<open>aes128k128d\<close> with its own S-box, its round keys made on
  the fly by \<open>next_key\<close>, and the column transformation by shifts and masks. It is the same function as
  the table-driven \<open>RT_AES_Encrypt\<close>, the cipher of FIPS 197 for a 16-byte key. The driver uses it to
  check received frames in \<open>RTMPSoftDecryptAES\<close> and for the key wrap.
\<close>

section \<open>The code\<close>

definition SboxTable :: "u8 list" where
  "SboxTable =
    [0x63, 0x7c, 0x77, 0x7b, 0xf2, 0x6b, 0x6f, 0xc5,
     0x30, 0x01, 0x67, 0x2b, 0xfe, 0xd7, 0xab, 0x76,
     0xca, 0x82, 0xc9, 0x7d, 0xfa, 0x59, 0x47, 0xf0,
     0xad, 0xd4, 0xa2, 0xaf, 0x9c, 0xa4, 0x72, 0xc0,
     0xb7, 0xfd, 0x93, 0x26, 0x36, 0x3f, 0xf7, 0xcc,
     0x34, 0xa5, 0xe5, 0xf1, 0x71, 0xd8, 0x31, 0x15,
     0x04, 0xc7, 0x23, 0xc3, 0x18, 0x96, 0x05, 0x9a,
     0x07, 0x12, 0x80, 0xe2, 0xeb, 0x27, 0xb2, 0x75,
     0x09, 0x83, 0x2c, 0x1a, 0x1b, 0x6e, 0x5a, 0xa0,
     0x52, 0x3b, 0xd6, 0xb3, 0x29, 0xe3, 0x2f, 0x84,
     0x53, 0xd1, 0x00, 0xed, 0x20, 0xfc, 0xb1, 0x5b,
     0x6a, 0xcb, 0xbe, 0x39, 0x4a, 0x4c, 0x58, 0xcf,
     0xd0, 0xef, 0xaa, 0xfb, 0x43, 0x4d, 0x33, 0x85,
     0x45, 0xf9, 0x02, 0x7f, 0x50, 0x3c, 0x9f, 0xa8,
     0x51, 0xa3, 0x40, 0x8f, 0x92, 0x9d, 0x38, 0xf5,
     0xbc, 0xb6, 0xda, 0x21, 0x10, 0xff, 0xf3, 0xd2,
     0xcd, 0x0c, 0x13, 0xec, 0x5f, 0x97, 0x44, 0x17,
     0xc4, 0xa7, 0x7e, 0x3d, 0x64, 0x5d, 0x19, 0x73,
     0x60, 0x81, 0x4f, 0xdc, 0x22, 0x2a, 0x90, 0x88,
     0x46, 0xee, 0xb8, 0x14, 0xde, 0x5e, 0x0b, 0xdb,
     0xe0, 0x32, 0x3a, 0x0a, 0x49, 0x06, 0x24, 0x5c,
     0xc2, 0xd3, 0xac, 0x62, 0x91, 0x95, 0xe4, 0x79,
     0xe7, 0xc8, 0x37, 0x6d, 0x8d, 0xd5, 0x4e, 0xa9,
     0x6c, 0x56, 0xf4, 0xea, 0x65, 0x7a, 0xae, 0x08,
     0xba, 0x78, 0x25, 0x2e, 0x1c, 0xa6, 0xb4, 0xc6,
     0xe8, 0xdd, 0x74, 0x1f, 0x4b, 0xbd, 0x8b, 0x8a,
     0x70, 0x3e, 0xb5, 0x66, 0x48, 0x03, 0xf6, 0x0e,
     0x61, 0x35, 0x57, 0xb9, 0x86, 0xc1, 0x1d, 0x9e,
     0xe1, 0xf8, 0x98, 0x11, 0x69, 0xd9, 0x8e, 0x94,
     0x9b, 0x1e, 0x87, 0xe9, 0xce, 0x55, 0x28, 0xdf,
     0x8c, 0xa1, 0x89, 0x0d, 0xbf, 0xe6, 0x42, 0x68,
     0x41, 0x99, 0x2d, 0x0f, 0xb0, 0x54, 0xbb, 0x16]"

definition xor_32 :: "u8 list \<Rightarrow> u8 list \<Rightarrow> u8 list" where "xor_32 a b = xor_bytes (take 4 a) (take 4 b)"
definition xor_128 :: "u8 list \<Rightarrow> u8 list \<Rightarrow> u8 list" where "xor_128 a b = xor_bytes (take 16 a) (take 16 b)"
definition bitwise_xor :: "u8 list \<Rightarrow> u8 list \<Rightarrow> u8 list" where "bitwise_xor ina inb = xor_bytes (take 16 ina) (take 16 inb)"

definition RTMPCkipSbox :: "u8 \<Rightarrow> u8" where "RTMPCkipSbox a = SboxTable ! unat a"

definition rcon_table :: "u8 list" where
  "rcon_table = [0x01, 0x02, 0x04, 0x08, 0x10, 0x20, 0x40, 0x80, 0x1b, 0x36, 0x36, 0x36]"

definition next_key :: "u8 list \<Rightarrow> nat \<Rightarrow> u8 list" where
  "next_key key round =
    (let sbox_key = [RTMPCkipSbox (key ! 13), RTMPCkipSbox (key ! 14), RTMPCkipSbox (key ! 15), RTMPCkipSbox (key ! 12)];
         rcon = rcon_table ! round;
         key = copy_at key 0 (xor_32 key sbox_key);
         key = key[0 := key ! 0 XOR rcon];
         key = copy_at key 4 (xor_32 (drop 4 key) key);
         key = copy_at key 8 (xor_32 (drop 8 key) (drop 4 key))
     in copy_at key 12 (xor_32 (drop 12 key) (drop 8 key)))"

definition byte_sub :: "u8 list \<Rightarrow> u8 list" where "byte_sub s = map RTMPCkipSbox s"

definition shift_row :: "u8 list \<Rightarrow> u8 list" where
  "shift_row s =
    [s ! 0, s ! 5, s ! 10, s ! 15, s ! 4, s ! 9, s ! 14, s ! 3,
     s ! 8, s ! 13, s ! 2, s ! 7, s ! 12, s ! 1, s ! 6, s ! 11]"

text \<open>A column at a time. The shift of \<open>andf7\<close> tests for a carry from the byte below, whose top bit has
  been masked.\<close>

definition shift_left :: "u8 list \<Rightarrow> u8 list" where
  "shift_left andf7 =
    (let andf7 = fold (\<lambda>i andf7.
           let andf7 = andf7[i := push_bit 1 (andf7 ! i)]
           in if andf7 ! (i - 1) AND 0x80 = 0x80 then andf7[i := andf7 ! i OR 0x01] else andf7) [3, 2, 1] andf7;
         andf7 = andf7[0 := push_bit 1 (andf7 ! 0)]
     in andf7[0 := andf7 ! 0 AND 0xfe])"

definition mix_column :: "u8 list \<Rightarrow> u8 list" where
  "mix_column s =
    (let add1b = map (\<lambda>x. if x AND 0x80 = 0x80 then 0x1b else 0x00) (take 4 s);
         swap_halfs = [s ! 2, s ! 3, s ! 0, s ! 1];
         rotl = [s ! 3, s ! 0, s ! 1, s ! 2];
         andf7 = shift_left [s ! 0 AND 0x7f, s ! 1 AND 0x7f, s ! 2 AND 0x7f, s ! 3 AND 0x7f];
         add1bf7 = xor_32 add1b andf7;
         rotr = xor_32 s add1bf7;
         rotr = [rotr ! 1, rotr ! 2, rotr ! 3, rotr ! 0];
         temp = xor_32 add1bf7 rotr;
         tempb = xor_32 swap_halfs rotl
     in xor_32 temp tempb)"

text \<open>One turn of the loop over the rounds, on the round key and the block.\<close>

definition aes_turn :: "u8 list \<Rightarrow> nat \<Rightarrow> u8 list \<times> u8 list \<Rightarrow> u8 list \<times> u8 list" where
  "aes_turn data round = (\<lambda>(round_key, ciphertext).
    if round = 0 then (next_key round_key round, xor_128 round_key data)
    else if round = 10 then (round_key, xor_128 (shift_row (byte_sub ciphertext)) round_key)
    else
      let b = shift_row (byte_sub ciphertext);
          a = mix_column b @ mix_column (drop 4 b) @ mix_column (drop 8 b) @ mix_column (drop 12 b)
      in (next_key round_key round, xor_128 a round_key))"

definition aes128k128d :: "u8 list \<Rightarrow> u8 list \<Rightarrow> u8 list" where
  "aes128k128d key data = snd (fold (aes_turn data) [0..<11] (take 16 key, []))"

section \<open>The parts are those of the table-driven cipher\<close>

lemma SboxTable: "SboxTable = aes_sbox_enc" by (simp add: SboxTable_def aes_sbox_enc_def)

lemma byte_sub_eq: "byte_sub s = sub_bytes s"
  by (simp add: byte_sub_def sub_bytes_def RTMPCkipSbox_def SboxTable)

lemma shift_row_eq: "shift_row s = shift_rows s" by (simp add: shift_row_def shift_rows_def)

text \<open>Doubling by mask, shift and conditional reduction.\<close>

lemma bit_0x80: "bit (0x80 :: u8) n \<longleftrightarrow> n = 7"
proof -
  have "(0x80 :: u8) = 2 ^ 7" by simp
  then show ?thesis by (simp only: bit_exp_iff) auto
qed

lemma and_top: "(x AND 0x80 = 0x80) = bit (x :: u8) 7"
proof
  assume "x AND 0x80 = 0x80"
  then have "bit (x AND 0x80) 7 = bit (0x80 :: u8) 7" by (rule arg_cong)
  then show "bit x 7" unfolding bit_and_iff bit_0x80 by simp
next
  assume "bit x 7"
  then show "x AND 0x80 = 0x80" by (intro bit_word_eqI) (unfold bit_and_iff bit_0x80, auto)
qed

lemma masked_top: "\<not> bit (x AND 0x7f :: u8) 7"
proof -
  have "(0x7f :: u8) = mask 7" by (simp add: mask_eq_exp_minus_1)
  then show ?thesis by (simp only: bit_and_iff bit_mask_iff) simp
qed

lemma double_masked: "push_bit 1 (x AND 0x7f) = push_bit 1 (x :: u8)" "push_bit 1 x AND 0xfe = push_bit 1 (x :: u8)"
proof -
  have m: "(0x7f :: u8) = mask 7" "(0xfe :: u8) = push_bit 1 (mask 7)" by (simp_all add: mask_eq_exp_minus_1)
  show "push_bit 1 (x AND 0x7f) = push_bit 1 x" "push_bit 1 x AND 0xfe = push_bit 1 x"
    unfolding m by (rule bit_word_eqI; auto simp: bit_and_iff bit_mask_iff bit_push_bit_iff simp del: push_bit_Suc One_nat_def)+
qed

lemma shift_left_masked:
  "shift_left [a AND 0x7f, b AND 0x7f, c AND 0x7f, d AND 0x7f] = [push_bit 1 a, push_bit 1 b, push_bit 1 c, push_bit 1 d]"
  using masked_top [of a] masked_top [of b] masked_top [of c]
  unfolding shift_left_def by (simp add: Let_def and_top double_masked [unfolded One_nat_def] del: push_bit_Suc push_bit_and)

lemma mix_column_eq: "mix_column (a # b # c # d # r) = mix_col a b c d"
proof -
  have x: "xtime v = (if bit v 7 then 0x1b else 0x00) XOR push_bit 1 v" for v by (simp add: xtime_def xor.commute)
  have u: "mix_col a b c d =
      [xtime a XOR (xtime b XOR b) XOR c XOR d, a XOR xtime b XOR (xtime c XOR c) XOR d,
       a XOR b XOR xtime c XOR (xtime d XOR d), (xtime a XOR a) XOR b XOR c XOR xtime d]"
    by (simp add: mix_col_def mul_tables times_values ac_simps)
  show ?thesis
    unfolding u mix_column_def Let_def nth_Cons_0 nth_Cons_numeral
    by (simp add: shift_left_masked [unfolded One_nat_def] and_top xor_32_def x ac_simps del: push_bit_Suc)
qed

section \<open>The round keys\<close>

lemma fips_word_4: "length (fips_word Key 4 i) = 4"
proof (induction i rule: less_induct)
  case (less i)
  show ?case
  proof (cases "i < 4")
    case False
    have "length (fips_word Key 4 (i - 1)) = 4" "length (fips_word Key 4 (i - 4)) = 4" using False by (auto intro!: less.IH)
    then show ?thesis using False
      by (subst fips_word.simps) (simp add: Let_def fips_sub_word_def fips_rot_word_def fips_rcon_def)
  qed (simp add: fips_word.simps [of Key 4 i])
qed

lemma four: "length w = 4 \<Longrightarrow> \<exists>a b c d. w = [a, b, c, d]"
  by (auto simp: length_Suc_conv numeral_eq_Suc)

text \<open>The bytes of the round key in a schedule.\<close>

definition round_bytes :: "u8 list \<Rightarrow> nat \<Rightarrow> u8 list" where
  "round_bytes Key r = fips_word Key 4 (4 * r) @ fips_word Key 4 (4 * r + 1) @ fips_word Key 4 (4 * r + 2) @ fips_word Key 4 (4 * r + 3)"

lemma rcon_turn:
  assumes "r < 10"
  shows "rcon_table ! r = (xtime ^^ r) 1"
proof -
  have "list_all (\<lambda>r. rcon_table ! r = (xtime ^^ r) 1) [0, 1, 2, 3, 4, 5, 6, 7, 8, 9]" by code_simp
  moreover have "r \<in> set [0, 1, 2, 3, 4, 5, 6, 7, 8, 9]" using assms by (simp only: list.set insert_iff empty_iff) arith
  ultimately show ?thesis by (simp only: list_all_iff)
qed

lemma next_key_words:
  assumes "length a = 4" "length b = 4" "length c = 4" "length d = 4"
  shows "next_key (a @ b @ c @ d) r =
    (let t = xor_bytes a [RTMPCkipSbox (d ! 1), RTMPCkipSbox (d ! 2), RTMPCkipSbox (d ! 3), RTMPCkipSbox (d ! 0)];
         a = t[0 := t ! 0 XOR rcon_table ! r]; b = xor_bytes b a; c = xor_bytes c b
     in a @ b @ c @ xor_bytes d c)"
proof -
  have k: "(a @ b @ c @ d) ! 12 = d ! 0" "(a @ b @ c @ d) ! 13 = d ! 1" "(a @ b @ c @ d) ! 14 = d ! 2" "(a @ b @ c @ d) ! 15 = d ! 3"
    using assms by (simp_all add: nth_append)
  define t where "t = xor_bytes a [RTMPCkipSbox (d ! 1), RTMPCkipSbox (d ! 2), RTMPCkipSbox (d ! 3), RTMPCkipSbox (d ! 0)]"
  define a' where "a' = t[0 := t ! 0 XOR rcon_table ! r]"
  define b' where "b' = xor_bytes b a'"
  define c' where "c' = xor_bytes c b'"
  have l: "length t = 4" "length a' = 4" "length b' = 4" "length c' = 4"
    using assms by (simp_all add: t_def a'_def b'_def c'_def)
  have s1: "copy_at (a @ b @ c @ d) 0 (xor_32 (a @ b @ c @ d) [RTMPCkipSbox (d ! 1), RTMPCkipSbox (d ! 2), RTMPCkipSbox (d ! 3), RTMPCkipSbox (d ! 0)]) = t @ b @ c @ d"
    using assms by (simp add: t_def xor_32_def copy_at_def)
  have s2: "(t @ b @ c @ d)[0 := (t @ b @ c @ d) ! 0 XOR rcon_table ! r] = a' @ b @ c @ d"
    using l(1) by (simp add: a'_def list_update_append nth_append)
  have s3: "copy_at (a' @ b @ c @ d) 4 (xor_32 (drop 4 (a' @ b @ c @ d)) (a' @ b @ c @ d)) = a' @ b' @ c @ d"
    using assms l by (simp add: b'_def xor_32_def copy_at_def)
  have s4: "copy_at (a' @ b' @ c @ d) 8 (xor_32 (drop 8 (a' @ b' @ c @ d)) (drop 4 (a' @ b' @ c @ d))) = a' @ b' @ c' @ d"
    using assms l by (simp add: c'_def xor_32_def copy_at_def)
  have s5: "copy_at (a' @ b' @ c' @ d) 12 (xor_32 (drop 12 (a' @ b' @ c' @ d)) (drop 8 (a' @ b' @ c' @ d))) = a' @ b' @ c' @ xor_bytes d c'"
    using assms l by (simp add: xor_32_def copy_at_def)
  show ?thesis
    unfolding next_key_def Let_def k s1 s2 s3 s4 s5 unfolding t_def [symmetric] a'_def [symmetric] b'_def [symmetric] c'_def [symmetric] by (rule refl)
qed

lemma next_key_fips:
  assumes "r < 10"
  shows "next_key (round_bytes Key r) r = round_bytes Key (Suc r)"
proof -
  let ?w = "fips_word Key 4"
  have w4: "?w (4 * r + 4) = map2 (XOR) (?w (4 * r)) (map2 (XOR) (fips_sub_word (fips_rot_word (?w (4 * r + 3)))) (fips_rcon (r + 1)))"
    by (subst fips_word.simps) (simp add: Let_def add.commute)
  have w5: "?w (4 * r + 5) = map2 (XOR) (?w (4 * r + 1)) (?w (4 * r + 4))"
    and w6: "?w (4 * r + 6) = map2 (XOR) (?w (4 * r + 2)) (?w (4 * r + 5))"
    and w7: "?w (4 * r + 7) = map2 (XOR) (?w (4 * r + 3)) (?w (4 * r + 6))"
    by (subst fips_word.simps; simp add: Let_def mod_Suc add.commute)+
  have k: "rcon_table ! r = (xtime ^^ r) 1" by (rule rcon_turn [OF assms])
  have n: "4 * Suc r = 4 * r + 4" "4 * r + 4 + 1 = 4 * r + 5" "4 * r + 4 + 2 = 4 * r + 6" "4 * r + 4 + 3 = 4 * r + 7" by simp_all
  obtain a0 a1 a2 a3 where a: "?w (4 * r) = [a0, a1, a2, a3]" using four [OF fips_word_4] by blast
  obtain d0 d1 d2 d3 where d: "?w (4 * r + 3) = [d0, d1, d2, d3]" using four [OF fips_word_4] by blast
  let ?t = "xor_bytes (?w (4 * r)) [RTMPCkipSbox (?w (4 * r + 3) ! 1), RTMPCkipSbox (?w (4 * r + 3) ! 2),
    RTMPCkipSbox (?w (4 * r + 3) ! 3), RTMPCkipSbox (?w (4 * r + 3) ! 0)]"
  have "?t[0 := ?t ! 0 XOR rcon_table ! r] = ?w (4 * r + 4)"
    unfolding w4 k a d
    by (simp add: RTMPCkipSbox_def SboxTable fips_sub_word_def fips_rot_word_def fips_rcon_def xor.assoc)
  then show ?thesis
    unfolding round_bytes_def n next_key_words [OF fips_word_4 fips_word_4 fips_word_4 fips_word_4] Let_def w7 w6 w5
    by (simp only: xor_bytes_def)
qed

lemma mix_columns_eq:
  assumes "length b = 16"
  shows "mix_column b @ mix_column (drop 4 b) @ mix_column (drop 8 b) @ mix_column (drop 12 b) = on_columns mix_col b"
proof -
  have m: "mix_column (drop i b) = mix_col (b ! i) (b ! (i + 1)) (b ! (i + 2)) (b ! (i + 3))" if "i + 4 \<le> length b" for i
  proof -
    have "drop i b = b ! i # b ! (i + 1) # b ! (i + 2) # b ! (i + 3) # drop (i + 4) b"
    proof -
      have d: "drop j b = b ! j # drop (j + 1) b" if "j < length b" for j using Cons_nth_drop_Suc [OF that] by simp
      have "i + 1 + 1 = i + 2" "i + 2 + 1 = i + 3" "i + 3 + 1 = i + 4" by simp_all
      then show ?thesis using d [of i] d [of "i + 1"] d [of "i + 2"] d [of "i + 3"] that by (simp only:)
    qed
    then show ?thesis by (simp only: mix_column_eq)
  qed
  show ?thesis using m [of 0] m [of 4] m [of 8] m [of 12] assms by (simp add: on_columns_def upt4)
qed

lemma aes_bytes_standard:
  assumes "length key = 16" "length data = 16"
  shows "aes128k128d key data = fips_cipher key data"
proof -
  let ?W = "RT_AES_KeyExpansion key 16"
  define S where "S = (\<lambda>r. fold (aes_round ?W) [1..<r] (add_round_key ?W 0 data))"
  have W: "?W ! i = fips_word key 4 i" if "i < 44" for i using schedule_fips [of 16 i key] that by (simp add: key_length_ok_def)
  have rk: "add_round_key ?W r s = xor_bytes s (round_bytes key r)" if "r < 11" for r s
    unfolding add_round_key_def round_bytes_def xor_bytes_def using that W
    by (simp add: upt4 mult.commute)
  have lr: "length (round_bytes key r) = 16" for r by (simp add: round_bytes_def fips_word_4)
  have S_Suc: "S (Suc r) = aes_round ?W r (S r)" if "0 < r" for r using that by (simp add: S_def)
  have S_1: "S 1 = xor_bytes data (round_bytes key 0)" by (simp add: S_def rk)
  have lS: "length (S (Suc r)) = 16" if "r < 11" for r
    using that
  proof (induction r)
    case (Suc r)
    then show ?case using S_Suc [of "Suc r"] by (simp add: aes_round_def rk lr)
  qed (use S_1 assms(2) lr in simp)
  have F: "fold (aes_turn data) [0..<Suc r] (take 16 key, []) = (round_bytes key (Suc r), S (Suc r))" if "r < 10" for r
    using that
  proof (induction r)
    case 0
    have "fips_word key 4 i = [key ! (4 * i), key ! (4 * i + 1), key ! (4 * i + 2), key ! (4 * i + 3)]" if "i < 4" for i
      using that by (subst fips_word.simps) simp
    then have "round_bytes key 0 = map ((!) key) [0, 1, 2, 3, 4, 5, 6, 7, 8, 9, 10, 11, 12, 13, 14, 15]"
      by (simp add: round_bytes_def flip: numeral_2_eq_2)
    then have k0: "round_bytes key 0 = take 16 key" using length16 [OF assms(1)] assms(1) by simp
    have "aes_turn data 0 (round_bytes key 0, []) = (round_bytes key 1, S 1)"
      using next_key_fips [of 0 key] S_1 assms(2) lr [of 0] by (simp add: aes_turn_def xor_128_def xor_bytes_commute)
    then show ?case by (simp add: k0)
  next
    case (Suc r)
    have s: "length (S (Suc r)) = 16" using Suc.prems by (intro lS) simp
    have b: "length (shift_row (byte_sub (S (Suc r)))) = 16" by (simp add: shift_row_def)
    have "S (Suc (Suc r)) = xor_bytes (on_columns mix_col (shift_row (byte_sub (S (Suc r))))) (round_bytes key (Suc r))"
      using Suc.prems S_Suc [of "Suc r"] by (simp add: aes_round_def rk shift_row_eq byte_sub_eq)
    then have "aes_turn data (Suc r) (round_bytes key (Suc r), S (Suc r)) = (round_bytes key (Suc (Suc r)), S (Suc (Suc r)))"
      unfolding aes_turn_def Let_def split mix_columns_eq [OF b] xor_128_def
      using Suc.prems next_key_fips [of "Suc r" key] lr [of "Suc r"] by simp
    moreover have "[0..<Suc (Suc r)] = [0..<Suc r] @ [Suc r]" by simp
    ultimately show ?case using Suc by (simp only: fold_append o_apply fold_simps id_apply)
  qed
  have "fold (aes_turn data) [0..<11] (take 16 key, []) = aes_turn data 10 (round_bytes key 10, S 10)"
  proof -
    have "[0..<11] = [0..<Suc 9] @ [10]" by (simp add: upt_rec)
    then show ?thesis using F [of 9] by (simp only: fold_append o_apply fold_simps id_apply) simp
  qed
  moreover have "aes_rounds ?W 10 data = xor_bytes (shift_rows (sub_bytes (S 10))) (round_bytes key 10)"
    by (simp add: aes_rounds_def S_def rk)
  ultimately have "aes128k128d key data = aes_rounds ?W 10 data"
    using lr [of 10] by (simp add: aes128k128d_def aes_turn_def xor_128_def shift_row_eq byte_sub_eq shift_rows_def)
  also have "\<dots> = fips_cipher key data" using aes_rounds_fips [of 16 key data] assms by (simp add: key_length_ok_def)
  finally show ?thesis .
qed

text \<open>The byte-wise cipher of the driver is the cipher of FIPS 197, and so the table-driven one, for each
  key of sixteen bytes and each block.\<close>

theorem aes_bytes_fips:
  assumes "length key = 16" "length data = 16"
  shows "aes128k128d key data = fips_cipher key data"
  using assms by (rule aes_bytes_standard)

theorem aes_bytes_fips_witness:
  "aes128k128d (replicate 16 5) (replicate 16 7) = fips_cipher (replicate 16 5) (replicate 16 7)"
  by (rule aes_bytes_fips) (simp_all only: length_replicate)

end
