(* ===== verification/CcmpOld.thy ===== *)
theory CcmpOld
  imports Ccmp AesBytes
begin

text \<open>
  The older CCMP decryption of \<open>rt3370/common/cmm_aes.c\<close>, \<open>RTMPSoftDecryptAES\<close>: counter mode and chaining by hand
  with the byte-wise AES, on the whole frame in one buffer. The theorems compare it with RFC 3610 and with
  \<open>RTMPSoftDecryptCCMP\<close>.
\<close>

section \<open>The code\<close>

definition construct_mic_header1 :: "nat \<Rightarrow> u8 list \<Rightarrow> u8 list" where
  "construct_mic_header1 hdr_len mpdu =
    [of_nat ((hdr_len - 2) div 256), of_nat ((hdr_len - 2) mod 256), mpdu ! 0 AND 0xcf, mpdu ! 1 AND 0xc7,
     mpdu ! 4, mpdu ! 5, mpdu ! 6, mpdu ! 7, mpdu ! 8, mpdu ! 9,
     mpdu ! 10, mpdu ! 11, mpdu ! 12, mpdu ! 13, mpdu ! 14, mpdu ! 15]"

definition construct_mic_header2 :: "u8 list \<Rightarrow> bool \<Rightarrow> bool \<Rightarrow> u8 list" where
  "construct_mic_header2 mpdu a4_exists qc_exists =
    (let h = copy_at (replicate 16 0x00) 0 (take 6 (drop 16 mpdu));
         h = h[6 := mpdu ! 22 AND 0x0f, 7 := 0x00];
         h = (if \<not> qc_exists \<and> a4_exists then copy_at h 8 (take 6 (drop 24 mpdu)) else h);
         h = (if qc_exists \<and> \<not> a4_exists then h[8 := mpdu ! 24 AND 0x0f, 9 := mpdu ! 25 AND 0x00] else h)
     in if qc_exists \<and> a4_exists then (copy_at h 8 (take 6 (drop 24 mpdu)))[14 := mpdu ! 30 AND 0x0f, 15 := mpdu ! 31 AND 0x00] else h)"

text \<open>The packet number goes into the blocks from its last byte on.\<close>

definition construct_mic_iv :: "bool \<Rightarrow> bool \<Rightarrow> u8 list \<Rightarrow> nat \<Rightarrow> u8 list \<Rightarrow> u8 list" where
  "construct_mic_iv qc_exists a4_exists mpdu payload_length pn_vector =
    [0x59, if qc_exists \<and> a4_exists then mpdu ! 30 AND 0x0f else if qc_exists \<and> \<not> a4_exists then mpdu ! 24 AND 0x0f else 0x00] @
    map (\<lambda>i. mpdu ! (i + 8)) [2..<8] @ map (\<lambda>i. pn_vector ! (13 - i)) [8..<14] @
    [of_nat (payload_length div 256), of_nat (payload_length mod 256)]"

definition construct_ctr_preload :: "bool \<Rightarrow> bool \<Rightarrow> u8 list \<Rightarrow> u8 list \<Rightarrow> nat \<Rightarrow> u8 list" where
  "construct_ctr_preload a4_exists qc_exists mpdu pn_vector c =
    [0x01, if qc_exists \<and> a4_exists then mpdu ! 30 AND 0x0f else if qc_exists \<and> \<not> a4_exists then mpdu ! 24 AND 0x0f else 0x00] @
    map (\<lambda>i. mpdu ! (i + 8)) [2..<8] @ map (\<lambda>i. pn_vector ! (13 - i)) [8..<14] @
    [of_nat (c div 256), of_nat (c mod 256)]"

text \<open>The loop over the full blocks, from the payload to eight bytes before it, on one buffer; \<open>None\<close> is an access
  outside it.\<close>

fun aes_ctr_blocks :: "(u8 list \<Rightarrow> nat \<Rightarrow> u8 list) \<Rightarrow> nat \<Rightarrow> nat \<Rightarrow> nat \<Rightarrow> u8 list \<Rightarrow> u8 list option" where
  "aes_ctr_blocks ks 0 i payload_index pData = Some pData"
| "aes_ctr_blocks ks (Suc n) i payload_index pData =
    (if payload_index + 16 > length pData then None
     else
       let chain_buffer = bitwise_xor (ks pData (i + 1)) (drop payload_index pData)
       in aes_ctr_blocks ks n (i + 1) (payload_index + 16) (copy_at pData (payload_index - 8) chain_buffer))"

fun aes_mac_blocks :: "(u8 list \<Rightarrow> u8 list) \<Rightarrow> nat \<Rightarrow> nat \<Rightarrow> u8 list \<Rightarrow> u8 list \<Rightarrow> u8 list option" where
  "aes_mac_blocks E 0 payload_index aes_out pData = Some aes_out"
| "aes_mac_blocks E (Suc n) payload_index aes_out pData =
    (if payload_index + 16 > length pData then None
     else aes_mac_blocks E n (payload_index + 16) (E (bitwise_xor aes_out (drop payload_index pData))) pData)"

text \<open>The byte count is that of the whole frame, which starts with its header.\<close>

definition RTMPSoftDecryptAES :: "u8 list \<Rightarrow> u32 \<Rightarrow> cipher_key \<Rightarrow> (bool \<times> u8 list) option" where
  "RTMPSoftDecryptAES pData DataByteCnt pWpaKey =
    (let a4_exists = hdr_a4 pData;
         qc_exists = hdr_qc pData;
         HeaderLen = 24 + (if a4_exists then 6 else 0) + (if qc_exists then 2 else 0)
     in if KeyLen pWpaKey = 0 then Some (False, pData)
     else if HeaderLen + 8 > length pData then None
     else
       let PN = [pData ! HeaderLen, pData ! (HeaderLen + 1), pData ! (HeaderLen + 4), pData ! (HeaderLen + 5),
                 pData ! (HeaderLen + 6), pData ! (HeaderLen + 7)];
           payload_len = unat (DataByteCnt - of_nat HeaderLen - 8 - 8);
           payload_remainder = payload_len mod 16;
           num_blocks = payload_len div 16;
           E = aes128k128d (Key pWpaKey);
           ks = (\<lambda>pData c. E (construct_ctr_preload a4_exists qc_exists pData PN c))
       in case aes_ctr_blocks ks num_blocks 0 (HeaderLen + 8) pData of None \<Rightarrow> None
       | Some pData \<Rightarrow>
         let payload_index = HeaderLen + 8 + 16 * num_blocks in
         if payload_index + payload_remainder + 8 > length pData then None
         else
           let chain_buffer = bitwise_xor (ks pData (num_blocks + 1)) (copy_at zero_block 0 (take payload_remainder (drop payload_index pData)));
               pData = (if payload_remainder > 0 then copy_at pData (payload_index - 8) (take payload_remainder chain_buffer) else pData);
               payload_index = payload_index + payload_remainder;
               chain_buffer = bitwise_xor (ks pData 0) (copy_at zero_block 0 (take 8 (drop payload_index pData)));
               TrailMIC = take 8 chain_buffer;
               pData = pData[1 := pData ! 1 OR 0x40];
               mic_iv = construct_mic_iv qc_exists a4_exists pData payload_len PN;
               aes_out = E mic_iv;
               aes_out = E (bitwise_xor aes_out (construct_mic_header1 HeaderLen pData));
               aes_out = E (bitwise_xor aes_out (construct_mic_header2 pData a4_exists qc_exists))
           in case aes_mac_blocks E num_blocks HeaderLen aes_out pData of None \<Rightarrow> None
           | Some aes_out \<Rightarrow>
             let payload_index = HeaderLen + 16 * num_blocks;
                 aes_out = (if payload_remainder > 0
                            then E (bitwise_xor aes_out (copy_at zero_block 0 (take payload_remainder (drop payload_index pData))))
                            else aes_out)
             in Some (take 8 aes_out = TrailMIC, pData))"



section \<open>The blocks are those of RFC 3610\<close>

lemma be_nat_2: "be_nat 2 l = [of_nat (l div 256), of_nat (l mod 256)]"
proof -
  have "(of_nat (l mod 256) :: u8) = of_nat l" by (rule word_unat_eq_iff [THEN iffD2]) (simp add: unat_of_nat)
  then show ?thesis by (simp add: be_nat_def upt_rec)
qed

lemma a2_bytes: "16 \<le> length h \<Longrightarrow> map (\<lambda>i. (h @ y) ! (i + 8)) [2..<8] = take 6 (drop 10 h)"
  by (rule nth_equalityI) (auto simp: nth_append add.commute simp del: upt_rec_numeral)

lemma pn_bytes: "map (\<lambda>i. pn ! (13 - i)) [8..<14] = [pn ! 5, pn ! 4, pn ! 3, pn ! 2, pn ! 1, pn ! 0]"
  by (simp add: upt_rec)

lemma qc_flag:
  assumes "length h = header_length h"
  shows "(if hdr_qc h \<and> hdr_a4 h then (h @ y) ! 30 AND 0x0f else if hdr_qc h \<and> \<not> hdr_a4 h then (h @ y) ! 24 AND 0x0f else 0x00) =
    (if hdr_qc h then qc_byte h else 0)"
  using assms by (auto simp: qc_byte_def header_length_def nth_append split: if_splits)

lemma preload_rfc:
  assumes "length h = header_length h"
  shows "construct_ctr_preload (hdr_a4 h) (hdr_qc h) (h @ y) pn c = rfc_a (ccmp_nonce h pn) c"
proof -
  have h: "header_length h \<le> length h" using assms by simp
  note f = frame_facts [OF h]
  have l: "15 - length (ccmp_nonce h pn) = 2" using nonce_length [OF f(1)] by simp
  show ?thesis
    unfolding construct_ctr_preload_def qc_flag [OF assms] a2_bytes [OF f(1)] pn_bytes rfc_a_def l be_nat_2
    by (simp add: ccmp_nonce_def)
qed

lemma mic_iv_rfc:
  assumes "length h = header_length h"
  shows "construct_mic_iv (hdr_qc h) (hdr_a4 h) (h @ y) l pn = rfc_b0 8 (ccmp_nonce h pn) (ccmp_aad h) l"
proof -
  have h: "header_length h \<le> length h" using assms by simp
  note f = frame_facts [OF h]
  have l: "15 - length (ccmp_nonce h pn) = 2" using nonce_length [OF f(1)] by simp
  have a: "ccmp_aad h \<noteq> []" by (simp add: ccmp_aad_def)
  show ?thesis
    unfolding construct_mic_iv_def qc_flag [OF assms] a2_bytes [OF f(1)] pn_bytes rfc_b0_def l be_nat_2
    using a by (simp add: ccmp_nonce_def)
qed

text \<open>The two header blocks are the padded additional data. The older code mutes bits 4 and 5 of the frame control, the newer
  one also bit 6, which is clear in each data frame that has a body.\<close>

lemma fc0_mask:
  assumes "\<not> bit (x :: u8) 6"
  shows "x AND 0xcf = x AND 0x8f"
proof -
  have "(0xcf :: u8) = 0x8f OR 2 ^ 6" by simp
  then have "x AND 0xcf = (x AND 0x8f) OR (x AND 2 ^ 6)" by (simp only: bit.conj_disj_distrib)
  moreover have "x AND 2 ^ 6 = 0" by (rule bit_word_eqI) (use assms in \<open>simp only: bit_and_iff bit_exp_iff bit_0_eq bot_apply, auto\<close>)
  ultimately show ?thesis by simp
qed

lemma fc1_mask: "(x OR 0x40) AND 0xc7 = (x AND 0xc7) OR (0x40 :: u8)"
proof -
  have "(x OR 0x40) AND 0xc7 = (x AND 0xc7) OR (0x40 AND (0xc7 :: u8))" by (simp only: bit.conj_disj_distrib2)
  then show ?thesis by simp
qed

lemma mic_headers_rfc:
  assumes "length h = header_length h" "hdr_is_data h" "\<not> bit (h ! 0) 6"
  shows "construct_mic_header1 (length h) ((h @ y)[1 := (h @ y) ! 1 OR 0x40]) @
      construct_mic_header2 ((h @ y)[1 := (h @ y) ! 1 OR 0x40]) (hdr_a4 h) (hdr_qc h) = pad16 (rfc_aad (ccmp_aad h))"
proof -
  let ?b = "(h @ y)[1 := (h @ y) ! 1 OR 0x40]"
  have hl: "header_length h \<le> length h" using assms(1) by simp
  note f = frame_facts [OF hl]
  have l24: "24 \<le> length h" using assms(1) by (simp add: header_length_def)
  have b: "?b ! i = h ! i" if "i \<noteq> 1" "i < length h" for i using that by (simp add: nth_append)
  have b1: "?b ! 1 = h ! 1 OR 0x40" using l24 by (simp add: nth_append)
  have tb: "take k (drop i ?b) = take k (drop i h)" if "2 \<le> i" "i + k \<le> length h" for i k
    using that by (simp add: drop_update_cancel)
  have m12: "take 12 (drop 4 h) = [h ! 4, h ! 5, h ! 6, h ! 7, h ! 8, h ! 9, h ! 10, h ! 11, h ! 12, h ! 13, h ! 14, h ! 15]"
  proof -
    have "take 12 (drop 4 h) = map ((!) h) [4..<16]"
      using l24 by (intro nth_equalityI) (auto simp del: upt_rec_numeral)
    then show ?thesis by simp
  qed
  have x: "take 18 (drop 4 h) = take 12 (drop 4 h) @ take 6 (drop 16 h)"
    using take_add [of 12 6 "drop 4 h"] by (simp add: add.commute)
  define A where "A = take 6 (drop 16 h)"
  define Y where "Y = take 6 (drop 24 h)"
  define s where "s = h ! 22 AND 0x0f"
  define q where "q = qc_byte h"
  have lA: "length A = 6" using l24 by (simp add: A_def)
  have t16: "take 6 (drop 16 ?b) = A" unfolding A_def by (rule tb) (use l24 in simp_all)
  have t24: "take 6 (drop 24 ?b) = Y" "length Y = 6" if "hdr_a4 h"
    using that assms(1) tb [of 24 6] by (auto simp: Y_def header_length_def split: if_splits)
  have b22: "?b ! 22 AND 0x0f = s" using b [of 22] l24 by (simp add: s_def)
  have bq: "?b ! 30 AND 0x0f = q" if "hdr_qc h" "hdr_a4 h" using that b [of 30] assms(1) by (simp add: q_def qc_byte_def header_length_def)
  have bq': "?b ! 24 AND 0x0f = q" if "hdr_qc h" "\<not> hdr_a4 h" using that b [of 24] assms(1) by (simp add: q_def qc_byte_def header_length_def)
  have r8: "replicate 10 (0::u8) = [0, 0] @ replicate 8 0" "replicate 8 (0::u8) = [0, 0] @ replicate 6 0" by (simp_all add: numeral_eq_Suc)
  have H2: "construct_mic_header2 ?b (hdr_a4 h) (hdr_qc h) =
    A @ [s, 0] @ (if hdr_a4 h then Y else []) @ (if hdr_qc h then [q, 0] else []) @
      replicate (8 - (if hdr_a4 h then 6 else 0) - (if hdr_qc h then 2 else 0)) 0"
  proof -
    have h0: "(copy_at (replicate 16 0x00) 0 A)[6 := s, 7 := 0x00] = A @ [s, 0] @ replicate 8 0"
    proof -
      have "copy_at (replicate 16 0x00) 0 A = A @ replicate 10 0" using lA by (simp add: copy_at_def)
      then show ?thesis using lA by (simp add: r8(1) list_update_append del: replicate.simps)
    qed
    have h1: "copy_at (A @ [s, 0] @ replicate 8 0) 8 Y = A @ [s, 0] @ Y @ [0, 0]" if "length Y = 6"
      using lA that by (simp add: copy_at_def numeral_2_eq_2)
    show ?thesis
      unfolding construct_mic_header2_def Let_def t16 b22 h0
      using lA t24 h1 bq bq' by (cases "hdr_a4 h"; cases "hdr_qc h") (simp_all add: list_update_append numeral_2_eq_2 r8(2))
  qed
  have H1: "construct_mic_header1 (length h) ?b = be_nat 2 (length h - 2) @ [h ! 0 AND 0x8f, (h ! 1 AND 0xc7) OR 0x40] @ take 12 (drop 4 h)"
    unfolding construct_mic_header1_def be_nat_2 m12 b1 fc1_mask using l24
    by (simp add: nth_append fc0_mask [OF assms(3)]) (auto simp: nth_append)
  have aad: "rfc_aad (ccmp_aad h) = be_nat 2 (length h - 2) @ [h ! 0 AND 0x8f, (h ! 1 AND 0xc7) OR 0x40] @ take 12 (drop 4 h) @
      A @ [s, 0] @ (if hdr_a4 h then Y else []) @ (if hdr_qc h then [q, 0] else [])"
    using f(3) aad_length [OF hl] assms(1,2) x
    by (simp add: rfc_aad_def) (simp add: ccmp_aad_def A_def Y_def s_def q_def)
  have pl: "(16 - length (rfc_aad (ccmp_aad h)) mod 16) mod 16 = 8 - (if hdr_a4 h then 6 else 0) - (if hdr_qc h then 2 else 0)"
    unfolding aad using lA t24 m12 by simp
  show ?thesis unfolding pad16_def pl unfolding aad H1 H2 by simp
qed

section \<open>The two loops\<close>

lemma ctr_blocks:
  assumes "\<And>y i. ks (h @ y) i = K i" "\<And>i. length (K i) = 16"
  shows "length h + 8 \<le> pi \<Longrightarrow> pi + 16 * n \<le> length buf \<Longrightarrow> take (length h) buf = h \<Longrightarrow>
    aes_ctr_blocks ks n i pi buf = Some (copy_at buf (pi - 8) (xor_bytes (take (16 * n) (drop pi buf)) (concat (map K [i + 1..<i + 1 + n]))))"
proof (induction n arbitrary: i pi buf)
  case 0
  then show ?case by (simp add: copy_at_def)
next
  case (Suc n)
  define X where "X = xor_bytes (take 16 (drop pi buf)) (K (i + 1))"
  have lX: "length X = 16" using Suc.prems(2) assms(2) by (simp add: X_def)
  have "buf = h @ drop (length h) buf" using Suc.prems(3) by (metis append_take_drop_id)
  then have "ks buf (i + 1) = K (i + 1)" using assms(1) by metis
  then have ch: "bitwise_xor (ks buf (i + 1)) (drop pi buf) = X" using assms(2) by (simp add: bitwise_xor_def X_def xor_bytes_commute)
  let ?buf = "copy_at buf (pi - 8) X"
  have lb: "length ?buf = length buf" using Suc.prems lX by (intro copy_length) simp
  have "length h \<le> pi - 8" "pi - 8 \<le> length buf" using Suc.prems by simp_all
  then have th: "take (length h) ?buf = h" using Suc.prems(3) by (simp add: copy_at_def min_def)
  have d: "drop (pi + 16) ?buf = drop (pi + 16) buf"
    using Suc.prems lX by (intro nth_equalityI) (auto simp: copy_at_def nth_append ac_simps)
  let ?Z = "xor_bytes (take (16 * n) (drop (pi + 16) buf)) (concat (map K [i + 2..<i + 2 + n]))"
  have "aes_ctr_blocks ks (Suc n) i pi buf = aes_ctr_blocks ks n (i + 1) (pi + 16) ?buf"
    using Suc.prems ch by (simp add: Let_def)
  also have "\<dots> = Some (copy_at ?buf (pi + 16 - 8) ?Z)"
    using Suc.IH [of "pi + 16" ?buf "i + 1"] Suc.prems th by (simp add: lb d)
  also have "copy_at ?buf (pi + 16 - 8) ?Z = copy_at buf (pi - 8) (X @ ?Z)"
  proof -
    have "pi + 16 - 8 = pi - 8 + 16" using Suc.prems(1) by simp
    then show ?thesis using Suc.prems lX lb by (simp add: copy_at_def ac_simps)
  qed
  also have "X @ ?Z = xor_bytes (take (16 * Suc n) (drop pi buf)) (concat (map K [i + 1..<i + 1 + Suc n]))"
  proof -
    have "[i + 1..<i + 1 + Suc n] = (i + 1) # [i + 2..<i + 2 + n]" by (simp add: upt_conv_Cons del: upt_Suc)
    moreover have "take (16 * Suc n) (drop pi buf) = take 16 (drop pi buf) @ take (16 * n) (drop (pi + 16) buf)"
      using take_add [of 16 "16 * n" "drop pi buf"] by (simp add: add.commute)
    moreover have "length (take 16 (drop pi buf)) = length (K (i + 1))" using Suc.prems(2) assms(2) by simp
    ultimately show ?thesis by (simp add: X_def xor_bytes_append del: upt_Suc)
  qed
  finally show ?case .
qed

lemma mac_blocks:
  assumes "\<And>b. length b = 16 \<Longrightarrow> E b = F b" "\<And>b. length b = 16 \<Longrightarrow> length (F b) = 16"
  shows "pi + 16 * n \<le> length buf \<Longrightarrow> length x = 16 \<Longrightarrow>
    aes_mac_blocks E n pi x buf = Some (cbc_mac F x (take (16 * n) (drop pi buf)))"
proof (induction n arbitrary: pi x)
  case (Suc n)
  let ?b = "take 16 (drop pi buf)"
  have lb: "length ?b = 16" using Suc.prems(1) by simp
  have "length (xor_bytes ?b x) = 16" using lb Suc.prems(2) by simp
  then have e: "E (bitwise_xor x (drop pi buf)) = F (xor_bytes ?b x)" "length (F (xor_bytes ?b x)) = 16"
    using assms Suc.prems(2) by (simp_all add: bitwise_xor_def xor_bytes_commute)
  have "aes_mac_blocks E (Suc n) pi x buf = aes_mac_blocks E n (pi + 16) (F (xor_bytes ?b x)) buf"
    using Suc.prems e(1) by simp
  also have "\<dots> = Some (cbc_mac F (F (xor_bytes ?b x)) (take (16 * n) (drop (pi + 16) buf)))"
    using Suc.prems e(2) by (intro Suc.IH) simp_all
  also have "cbc_mac F (F (xor_bytes ?b x)) (take (16 * n) (drop (pi + 16) buf)) = cbc_mac F x (?b @ take (16 * n) (drop (pi + 16) buf))"
    by (rule cbc_block [OF lb, symmetric])
  also have "?b @ take (16 * n) (drop (pi + 16) buf) = take (16 * Suc n) (drop pi buf)"
    using take_add [of 16 "16 * n" "drop pi buf"] by (simp add: add.commute)
  finally show ?case .
qed simp

lemma pad16_split: "pad16 p = take (16 * (length p div 16)) p @ pad16 (drop (16 * (length p div 16)) p)"
proof -
  have "length (drop (16 * (length p div 16)) p) mod 16 = length p mod 16" by (simp add: minus_mult_div_eq_mod)
  then show ?thesis by (simp add: pad16_def)
qed

section \<open>The verdict\<close>

lemma mic_iv_update: "construct_mic_iv qc a4 (b[1 := v]) l pn = construct_mic_iv qc a4 b l pn"
  by (simp add: construct_mic_iv_def)

lemma cbc_three:
  assumes "\<And>b. length b = 16 \<Longrightarrow> E b = F b" "\<And>b. length b = 16 \<Longrightarrow> length (F b) = 16" "length a = 16" "length b = 16" "length c = 16"
  shows "E (bitwise_xor (E (bitwise_xor (E a) b)) c) = cbc_mac F zero_block (a @ b @ c)"
proof -
  have z: "xor_bytes a zero_block = a" using assms(3) by (intro nth_equalityI) (simp_all add: xor_bytes_nth del: replicate.simps)
  have x: "bitwise_xor u v = xor_bytes v u" if "length u = 16" "length v = 16" for u v
    using that by (simp add: bitwise_xor_def xor_bytes_commute)
  have "cbc_mac F zero_block (a @ b @ c) = cbc_mac F (F (xor_bytes c (F (xor_bytes b (F (xor_bytes a zero_block)))))) []"
    using cbc_block [of c F _ "[]"] assms by (simp add: cbc_block)
  also have "\<dots> = E (bitwise_xor (E (bitwise_xor (E a) b)) c)"
    unfolding z using assms by (simp add: x)
  finally show ?thesis by simp
qed

lemma aes_old_standard:
  fixes h iv x t :: "u8 list" and k :: cipher_key
  defines "p \<equiv> ccmp_open (Key k) h (ccmp_pn iv) x"
  assumes "length h = header_length h" "hdr_is_data h" "\<not> bit (h ! 0) 6" "KeyLen k \<noteq> 0" "length (Key k) = 16"
    and "length iv = 8" "length t = 8" "length (h @ iv @ x @ t) < 2 ^ 32"
  shows "RTMPSoftDecryptAES (h @ iv @ x @ t) (of_nat (length (h @ iv @ x @ t))) k =
    Some (x @ t = ccmp_seal (Key k) h (ccmp_pn iv) p,
      (h[1 := h ! 1 OR 0x40]) @ p @ drop (length x) (iv @ x @ t))"
proof -
  let ?F = "h @ iv @ x @ t" and ?N = "length h" and ?n = "length x" and ?E = "aes128k128d (Key k)" and ?G = "fips_cipher (Key k)"
  let ?no = "ccmp_nonce h (ccmp_pn iv)"
  have l24: "24 \<le> ?N" using assms(2) by (simp add: header_length_def)
  have hl: "header_length h \<le> length h" using assms(2) by simp
  have E: "?E b = ?G b" if "length b = 16" for b by (rule aes_bytes_standard [OF assms(6) that])
  have hdr: "hdr_a4 ?F = hdr_a4 h" "hdr_qc ?F = hdr_qc h"
    using l24 by (auto simp: hdr_a4_def hdr_qc_def nth_append)
  have N: "24 + (if hdr_a4 h then 6 else 0) + (if hdr_qc h then 2 else 0) = ?N" using assms(2) by (simp add: header_length_def)
  define K where "K = (\<lambda>c. ?G (rfc_a ?no c))"
  have lK: "length (K c) = 16" for c by (simp add: K_def)
  have pn: "[?F ! ?N, ?F ! (?N + 1), ?F ! (?N + 4), ?F ! (?N + 5), ?F ! (?N + 6), ?F ! (?N + 7)] = ccmp_pn iv"
    using assms(7) by (simp add: nth_append ccmp_pn_def)
  have ra: "length (rfc_a ?no c) = 16" for c using nonce_length [OF frame_facts(1) [OF hl]] by (simp add: rfc_a_def)
  have ks: "?E (construct_ctr_preload (hdr_a4 h) (hdr_qc h) (h @ y) (ccmp_pn iv) c) = K c" for y c
    unfolding preload_rfc [OF assms(2)] K_def by (rule E [OF ra])
  have pay: "unat (of_nat (length ?F) - of_nat ?N - 8 - 8 :: u32) = ?n"
  proof -
    have "(of_nat (length ?F) - of_nat ?N - 8 - 8 :: u32) = of_nat ?n" using assms(7,8) by simp
    then have "unat (of_nat (length ?F) - of_nat ?N - 8 - 8 :: u32) = unat (of_nat ?n :: u32)" by (rule arg_cong)
    also have "\<dots> = ?n" unfolding unat_of_nat using assms(9) by simp
    finally show ?thesis .
  qed
  define q r where "q = ?n div 16" and "r = ?n mod 16"
  have n: "?n = 16 * q + r" "r < 16" by (simp_all add: q_def r_def)
  define s1 where "s1 = concat (map K [1..<q + 1])"
  have ls1: "length s1 = 16 * q" by (simp add: s1_def length_concat o_def lK sum_list_triv)
  have st: "p = xor_bytes x (concat (map K [1..<(?n + 15) div 16 + 1]))"
    by (simp only: p_def ccmp_open_def rfc_stream_def K_def)
  define xr where "xr = drop (16 * q) x"
  have x: "x = take (16 * q) x @ xr" "length xr = r" "length (take (16 * q) x) = 16 * q" using n by (simp_all add: xr_def)
  define X1 where "X1 = xor_bytes (take (16 * q) x) s1"
  have lX1: "length X1 = 16 * q" using x ls1 by (simp add: X1_def)
  have pq: "p = X1 @ xor_bytes xr (K (q + 1))"
  proof (cases "r = 0")
    case True
    then have "(?n + 15) div 16 = q" "xr = []" using n x(2) by simp_all
    then show ?thesis using st x(1) by (simp add: X1_def s1_def)
  next
    case False
    then have "(?n + 15) div 16 = q + 1" using n by simp
    then have "p = xor_bytes x (s1 @ K (q + 1))" using st by (simp add: s1_def)
    also have "\<dots> = xor_bytes (take (16 * q) x @ xr) (s1 @ K (q + 1))" using x(1) by simp
    also have "\<dots> = X1 @ xor_bytes xr (K (q + 1))" unfolding X1_def using x(3) ls1 by (intro xor_bytes_append) simp
    finally show ?thesis .
  qed
  have lp: "length p = ?n" by (simp add: p_def)
  let ?T = "iv @ x @ t"
  have A: "aes_ctr_blocks (\<lambda>F c. ?E (construct_ctr_preload (hdr_a4 h) (hdr_qc h) F (ccmp_pn iv) c)) q 0 (?N + 8) ?F = Some (h @ X1 @ drop (16 * q) ?T)"
  proof -
    have "take (16 * q) (drop (?N + 8) ?F) = take (16 * q) x" using n(1) assms(7) by simp
    moreover have "?N + 8 + 16 * q \<le> length ?F" using n(1) assms(7) by simp
    ultimately show ?thesis
      using ctr_blocks [where ks = "\<lambda>F c. ?E (construct_ctr_preload (hdr_a4 h) (hdr_qc h) F (ccmp_pn iv) c)" and h = h and K = K
          and pi = "?N + 8" and n = q and buf = ?F and i = 0, OF ks lK] lX1 by (simp add: X1_def s1_def copy_at_def)
  qed
  let ?B1 = "h @ X1 @ drop (16 * q) ?T"
  have lB1: "length ?B1 = length ?F" using lX1 n(1) by simp
  have d1: "take r (drop (?N + 8 + 16 * q) ?B1) = xr"
  proof -
    have "drop (?N + 8 + 16 * q) ?B1 = drop 8 (drop (16 * q) ?T)" using lX1 by (simp add: add.commute)
    also have "\<dots> = drop (16 * q) (drop 8 ?T)" by (simp only: drop_drop add.commute)
    also have "\<dots> = xr @ t" using assms(7) n(1) by (simp add: xr_def)
    finally show ?thesis using x(2) by simp
  qed
  let ?ch = "bitwise_xor (K (q + 1)) (copy_at zero_block 0 xr)"
  have ch: "take r ?ch = xor_bytes xr (K (q + 1))"
  proof -
    have c: "copy_at zero_block 0 xr = xr @ replicate (16 - r) 0" using n(2) x(2) by (simp add: copy_at_def)
    have "?ch = xor_bytes (xr @ replicate (16 - r) 0) (take r (K (q + 1)) @ drop r (K (q + 1)))"
      unfolding c using n(2) x(2) lK by (simp add: bitwise_xor_def xor_bytes_commute)
    also have "\<dots> = xor_bytes xr (take r (K (q + 1))) @ xor_bytes (replicate (16 - r) 0) (drop r (K (q + 1)))"
      using n(2) x(2) lK by (intro xor_bytes_append) simp
    finally have "take r ?ch = xor_bytes xr (take r (K (q + 1)))" using x(2) n(2) lK by simp
    also have "\<dots> = xor_bytes xr (take r (K (q + 1)) @ drop r (K (q + 1)))" using x(2) n(2) lK by (intro xor_bytes_take [symmetric]) simp
    finally show ?thesis by simp
  qed
  have B2: "(if r > 0 then copy_at ?B1 (?N + 8 + 16 * q - 8) (take r ?ch) else ?B1) = h @ p @ drop ?n ?T"
  proof (cases "r = 0")
    case True
    then show ?thesis using pq x(2) n(1) by simp
  next
    case False
    have "copy_at (h @ X1 @ drop (16 * q) U) (?N + 16 * q) Y = h @ X1 @ Y @ drop (16 * q + r) U" if "length Y = r" for U Y :: "u8 list"
      using that lX1 by (simp add: copy_at_def add.commute)
    from this [of "xor_bytes xr (K (q + 1))" ?T] have "copy_at ?B1 (?N + 16 * q) (xor_bytes xr (K (q + 1))) = h @ p @ drop ?n ?T"
      using x(2) lK n pq by simp
    then show ?thesis unfolding ch using False by (simp del: drop_append)
  qed
  have ix: "?N + 8 + 16 * q + r = ?N + 8 + ?n" "?N + 16 * q + r = ?N + ?n" using n(1) by simp_all
  let ?B2 = "h @ p @ drop ?n ?T"
  have t8: "take 8 (drop (?N + 8 + ?n) ?B2) = t" using lp assms(7,8) by simp
  have tr: "take 8 (bitwise_xor (K 0) (copy_at zero_block 0 t)) = xor_bytes t (K 0)"
  proof -
    have c: "copy_at zero_block 0 t = t @ replicate 8 0" using assms(8) by (simp add: copy_at_def)
    have "bitwise_xor (K 0) (copy_at zero_block 0 t) = xor_bytes (t @ replicate 8 0) (take 8 (K 0) @ drop 8 (K 0))"
      unfolding c using assms(8) lK by (simp add: bitwise_xor_def xor_bytes_commute)
    also have "\<dots> = xor_bytes t (take 8 (K 0)) @ xor_bytes (replicate 8 0) (drop 8 (K 0))" using assms(8) lK by (intro xor_bytes_append) simp
    finally have "take 8 (bitwise_xor (K 0) (copy_at zero_block 0 t)) = xor_bytes t (take 8 (K 0))" using assms(8) lK by simp
    also have "\<dots> = xor_bytes t (take 8 (K 0) @ drop 8 (K 0))" using assms(8) lK by (intro xor_bytes_take [symmetric]) simp
    finally show ?thesis by simp
  qed
  let ?B3 = "?B2[1 := ?B2 ! 1 OR 0x40]"
  have B3: "?B3 = (h[1 := h ! 1 OR 0x40]) @ p @ drop ?n ?T" using l24 by (simp add: list_update_append nth_append)
  let ?b0 = "rfc_b0 8 ?no (ccmp_aad h) ?n"
  let ?H1 = "construct_mic_header1 ?N ?B3" and ?H2 = "construct_mic_header2 ?B3 (hdr_a4 h) (hdr_qc h)"
  have iv: "construct_mic_iv (hdr_qc h) (hdr_a4 h) ?B3 ?n (ccmp_pn iv) = ?b0"
    by (simp only: mic_iv_update mic_iv_rfc [OF assms(2)])
  have lb0: "length ?b0 = 16" using nonce_length [OF frame_facts(1) [OF hl]] by (simp add: rfc_b0_def)
  have H: "?H1 @ ?H2 = pad16 (rfc_aad (ccmp_aad h))" by (rule mic_headers_rfc [OF assms(2-4)])
  have lH1: "length ?H1 = 16" by (simp add: construct_mic_header1_def)
  have lH2: "length ?H2 = 16"
  proof -
    have "length (rfc_aad (ccmp_aad h)) = ?N"
      using frame_facts(2,3) [OF hl] aad_length [OF hl] assms(2) l24 by (auto simp: rfc_aad_def ccmp_aad_def)
    moreover have "24 \<le> ?N" "?N \<le> 32" using assms(2) by (simp_all add: header_length_def)
    ultimately have "length (pad16 (rfc_aad (ccmp_aad h))) = 32" by (cases "?N = 32") (simp_all add: pad16_def mod_if)
    then show ?thesis using H lH1 by (metis add_left_cancel length_append numeral_Bit0)
  qed
  define m0 where "m0 = cbc_mac ?G zero_block (?b0 @ ?H1 @ ?H2)"
  have lG: "length (?G b) = 16" for b by simp
  have E3: "?E (bitwise_xor (?E (bitwise_xor (?E ?b0) ?H1)) ?H2) = m0"
    unfolding m0_def by (rule cbc_three [OF E lG lb0 lH1 lH2])
  have lm0: "length m0 = 16" unfolding m0_def using lb0 lH1 lH2 by (intro cbc_mac_length) simp_all
  have M: "aes_mac_blocks ?E q ?N m0 ?B3 = Some (cbc_mac ?G m0 (take (16 * q) p))"
  proof -
    have "drop ?N ?B3 = p @ drop ?n ?T" unfolding B3 by (simp del: drop_append) simp
    moreover have "16 * q \<le> length p" using n(1) lp by simp
    ultimately show ?thesis using mac_blocks [OF E lG _ lm0, where pi = ?N and n = q and buf = ?B3] lp n(1) by (simp del: drop_append)
  qed
  let ?m1 = "cbc_mac ?G m0 (take (16 * q) p)"
  have lm1: "length ?m1 = 16" using lm0 n(1) lp by (intro cbc_mac_length) simp_all
  have last: "(if r > 0 then ?E (bitwise_xor ?m1 (copy_at zero_block 0 (take r (drop (?N + 16 * q) ?B3)))) else ?m1) = cbc_mac ?G m0 (pad16 p)"
  proof -
    let ?l = "drop (16 * q) p"
    have ll: "length ?l = r" using lp n(1) by simp
    have d: "take r (drop (?N + 16 * q) ?B3) = ?l"
    proof -
      have "drop (?N + 16 * q) ?B3 = drop (16 * q) (p @ drop ?n ?T)" unfolding B3 by simp
      then show ?thesis using ll lp n(1) by simp
    qed
    have "pad16 p = take (16 * q) p @ pad16 ?l" using pad16_split [of p] by (simp add: lp q_def)
    then have P: "cbc_mac ?G m0 (pad16 p) = cbc_mac ?G ?m1 (pad16 ?l)" using lp n(1) by (simp add: cbc_append)
    show ?thesis
    proof (cases "r = 0")
      case True
      then show ?thesis using P ll by simp
    next
      case False
      then have pd: "pad16 ?l = ?l @ replicate (16 - r) 0" using ll n(2) pad16_short [of ?l] by force
      then have l16: "length (pad16 ?l) = 16" using ll n(2) by simp
      have c: "copy_at zero_block 0 ?l = pad16 ?l" unfolding pd using ll n(2) by (simp add: copy_at_def)
      have b: "bitwise_xor ?m1 (pad16 ?l) = xor_bytes (pad16 ?l) ?m1" using l16 lm1 by (simp add: bitwise_xor_def xor_bytes_commute)
      have "length (xor_bytes (pad16 ?l) ?m1) = 16" using l16 lm1 by simp
      then have "?E (bitwise_xor ?m1 (copy_at zero_block 0 ?l)) = cbc_mac ?G ?m1 (pad16 ?l)"
        unfolding c b using E cbc_block [OF l16, of ?G ?m1 "[]"] by simp
      then show ?thesis unfolding d P using False by simp
    qed
  qed
  have mac: "take 8 (cbc_mac ?G m0 (pad16 p)) = rfc_mac ?G 8 ?no (ccmp_aad h) p"
  proof -
    have "length (?b0 @ ?H1 @ ?H2) mod 16 = 0" using lb0 lH1 lH2 by simp
    then show ?thesis unfolding rfc_mac_def m0_def lp H [symmetric] using cbc_append [of "?b0 @ ?H1 @ ?H2" ?G zero_block "pad16 p"] by simp
  qed
  define mac where "mac = rfc_mac ?G 8 ?no (ccmp_aad h) p"
  have lmac: "length mac = 8"
  proof -
    have "length (cbc_mac ?G m0 (pad16 p)) = 16" using lm0 pad16_length by (intro cbc_mac_length) simp_all
    then show ?thesis unfolding mac_def mac [symmetric] by simp
  qed
  have verdict: "mac = xor_bytes t (K 0) \<longleftrightarrow> x @ t = ccmp_seal (Key k) h (ccmp_pn iv) p"
  proof -
    let ?s = "rfc_stream ?G ?no ((?n + 15) div 16)"
    have "?n \<le> length ?s" by simp
    then have xs: "xor_bytes p ?s = x" unfolding p_def ccmp_open_def by (rule xor_bytes_twice)
    have "ccmp_seal (Key k) h (ccmp_pn iv) p = x @ xor_bytes mac (K 0)"
      unfolding ccmp_seal_def rfc_ccm_def lp xs mac_def [symmetric] K_def ..
    moreover have "mac = xor_bytes t (K 0) \<longleftrightarrow> t = xor_bytes mac (K 0)"
      using xor_bytes_twice [of t "K 0"] xor_bytes_twice [of mac "K 0"] lmac assms(8) lK by auto
    ultimately show ?thesis by auto
  qed
  have cap: "\<not> ?N + 8 > length ?F" "\<not> ?N + 8 + 16 * q + r + 8 > length ?B1"
    unfolding lB1 using n(1) assms(7,8) by simp_all
  have k1: "?E (construct_ctr_preload (hdr_a4 h) (hdr_qc h) ?B1 (ccmp_pn iv) (q + 1)) = K (q + 1)"
    and k0: "?E (construct_ctr_preload (hdr_a4 h) (hdr_qc h) ?B2 (ccmp_pn iv) 0) = K 0" by (rule ks)+
  show ?thesis
    unfolding RTMPSoftDecryptAES_def Let_def hdr N pn pay q_def [symmetric] r_def [symmetric] A option.case if_not_P [OF assms(5)] if_not_P [OF cap(1)] if_not_P [OF cap(2) [unfolded ix]]
      k1 d1 B2 ix k0 t8 tr iv E3 M last mac mac_def [symmetric] verdict
    unfolding B3 by simp
qed

section \<open>The theorems\<close>

text \<open>The older \<open>RTMPSoftDecryptAES\<close> accepts a data frame exactly when what follows its header and CCMP header is the CCM cipher
  text and code of RFC 3610 for a payload; the payload is then in the buffer behind the header, whose
  protected bit has been set. Payloads of any length: its counter has two bytes.\<close>

theorem aes_old_accepts:
  fixes h iv x t :: "u8 list" and k :: cipher_key
  assumes "length h = header_length h" "hdr_is_data h" "\<not> bit (h ! 0) 6" "KeyLen k \<noteq> 0" "length (Key k) = 16"
    and "length iv = 8" "length t = 8" "length (h @ iv @ x @ t) < 2 ^ 32"
  shows "RTMPSoftDecryptAES (h @ iv @ x @ t) (of_nat (length (h @ iv @ x @ t))) k =
    (let p = ccmp_open (Key k) h (ccmp_pn iv) x
     in Some (x @ t = ccmp_seal (Key k) h (ccmp_pn iv) p, (h[1 := h ! 1 OR 0x40]) @ p @ drop (length x) (iv @ x @ t)))"
  unfolding Let_def using assms by (rule aes_old_standard)

lemma ex_hdr_data: "hdr_is_data ex_hdr" "\<not> bit (ex_hdr ! 0) 6"
  by (simp_all add: hdr_is_data_def bit_numeral_rec)

theorem aes_old_accepts_witness:
  "RTMPSoftDecryptAES (ex_hdr @ replicate 8 1 @ [4] @ replicate 8 2) 43 ex_ccmp_key =
    (let p = ccmp_open (replicate 16 5) ex_hdr (ccmp_pn (replicate 8 1)) [4]
     in Some ([4] @ replicate 8 2 = ccmp_seal (replicate 16 5) ex_hdr (ccmp_pn (replicate 8 1)) p,
       (ex_hdr[1 := ex_hdr ! 1 OR 0x40]) @ p @ drop 1 (replicate 8 1 @ [4] @ replicate 8 2)))"
proof -
  have h: "length ex_hdr = header_length ex_hdr" unfolding ex_hdr_length by simp
  have k: "KeyLen ex_ccmp_key \<noteq> 0" "Key ex_ccmp_key = replicate 16 5" by (simp_all add: ex_ccmp_key_def)
  have l: "length (replicate 16 (5::u8)) = 16" "length (replicate 8 (1::u8)) = 8" "length (replicate 8 (2::u8)) = 8" by simp_all
  have f: "length (ex_hdr @ replicate 8 (1::u8) @ [4] @ replicate 8 2) = 43" by simp
  have c: "of_nat 43 = (43 :: u32)" "length [4 :: u8] = 1" by simp_all
  show ?thesis
    using aes_old_accepts [OF h ex_hdr_data k(1) _ l(2,3), of "[4]"] l(1) unfolding k(2) f c by simp
qed

text \<open>C5: The two implementations of CCMP agree: on each data frame whose payload the 8-bit counter of the newer one can
  number, they give the same verdict and leave the same bytes behind the header.\<close>

theorem ccmp_implementations_agree:
  fixes h iv x t :: "u8 list" and k :: cipher_key
  assumes "length h = header_length h" "hdr_is_data h" "\<not> bit (h ! 0) 6" "KeyLen k \<noteq> 0" "length (Key k) = 16"
    and "length iv = 8" "length t = 8" "length x \<le> 4080" "length junk = 16"
  shows "case RTMPSoftDecryptCCMP True junk h k (iv @ x @ t) (of_nat (length x + 16)) of
    (ok, d, n) \<Rightarrow> RTMPSoftDecryptAES (h @ iv @ x @ t) (of_nat (length (h @ iv @ x @ t))) k = Some (ok, h[1 := h ! 1 OR 0x40] @ d)"
proof -
  have h: "header_length h \<le> length h" "length h \<le> 32" using assms(1) by (auto simp: header_length_def)
  have b: "length (iv @ x @ t @ []) < 2 ^ 32" "length (h @ iv @ x @ t) < 2 ^ 32" using h(2) assms(6-8) by simp_all
  show ?thesis
    using ccmp_decrypt_standard [OF h(1) assms(4-6,8,7) b(1) assms(9)] aes_old_standard [OF assms(1-7) b(2)]
    by (simp add: Let_def)
qed

theorem ccmp_implementations_agree_witness:
  "case RTMPSoftDecryptCCMP True (replicate 16 7) ex_hdr ex_ccmp_key (replicate 8 1 @ [4] @ replicate 8 2) 17 of
    (ok, d, n) \<Rightarrow> RTMPSoftDecryptAES (ex_hdr @ replicate 8 1 @ [4] @ replicate 8 2) 43 ex_ccmp_key = Some (ok, ex_hdr[1 := ex_hdr ! 1 OR 0x40] @ d)"
proof -
  have h: "length ex_hdr = header_length ex_hdr" unfolding ex_hdr_length by simp
  have k: "KeyLen ex_ccmp_key \<noteq> 0" "length (Key ex_ccmp_key) = 16" by (simp_all add: ex_ccmp_key_def)
  have l: "length (replicate 8 (1::u8)) = 8" "length (replicate 8 (2::u8)) = 8" "length [4::u8] \<le> 4080" "length (replicate 16 (7::u8)) = 16" by simp_all
  have f: "length (ex_hdr @ replicate 8 (1::u8) @ [4] @ replicate 8 2) = 43" by simp
  have c: "of_nat 43 = (43 :: u32)" "length [4 :: u8] + 16 = 17" "of_nat 17 = (17 :: u16)" by simp_all
  show ?thesis using ccmp_implementations_agree [OF h ex_hdr_data k l] unfolding f c .
qed

text \<open>A byte count too small for header, CCMP header and code wraps to more than two to the 28 blocks: the older decryption
  then runs past every buffer a frame can have.\<close>

lemma ctr_blocks_overrun: "length buf < pi + 16 * n \<Longrightarrow> 0 < n \<Longrightarrow> aes_ctr_blocks ks n i pi buf = None"
proof (induction n arbitrary: i pi buf)
  case (Suc n)
  show ?case
  proof (cases "pi + 16 > length buf")
    case False
    then have n: "0 < n" using Suc.prems by (cases n) simp_all
    let ?c = "bitwise_xor (ks buf (i + 1)) (drop pi buf)"
    have "length ?c \<le> 16" by (simp add: bitwise_xor_def)
    then have "length (copy_at buf (pi - 8) ?c) = length buf" using False by (intro copy_length) simp
    then show ?thesis using False n Suc.prems Suc.IH [of "copy_at buf (pi - 8) ?c" "pi + 16" "i + 1"] by (simp add: Let_def)
  qed simp
qed simp

theorem aes_old_short_overrun:
  assumes "KeyLen k \<noteq> 0" "unat DataByteCnt < header_length pData + 16" "length pData < 2 ^ 31"
  shows "RTMPSoftDecryptAES pData DataByteCnt k = None"
proof -
  let ?N = "header_length pData"
  have N: "24 + (if hdr_a4 pData then 6 else 0) + (if hdr_qc pData then 2 else 0) = ?N" "?N \<le> 32" by (simp_all add: header_length_def)
  have w: "(DataByteCnt - of_nat ?N - 8 - 8 :: u32) = DataByteCnt - of_nat (?N + 16)" by simp
  have un: "unat (of_nat (?N + 16) :: u32) = ?N + 16" unfolding unat_of_nat using N(2) by simp
  have "unat (DataByteCnt - of_nat (?N + 16) :: u32) = unat DataByteCnt + 2 ^ 32 - (?N + 16)"
    unfolding unat_sub_if' un using assms(2) by (simp add: un word_le_nat_alt del: of_nat_add)
  then have p: "unat (DataByteCnt - of_nat ?N - 8 - 8 :: u32) \<ge> 2 ^ 32 - 48" unfolding w using N(2) by simp
  define n where "n = unat (DataByteCnt - of_nat ?N - 8 - 8 :: u32) div 16"
  have "(2 ^ 32 - 48) div 16 \<le> n" unfolding n_def using p by (rule div_le_mono)
  then have n: "0 < n" "length pData < ?N + 8 + 16 * n" using assms(3) by simp_all
  then have "aes_ctr_blocks ks n 0 (?N + 8) pData = None" for ks by (intro ctr_blocks_overrun) simp_all
  then show ?thesis
    unfolding RTMPSoftDecryptAES_def Let_def N(1) n_def [symmetric] using assms(1) by simp
qed

theorem aes_old_short_overrun_witness: "RTMPSoftDecryptAES (ex_hdr @ replicate 8 0) 34 ex_ccmp_key = None"
proof -
  have "header_length (ex_hdr @ replicate 8 0) = 26" by (simp add: header_length_def hdr_a4_def hdr_qc_def Let_def)
  then show ?thesis by (intro aes_old_short_overrun) (simp_all add: ex_ccmp_key_def)
qed

end
