(* ===== verification/Spec2Isabelle.thy ===== *)
theory Spec2Isabelle
  imports BaReach LinkList MlmeTask Md5 Sha1 SoftCrypt Hiir Watchdog CipherIntf Hmac Cmac CcmpOld
begin

text \<open>
  Verification library for the external device drivers of the Hi3521 platform.
\<close>

end
